(* ===== verification/Prelude.thy ===== *)
theory Prelude
  imports Main "HOL-Library.Word" "HOL-Library.Sublist"
begin

text \<open>
  Shared vocabulary of the development: the types that stand for Go's basic types, the
  parts of Go's standard library that the modelled files call (\<open>encoding/binary\<close>,
  \<open>io.ReadFull\<close>, \<open>unicode/utf8\<close>, slices and \<open>copy\<close>), reachability of a step relation,
  and the locales that state the contracts several components share.
  Every fallible Go function returns \<open>go_error + 'a\<close>, \<open>Inl\<close> for a non-nil error.
\<close>

unbundle bit_operations_syntax

named_theorems wire \<open>layout of the frames an encoder writes\<close>
named_theorems bounds \<open>lengths and numeric bounds\<close>

section \<open>Basic types\<close>

type_synonym byte = "8 word"
type_synonym bytes = "byte list"
type_synonym gostring = "byte list" \<comment> \<open>a Go string is a sequence of bytes\<close>
type_synonym u16 = "16 word"
type_synonym u32 = "32 word"
type_synonym u64 = "64 word"
type_synonym time = int \<comment> \<open>nanoseconds\<close>
type_synonym duration = int \<comment> \<open>nanoseconds\<close>

abbreviation Millisecond :: duration where "Millisecond \<equiv> 1000000"
abbreviation Second :: duration where "Second \<equiv> 1000 * Millisecond"
abbreviation Minute :: duration where "Minute \<equiv> 60 * Second"
abbreviation Hour :: duration where "Hour \<equiv> 60 * Minute"

text \<open>
  Error values. \<open>New m\<close> is \<open>errors.New(m)\<close>; \<open>Errorf f e\<close> is \<open>fmt.Errorf(f, ..., e)\<close> with
  \<open>e\<close> under \<open>%w\<close>; \<open>External m\<close> is an error handed back by code outside the repository, and
  \<open>TurnError c\<close> the one of a TURN server with error code \<open>c\<close>. \<open>ControlPlane\<close> is the error struct
  of \<open>transport/call/vk/control_plane_error.go\<close>, a pointer that is never nil.
\<close>

datatype 'e ControlPlaneError =
  ControlPlaneError (cp_Stage: string) (cp_Kind: string) (cp_Code: string) (cp_RetryAfter: duration)
    (cp_ChallengeID: string) (cp_Terminal: bool) (cp_Cause: "'e option")

datatype go_error =
    EOF | UnexpectedEOF | ShortBuffer | ClosedPipe | VarintOverflow | ContextDone
  | New string
  | Errorf string go_error
  | External string
  | TurnError nat
  | ControlPlane "go_error ControlPlaneError"

text \<open>\<open>errors.Unwrap\<close>, and \<open>errors.Is\<close>: the error itself or one it wraps.\<close>

fun Unwrap :: "go_error \<Rightarrow> go_error option" where
  "Unwrap (Errorf m e) = Some e"
| "Unwrap (ControlPlane e) = cp_Cause e"
| "Unwrap _ = None"

fun errors_Is :: "go_error \<Rightarrow> go_error \<Rightarrow> bool" where
  "errors_Is (Errorf m e) t \<longleftrightarrow> Errorf m e = t \<or> errors_Is e t"
| "errors_Is (ControlPlane (ControlPlaneError a b c d i f (Some e))) t \<longleftrightarrow>
     ControlPlane (ControlPlaneError a b c d i f (Some e)) = t \<or> errors_Is e t"
| "errors_Is e t \<longleftrightarrow> e = t"

lemma map_sum_eq_Inr [simp]: "map_sum f g x = Inr y \<longleftrightarrow> (\<exists>a. x = Inr a \<and> y = g a)"
  by (cases x) auto

lemma map_sum_eq_Inl [simp]: "map_sum f g x = Inl y \<longleftrightarrow> (\<exists>a. x = Inl a \<and> y = f a)"
  by (cases x) auto

lemma nth_update_same: "f x = f (xs ! p) \<Longrightarrow> f (xs[p := x] ! q) = f (xs ! q)"
  by (cases "p < length xs"; cases "q = p") (auto simp: list_update_beyond)

lemma foldl_invariant: "(\<And>s x. P s \<Longrightarrow> P (f s x)) \<Longrightarrow> P s \<Longrightarrow> P (foldl f s xs)"
  by (induction xs arbitrary: s) auto

lemma filter_update_nat:
  "w < length xs \<Longrightarrow> length (filter P (xs[w := x])) + (if P (xs ! w) then 1 else 0) =
     length (filter P xs) + (if P x then 1 else 0)"
proof -
  assume w: "w < length xs"
  have "length (filter P xs) = length (filter P (take w xs @ xs ! w # drop (Suc w) xs))"
    using id_take_nth_drop [OF w] by simp
  with w show ?thesis by (simp add: upd_conv_take_nth_drop)
qed

lemma filter_update_count:
  "w < length xs \<Longrightarrow> int (length (filter P (xs[w := x]))) =
     int (length (filter P xs)) + (if P x then 1 else 0) - (if P (xs ! w) then 1 else 0)"
  using filter_update_nat [of w xs P x] by (auto split: if_splits)

section \<open>Slices\<close>

definition slice :: "nat \<Rightarrow> nat \<Rightarrow> 'a list \<Rightarrow> 'a list" where
  "slice i j xs = take (j - i) (drop i xs)"

text \<open>\<open>copy(buf[i:i+len(src)], src)\<close> into a buffer that has room for it.\<close>

definition write_at :: "nat \<Rightarrow> 'a list \<Rightarrow> 'a list \<Rightarrow> 'a list" where
  "write_at i src buf = take i buf @ src @ drop (i + length src) buf"

lemma length_slice [simp]: "length (slice i j xs) = min (j - i) (length xs - i)"
  by (simp add: slice_def)

lemma slice_append_left: "j \<le> length xs \<Longrightarrow> slice i j (xs @ ys) = slice i j xs"
  by (cases "i \<le> j") (auto simp: slice_def)

lemma slice_append_right:
  "length xs \<le> i \<Longrightarrow> slice i j (xs @ ys) = slice (i - length xs) (j - length xs) ys"
  by (auto simp: slice_def)

lemma slice_all: "length xs \<le> j \<Longrightarrow> slice 0 j xs = xs"
  by (simp add: slice_def)

lemma slice_exact:
  "i = length xs \<Longrightarrow> j = length xs + length ys \<Longrightarrow> slice i j (xs @ ys @ zs) = ys"
  by (simp add: slice_def)

lemma slice_adjacent:
  assumes "i \<le> j" "j \<le> k"
  shows "slice i j xs @ slice j k xs = slice i k xs"
proof -
  have "take ((j - i) + (k - j)) (drop i xs)
      = take (j - i) (drop i xs) @ take (k - j) (drop (j - i) (drop i xs))"
    by (rule take_add)
  moreover have "(j - i) + (k - j) = k - i" and "j - i + i = j"
    using assms by simp_all
  ultimately show ?thesis by (simp add: slice_def)
qed

lemma slice_single: "i < length xs \<Longrightarrow> slice i (Suc i) xs = [xs ! i]"
  by (simp add: slice_def take_Suc_conv_app_nth hd_drop_conv_nth take_Suc)

lemma slice_drop: "slice 0 i xs @ drop i xs = xs"
  by (simp add: slice_def)

lemma length_write_at [simp]:
  "i + length src \<le> length buf \<Longrightarrow> length (write_at i src buf) = length buf"
  by (simp add: write_at_def)

lemma write_at_mid:
  "length xs = i \<Longrightarrow> length ys = length src \<Longrightarrow> write_at i src (xs @ ys @ zs) = xs @ src @ zs"
  by (simp add: write_at_def)

text \<open>
  Filling a buffer from left to right, the shape of every frame encoder: \<open>fill i srcs buf\<close>
  copies the pieces \<open>srcs\<close> one after the other from offset \<open>i\<close> on.
\<close>

fun fill :: "nat \<Rightarrow> 'a list list \<Rightarrow> 'a list \<Rightarrow> 'a list" where
  "fill i [] buf = buf"
| "fill i (src # srcs) buf = fill (i + length src) srcs (write_at i src buf)"

lemma fill_append:
  "length (concat srcs) \<le> length ys \<Longrightarrow>
     fill (length xs) srcs (xs @ ys) = xs @ concat srcs @ drop (length (concat srcs)) ys"
proof (induction srcs arbitrary: xs ys)
  case (Cons src srcs)
  have "write_at (length xs) src (xs @ ys) = (xs @ src) @ drop (length src) ys"
    by (simp add: write_at_def)
  then show ?case using Cons.IH [of "drop (length src) ys" "xs @ src"] Cons.prems
    by (simp add: add.commute)
qed simp

lemma fill_prefix:
  "length (concat srcs) \<le> length buf \<Longrightarrow>
     fill 0 srcs buf = concat srcs @ drop (length (concat srcs)) buf"
  using fill_append [of srcs buf "[]"] by simp

lemma fill_exact:
  "length buf = length (concat srcs) \<Longrightarrow> fill 0 srcs buf = concat srcs"
  by (simp add: fill_prefix)

section \<open>encoding/binary\<close>

lemma split_buffer:
  assumes "length buf = a + b + c + d"
  obtains ws xs ys zs where "buf = ws @ xs @ ys @ zs" "length ws = a" "length xs = b"
    "length ys = c" "length zs = d"
proof -
  let ?ws = "take a buf" and ?xs = "take b (drop a buf)"
    and ?ys = "take c (drop (a + b) buf)" and ?zs = "drop (a + b + c) buf"
  have "buf = ?ws @ ?xs @ ?ys @ ?zs"
    by (metis add.assoc add.commute append_take_drop_id drop_drop)
  moreover have "length ?ws = a" "length ?xs = b" "length ?ys = c" "length ?zs = d"
    using assms by simp_all
  ultimately show ?thesis by (rule that)
qed

text \<open>\<open>be_bytes n k\<close>: the low \<open>n\<close> bytes of \<open>k\<close>, most significant first.\<close>

fun be_bytes :: "nat \<Rightarrow> nat \<Rightarrow> bytes" where
  "be_bytes 0 k = []"
| "be_bytes (Suc n) k = be_bytes n (k div 256) @ [word_of_nat k]"

fun be_val_acc :: "nat \<Rightarrow> bytes \<Rightarrow> nat" where
  "be_val_acc acc [] = acc"
| "be_val_acc acc (b # bs) = be_val_acc (acc * 256 + unat b) bs"

definition be_val :: "bytes \<Rightarrow> nat" where
  "be_val bs = be_val_acc 0 bs"

abbreviation PutUint16 :: "u16 \<Rightarrow> bytes" where "PutUint16 w \<equiv> be_bytes 2 (unat w)"
abbreviation PutUint32 :: "u32 \<Rightarrow> bytes" where "PutUint32 w \<equiv> be_bytes 4 (unat w)"
abbreviation PutUint64 :: "u64 \<Rightarrow> bytes" where "PutUint64 w \<equiv> be_bytes 8 (unat w)"
abbreviation Uint16 :: "bytes \<Rightarrow> u16" where "Uint16 bs \<equiv> word_of_nat (be_val bs)"
abbreviation Uint32 :: "bytes \<Rightarrow> u32" where "Uint32 bs \<equiv> word_of_nat (be_val bs)"
abbreviation Uint64 :: "bytes \<Rightarrow> u64" where "Uint64 bs \<equiv> word_of_nat (be_val bs)"

lemma unat_bound: "unat (w :: 'a::len word) < 2 ^ LENGTH('a)"
  by (rule unsigned_less)

lemma length_be_bytes [simp]: "length (be_bytes n k) = n"
  by (induction n arbitrary: k) auto

lemma be_val_acc_append: "be_val_acc acc (xs @ [b]) = be_val_acc acc xs * 256 + unat b"
  by (induction xs arbitrary: acc) auto

lemma be_val_Nil [simp]: "be_val [] = 0"
  by (simp add: be_val_def)

lemma be_val_snoc [simp]: "be_val (xs @ [b]) = be_val xs * 256 + unat b"
  by (simp add: be_val_def be_val_acc_append)

lemma unat_byte_of_nat [simp]: "unat (word_of_nat k :: byte) = k mod 256"
  by (simp add: unat_of_nat)

lemma be_val_be_bytes: "be_val (be_bytes n k) = k mod 256 ^ n"
proof (induction n arbitrary: k)
  case 0
  then show ?case by simp
next
  case (Suc n)
  have "k mod (256 * 256 ^ n) = 256 * (k div 256 mod 256 ^ n) + k mod 256"
    by (rule mod_mult2_eq)
  then show ?case by (simp add: Suc mult.commute)
qed

lemma be_bytes_be_val: "be_bytes (length bs) (be_val bs) = bs"
proof (induction bs rule: rev_induct)
  case Nil
  then show ?case by simp
next
  case (snoc b bs)
  have "unat b < 256" using unat_bound [of b] by simp
  moreover have "word_of_nat (be_val bs * 256 + unat b) = b"
    unfolding word_unat_eq_iff unat_byte_of_nat using \<open>unat b < 256\<close> by simp
  ultimately show ?case using snoc by simp
qed

lemma be_val_less: "be_val bs < 256 ^ length bs"
proof (induction bs rule: rev_induct)
  case (snoc b bs)
  have "unat b < 256" using unat_bound [of b] by simp
  with snoc show ?case by simp
qed simp

lemma Uint16_PutUint16 [simp]: "Uint16 (PutUint16 w) = w"
  using unat_bound [of w] by (simp add: be_val_be_bytes)

lemma Uint32_PutUint32 [simp]: "Uint32 (PutUint32 w) = w"
  using unat_bound [of w] by (simp add: be_val_be_bytes)

lemma Uint64_PutUint64 [simp]: "Uint64 (PutUint64 w) = w"
  using unat_bound [of w] by (simp add: be_val_be_bytes)

lemma be_bytes_Uint:
  assumes "length bs = n" "(256::nat) ^ n = 2 ^ LENGTH('a::len)"
  shows "be_bytes n (unat (word_of_nat (be_val bs) :: 'a word)) = bs"
proof -
  have "be_val bs < 2 ^ LENGTH('a)" using be_val_less [of bs] assms by simp
  then show ?thesis using be_bytes_be_val [of bs] assms by (simp add: unat_of_nat)
qed

lemma PutUint16_Uint16 [simp]: "length bs = 2 \<Longrightarrow> PutUint16 (Uint16 bs) = bs"
  by (rule be_bytes_Uint) simp_all

lemma PutUint32_Uint32 [simp]: "length bs = 4 \<Longrightarrow> PutUint32 (Uint32 bs) = bs"
  by (rule be_bytes_Uint) simp_all

lemma PutUint64_Uint64 [simp]: "length bs = 8 \<Longrightarrow> PutUint64 (Uint64 bs) = bs"
  by (rule be_bytes_Uint) simp_all


lemma be_val_bound2 [bounds]: "length bs = 2 \<Longrightarrow> be_val bs < 65536"
  using be_val_less [of bs] by simp

text \<open>
  \<open>binary.PutUvarint\<close> and \<open>binary.ReadUvarint\<close>: base 128, least significant group first,
  the high bit set on every byte but the last. The reader takes ten bytes at most and the
  tenth may only be 0 or 1, so a value always fits 64 bits.
\<close>

fun uvarint_bytes :: "nat \<Rightarrow> bytes" where
  "uvarint_bytes n =
     (if n < 128 then [word_of_nat n] else word_of_nat (n mod 128 + 128) # uvarint_bytes (n div 128))"

declare uvarint_bytes.simps [simp del]

abbreviation PutUvarint :: "u64 \<Rightarrow> bytes" where "PutUvarint x \<equiv> uvarint_bytes (unat x)"

fun read_uvarint :: "nat \<Rightarrow> nat \<Rightarrow> bytes \<Rightarrow> go_error + nat \<times> bytes" where
  "read_uvarint i x [] = Inl (if i = 0 then EOF else UnexpectedEOF)"
| "read_uvarint i x (b # bs) =
     (if 10 \<le> i then Inl VarintOverflow
      else if unat b < 128 then
        (if i = 9 \<and> 1 < unat b then Inl VarintOverflow else Inr (x + unat b * 128 ^ i, bs))
      else read_uvarint (Suc i) (x + (unat b mod 128) * 128 ^ i) bs)"

definition ReadUvarint :: "bytes \<Rightarrow> go_error + u64 \<times> bytes" where
  "ReadUvarint bs = map_sum id (map_prod word_of_nat id) (read_uvarint 0 0 bs)"

lemma uvarint_bytes_small: "n < 128 \<Longrightarrow> uvarint_bytes n = [word_of_nat n]"
  by (simp add: uvarint_bytes.simps)

lemma uvarint_bytes_big:
  "128 \<le> n \<Longrightarrow> uvarint_bytes n = word_of_nat (n mod 128 + 128) # uvarint_bytes (n div 128)"
  by (simp add: uvarint_bytes.simps)

lemma read_uvarint_bytes:
  assumes "i \<le> 9" "n * 128 ^ i < 2 ^ 64"
  shows "read_uvarint i x (uvarint_bytes n @ rest) = Inr (x + n * 128 ^ i, rest)"
  using assms
proof (induction n arbitrary: i x rule: uvarint_bytes.induct)
  case (1 n)
  show ?case
  proof (cases "n < 128")
    case True
    have "n \<le> 1" if "i = 9"
    proof -
      from 1(3) that have "n * 128 ^ 9 < 2 * 128 ^ 9" by simp
      then show ?thesis by simp
    qed
    with True 1(2) show ?thesis by (auto simp: uvarint_bytes_small)
  next
    case False
    have "i \<noteq> 9"
    proof
      assume "i = 9"
      with 1(3) have "n * 128 ^ 9 < 2 * 128 ^ 9" by simp
      then show False using False by simp
    qed
    then have i: "Suc i \<le> 9" using 1(2) by simp
    have n: "n = 128 * (n div 128) + n mod 128" by simp
    have "n div 128 * 128 \<le> n" by simp
    then have "n div 128 * 128 * 128 ^ i \<le> n * 128 ^ i" by (rule mult_le_mono1)
    then have "n div 128 * 128 ^ Suc i \<le> n * 128 ^ i" by (simp only: power_Suc mult.assoc)
    then have "n div 128 * 128 ^ Suc i < 2 ^ 64" using 1(3) by linarith
    then have IH: "read_uvarint (Suc i) (x + n mod 128 * 128 ^ i) (uvarint_bytes (n div 128) @ rest)
        = Inr (x + n mod 128 * 128 ^ i + n div 128 * 128 ^ Suc i, rest)"
      by (rule 1(1) [OF False i])
    have eq: "n mod 128 * 128 ^ i + n div 128 * 128 ^ Suc i = n * 128 ^ i"
    proof -
      have "r * p + q * (128 * p) = (128 * q + r) * p" for p q r :: nat
        by (simp add: algebra_simps)
      from this [of "n mod 128" "128 ^ i" "n div 128"] show ?thesis by simp
    qed
    have "n mod 128 < 128" by simp
    then have m: "(n mod 128 + 128) mod 256 = n mod 128 + 128" by (intro mod_less) linarith
    then have u: "unat (word_of_nat (n mod 128 + 128) :: byte) = n mod 128 + 128"
      by (simp only: unat_byte_of_nat)
    have "uvarint_bytes n = word_of_nat (n mod 128 + 128) # uvarint_bytes (n div 128)"
      using False by (intro uvarint_bytes_big) simp
    with i IH eq show ?thesis by (simp only: append_Cons read_uvarint.simps u) (simp add: add.assoc)
  qed
qed

lemma ReadUvarint_PutUvarint [simp]: "ReadUvarint (PutUvarint x @ rest) = Inr (x, rest)"
  using read_uvarint_bytes [of 0 "unat x" 0 rest] unat_bound [of x] by (simp add: ReadUvarint_def)

lemma length_uvarint_bytes [bounds]:
  "n < 128 ^ k \<Longrightarrow> 0 < k \<Longrightarrow> length (uvarint_bytes n) \<le> k"
proof (induction n arbitrary: k rule: uvarint_bytes.induct)
  case (1 n)
  show ?case
  proof (cases "n < 128")
    case True
    with 1(3) show ?thesis by (simp add: uvarint_bytes_small)
  next
    case False
    obtain m where k: "k = Suc m" using 1(3) by (cases k) auto
    with 1(2) False have "m \<noteq> 0" by (cases m) auto
    from 1(2) k have "n div 128 < 128 ^ m" by (simp add: less_mult_imp_div_less mult.commute)
    with 1(1) False \<open>m \<noteq> 0\<close> k show ?thesis by (simp add: uvarint_bytes_big)
  qed
qed

lemma uvarint_bytes_nonempty [simp]: "uvarint_bytes n \<noteq> []"
  by (subst uvarint_bytes.simps) simp

section \<open>io\<close>

text \<open>\<open>io.ReadFull\<close> on a reader that holds exactly \<open>rd\<close>: the bytes read and what is left.\<close>

definition ReadFull :: "nat \<Rightarrow> bytes \<Rightarrow> go_error + bytes \<times> bytes" where
  "ReadFull n rd =
     (if n \<le> length rd then Inr (take n rd, drop n rd)
      else Inl (if rd = [] then EOF else UnexpectedEOF))"

lemma ReadFull_append [simp]: "n = length xs \<Longrightarrow> ReadFull n (xs @ ys) = Inr (xs, ys)"
  by (simp add: ReadFull_def)

lemma ReadFull_Inr:
  "ReadFull n rd = Inr (xs, ys) \<longleftrightarrow> rd = xs @ ys \<and> length xs = n"
  by (auto simp: ReadFull_def split: if_splits)

section \<open>unicode/utf8\<close>

text \<open>
  \<open>utf8.ValidString\<close>: well-formed UTF-8 without overlong forms, surrogates or code points
  past U+10FFFF, by the first-byte table of the Unicode standard.
\<close>

definition utf8_cont :: "nat \<Rightarrow> nat \<Rightarrow> byte \<Rightarrow> bool" where
  "utf8_cont lo hi b \<longleftrightarrow> lo \<le> unat b \<and> unat b \<le> hi"

fun utf8_valid :: "bytes \<Rightarrow> bool" where
  "utf8_valid [] = True"
| "utf8_valid (a # xs) =
     (let v = unat a in
      if v < 128 then utf8_valid xs
      else if 194 \<le> v \<and> v \<le> 223 then
        (case xs of b # ys \<Rightarrow> utf8_cont 128 191 b \<and> utf8_valid ys | _ \<Rightarrow> False)
      else if 224 \<le> v \<and> v \<le> 239 then
        (case xs of b # c # ys \<Rightarrow>
           utf8_cont (if v = 224 then 160 else 128) (if v = 237 then 159 else 191) b \<and>
           utf8_cont 128 191 c \<and> utf8_valid ys
         | _ \<Rightarrow> False)
      else if 240 \<le> v \<and> v \<le> 244 then
        (case xs of b # c # d # ys \<Rightarrow>
           utf8_cont (if v = 240 then 144 else 128) (if v = 244 then 143 else 191) b \<and>
           utf8_cont 128 191 c \<and> utf8_cont 128 191 d \<and> utf8_valid ys
         | _ \<Rightarrow> False)
      else False)"

lemma utf8_valid_ascii: "\<forall>b \<in> set bs. unat b < 128 \<Longrightarrow> utf8_valid bs"
  by (induction bs) auto

section \<open>Reachable states\<close>

inductive reach :: "('s \<Rightarrow> bool) \<Rightarrow> ('s \<Rightarrow> 's \<Rightarrow> bool) \<Rightarrow> 's \<Rightarrow> bool"
  for init :: "'s \<Rightarrow> bool" and step :: "'s \<Rightarrow> 's \<Rightarrow> bool" where
  reach_init: "init s \<Longrightarrow> reach init step s"
| reach_step: "reach init step s \<Longrightarrow> step s t \<Longrightarrow> reach init step t"

text \<open>The contract of a component whose state keeps an invariant: every run keeps it.\<close>

locale invariant_system =
  fixes init :: "'s \<Rightarrow> bool"
    and step :: "'s \<Rightarrow> 's \<Rightarrow> bool"
    and inv :: "'s \<Rightarrow> bool"
  assumes inv_init: "init s \<Longrightarrow> inv s"
    and inv_step: "inv s \<Longrightarrow> step s t \<Longrightarrow> inv t"
begin

lemma reach_inv: "reach init step s \<Longrightarrow> inv s"
  by (induction rule: reach.induct) (auto intro: inv_init inv_step)

lemma steps_inv: "step\<^sup>*\<^sup>* s t \<Longrightarrow> inv s \<Longrightarrow> inv t"
  by (induction rule: rtranclp_induct) (auto intro: inv_step)

end

section \<open>Framed messages on a byte stream\<close>

text \<open>
  The contract between the two ends of a stream protocol: \<open>enc\<close> writes one message,
  \<open>read\<close> takes it off the front of the stream and leaves the rest. \<open>norm\<close> is what the
  reader reports for a message (the fields that the sender does not choose are fixed).
\<close>

fun read_seq :: "('b \<Rightarrow> 'e + 'm \<times> 'b) \<Rightarrow> nat \<Rightarrow> 'b \<Rightarrow> 'e + 'm list \<times> 'b" where
  "read_seq read 0 rd = Inr ([], rd)"
| "read_seq read (Suc n) rd =
     (case read rd of Inl e \<Rightarrow> Inl e
      | Inr (m, rd') \<Rightarrow>
          (case read_seq read n rd' of Inl e \<Rightarrow> Inl e | Inr (ms, rd'') \<Rightarrow> Inr (m # ms, rd'')))"

locale framed =
  fixes enc :: "'m \<Rightarrow> bytes \<Rightarrow> bool"
    and read :: "bytes \<Rightarrow> go_error + 'm \<times> bytes"
    and norm :: "'m \<Rightarrow> 'm"
  assumes read_enc: "enc m f \<Longrightarrow> read (f @ rest) = Inr (norm m, rest)"
begin

lemma enc_inj: "enc m f \<Longrightarrow> enc m' f \<Longrightarrow> norm m = norm m'"
  using read_enc [of m f "[]"] read_enc [of m' f "[]"] by simp

lemma prefix_free:
  assumes "enc m f" "enc m' f'" "prefix f f'"
  shows "f = f' \<and> norm m = norm m'"
proof -
  from assms(3) obtain z where z: "f' = f @ z" by (auto simp: prefix_def)
  from assms(1) read_enc have "read (f @ z) = Inr (norm m, z)" by blast
  moreover from assms(2) z read_enc [of m' f' "[]"] have "read (f @ z) = Inr (norm m', [])" by simp
  ultimately show ?thesis using z by simp
qed

lemma read_stream:
  "list_all2 enc ms fs \<Longrightarrow> read_seq read (length ms) (concat fs @ rest) = Inr (map norm ms, rest)"
  by (induction rule: list_all2_induct) (auto simp: read_enc)

end

end
