(* ===== verification/Auth.thy ===== *)
theory Auth
  imports Prelude
begin

text \<open>
  Worker authentication (\<open>transport/call/vk-parasite/auth.go\<close> and the worker-count check of
  \<open>server.go\<close>): the request frame a client worker sends on the first stream of its QUIC
  connection, the acknowledgement the server answers with, and the reader that takes a
  request off that stream. A \<open>[16]byte\<close> session id is a byte list of length 16.
\<close>

section \<open>Constants\<close>

definition authProtocolVersion :: byte where "authProtocolVersion = 10"
definition maximumUserLength :: nat where "maximumUserLength = 64"
definition maximumPasswordLen :: nat where "maximumPasswordLen = 256"
definition maximumAuthFrameLen :: nat where
  "maximumAuthFrameLen =
     4 + 1 + 16 + 4 + 2 + 2 + 8 + 8 + 1 + 2 + maximumUserLength + maximumPasswordLen"
definition authAckFrameLen :: nat where "authAckFrameLen = 14"
definition CallCount :: nat where "CallCount = 4"
definition DefaultWorkerCount :: nat where "DefaultWorkerCount = 4"
definition MaximumWorkerCount :: nat where "MaximumWorkerCount = 20"

definition authMagic :: bytes where "authMagic = [0x48, 0x43, 0x56, 0x4B]"
definition ackMagic :: bytes where "ackMagic = [0x48, 0x41, 0x43, 0x4B]"
definition zeroSessionID :: bytes where "zeroSessionID = replicate 16 0"

lemmas auth_consts =
  authProtocolVersion_def maximumUserLength_def maximumPasswordLen_def maximumAuthFrameLen_def
  authAckFrameLen_def CallCount_def DefaultWorkerCount_def MaximumWorkerCount_def

section \<open>The request\<close>

record authRequest =
  ProtocolVersion :: byte
  SessionID :: bytes
  Conv :: u32
  WorkerID :: u16
  WorkerTotal :: u16
  WorkerEpoch :: u64
  LaneGeneration :: u64
  User :: gostring
  Password :: gostring

definition supportedWorkerCount :: "u16 \<Rightarrow> bool" where
  "supportedWorkerCount workers \<longleftrightarrow>
     DefaultWorkerCount \<le> unat workers \<and> unat workers \<le> MaximumWorkerCount \<and>
     unat workers mod CallCount = 0"

definition validWorkerMetadata :: "authRequest \<Rightarrow> bool" where
  "validWorkerMetadata request \<longleftrightarrow>
     Conv request \<noteq> 0 \<and> supportedWorkerCount (WorkerTotal request) \<and>
     WorkerID request < WorkerTotal request"

definition errUserInvalid :: go_error where
  "errUserInvalid = New ''call vk_parasite: user must be valid UTF-8 and at most %d bytes''"

definition errPasswordInvalid :: go_error where
  "errPasswordInvalid = New ''call vk_parasite: password must be valid UTF-8 and at most %d bytes''"

definition validateAuthStrings :: "gostring \<Rightarrow> gostring \<Rightarrow> go_error option" where
  "validateAuthStrings user password =
     (if length user = 0 \<or> maximumUserLength < length user \<or> \<not> utf8_valid user
      then Some errUserInvalid
      else if length password = 0 \<or> maximumPasswordLen < length password \<or> \<not> utf8_valid password
      then Some errPasswordInvalid
      else None)"

definition encodeAuthRequest :: "authRequest \<Rightarrow> go_error + bytes" where
  "encodeAuthRequest request =
     (case validateAuthStrings (User request) (Password request) of
        Some e \<Rightarrow> Inl e
      | None \<Rightarrow>
          if SessionID request = zeroSessionID then Inl (New ''call vk_parasite: zero session id'')
          else if \<not> validWorkerMetadata request then
            Inl (New ''call vk_parasite: invalid worker auth metadata'')
          else if WorkerEpoch request = 0 then Inl (New ''call vk_parasite: zero worker epoch'')
          else if LaneGeneration request = 0 then Inl (New ''call vk_parasite: zero lane generation'')
          else
            let headerLength = 48;
                nu = length (User request); np = length (Password request);
                frame = replicate (headerLength + nu + np) 0;
                frame = write_at 0 authMagic frame;
                frame = write_at 4 [authProtocolVersion] frame;
                frame = write_at 5 (SessionID request) frame;
                frame = write_at 21 (PutUint32 (Conv request)) frame;
                frame = write_at 25 (PutUint16 (WorkerID request)) frame;
                frame = write_at 27 (PutUint16 (WorkerTotal request)) frame;
                frame = write_at 29 (PutUint64 (WorkerEpoch request)) frame;
                frame = write_at 37 (PutUint64 (LaneGeneration request)) frame;
                identityOffset = 45;
                frame = write_at identityOffset [word_of_nat nu] frame;
                frame = write_at (identityOffset + 1) (PutUint16 (word_of_nat np)) frame;
                frame = write_at (identityOffset + 3) (User request) frame;
                frame = write_at (identityOffset + 3 + nu) (Password request) frame
            in Inr frame)"

definition decodeAuthRequest :: "bytes \<Rightarrow> go_error + authRequest" where
  "decodeAuthRequest frame =
     (if length frame < 48 \<or> maximumAuthFrameLen < length frame then
        Inl (New ''call vk_parasite: invalid auth frame length'')
      else if slice 0 4 frame \<noteq> authMagic \<or> frame ! 4 \<noteq> authProtocolVersion then
        Inl (New ''call vk_parasite: unsupported auth frame'')
      else
      let version = frame ! 4; sessionID = slice 5 21 frame in
      if sessionID = zeroSessionID then Inl (New ''call vk_parasite: zero session id'')
      else
      let conv = Uint32 (slice 21 25 frame); workerID = Uint16 (slice 25 27 frame);
          workerTotal = Uint16 (slice 27 29 frame); workerEpoch = Uint64 (slice 29 37 frame) in
      if workerEpoch = 0 then Inl (New ''call vk_parasite: zero worker epoch'')
      else
      let laneGeneration = Uint64 (slice 37 45 frame) in
      if laneGeneration = 0 then Inl (New ''call vk_parasite: zero lane generation'')
      else
      let identityOffset = 45; userLength = unat (frame ! identityOffset);
          passwordLength =
            unat (Uint16 (slice (identityOffset + 1) (identityOffset + 3) frame)) in
      if userLength = 0 \<or> maximumUserLength < userLength \<or>
         passwordLength = 0 \<or> maximumPasswordLen < passwordLength then
        Inl (New ''call vk_parasite: invalid auth identity length'')
      else
      let headerLength = identityOffset + 3 in
      if length frame \<noteq> headerLength + userLength + passwordLength then
        Inl (New ''call vk_parasite: malformed auth frame'')
      else
      let user = slice headerLength (headerLength + userLength) frame;
          password = drop (headerLength + userLength) frame;
          request = \<lparr>ProtocolVersion = version, SessionID = sessionID, Conv = conv,
            WorkerID = workerID, WorkerTotal = workerTotal, WorkerEpoch = workerEpoch,
            LaneGeneration = laneGeneration, User = user, Password = password\<rparr> in
      case validateAuthStrings user password of
        Some e \<Rightarrow> Inl e
      | None \<Rightarrow>
          if \<not> validWorkerMetadata request then
            Inl (New ''call vk_parasite: invalid auth worker metadata'')
          else Inr request)"

text \<open>
  \<open>readAuthRequest\<close> on the bytes the peer writes to the stream: the request and the
  unread rest. The frame carries its own length, so no outer framing is needed.
\<close>

definition readAuthRequest :: "bytes \<Rightarrow> go_error + authRequest \<times> bytes" where
  "readAuthRequest reader =
     (let headerLength = 48 in
      case ReadFull headerLength reader of Inl e \<Rightarrow> Inl e
      | Inr (header, reader') \<Rightarrow>
          let userLength = unat (header ! 45);
              passwordLength = unat (Uint16 (slice 46 48 header));
              total = headerLength + userLength + passwordLength in
          if maximumAuthFrameLen < total then Inl (New ''call vk_parasite: auth frame is too large'')
          else if headerLength < total then
            (case ReadFull (total - headerLength) reader' of Inl e \<Rightarrow> Inl e
             | Inr (body, reader'') \<Rightarrow>
                 map_sum id (\<lambda>request. (request, reader'')) (decodeAuthRequest (header @ body)))
          else map_sum id (\<lambda>request. (request, reader')) (decodeAuthRequest header))"

section \<open>The acknowledgement\<close>

definition AuthRejectUnspecified :: byte where "AuthRejectUnspecified = 0"
definition AuthRejectCredentials :: byte where "AuthRejectCredentials = 1"
definition AuthRejectWorkerCount :: byte where "AuthRejectWorkerCount = 2"
definition AuthRejectMalformed :: byte where "AuthRejectMalformed = 3"
definition AuthRejectSession :: byte where "AuthRejectSession = 4"

lemmas auth_reject_defs = AuthRejectUnspecified_def AuthRejectCredentials_def
  AuthRejectWorkerCount_def AuthRejectMalformed_def AuthRejectSession_def

definition errAuthRejected :: go_error where
  "errAuthRejected = New ''call vk_parasite: authentication rejected''"

definition authRejectReasonName :: "byte \<Rightarrow> string" where
  "authRejectReasonName reason =
     (if reason = AuthRejectCredentials then ''user or password rejected''
      else if reason = AuthRejectWorkerCount then ''worker count refused by the server''
      else if reason = AuthRejectMalformed then ''malformed authentication request''
      else if reason = AuthRejectSession then ''session identity mismatch''
      else ''reason not given'')"

definition encodeAuthAck :: "bool \<Rightarrow> u64 \<Rightarrow> byte \<Rightarrow> bytes" where
  "encodeAuthAck accepted generation reason =
     (let frame = replicate 14 0;
          frame = write_at 0 ackMagic frame;
          frame = write_at 4 [authProtocolVersion] frame
      in if accepted then write_at 6 (PutUint64 generation) (write_at 5 [1] frame)
         else write_at 6 [reason] frame)"

definition decodeAuthAck :: "bytes \<Rightarrow> go_error + u64" where
  "decodeAuthAck frame =
     (if length frame \<noteq> authAckFrameLen \<or> slice 0 4 frame \<noteq> ackMagic \<or>
         frame ! 4 \<noteq> authProtocolVersion then
        Inl (New ''call vk_parasite: invalid server auth response'')
      else if frame ! 5 \<noteq> 1 then Inl (Errorf (authRejectReasonName (frame ! 6)) errAuthRejected)
      else
        let generation = Uint64 (slice 6 14 frame) in
        if generation = 0 then Inl (New ''call vk_parasite: invalid server session generation'')
        else Inr generation)"

section \<open>Well-formed requests and the layout of a frame\<close>

definition wf_authRequest :: "authRequest \<Rightarrow> bool" where
  "wf_authRequest r \<longleftrightarrow> length (SessionID r) = 16"

text \<open>What \<open>encodeAuthRequest\<close> accepts, as one condition.\<close>

definition authRequest_ok :: "authRequest \<Rightarrow> bool" where
  "authRequest_ok r \<longleftrightarrow>
     validateAuthStrings (User r) (Password r) = None \<and> SessionID r \<noteq> zeroSessionID \<and>
     validWorkerMetadata r \<and> WorkerEpoch r \<noteq> 0 \<and> LaneGeneration r \<noteq> 0"

definition auth_header :: "authRequest \<Rightarrow> bytes" where
  "auth_header r =
     authMagic @ [authProtocolVersion] @ SessionID r @ PutUint32 (Conv r) @ PutUint16 (WorkerID r) @
     PutUint16 (WorkerTotal r) @ PutUint64 (WorkerEpoch r) @ PutUint64 (LaneGeneration r) @
     [word_of_nat (length (User r))] @ PutUint16 (word_of_nat (length (Password r)))"

lemma length_magics [simp]: "length authMagic = 4" "length ackMagic = 4"
  by (simp_all add: authMagic_def ackMagic_def)

lemma length_auth_header: "wf_authRequest r \<Longrightarrow> length (auth_header r) = 48"
  by (simp add: auth_header_def wf_authRequest_def)

lemma validateAuthStrings_None:
  "validateAuthStrings u p = None \<longleftrightarrow>
     u \<noteq> [] \<and> length u \<le> 64 \<and> utf8_valid u \<and> p \<noteq> [] \<and> length p \<le> 256 \<and> utf8_valid p"
  by (auto simp: validateAuthStrings_def auth_consts)

lemma encodeAuthRequest_layout [wire]:
  assumes "wf_authRequest r"
  shows "encodeAuthRequest r = Inr f \<longleftrightarrow>
    authRequest_ok r \<and> f = auth_header r @ User r @ Password r"
proof -
  let ?srcs = "[authMagic, [authProtocolVersion], SessionID r, PutUint32 (Conv r),
    PutUint16 (WorkerID r), PutUint16 (WorkerTotal r), PutUint64 (WorkerEpoch r),
    PutUint64 (LaneGeneration r), [word_of_nat (length (User r))],
    PutUint16 (word_of_nat (length (Password r))), User r, Password r]"
  let ?frame = "replicate (48 + length (User r) + length (Password r)) 0"
  have S: "length (SessionID r) = 16" using assms by (simp add: wf_authRequest_def)
  have "fill 0 ?srcs ?frame = concat ?srcs" by (rule fill_exact) (simp add: S)
  also have "concat ?srcs = auth_header r @ User r @ Password r" by (simp add: auth_header_def)
  finally have F: "fill 0 ?srcs ?frame = auth_header r @ User r @ Password r" .
  show ?thesis
    using F by (auto simp: encodeAuthRequest_def authRequest_ok_def Let_def S split: option.split)
qed

lemma auth_header_fields:
  assumes "wf_authRequest r"
  defines "f rest \<equiv> auth_header r @ rest"
  shows "slice 0 4 (f rest) = authMagic" "f rest ! 4 = authProtocolVersion"
    "slice 5 21 (f rest) = SessionID r" "slice 21 25 (f rest) = PutUint32 (Conv r)"
    "slice 25 27 (f rest) = PutUint16 (WorkerID r)"
    "slice 27 29 (f rest) = PutUint16 (WorkerTotal r)"
    "slice 29 37 (f rest) = PutUint64 (WorkerEpoch r)"
    "slice 37 45 (f rest) = PutUint64 (LaneGeneration r)"
    "f rest ! 45 = word_of_nat (length (User r))"
    "slice 46 48 (f rest) = PutUint16 (word_of_nat (length (Password r)))"
    "drop 48 (f rest) = rest" "length (f rest) = 48 + length rest"
  using assms(1)
  by (simp_all add: f_def auth_header_def slice_def wf_authRequest_def nth_append)

lemma small_lengths:
  "n \<le> 64 \<Longrightarrow> unat (word_of_nat n :: byte) = n"
  "n \<le> 256 \<Longrightarrow> unat (word_of_nat n :: u16) = n"
  by (simp_all add: unat_of_nat)

lemma decode_encode:
  assumes "wf_authRequest r" "encodeAuthRequest r = Inr f"
  shows "decodeAuthRequest f = Inr (r\<lparr>ProtocolVersion := authProtocolVersion\<rparr>)"
proof -
  have ok: "authRequest_ok r" and f: "f = auth_header r @ User r @ Password r"
    using assms encodeAuthRequest_layout by auto
  note F = auth_header_fields [OF assms(1), of "User r @ Password r", folded f]
  have v: "User r \<noteq> []" "length (User r) \<le> 64" "Password r \<noteq> []" "length (Password r) \<le> 256"
    using ok by (simp_all add: authRequest_ok_def validateAuthStrings_None)
  have n: "unat (f ! 45) = length (User r)" "unat (Uint16 (slice 46 48 f)) = length (Password r)"
    unfolding F Uint16_PutUint16 using v by (simp_all add: small_lengths)
  have u: "slice 48 (48 + length (User r)) f = User r"
    and p: "drop (48 + length (User r)) f = Password r"
    using F(11) by (simp_all add: slice_def drop_drop [symmetric] add.commute)
  have "r\<lparr>ProtocolVersion := authProtocolVersion\<rparr> = \<lparr>ProtocolVersion = authProtocolVersion,
      SessionID = SessionID r, Conv = Conv r, WorkerID = WorkerID r, WorkerTotal = WorkerTotal r,
      WorkerEpoch = WorkerEpoch r, LaneGeneration = LaneGeneration r, User = User r,
      Password = Password r\<rparr>" by (cases r) simp
  with ok v show ?thesis
    by (simp add: decodeAuthRequest_def F(1-8,11,12) n u p Let_def maximumUserLength_def
        maximumPasswordLen_def maximumAuthFrameLen_def authRequest_ok_def validWorkerMetadata_def)
qed

lemma read_encode:
  assumes "wf_authRequest r" "encodeAuthRequest r = Inr f"
  shows "readAuthRequest (f @ rest) = Inr (r\<lparr>ProtocolVersion := authProtocolVersion\<rparr>, rest)"
proof -
  have ok: "authRequest_ok r" and f: "f = auth_header r @ User r @ Password r"
    using assms encodeAuthRequest_layout by auto
  note F = auth_header_fields [OF assms(1), of "[]", simplified]
  have v: "User r \<noteq> []" "length (User r) \<le> 64" "Password r \<noteq> []" "length (Password r) \<le> 256"
    using ok by (simp_all add: authRequest_ok_def validateAuthStrings_None)
  have "decodeAuthRequest (auth_header r @ User r @ Password r)
      = Inr (r\<lparr>ProtocolVersion := authProtocolVersion\<rparr>)"
    using decode_encode [OF assms] f by simp
  moreover have "ReadFull 48 (f @ rest) = Inr (auth_header r, User r @ Password r @ rest)"
    using f by (simp add: F(12))
  moreover have "ReadFull (length (User r) + length (Password r)) (User r @ Password r @ rest)
      = Inr (User r @ Password r, rest)"
    by (simp add: ReadFull_def)
  moreover have "unat (auth_header r ! 45) = length (User r)"
    "unat (Uint16 (slice 46 48 (auth_header r))) = length (Password r)"
    unfolding F Uint16_PutUint16 using v by (simp_all add: small_lengths)
  ultimately show ?thesis using v
    by (simp add: readAuthRequest_def Let_def maximumUserLength_def
        maximumPasswordLen_def maximumAuthFrameLen_def)
qed

text \<open>The decoder accepts nothing but what the encoder writes.\<close>

lemma decode_canonical:
  assumes "decodeAuthRequest f = Inr r"
  shows "wf_authRequest r \<and> encodeAuthRequest r = Inr f \<and> ProtocolVersion r = authProtocolVersion"
proof -
  have len: "48 \<le> length f" and m: "slice 0 4 f = authMagic" and ver: "f ! 4 = authProtocolVersion"
    and ok: "authRequest_ok r" and pv: "ProtocolVersion r = authProtocolVersion"
    and S: "SessionID r = slice 5 21 f" and C: "Conv r = Uint32 (slice 21 25 f)"
    and W: "WorkerID r = Uint16 (slice 25 27 f)" "WorkerTotal r = Uint16 (slice 27 29 f)"
    and E: "WorkerEpoch r = Uint64 (slice 29 37 f)" "LaneGeneration r = Uint64 (slice 37 45 f)"
    and u: "User r = slice 48 (48 + unat (f ! 45)) f"
    and p: "Password r = drop (48 + unat (f ! 45)) f"
    and tot: "length f = 48 + unat (f ! 45) + unat (Uint16 (slice 46 48 f))"
    using assms
    by (auto simp: decodeAuthRequest_def Let_def authRequest_ok_def split: if_splits option.splits)
  have wf: "wf_authRequest r" using S len by (simp add: wf_authRequest_def)
  have lu: "length (User r) = unat (f ! 45)" and lp: "length (Password r) = unat (Uint16 (slice 46 48 f))"
    using u p tot by simp_all
  have "auth_header r = slice 0 4 f @ slice 4 5 f @ slice 5 21 f @ slice 21 25 f @ slice 25 27 f @
      slice 27 29 f @ slice 29 37 f @ slice 37 45 f @ slice 45 46 f @ slice 46 48 f"
    using len m ver S C W E lu lp slice_single [of 4 f] slice_single [of 45 f]
    by (simp add: auth_header_def)
  also have "\<dots> = slice 0 48 f" by (simp add: slice_adjacent)
  finally have "auth_header r @ User r @ Password r = slice 0 48 f @ drop 48 f"
    using u p by (simp add: slice_def) (metis add.commute append_take_drop_id drop_drop)
  then have "f = auth_header r @ User r @ Password r" by (simp add: slice_drop)
  with ok wf pv show ?thesis by (simp add: encodeAuthRequest_layout)
qed

text \<open>
  The client's encoder and the server's stream reader meet the framing contract: requests are
  self-delimiting, no request is a prefix of another, and the reader stops at the frame's end.
\<close>

definition auth_enc :: "authRequest \<Rightarrow> bytes \<Rightarrow> bool" where
  "auth_enc r f \<longleftrightarrow> wf_authRequest r \<and> encodeAuthRequest r = Inr f"

interpretation auth_stream: framed auth_enc readAuthRequest
  "\<lambda>r. r\<lparr>ProtocolVersion := authProtocolVersion\<rparr>"
  by unfold_locales (auto simp: auth_enc_def read_encode)

text \<open>A request the reader returns was written, byte for byte, at the front of the stream.\<close>

lemma read_canonical:
  assumes "readAuthRequest rd = Inr (r, rest)"
  shows "\<exists>f. rd = f @ rest \<and> encodeAuthRequest r = Inr f \<and> length f \<le> maximumAuthFrameLen"
proof -
  from assms obtain header rd' where h: "rd = header @ rd'" "length header = 48"
    by (auto simp: readAuthRequest_def Let_def ReadFull_Inr split: sum.splits prod.splits)
  from assms h obtain body where "rd' = body @ rest" "decodeAuthRequest (header @ body) = Inr r"
    by (auto simp: readAuthRequest_def Let_def ReadFull_Inr split: sum.splits if_splits prod.splits)
  moreover from this have "length (header @ body) \<le> maximumAuthFrameLen"
    by (auto simp: decodeAuthRequest_def split: if_splits)
  ultimately show ?thesis using h decode_canonical [of "header @ body" r] by auto
qed

section \<open>Acknowledgements\<close>

lemma encodeAuthAck_layout [wire]:
  "encodeAuthAck True g reason = ackMagic @ [authProtocolVersion, 1] @ PutUint64 g"
  "encodeAuthAck False g reason = ackMagic @ [authProtocolVersion, 0, reason] @ replicate 7 0"
  by (simp_all add: encodeAuthAck_def write_at_def Let_def)

lemma length_encodeAuthAck [simp]: "length (encodeAuthAck acc g reason) = authAckFrameLen"
  by (cases acc) (simp_all add: wire auth_consts)

lemma ack_fields:
  "slice 0 4 (encodeAuthAck acc g reason) = ackMagic"
  "encodeAuthAck acc g reason ! 4 = authProtocolVersion"
  "encodeAuthAck acc g reason ! 5 = (if acc then 1 else 0)"
  by (cases acc; simp add: wire slice_def nth_append)+

lemma decode_ack_accept:
  "decodeAuthAck (encodeAuthAck True g reason) =
     (if g = 0 then Inl (New ''call vk_parasite: invalid server session generation'') else Inr g)"
proof -
  have "slice 6 14 (encodeAuthAck True g reason) = PutUint64 g"
    by (simp add: wire slice_def)
  then show ?thesis by (simp add: decodeAuthAck_def ack_fields)
qed

lemma decode_ack_reject:
  "decodeAuthAck (encodeAuthAck False g reason) =
     Inl (Errorf (authRejectReasonName reason) errAuthRejected)"
proof -
  have "encodeAuthAck False g reason ! 6 = reason"
    by (simp add: wire nth_append)
  then show ?thesis by (simp add: decodeAuthAck_def ack_fields)
qed

lemma decode_ack_Inr:
  assumes "decodeAuthAck f = Inr g"
  shows "f = encodeAuthAck True g reason \<and> g \<noteq> 0"
proof -
  have len: "length f = 14" and m: "slice 0 4 f = ackMagic" "f ! 4 = authProtocolVersion" "f ! 5 = 1"
    and g: "g = Uint64 (slice 6 14 f)" "g \<noteq> 0"
    using assms by (auto simp: decodeAuthAck_def Let_def auth_consts split: if_splits)
  have "encodeAuthAck True g reason = slice 0 4 f @ slice 4 5 f @ slice 5 6 f @ slice 6 14 f"
    using len m g slice_single [of 4 f] slice_single [of 5 f] by (simp add: wire)
  also have "\<dots> = f" using len by (simp add: slice_adjacent slice_all)
  finally show ?thesis using g by simp
qed

section \<open>The exchange\<close>

text \<open>
  \<open>exchangeAuth\<close> (\<open>auth_handshake.go\<close>) over a QUIC stream, which is third-party code: the
  outcomes of opening it, setting its deadline and writing to it are arguments (\<open>None\<close> is a nil
  error), and \<open>answer\<close> maps the bytes written to the bytes the server sends back.
\<close>

definition exchangeAuth ::
  "go_error option \<Rightarrow> go_error option \<Rightarrow> go_error option \<Rightarrow> (bytes \<Rightarrow> bytes) \<Rightarrow> bytes \<Rightarrow> go_error + u64" where
  "exchangeAuth opened deadline written answer request =
     (case opened of Some e \<Rightarrow> Inl e | None \<Rightarrow>
     (case deadline of Some e \<Rightarrow> Inl e | None \<Rightarrow>
     (case written of Some e \<Rightarrow> Inl e | None \<Rightarrow>
     (case ReadFull authAckFrameLen (answer request) of Inl e \<Rightarrow> Inl e
      | Inr (ack, _) \<Rightarrow> decodeAuthAck ack))))"

section \<open>Properties\<close>

text \<open>
  C6. The server's reader and the client's encoder agree exactly: the reader returns a request and
  leaves \<open>rest\<close> unread if and only if the stream holds the encoding of that very request followed
  by \<open>rest\<close>. So every accepted frame round-trips, none is accepted in a second form, and
  whatever the encoder refuses the reader refuses too.
\<close>

theorem auth_request_exact:
  "readAuthRequest rd = Inr (r, rest) \<longleftrightarrow>
     wf_authRequest r \<and> ProtocolVersion r = authProtocolVersion \<and>
     (\<exists>f. encodeAuthRequest r = Inr f \<and> rd = f @ rest)"
proof
  assume L: "readAuthRequest rd = Inr (r, rest)"
  then obtain f where f: "rd = f @ rest" "encodeAuthRequest r = Inr f"
    using read_canonical by blast
  from L obtain g where "decodeAuthRequest g = Inr r"
    by (auto simp: readAuthRequest_def Let_def split: sum.splits if_splits)
  then show "wf_authRequest r \<and> ProtocolVersion r = authProtocolVersion \<and>
     (\<exists>f. encodeAuthRequest r = Inr f \<and> rd = f @ rest)"
    using f decode_canonical by blast
next
  assume "wf_authRequest r \<and> ProtocolVersion r = authProtocolVersion \<and>
     (\<exists>f. encodeAuthRequest r = Inr f \<and> rd = f @ rest)"
  then obtain f where r: "wf_authRequest r" "ProtocolVersion r = authProtocolVersion"
    "encodeAuthRequest r = Inr f" "rd = f @ rest" by blast
  then have "r\<lparr>ProtocolVersion := authProtocolVersion\<rparr> = r" by (cases r) simp
  then show "readAuthRequest rd = Inr (r, rest)" using read_encode [OF r(1,3)] r(4) by simp
qed

text \<open>
  The worker learns the server's verdict: it takes an acknowledgement for an acceptance with
  generation \<open>g\<close> only if the server wrote exactly that acceptance with a generation other than
  zero, and a refusal always reaches it as the rejection error carrying the refusal's reason.
\<close>

lemma auth_ack_exact:
  "(decodeAuthAck f = Inr g \<longleftrightarrow> g \<noteq> 0 \<and> f = encodeAuthAck True g AuthRejectUnspecified) \<and>
   exchangeAuth None None None (\<lambda>_. encodeAuthAck False g' reason @ rest) request =
     Inl (Errorf (authRejectReasonName reason) errAuthRejected)"
proof -
  have "ReadFull authAckFrameLen (encodeAuthAck False g' reason @ rest) =
      Inr (encodeAuthAck False g' reason, rest)" by simp
  then have "exchangeAuth None None None (\<lambda>_. encodeAuthAck False g' reason @ rest) request =
     Inl (Errorf (authRejectReasonName reason) errAuthRejected)"
    by (simp add: exchangeAuth_def decode_ack_reject)
  then show ?thesis
    using decode_ack_Inr [of f g AuthRejectUnspecified] decode_ack_accept [of g AuthRejectUnspecified]
    by auto
qed

end
