(* ===== verification/Obfs.thy ===== *)
theory Obfs
  imports Prelude "HOL-Library.Stream" "HOL-Library.Signed_Division"
begin

text \<open>
  The RTP disguise of \<open>transport/call/vk-parasite/obfs.go\<close> and the packet budget of
  \<open>mtu.go\<close>: every QUIC packet travels as the sealed payload of an RTP packet with a one-byte
  header extension and one to eight bytes of RTP padding. ChaCha20-Poly1305 and HKDF come from
  golang.org/x/crypto and are parameters; the random generator of a codec is the stream of
  64-bit words it will draw.
\<close>

section \<open>Authenticated encryption\<close>

text \<open>
  \<open>cipher.AEAD\<close>, each operation on nonce, text and additional data, and what the code relies
  on: opening undoes sealing, the tag is 16 bytes (\<open>chacha20poly1305.Overhead\<close>), and only a
  sealed text opens.
\<close>

record aead =
  Seal :: "bytes \<Rightarrow> bytes \<Rightarrow> bytes \<Rightarrow> bytes"
  Open :: "bytes \<Rightarrow> bytes \<Rightarrow> bytes \<Rightarrow> bytes option"

definition aead_Overhead :: nat where "aead_Overhead = 16"

definition aead_laws :: "aead \<Rightarrow> bool" where
  "aead_laws a \<longleftrightarrow>
     (\<forall>n p ad. Open a n (Seal a n p ad) ad = Some p) \<and>
     (\<forall>n p ad. length (Seal a n p ad) = length p + aead_Overhead) \<and>
     (\<forall>n c ad p. Open a n c ad = Some p \<longrightarrow> c = Seal a n p ad)"

lemma aead_lawsD:
  assumes "aead_laws a"
  shows "Open a n (Seal a n p ad) ad = Some p"
    and "length (Seal a n p ad) = length p + 16"
    and "Open a n c ad = Some p \<Longrightarrow> c = Seal a n p ad"
  using assms by (auto simp: aead_laws_def aead_Overhead_def)

section \<open>Constants\<close>

definition wrapKeyLength :: nat where "wrapKeyLength = 32"
definition rtpHeaderLength :: nat where "rtpHeaderLength = 12"
definition rtpExtensionLength :: nat where "rtpExtensionLength = 8"
definition rtpTotalHeaderLength :: nat where
  "rtpTotalHeaderLength = rtpHeaderLength + rtpExtensionLength"
definition defaultRTPPadding :: nat where "defaultRTPPadding = 8"
definition maxCodecWireBuffer :: nat where "maxCodecWireBuffer = 1536"
definition maximumWirePacket :: nat where "maximumWirePacket = 64 * 1024"

lemmas obfs_consts = wrapKeyLength_def rtpHeaderLength_def rtpExtensionLength_def
  rtpTotalHeaderLength_def defaultRTPPadding_def maxCodecWireBuffer_def maximumWirePacket_def
  aead_Overhead_def

text \<open>The budget of a path, \<open>mtu.go\<close>.\<close>

definition conservativePathMTU :: nat where "conservativePathMTU = 1400"
definition overheadIPUDP :: nat where "overheadIPUDP = 28"
definition overheadTURNChannel :: nat where "overheadTURNChannel = 4"
definition pathOverheadTotal :: nat where
  "pathOverheadTotal =
     overheadIPUDP + overheadTURNChannel + rtpTotalHeaderLength + 16 + defaultRTPPadding"
definition quicPacketSize :: nat where "quicPacketSize = 1320"
definition quicConnectionIDLength :: nat where "quicConnectionIDLength = 4"
definition overheadQUICHeader :: nat where "overheadQUICHeader = 1 + quicConnectionIDLength + 4"
definition overheadQUICAEAD :: nat where "overheadQUICAEAD = 16"
definition overheadDatagramFrame :: nat where "overheadDatagramFrame = 3"
definition quicSendDatagramLimit :: nat where
  "quicSendDatagramLimit = quicPacketSize - 1 - 20 - 16"
definition maxDatagramFramePayload :: nat where
  "maxDatagramFramePayload = quicSendDatagramLimit"

lemmas mtu_consts = conservativePathMTU_def overheadIPUDP_def overheadTURNChannel_def
  pathOverheadTotal_def quicPacketSize_def quicConnectionIDLength_def overheadQUICHeader_def
  overheadQUICAEAD_def overheadDatagramFrame_def quicSendDatagramLimit_def
  maxDatagramFramePayload_def

section \<open>The codec\<close>

record rtpCodec =
  codec_aead :: aead
  ssrc :: u32
  initialSeq :: u16
  initialTS :: u32
  payloadType :: byte
  startedAt :: time
  count :: u64
  prng :: "u64 stream"

text \<open>
  \<open>deriveWrapKey\<close>; \<open>hkdf secret salt info\<close> stands for reading 32 bytes from
  \<open>hkdf.New(sha256.New, ...)\<close>.
\<close>

definition wrapSalt :: "char list" where "wrapSalt = ''WDTT-WRAP-v1''"
definition wrapInfo :: "char list" where "wrapInfo = ''rtp-obfs/chacha20poly1305''"

definition deriveWrapKey ::
  "(gostring \<Rightarrow> string \<Rightarrow> string \<Rightarrow> go_error + bytes) \<Rightarrow> gostring \<Rightarrow> go_error + bytes" where
  "deriveWrapKey hkdf password =
     (if password = [] then Inl (New ''call vk_parasite: empty obfs_password'')
      else case hkdf password wrapSalt wrapInfo of
             Inl e \<Rightarrow> Inl (Errorf ''derive RTP wrap key: %w'' e)
           | Inr key \<Rightarrow> Inr key)"

text \<open>
  \<open>newRTPCodec\<close>: \<open>chacha\<close> is \<open>chacha20poly1305.New\<close>, \<open>seed\<close> the ten bytes and \<open>gen\<close> the
  generator that \<open>crypto/rand\<close> yields (or its error), \<open>now\<close> the clock.
\<close>

definition newRTPCodec ::
  "(bytes \<Rightarrow> go_error + aead) \<Rightarrow> bytes \<Rightarrow> go_error + bytes \<Rightarrow> go_error + u64 stream \<Rightarrow> time \<Rightarrow>
   go_error + rtpCodec" where
  "newRTPCodec chacha key seed gen now =
     (case chacha key of Inl e \<Rightarrow> Inl e
      | Inr a \<Rightarrow>
     (case seed of Inl e \<Rightarrow> Inl (Errorf ''initialize RTP wrapper: %w'' e)
      | Inr sd \<Rightarrow>
     (case gen of Inl e \<Rightarrow> Inl (Errorf ''initialize RTP wrapper PRNG: %w'' e)
      | Inr g \<Rightarrow>
          Inr \<lparr>codec_aead = a, ssrc = Uint32 (slice 0 4 sd), initialSeq = Uint16 (slice 4 6 sd),
               initialTS = Uint32 (slice 6 10 sd),
               payloadType = 96 + word_of_nat (unat (Uint16 (slice 4 6 sd)) mod 32),
               startedAt = now, count = 0, prng = g\<rparr>)))"

definition buildRTPNonce :: "u32 \<Rightarrow> u16 \<Rightarrow> u32 \<Rightarrow> bytes" where
  "buildRTPNonce s sequence timestamp =
     (let nonce = replicate 12 0;
          nonce = write_at 0 (PutUint32 s) nonce;
          nonce = write_at 4 (PutUint16 sequence) nonce
      in write_at 8 (PutUint32 timestamp) nonce)"

text \<open>The RTP clock, 90000 ticks a second, as the code computes it from \<open>elapsed\<close>.\<close>

definition rtp_ticks :: "duration \<Rightarrow> u64" where
  "rtp_ticks elapsed =
     (let sec = word_of_int (elapsed sdiv Second) :: u64;
          nsec = word_of_int (elapsed smod Second) :: u64
      in sec * 90000 + nsec * 90000 div word_of_int Second)"

text \<open>
  The padding loop: \<open>k\<close> bytes taken from the low end of \<open>r\<close>, of which \<open>rem\<close> bytes are still
  unused; a fresh word is drawn when none is left.
\<close>

fun fill_padding :: "nat \<Rightarrow> u64 \<Rightarrow> nat \<Rightarrow> u64 stream \<Rightarrow> bytes \<times> u64 stream" where
  "fill_padding 0 r rem g = ([], g)"
| "fill_padding (Suc k) r rem g =
     (let (r, rem, g) = (if rem = 0 then (shd g, 8, stl g) else (r, rem, g));
          (bs, g') = fill_padding k (drop_bit 8 r) (rem - 1) g
      in (ucast r # bs, g'))"

text \<open>
  \<open>wrap\<close> at time \<open>now\<close>; \<open>rawBuf\<close> is the buffer the pool hands out, with whatever an earlier
  packet left in it. The result is the wire packet and the codec after the call.
\<close>

definition wrap :: "rtpCodec \<Rightarrow> time \<Rightarrow> bytes \<Rightarrow> bytes \<Rightarrow> go_error + bytes \<times> rtpCodec" where
  "wrap c now rawBuf payload =
     (if length payload = 0 then Inl (New ''RTP wrapper: empty payload'')
      else if maximumWirePacket <
              length payload + rtpTotalHeaderLength + aead_Overhead + defaultRTPPadding + 1
      then Inl (New ''RTP wrapper: payload too large'')
      else
      let packetIndex = count c;
          ticks = rtp_ticks (now - startedAt c);
          timestamp = initialTS c + ucast ticks;
          r = shd (prng c);
          paddingLength = unat (ucast r :: byte) mod defaultRTPPadding + 1;
          r = drop_bit 8 r;
          totalLen = rtpTotalHeaderLength + length payload + aead_Overhead + paddingLength;
          out = (if totalLen \<le> maxCodecWireBuffer then take totalLen rawBuf
                 else replicate totalLen 0);
          paddingStart = rtpTotalHeaderLength + length payload + aead_Overhead;
          (pad, gen) = fill_padding (paddingLength - 1) r 7 (stl (prng c));
          out = write_at paddingStart pad out;
          sequence = initialSeq c + ucast packetIndex;
          nonce = buildRTPNonce (ssrc c) sequence timestamp;
          out = write_at 0 [0x80 OR 0x20 OR 0x10] out;
          out = write_at 1 [payloadType c] out;
          out = write_at 2 (PutUint16 sequence) out;
          out = write_at 4 (PutUint32 timestamp) out;
          out = write_at 8 (PutUint32 (ssrc c)) out;
          out = write_at 12 [0xBE, 0xDE, 0x00, 0x01, 0x10, 0x00, 0x00, 0x00] out;
          out = write_at rtpTotalHeaderLength
                  (Seal (codec_aead c) nonce payload (slice 0 rtpTotalHeaderLength out)) out;
          out = write_at (totalLen - 1) [word_of_nat paddingLength] out
      in Inr (out, c\<lparr>count := packetIndex + 1, prng := gen\<rparr>))"

definition unwrap :: "rtpCodec \<Rightarrow> bytes \<Rightarrow> go_error + bytes" where
  "unwrap c wire =
     (if length wire < rtpHeaderLength + aead_Overhead + 1 \<or> maximumWirePacket < length wire then
        Inl (New ''RTP wrapper: invalid packet length'')
      else if drop_bit 6 (wire ! 0) \<noteq> 2 then Inl (New ''RTP wrapper: invalid version'')
      else
      let payloadType = wire ! 1 AND 0x7F in
      if payloadType < 96 \<or> 127 < payloadType then
        Inl (New ''RTP wrapper: unexpected payload type'')
      else
      let ext = wire ! 0 AND 0x10 \<noteq> 0 in
      if ext \<and> length wire < rtpHeaderLength + 4 then
        Inl (New ''RTP wrapper: truncated extension header'')
      else
      let extWords = unat (Uint16 (slice (rtpHeaderLength + 2) (rtpHeaderLength + 4) wire));
          headerLength = (if ext then rtpHeaderLength + 4 + extWords * 4 else rtpHeaderLength) in
      if length wire < headerLength + aead_Overhead + 1 then
        Inl (New ''RTP wrapper: truncated header'')
      else
      let padded = wire ! 0 AND 0x20 \<noteq> 0;
          paddingLength = unat (wire ! (length wire - 1)) in
      if padded \<and> (paddingLength = 0 \<or>
                   length wire - headerLength - aead_Overhead < paddingLength) then
        Inl (New ''RTP wrapper: invalid padding'')
      else
      let payloadEnd = (if padded then length wire - paddingLength else length wire);
          sequence = Uint16 (slice 2 4 wire);
          timestamp = Uint32 (slice 4 8 wire);
          s = Uint32 (slice 8 12 wire);
          nonce = buildRTPNonce s sequence timestamp in
      case Open (codec_aead c) nonce (slice headerLength payloadEnd wire) (take headerLength wire) of
        None \<Rightarrow> Inl (New ''RTP wrapper: authentication failed'')
      | Some plain \<Rightarrow> Inr plain)"

section \<open>Layout of a wrapped packet\<close>

text \<open>What \<open>newRTPCodec\<close> establishes and \<open>wrap\<close> keeps.\<close>

definition wf_codec :: "rtpCodec \<Rightarrow> bool" where
  "wf_codec c \<longleftrightarrow> 96 \<le> unat (payloadType c) \<and> unat (payloadType c) \<le> 127"

lemma newRTPCodec_wf: "newRTPCodec chacha key seed gen now = Inr c \<Longrightarrow> wf_codec c"
proof -
  have "unat (96 + word_of_nat (n mod 32) :: byte) = 96 + n mod 32" for n
    by (simp add: unat_word_ariths unat_of_nat)
  moreover assume "newRTPCodec chacha key seed gen now = Inr c"
  ultimately show "wf_codec c"
    by (auto simp: newRTPCodec_def wf_codec_def split: sum.splits)
qed

definition rtp_header :: "rtpCodec \<Rightarrow> time \<Rightarrow> bytes" where
  "rtp_header c now =
     [0xB0, payloadType c] @ PutUint16 (initialSeq c + ucast (count c)) @
     PutUint32 (initialTS c + ucast (rtp_ticks (now - startedAt c))) @ PutUint32 (ssrc c) @
     [0xBE, 0xDE, 0x00, 0x01, 0x10, 0x00, 0x00, 0x00]"

definition rtp_nonce :: "rtpCodec \<Rightarrow> time \<Rightarrow> bytes" where
  "rtp_nonce c now =
     buildRTPNonce (ssrc c) (initialSeq c + ucast (count c))
       (initialTS c + ucast (rtp_ticks (now - startedAt c)))"

lemma length_rtp_header [simp]: "length (rtp_header c now) = 20"
  by (simp add: rtp_header_def)

lemma length_fill_padding [simp]: "length (fst (fill_padding k r rem g)) = k"
  by (induction k r rem g rule: fill_padding.induct) (auto simp: Let_def split: prod.splits)

text \<open>
  Every byte of the packet is written by this call, so the result does not depend on what the
  pooled buffer held: header, sealed payload, random padding and the padding length.
\<close>

definition wrap_padding :: "rtpCodec \<Rightarrow> nat" where
  "wrap_padding c = unat (ucast (shd (prng c)) :: byte) mod defaultRTPPadding + 1"

lemma wrap_padding_bounds: "1 \<le> wrap_padding c" "wrap_padding c \<le> 8"
  by (simp_all add: wrap_padding_def obfs_consts)

definition wrap_accepts :: "bytes \<Rightarrow> bool" where
  "wrap_accepts payload \<longleftrightarrow> 0 < length payload \<and> length payload + 45 \<le> 65536"

lemma wrap_layout [wire]:
  assumes "length rawBuf = maxCodecWireBuffer" "aead_laws (codec_aead c)"
  shows "wrap c now rawBuf payload = Inr (w, c') \<longleftrightarrow>
    wrap_accepts payload \<and>
    w = rtp_header c now @
        Seal (codec_aead c) (rtp_nonce c now) payload (rtp_header c now) @
        fst (fill_padding (wrap_padding c - 1) (drop_bit 8 (shd (prng c))) 7 (stl (prng c))) @
        [word_of_nat (wrap_padding c)] \<and>
    c' = c\<lparr>count := count c + 1,
           prng := snd (fill_padding (wrap_padding c - 1) (drop_bit 8 (shd (prng c))) 7 (stl (prng c)))\<rparr>"
proof (cases "wrap_accepts payload")
  case False
  then show ?thesis by (auto simp: wrap_def wrap_accepts_def obfs_consts)
next
  case True
  let ?k = "wrap_padding c" and ?n = "length payload"
  let ?T = "rtpTotalHeaderLength + ?n + aead_Overhead + ?k"
  let ?fp = "fill_padding (?k - 1) (drop_bit 8 (shd (prng c))) 7 (stl (prng c))"
  let ?seq = "initialSeq c + ucast (count c) :: u16"
  let ?ts = "initialTS c + ucast (rtp_ticks (now - startedAt c)) :: u32"
  let ?ct = "Seal (codec_aead c) (rtp_nonce c now) payload (rtp_header c now)"
  let ?srcs = "[[0x80 OR 0x20 OR 0x10], [payloadType c], PutUint16 ?seq, PutUint32 ?ts,
    PutUint32 (ssrc c), [0xBE, 0xDE, 0x00, 0x01, 0x10, 0x00, 0x00, 0x00]] :: bytes list"
  define buf where "buf = (if ?T \<le> maxCodecWireBuffer then take ?T rawBuf else replicate ?T 0)"
  have "length buf = 20 + (?n + 16) + (?k - 1) + 1"
    using assms(1) wrap_padding_bounds [of c] by (auto simp: buf_def obfs_consts)
  then obtain ws xs ys zs where buf: "buf = ws @ xs @ ys @ zs" and len: "length ws = 20"
      "length xs = ?n + 16" "length ys = ?k - 1" "length zs = 1"
    by (rule split_buffer)
  have pad: "write_at (rtpTotalHeaderLength + ?n + aead_Overhead) (fst ?fp) buf = ws @ xs @ fst ?fp @ zs"
    using write_at_mid [of "ws @ xs" "20 + ?n + 16" ys "fst ?fp" zs]
    by (simp add: buf len obfs_consts)
  have "fill 0 ?srcs (ws @ xs @ fst ?fp @ zs)
      = concat ?srcs @ drop (length (concat ?srcs)) (ws @ xs @ fst ?fp @ zs)"
    by (rule fill_prefix) (simp add: len)
  then have "fill 0 ?srcs (ws @ xs @ fst ?fp @ zs) = rtp_header c now @ xs @ fst ?fp @ zs"
    by (simp add: len rtp_header_def)
  then have hdr: "write_at 12 [0xBE, 0xDE, 0x00, 0x01, 0x10, 0x00, 0x00, 0x00]
      (write_at 8 (PutUint32 (ssrc c)) (write_at 4 (PutUint32 ?ts) (write_at 2 (PutUint16 ?seq)
        (write_at 1 [payloadType c] (write_at 0 [0x80 OR 0x20 OR 0x10] (ws @ xs @ fst ?fp @ zs))))))
      = rtp_header c now @ xs @ fst ?fp @ zs"
    by (simp add: numeral_2_eq_2 [symmetric] del: be_bytes.simps)
  have ad: "slice 0 rtpTotalHeaderLength (rtp_header c now @ xs @ fst ?fp @ zs) = rtp_header c now"
    by (simp add: slice_def obfs_consts)
  have ct: "length ?ct = ?n + 16" using aead_lawsD(2) [OF assms(2)] .
  have seal: "write_at rtpTotalHeaderLength ?ct (rtp_header c now @ xs @ fst ?fp @ zs)
      = rtp_header c now @ ?ct @ fst ?fp @ zs"
    by (rule write_at_mid) (simp_all add: len ct obfs_consts)
  have last: "write_at (?T - 1) [word_of_nat ?k] (rtp_header c now @ ?ct @ fst ?fp @ zs)
      = rtp_header c now @ ?ct @ fst ?fp @ [word_of_nat ?k]"
    using write_at_mid [of "rtp_header c now @ ?ct @ fst ?fp" "?T - 1" zs "[word_of_nat ?k]" "[]"]
      wrap_padding_bounds [of c] by (simp add: len ct obfs_consts)
  have c1: "(?n = 0) = False"
    and c2: "(maximumWirePacket < ?n + rtpTotalHeaderLength + aead_Overhead + defaultRTPPadding + 1) = False"
    using True by (auto simp: wrap_accepts_def obfs_consts)
  have "wrap c now rawBuf payload = Inr (rtp_header c now @ ?ct @ fst ?fp @ [word_of_nat ?k],
      c\<lparr>count := count c + 1, prng := snd ?fp\<rparr>)"
    unfolding wrap_def
    by (simp only: c1 c2 if_False Let_def wrap_padding_def [symmetric] case_prod_beta
        buf_def [symmetric] pad hdr ad rtp_nonce_def [symmetric] seal last)
  with True show ?thesis by auto
qed

lemma wrap_preserves:
  assumes "length rawBuf = maxCodecWireBuffer" "aead_laws (codec_aead c)"
    "wrap c now rawBuf payload = Inr (w, c')"
  shows "codec_aead c' = codec_aead c" "ssrc c' = ssrc c" "initialSeq c' = initialSeq c"
    "initialTS c' = initialTS c" "startedAt c' = startedAt c" "count c' = count c + 1"
    "wf_codec c \<Longrightarrow> wf_codec c'"
  using assms by (auto simp: wrap_layout wf_codec_def)

lemma length_wrap [bounds]:
  assumes "length rawBuf = maxCodecWireBuffer" "aead_laws (codec_aead c)"
    "wrap c now rawBuf payload = Inr (w, c')"
  shows "length w = 36 + length payload + wrap_padding c"
  using assms wrap_padding_bounds [of c] by (auto simp: wrap_layout aead_lawsD)

section \<open>Unwrapping\<close>

text \<open>The nonce a receiver rebuilds from the header of a packet.\<close>

definition wire_nonce :: "bytes \<Rightarrow> bytes" where
  "wire_nonce w =
     buildRTPNonce (Uint32 (slice 8 12 w)) (Uint16 (slice 2 4 w)) (Uint32 (slice 4 8 w))"

lemma unat_and_127: "unat (b AND 0x7F :: byte) = unat b mod 128"
proof -
  have "(127::nat) = mask 7" by (simp add: mask_eq_exp_minus_1)
  then have "unat b AND 127 = unat b mod 2 ^ 7"
    by (simp only: take_bit_eq_mask [symmetric] take_bit_eq_mod)
  then show ?thesis by (simp add: unsigned_and_eq)
qed

lemma payload_type_ok:
  assumes "wf_codec c"
  shows "\<not> (payloadType c AND 0x7F < 96)" "\<not> (127 < payloadType c AND 0x7F)"
  using assms unat_and_127 [of "payloadType c"]
  by (auto simp: wf_codec_def word_less_nat_alt)

lemma rtp_header_fields:
  "rtp_header c now ! 0 = 0xB0" "rtp_header c now ! 1 = payloadType c"
  "slice 2 4 (rtp_header c now @ rest) = PutUint16 (initialSeq c + ucast (count c))"
  "slice 4 8 (rtp_header c now @ rest) =
     PutUint32 (initialTS c + ucast (rtp_ticks (now - startedAt c)))"
  "slice 8 12 (rtp_header c now @ rest) = PutUint32 (ssrc c)"
  "slice 14 16 (rtp_header c now @ rest) = [0, 1]"
  by (simp_all add: rtp_header_def slice_def)

lemma rtp_flags:
  "drop_bit 6 (0xB0 :: byte) = 2" "(0xB0 :: byte) AND 0x10 \<noteq> 0" "(0xB0 :: byte) AND 0x20 \<noteq> 0"
  by simp_all

lemma unwrap_wrap:
  assumes "length rawBuf = maxCodecWireBuffer" "aead_laws (codec_aead c)" "wf_codec c"
    "wrap c now rawBuf payload = Inr (w, c')" "codec_aead d = codec_aead c"
  shows "unwrap d w = Inr payload"
proof -
  let ?h = "rtp_header c now" and ?k = "wrap_padding c"
  let ?ct = "Seal (codec_aead c) (rtp_nonce c now) payload ?h"
  let ?pad = "fst (fill_padding (?k - 1) (drop_bit 8 (shd (prng c))) 7 (stl (prng c)))"
  have acc: "wrap_accepts payload" and w: "w = ?h @ ?ct @ ?pad @ [word_of_nat ?k]"
    using assms by (auto simp: wrap_layout)
  have k: "1 \<le> ?k" "?k \<le> 8" by (rule wrap_padding_bounds)+
  have ct: "length ?ct = length payload + 16" using aead_lawsD(2) [OF assms(2)] .
  have len: "length w = 36 + length payload + ?k" using k by (simp add: w ct)
  have "w ! (length w - 1) = word_of_nat ?k"
    using nth_append_length [of "?h @ ?ct @ ?pad"] k by (simp add: w)
  then have last: "unat (w ! (length w - 1)) = ?k" using k by (simp add: unat_of_nat)
  have ph: "take 20 w = ?h" and pb: "slice 20 (length w - ?k) w = ?ct"
    using k len by (simp_all add: w slice_def ct)
  have w0: "w ! 0 = 0xB0" and w1: "w ! 1 = payloadType c"
    by (simp_all add: w nth_append rtp_header_def)
  have "be_val [0, 1] = 1" by (simp add: be_val_def)
  then have ext: "unat (Uint16 (slice 14 16 w)) = 1"
    by (simp add: w rtp_header_fields)
  have nonce: "buildRTPNonce (Uint32 (slice 8 12 w)) (Uint16 (slice 2 4 w)) (Uint32 (slice 4 8 w))
      = rtp_nonce c now"
    unfolding w rtp_header_fields Uint32_PutUint32 Uint16_PutUint16 by (simp add: rtp_nonce_def)
  have op: "Open (codec_aead d) (rtp_nonce c now) ?ct ?h = Some payload"
    using aead_lawsD(1) [OF assms(2)] assms(5) by simp
  have c1: "\<not> (length w < 12 + 16 + 1 \<or> 65536 < length w)"
    using len k acc by (auto simp: wrap_accepts_def)
  show ?thesis
    using c1 len k payload_type_ok [OF assms(3)] rtp_flags
    by (simp add: unwrap_def Let_def obfs_consts w0 w1 [simplified] ext last [unfolded len, simplified]
        ph pb [unfolded len, simplified] nonce op)
qed

text \<open>
  Authenticity: an accepted packet is a header followed by the sealing of exactly the returned
  payload under that header (and RTP padding, which is not authenticated).
\<close>

lemma unwrap_authentic:
  assumes "aead_laws (codec_aead d)" "unwrap d w = Inr p"
  shows "\<exists>h pad. w = h @ Seal (codec_aead d) (wire_nonce w) p h @ pad \<and> 12 \<le> length h \<and>
    length pad \<le> 255 \<and> length w \<le> 65536"
proof -
  obtain hl pe where "Open (codec_aead d) (wire_nonce w) (slice hl pe w) (take hl w) = Some p"
    and b: "12 \<le> hl" "hl \<le> pe" "pe \<le> length w" "length w - pe \<le> 255" "length w \<le> 65536"
  proof -
    let ?ext = "w ! 0 AND 0x10 \<noteq> 0" and ?padded = "w ! 0 AND 0x20 \<noteq> 0"
    let ?hl = "if ?ext then 12 + 4 + unat (Uint16 (slice 14 16 w)) * 4 else 12"
    let ?pl = "unat (w ! (length w - 1))"
    let ?pe = "if ?padded then length w - ?pl else length w"
    have o: "Open (codec_aead d) (wire_nonce w) (slice ?hl ?pe w) (take ?hl w) = Some p"
      and l: "\<not> length w < ?hl + 16 + 1" "length w \<le> 65536"
        "\<not> (?padded \<and> (?pl = 0 \<or> length w - ?hl - 16 < ?pl))"
      using assms(2)
      by (auto simp: unwrap_def Let_def obfs_consts wire_nonce_def split: if_splits option.splits)
    have pl: "?pl \<le> 255" using unat_bound [of "w ! (length w - 1)"] by simp
    have "?pe \<le> length w" "length w - ?pe \<le> 255" using pl by (auto split: if_splits)
    moreover have "?hl \<le> ?pe" "12 \<le> ?hl" using l by (auto split: if_splits)
    ultimately show ?thesis using that o l by blast
  qed
  then have "slice hl pe w = Seal (codec_aead d) (wire_nonce w) p (take hl w)"
    using aead_lawsD(3) [OF assms(1)] by blast
  moreover have "take hl w @ slice hl pe w = take pe w"
    using b slice_adjacent [of 0 hl pe w] by (simp add: slice_def)
  then have "w = take hl w @ slice hl pe w @ drop pe w"
    by (metis append.assoc append_take_drop_id)
  ultimately have "w = take hl w @ Seal (codec_aead d) (wire_nonce w) p (take hl w) @ drop pe w" by simp
  moreover have "12 \<le> length (take hl w)" "length (drop pe w) \<le> 255"
    using b by simp_all
  ultimately show ?thesis using b(5) by blast
qed

section \<open>The clock and the nonces\<close>

lemma rtp_ticks_exact:
  assumes "0 \<le> elapsed" "elapsed < 2 ^ 63"
  shows "unat (rtp_ticks elapsed) = nat (elapsed * 90000 div Second)"
proof -
  define sec nsec where "sec = nat (elapsed div 1000000000)" and "nsec = nat (elapsed mod 1000000000)"
  have e: "elapsed = int (sec * 1000000000 + nsec)" and n: "nsec < 1000000000"
    using assms(1) by (simp_all add: sec_def nsec_def pos_imp_zdiv_nonneg_iff)
  have s: "sec < 9223372037" using assms(2) e by simp
  have q: "elapsed sdiv 1000000000 = int sec" "elapsed smod 1000000000 = int nsec"
    using assms(1) pos_imp_zdiv_nonneg_iff [of "1000000000" elapsed]
    by (cases "elapsed = 0";
        simp add: sec_def nsec_def signed_divide_int_def signed_modulo_int_def)+
  have u: "unat (word_of_nat (sec * 90000) :: u64) = sec * 90000"
      "unat (word_of_nat (nsec * 90000) :: u64) = nsec * 90000"
      "unat (word_of_nat (sec * 90000 + nsec * 90000 div 1000000000) :: u64)
        = sec * 90000 + nsec * 90000 div 1000000000"
    using s n by (simp_all add: unat_of_nat del: of_nat_add of_nat_mult)
  have d: "(word_of_nat (nsec * 90000) :: u64) div 1000000000
      = word_of_nat (nsec * 90000 div 1000000000)"
    unfolding word_arith_nat_div u by simp
  have "rtp_ticks elapsed = word_of_nat (sec * 90000 + nsec * 90000 div 1000000000)"
    using d by (simp add: rtp_ticks_def q)
  then have "unat (rtp_ticks elapsed) = sec * 90000 + nsec * 90000 div 1000000000"
    by (simp only: u)
  also have "\<dots> = (sec * 1000000000 + nsec) * 90000 div 1000000000"
    by (simp add: algebra_simps) 
  also have "\<dots> = nat (elapsed * 90000 div Second)"
    unfolding e by (simp add: nat_div_distrib flip: of_nat_mult)
  finally show ?thesis .
qed

lemma buildRTPNonce_layout [wire]:
  "buildRTPNonce s q t = PutUint32 s @ PutUint16 q @ [0, 0] @ PutUint32 t"
proof -
  have "replicate 2 (0::byte) = [0, 0]" by (simp add: numeral_2_eq_2)
  then show ?thesis by (simp add: buildRTPNonce_def Let_def write_at_def)
qed

lemma be_bytes_inj:
  assumes "be_bytes n (unat v) = be_bytes n (unat w)" "(256::nat) ^ n = 2 ^ LENGTH('a::len)"
  shows "v = (w :: 'a word)"
proof -
  have "be_val (be_bytes n (unat v)) = be_val (be_bytes n (unat w))" using assms(1) by simp
  then show ?thesis
    using unat_bound [of v] unat_bound [of w] by (simp add: be_val_be_bytes assms(2) word_unat_eq_iff)
qed

lemma buildRTPNonce_inj:
  "buildRTPNonce s q t = buildRTPNonce s' q' t' \<longleftrightarrow> s = s' \<and> q = q' \<and> t = t'"
  using be_bytes_inj [of 4 s s'] be_bytes_inj [of 2 q q'] be_bytes_inj [of 4 t t']
  by (auto simp: buildRTPNonce_layout simp del: be_bytes.simps)

lemma wire_nonce_wrap:
  assumes "length rawBuf = maxCodecWireBuffer" "aead_laws (codec_aead c)"
    "wrap c now rawBuf payload = Inr (w, c')"
  shows "wire_nonce w = rtp_nonce c now"
  using assms by (simp add: wrap_layout wire_nonce_def rtp_header_fields rtp_nonce_def
      del: be_bytes.simps)

text \<open>Packets wrapped one after the other: each call takes its clock reading and pooled buffer.\<close>

fun send_all :: "('c \<Rightarrow> time \<Rightarrow> bytes \<Rightarrow> bytes \<Rightarrow> go_error + bytes \<times> 'c) \<Rightarrow>
    'c \<Rightarrow> (time \<times> bytes \<times> bytes) list \<Rightarrow> go_error + bytes list \<times> 'c" where
  "send_all wrp c [] = Inr ([], c)"
| "send_all wrp c ((now, rawBuf, payload) # ps) =
     (case wrp c now rawBuf payload of Inl e \<Rightarrow> Inl e
      | Inr (w, c') \<Rightarrow>
          (case send_all wrp c' ps of Inl e \<Rightarrow> Inl e | Inr (ws, c'') \<Rightarrow> Inr (w # ws, c'')))"

abbreviation pooled :: "(time \<times> bytes \<times> bytes) list \<Rightarrow> bool" where
  "pooled ps \<equiv> \<forall>(now, rawBuf, payload) \<in> set ps. length rawBuf = maxCodecWireBuffer"

lemma wrap_all_seq:
  assumes "pooled ps" "aead_laws (codec_aead c)" "send_all wrap c ps = Inr (ws, c')" "i < length ws"
  shows "\<exists>t. wire_nonce (ws ! i) =
    buildRTPNonce (ssrc c) (initialSeq c + ucast (count c + word_of_nat i)) t"
  using assms
proof (induction ps arbitrary: c ws i)
  case (Cons p ps)
  obtain now rawBuf payload where p: "p = (now, rawBuf, payload)" by (cases p)
  from Cons.prems p obtain w d vs where w: "wrap c now rawBuf payload = Inr (w, d)"
    and vs: "send_all wrap d ps = Inr (vs, c')" and ws: "ws = w # vs"
    by (auto split: sum.splits)
  have buf: "length rawBuf = maxCodecWireBuffer" using Cons.prems(1) p by auto
  note keep = wrap_preserves [OF buf Cons.prems(2) w]
  show ?case
  proof (cases i)
    case 0
    then show ?thesis
      using wire_nonce_wrap [OF buf Cons.prems(2) w] by (auto simp: ws rtp_nonce_def)
  next
    case (Suc j)
    then have "\<exists>t. wire_nonce (vs ! j) =
        buildRTPNonce (ssrc d) (initialSeq d + ucast (count d + word_of_nat j)) t"
      using Cons.IH [of d vs j] Cons.prems vs keep(1) by (simp add: ws)
    then show ?thesis by (simp add: keep ws Suc ac_simps)
  qed
qed simp

text \<open>What each of them seals, and under which nonce: the one its own header gives.\<close>

definition sealed_as :: "aead \<Rightarrow> bytes \<Rightarrow> bytes \<Rightarrow> bool" where
  "sealed_as A payload w \<longleftrightarrow>
     take (36 + length payload) w = take 20 w @ Seal A (wire_nonce w) payload (take 20 w)"

lemma wrap_sealed:
  assumes "length rawBuf = maxCodecWireBuffer" "aead_laws (codec_aead c)"
    "wrap c now rawBuf payload = Inr (w, c')"
  shows "sealed_as (codec_aead c) payload w"
  using assms wire_nonce_wrap [OF assms] by (auto simp: sealed_as_def wrap_layout aead_lawsD)

lemma wrap_all_sealed:
  assumes "pooled ps" "aead_laws (codec_aead c)" "send_all wrap c ps = Inr (ws, c')" "i < length ws"
  shows "sealed_as (codec_aead c) (snd (snd (ps ! i))) (ws ! i)"
  using assms
proof (induction ps arbitrary: c ws i)
  case (Cons p ps)
  obtain now rawBuf payload where p: "p = (now, rawBuf, payload)" by (cases p)
  from Cons.prems p obtain w d vs where w: "wrap c now rawBuf payload = Inr (w, d)"
    and vs: "send_all wrap d ps = Inr (vs, c')" and ws: "ws = w # vs"
    by (auto split: sum.splits)
  have buf: "length rawBuf = maxCodecWireBuffer" using Cons.prems(1) p by auto
  note keep = wrap_preserves [OF buf Cons.prems(2) w]
  show ?case
  proof (cases i)
    case 0
    then show ?thesis using wrap_sealed [OF buf Cons.prems(2) w] by (simp add: ws p)
  next
    case (Suc j)
    then show ?thesis using Cons.IH [of d vs j] Cons.prems vs keep(1) by (simp add: ws)
  qed
qed simp

lemma ucast_add_u16: "(ucast (a + b :: u64) :: u16) = ucast a + ucast b"
proof -
  have "(ucast (word_of_int (uint a + uint b) :: u64) :: u16) = word_of_int (uint a + uint b)"
    by (rule ucast_down_wi) (simp add: is_down)
  then show ?thesis by (simp only: of_int_add word_of_int_uint ucast_eq)
qed

lemma word_of_nat_u16_eq:
  assumes "i < j" "j - i < 65536"
  shows "(ucast (word_of_nat i :: u64) :: u16) \<noteq> ucast (word_of_nat j :: u64)"
proof
  have uc: "(ucast (word_of_nat n :: u64) :: u16) = word_of_nat n" for n
    using ucast_down_wi [where 'a = 64 and 'b = 16, of "int n"] by (simp add: is_down)
  assume "(ucast (word_of_nat i :: u64) :: u16) = ucast (word_of_nat j :: u64)"
  then have "unat (word_of_nat i :: u16) = unat (word_of_nat j :: u16)" unfolding uc by simp
  then have "i mod 65536 = j mod 65536" by (simp add: unat_of_nat)
  then have "65536 dvd j - i" using assms(1) mod_eq_dvd_iff_nat [of i j 65536] by simp
  then show False using assms by (auto dest: dvd_imp_le)
qed

section \<open>The interface of a codec\<close>

text \<open>
  What the packet connections rely on: a packet that one codec wraps is unwrapped by any codec
  of the same key, and wrapping keeps a codec usable.
\<close>

locale packet_codec =
  fixes wrp :: "'c \<Rightarrow> time \<Rightarrow> bytes \<Rightarrow> bytes \<Rightarrow> go_error + bytes \<times> 'c"
    and unw :: "'c \<Rightarrow> bytes \<Rightarrow> go_error + bytes"
    and good :: "'c \<Rightarrow> bool"
    and key_of :: "'c \<Rightarrow> 'k"
  assumes unw_wrp: "good c \<Longrightarrow> length buf = maxCodecWireBuffer \<Longrightarrow> wrp c now buf p = Inr (w, c') \<Longrightarrow>
      key_of d = key_of c \<Longrightarrow> unw d w = Inr p"
    and wrp_good: "good c \<Longrightarrow> length buf = maxCodecWireBuffer \<Longrightarrow> wrp c now buf p = Inr (w, c') \<Longrightarrow>
      good c' \<and> key_of c' = key_of c"
begin

lemma send_all_received:
  assumes "send_all wrp c ps = Inr (ws, c')" "good c" "pooled ps" "key_of d = key_of c"
  shows "map (unw d) ws = map (Inr \<circ> snd \<circ> snd) ps \<and> good c'"
  using assms
proof (induction ps arbitrary: c ws)
  case (Cons x ps)
  obtain now buf p where x: "x = (now, buf, p)" by (cases x)
  from Cons.prems(1) x obtain w e vs where "wrp c now buf p = Inr (w, e)"
    "send_all wrp e ps = Inr (vs, c')" "ws = w # vs"
    by (auto split: sum.splits)
  with Cons x unw_wrp [of c buf now p w e d] wrp_good [of c buf now p w e] show ?case by simp
qed simp

end

definition codec_good :: "rtpCodec \<Rightarrow> bool" where
  "codec_good c \<longleftrightarrow> wf_codec c \<and> aead_laws (codec_aead c)"

interpretation rtp: packet_codec wrap unwrap codec_good codec_aead
proof
  fix c d c' :: rtpCodec and buf p w :: bytes and now :: time
  assume "codec_good c" "length buf = maxCodecWireBuffer" "wrap c now buf p = Inr (w, c')"
  then show "codec_aead d = codec_aead c \<Longrightarrow> unwrap d w = Inr p"
    and "codec_good c' \<and> codec_aead c' = codec_aead c"
    using unwrap_wrap [of buf c now p w c' d] wrap_preserves [of buf c now p w c']
    by (simp_all add: codec_good_def)
qed

section \<open>Properties\<close>

text \<open>An instance of the cipher that satisfies its laws, for the witnesses.\<close>

definition plain_aead :: aead where
  "plain_aead = \<lparr>Seal = (\<lambda>n p ad. p @ replicate 16 0),
     Open = (\<lambda>n c ad. if 16 \<le> length c \<and> drop (length c - 16) c = replicate 16 0
                     then Some (take (length c - 16) c) else None)\<rparr>"

lemma plain_aead_laws [simp]: "aead_laws plain_aead"
  unfolding aead_laws_def plain_aead_def
  by (auto simp: aead_Overhead_def split: if_splits) (metis append_take_drop_id)

definition demo_codec :: rtpCodec where
  "demo_codec = \<lparr>codec_aead = plain_aead, ssrc = 7, initialSeq = 65535, initialTS = 9,
     payloadType = 111, startedAt = 0, count = 0, prng = sconst 0x0504030201\<rparr>"

lemma demo_codec_good [simp]: "codec_good demo_codec" "wf_codec demo_codec"
    "codec_aead demo_codec = plain_aead"
  by (simp_all add: codec_good_def demo_codec_def wf_codec_def)

lemma wrap_total:
  assumes "length rawBuf = maxCodecWireBuffer" "codec_good c" "0 < length payload"
    "length payload \<le> 65491"
  shows "\<exists>w c'. wrap c now rawBuf payload = Inr (w, c')"
  using assms by (auto simp: wrap_layout codec_good_def wrap_accepts_def)

text \<open>
  Every payload of 1 to 65491 bytes is wrapped, any codec of the same key unwraps the packet
  to exactly that payload, whatever the pooled buffer and the clock were, and the packet is at
  most 44 bytes longer than the payload.
\<close>

lemma rtp_wrap_roundtrip:
  assumes "length rawBuf = maxCodecWireBuffer" "wf_codec c" "aead_laws (codec_aead c)"
    "codec_aead d = codec_aead c" "0 < length payload" "length payload \<le> 65491"
  shows "\<exists>w c'. wrap c now rawBuf payload = Inr (w, c') \<and> unwrap d w = Inr payload \<and>
    wf_codec c' \<and> codec_aead c' = codec_aead c \<and> count c' = count c + 1 \<and>
    length w \<le> length payload + rtpTotalHeaderLength + aead_Overhead + defaultRTPPadding"
proof -
  have good: "codec_good c" using assms by (simp add: codec_good_def)
  obtain w c' where w: "wrap c now rawBuf payload = Inr (w, c')"
    using wrap_total [OF assms(1) good assms(5,6)] by blast
  then show ?thesis
    using unwrap_wrap [OF assms(1,3,2) w assms(4)] wrap_preserves [OF assms(1,3) w] assms(2)
      length_wrap [OF assms(1,3) w] wrap_padding_bounds [of c] by (auto simp: obfs_consts)
qed

lemma rtp_wrap_roundtrip_witness:
  "\<exists>w c'. wrap demo_codec 5 (replicate maxCodecWireBuffer 1) [1, 2, 3] = Inr (w, c') \<and>
    unwrap demo_codec w = Inr [1, 2, 3]"
  using rtp_wrap_roundtrip [of "replicate maxCodecWireBuffer 1" demo_codec demo_codec "[1, 2, 3]" 5]
  by auto

text \<open>
  C7. A QUIC packet of the configured size always fits the path: wrapped, framed as TURN channel
  data and sent over UDP and IP it stays within the path MTU, and it fits a pooled buffer, so
  wrapping it never allocates.
\<close>

theorem wrapped_quic_packet_fits_path:
  assumes "length rawBuf = maxCodecWireBuffer" "aead_laws (codec_aead c)"
    "wrap c now rawBuf payload = Inr (w, c')" "length payload \<le> quicPacketSize"
  shows "overheadIPUDP + overheadTURNChannel + length w \<le> conservativePathMTU \<and>
    length w \<le> maxCodecWireBuffer"
  using length_wrap [OF assms(1-3)] wrap_padding_bounds [of c] assms(4)
  by (simp add: mtu_consts obfs_consts)

theorem wrapped_quic_packet_fits_path_witness:
  "\<exists>w c'. wrap demo_codec 5 (replicate maxCodecWireBuffer 1) (replicate 1320 7) = Inr (w, c') \<and>
    overheadIPUDP + overheadTURNChannel + length w \<le> conservativePathMTU"
  using wrap_total [of "replicate maxCodecWireBuffer 1" demo_codec "replicate 1320 7" 5]
    wrapped_quic_packet_fits_path [of "replicate maxCodecWireBuffer 1" demo_codec 5 "replicate 1320 7"]
  by (auto simp: quicPacketSize_def)

text \<open>
  C8. Only traffic sealed with the key is accepted: a packet that unwraps to a payload consists of
  a header, the sealing of exactly that payload under that header, and at most 255 bytes of RTP
  padding.
\<close>

theorem unwrap_accepts_only_sealed:
  assumes "aead_laws (codec_aead d)" "unwrap d w = Inr p"
  shows "\<exists>h pad. w = h @ Seal (codec_aead d) (wire_nonce w) p h @ pad \<and>
    rtpHeaderLength \<le> length h \<and> length pad \<le> 255 \<and> length w \<le> maximumWirePacket"
  using unwrap_authentic [OF assms] by (auto simp: obfs_consts)

theorem unwrap_accepts_only_sealed_witness:
  "\<exists>w h pad. unwrap demo_codec w = Inr [1, 2, 3] \<and>
    w = h @ Seal plain_aead (wire_nonce w) [1, 2, 3] h @ pad"
proof -
  obtain w c' where "wrap demo_codec 5 (replicate maxCodecWireBuffer 1) [1, 2, 3] = Inr (w, c')"
    using wrap_total [of "replicate maxCodecWireBuffer 1" demo_codec "[1, 2, 3]" 5] by auto
  then have "unwrap demo_codec w = Inr [1, 2, 3]"
    using unwrap_wrap [of "replicate maxCodecWireBuffer 1" demo_codec 5 "[1, 2, 3]" w c' demo_codec]
    by simp
  then show ?thesis using unwrap_accepts_only_sealed [of demo_codec w "[1, 2, 3]"] by auto
qed

text \<open>
  C9. A codec never seals two packets under one nonce within 65536 consecutive packets, however the clock
  reads: the body of every packet is its payload sealed with the codec's cipher under the nonce its own header
  gives and with that header as additional data, and these nonces differ, since the sequence number alone keeps
  them apart.
\<close>

theorem wrap_nonces_distinct:
  assumes "send_all wrap c ps = Inr (ws, c')" "pooled ps" "aead_laws (codec_aead c)"
    "i < j" "j < length ws" "j - i < 65536"
  shows "(\<forall>k < length ws. take (36 + length (snd (snd (ps ! k)))) (ws ! k) =
            take 20 (ws ! k) @ Seal (codec_aead c) (wire_nonce (ws ! k)) (snd (snd (ps ! k))) (take 20 (ws ! k))) \<and>
    wire_nonce (ws ! i) \<noteq> wire_nonce (ws ! j)"
proof -
  obtain t t' where
    "wire_nonce (ws ! i) = buildRTPNonce (ssrc c) (initialSeq c + ucast (count c + word_of_nat i)) t"
    "wire_nonce (ws ! j) = buildRTPNonce (ssrc c) (initialSeq c + ucast (count c + word_of_nat j)) t'"
    using wrap_all_seq [OF assms(2,3,1), of i] wrap_all_seq [OF assms(2,3,1), of j] assms(4,5)
    by auto
  then have "wire_nonce (ws ! i) \<noteq> wire_nonce (ws ! j)"
    using word_of_nat_u16_eq [OF assms(4,6)] by (simp add: buildRTPNonce_inj ucast_add_u16)
  then show ?thesis using wrap_all_sealed [OF assms(2,3,1)] by (simp add: sealed_as_def)
qed

theorem wrap_nonces_distinct_witness:
  "\<exists>v w c'. send_all wrap demo_codec
      [(5, replicate maxCodecWireBuffer 1, [1]), (5, replicate maxCodecWireBuffer 2, [2])] =
        Inr ([v, w], c') \<and> wire_nonce v \<noteq> wire_nonce w \<and>
     take 37 v = take 20 v @ Seal (codec_aead demo_codec) (wire_nonce v) [1] (take 20 v)"
proof -
  obtain v c1 where v: "wrap demo_codec 5 (replicate maxCodecWireBuffer 1) [1] = Inr (v, c1)"
    using wrap_total [of "replicate maxCodecWireBuffer 1" demo_codec "[1]" 5] by auto
  then have "codec_good c1"
    using rtp.wrp_good [of demo_codec "replicate maxCodecWireBuffer 1" 5 "[1]" v c1] by simp
  then obtain w c2 where w: "wrap c1 5 (replicate maxCodecWireBuffer 2) [2] = Inr (w, c2)"
    using wrap_total [of "replicate maxCodecWireBuffer 2" c1 "[2]" 5] by auto
  let ?ps = "[(5, replicate maxCodecWireBuffer 1, [1]), (5, replicate maxCodecWireBuffer 2, [2])] :: (time \<times> bytes \<times> bytes) list"
  have run: "send_all wrap demo_codec ?ps = Inr ([v, w], c2)" by (simp add: v w)
  from wrap_nonces_distinct [OF run, of 0 1] have
    all: "\<forall>k < Suc (Suc 0). take (36 + length (snd (snd (?ps ! k)))) ([v, w] ! k) = take 20 ([v, w] ! k) @
       Seal (codec_aead demo_codec) (wire_nonce ([v, w] ! k)) (snd (snd (?ps ! k))) (take 20 ([v, w] ! k))"
    and "wire_nonce v \<noteq> wire_nonce w" by simp_all
  moreover from all [rule_format, of 0] have "take 37 v = take 20 v @ Seal (codec_aead demo_codec) (wire_nonce v) [1] (take 20 v)" by simp
  ultimately show ?thesis using run by blast
qed

text \<open>
  The RTP timestamp advances at exactly 90000 ticks a second: for every running time Go can
  represent, the split computation neither overflows nor loses a tick.
\<close>

lemma rtp_clock_exact:
  assumes "0 \<le> elapsed" "elapsed < 2 ^ 63"
  shows "unat (rtp_ticks elapsed) = nat (elapsed * 90000 div Second)"
  using assms by (rule rtp_ticks_exact)

lemma rtp_clock_exact_witness: "unat (rtp_ticks 1500000000) = 135000"
  using rtp_clock_exact [of 1500000000] by simp

end
