(* ===== verification/Go_Net.thy ===== *)
theory Go_Net
  imports Prelude
begin

text \<open>
  What the transport uses of Go's \<open>net\<close> and \<open>strconv\<close> packages: IP addresses as byte slices,
  \<open>IP.Equal\<close> and \<open>IP.String\<close>, \<open>net.UDPAddr\<close> and \<open>net.JoinHostPort\<close>. Address strings are
  \<open>string\<close>s (lists of 8-bit characters).
\<close>

section \<open>Numbers as text\<close>

definition digit :: "nat \<Rightarrow> char" where
  "digit n = (if n < 10 then char_of (48 + n) else char_of (87 + n))"

fun itoa_base :: "nat \<Rightarrow> nat \<Rightarrow> string" where
  "itoa_base b n =
     (if b < 2 then [] else if n < b then [digit n] else itoa_base b (n div b) @ [digit (n mod b)])"

declare itoa_base.simps [simp del]

abbreviation itoa :: "nat \<Rightarrow> string" where "itoa \<equiv> itoa_base 10"
abbreviation hex :: "nat \<Rightarrow> string" where "hex \<equiv> itoa_base 16"

definition Itoa :: "int \<Rightarrow> string" where
  "Itoa i = (if i < 0 then ''-'' @ itoa (nat (- i)) else itoa (nat i))"

fun intercalate :: "string \<Rightarrow> string list \<Rightarrow> string" where
  "intercalate sep [] = []"
| "intercalate sep [x] = x"
| "intercalate sep (x # y # zs) = x @ sep @ intercalate sep (y # zs)"

section \<open>IP addresses\<close>

type_synonym IP = bytes

definition v4InV6Prefix :: bytes where "v4InV6Prefix = replicate 10 0 @ [0xFF, 0xFF]"

definition To4 :: "IP \<Rightarrow> IP option" where
  "To4 ip =
     (if length ip = 4 then Some ip
      else if length ip = 16 \<and> take 12 ip = v4InV6Prefix then Some (drop 12 ip)
      else None)"

definition IP_Equal :: "IP \<Rightarrow> IP \<Rightarrow> bool" where
  "IP_Equal ip x \<longleftrightarrow>
     (if length ip = length x then ip = x
      else if length ip = 4 \<and> length x = 16 then take 12 x = v4InV6Prefix \<and> ip = drop 12 x
      else if length ip = 16 \<and> length x = 4 then take 12 ip = v4InV6Prefix \<and> drop 12 ip = x
      else False)"

text \<open>The longest run of at least two zero groups, as \<open>netip\<close> finds it: its first and last-plus-one index.\<close>

fun zero_run :: "nat list \<Rightarrow> nat \<Rightarrow> (nat \<times> nat) option \<Rightarrow> (nat \<times> nat) option" where
  "zero_run [] i best = best"
| "zero_run (w # ws) i best =
     (let l = length (takeWhile (\<lambda>x. x = 0) (w # ws));
          len = (case best of None \<Rightarrow> 0 | Some (s, e) \<Rightarrow> e - s)
      in zero_run ws (Suc i) (if 2 \<le> l \<and> len < l then Some (i, i + l) else best))"

definition ip6_string :: "bytes \<Rightarrow> string" where
  "ip6_string ip =
     (let groups = map (\<lambda>i. be_val (slice (2 * i) (2 * i + 2) ip)) [0..<8] in
      case zero_run groups 0 None of
        None \<Rightarrow> intercalate '':'' (map hex groups)
      | Some (s, e) \<Rightarrow> intercalate '':'' (map hex (take s groups)) @ ''::'' @
                       intercalate '':'' (map hex (drop e groups)))"

definition IP_String :: "IP \<Rightarrow> string" where
  "IP_String ip =
     (if ip = [] then ''<nil>''
      else if length ip \<noteq> 4 \<and> length ip \<noteq> 16 then
        ''?'' @ concat (map (\<lambda>b. [digit (unat b div 16), digit (unat b mod 16)]) ip)
      else case To4 ip of
        Some p4 \<Rightarrow> intercalate ''.'' (map (\<lambda>b. itoa (unat b)) p4)
      | None \<Rightarrow> ip6_string ip)"

lemma length_v4InV6Prefix [simp]: "length v4InV6Prefix = 12"
  by (simp add: v4InV6Prefix_def)

lemma IP_Equal_refl [simp]: "IP_Equal ip ip"
  by (simp add: IP_Equal_def)

lemma IP_Equal_sym: "IP_Equal ip x \<longleftrightarrow> IP_Equal x ip"
  by (auto simp: IP_Equal_def)

text \<open>The two forms of an IPv4 address are equal and print alike.\<close>

lemma IP_String_mapped:
  assumes "length x = 16" "take 12 x = v4InV6Prefix"
  shows "IP_String x = IP_String (drop 12 x)"
proof -
  have "To4 x = Some (drop 12 x)" "To4 (drop 12 x) = Some (drop 12 x)"
    using assms by (simp_all add: To4_def)
  moreover have "x \<noteq> []" "drop 12 x \<noteq> []" using assms(1) by auto
  ultimately show ?thesis using assms(1) by (simp add: IP_String_def)
qed

lemma IP_Equal_String: "IP_Equal ip x \<Longrightarrow> IP_String ip = IP_String x"
  using IP_String_mapped [of ip] IP_String_mapped [of x]
  by (auto simp: IP_Equal_def split: if_splits)

section \<open>Addresses\<close>

datatype net_addr =
    UDPAddr (udp_IP: IP) (udp_Port: int) (udp_Zone: string)
  | OtherAddr (addr_network: string) (addr_text: string)

definition JoinHostPort :: "string \<Rightarrow> string \<Rightarrow> string" where
  "JoinHostPort host port =
     (if CHR '':'' \<in> set host then ''['' @ host @ '']:'' @ port else host @ '':'' @ port)"

fun addr_Network :: "net_addr \<Rightarrow> string" where
  "addr_Network (UDPAddr ip port zone) = ''udp''"
| "addr_Network (OtherAddr network s) = network"

fun addr_String :: "net_addr \<Rightarrow> string" where
  "addr_String (UDPAddr ip port zone) =
     (let host = (if ip = [] then '''' else IP_String ip) in
      if zone \<noteq> '''' then JoinHostPort (host @ ''%'' @ zone) (Itoa port)
      else JoinHostPort host (Itoa port))"
| "addr_String (OtherAddr network s) = s"

end
