(* ===== verification/PacketConn.thy ===== *)
theory PacketConn
  imports Obfs Go_Net
begin

text \<open>
  The packet connections of \<open>transport/call/vk-parasite/packet_conn.go\<close>: the server's view of its
  UDP listener (one codec to open what arrives, one per remote address to wrap what leaves) and
  the client's connection to its single remote. The socket below is a parameter: reading is a
  list of outcomes (a datagram with its source, or an error), writing an oracle for the error.
  A call that finds the list exhausted is still blocked in the socket.
\<close>

section \<open>State\<close>

record remoteCodec =
  rc_codec :: rtpCodec
  lastUsed :: time

record serverObfsConn =
  conn_key :: bytes
  decoder :: rtpCodec
  codecs :: "string \<rightharpoonup> remoteCodec"

record obfsPacketConn =
  remote :: net_addr
  op_codec :: rtpCodec

type_synonym socket_reads = "(go_error + bytes \<times> net_addr) list"
type_synonym socket_writes = "bytes \<Rightarrow> net_addr \<Rightarrow> go_error option"

text \<open>The random inputs of \<open>newRTPCodec\<close>: seed bytes and generator, or the error of \<open>crypto/rand\<close>.\<close>

type_synonym codec_seed = "(go_error + bytes) \<times> (go_error + u64 stream)"

definition newServerObfsConn ::
  "(bytes \<Rightarrow> go_error + aead) \<Rightarrow> bytes \<Rightarrow> codec_seed \<Rightarrow> time \<Rightarrow> go_error + serverObfsConn" where
  "newServerObfsConn chacha key rnd now =
     (case newRTPCodec chacha key (fst rnd) (snd rnd) now of Inl e \<Rightarrow> Inl e
      | Inr dec \<Rightarrow> Inr \<lparr>conn_key = key, decoder = dec, codecs = Map.empty\<rparr>)"

definition newObfsPacketConn :: "net_addr \<Rightarrow> rtpCodec \<Rightarrow> obfsPacketConn" where
  "newObfsPacketConn addr codec = \<lparr>remote = addr, op_codec = codec\<rparr>"

text \<open>\<open>samePacketAddress\<close>; \<open>None\<close> is a nil \<open>net.Addr\<close>.\<close>

fun samePacketAddress :: "net_addr option \<Rightarrow> net_addr option \<Rightarrow> bool" where
  "samePacketAddress (Some (UDPAddr lip lport lzone)) (Some (UDPAddr rip rport rzone)) \<longleftrightarrow>
     lport = rport \<and> lzone = rzone \<and> IP_Equal lip rip"
| "samePacketAddress (Some left) (Some right) \<longleftrightarrow>
     addr_Network left = addr_Network right \<and> addr_String left = addr_String right"
| "samePacketAddress _ _ \<longleftrightarrow> False"

section \<open>Reading\<close>

text \<open>
  The outcome of one \<open>ReadFrom\<close> with a caller buffer of \<open>cap\<close> bytes: the bytes put into it, the
  source address and the error; \<open>None\<close> when the call still waits for the socket.
\<close>

type_synonym read_result = "bytes \<times> net_addr option \<times> go_error option"

fun server_ReadFrom :: "rtpCodec \<Rightarrow> nat \<Rightarrow> socket_reads \<Rightarrow> (read_result \<times> socket_reads) option" where
  "server_ReadFrom dec cap [] = None"
| "server_ReadFrom dec cap (Inl e # reads) = Some (([], None, Some e), reads)"
| "server_ReadFrom dec cap (Inr (datagram, addr) # reads) =
     (let wire = take maximumWirePacket datagram;
          inPlace = length wire \<le> cap in
      case unwrap dec wire of
        Inl _ \<Rightarrow> server_ReadFrom dec cap reads
      | Inr plain \<Rightarrow>
          if inPlace then Some ((plain, Some addr, None), reads)
          else if cap < length plain then Some ((take cap plain, Some addr, Some ShortBuffer), reads)
          else Some ((plain, Some addr, None), reads))"

fun client_ReadFrom ::
  "obfsPacketConn \<Rightarrow> nat \<Rightarrow> socket_reads \<Rightarrow> (read_result \<times> socket_reads) option" where
  "client_ReadFrom c cap [] = None"
| "client_ReadFrom c cap (Inl e # reads) = Some (([], None, Some e), reads)"
| "client_ReadFrom c cap (Inr (datagram, addr) # reads) =
     (if \<not> samePacketAddress (Some addr) (Some (remote c)) then client_ReadFrom c cap reads
      else case unwrap (op_codec c) (take maximumWirePacket datagram) of
        Inl _ \<Rightarrow> client_ReadFrom c cap reads
      | Inr plain \<Rightarrow>
          if cap < length plain then Some ((take cap plain, Some addr, Some ShortBuffer), reads)
          else Some ((plain, Some addr, None), reads))"

section \<open>Writing\<close>

text \<open>\<open>codecFor\<close>: the codec of an address, created on first use; each use refreshes its time.\<close>

definition codecFor ::
  "(bytes \<Rightarrow> go_error + aead) \<Rightarrow> codec_seed \<Rightarrow> time \<Rightarrow> serverObfsConn \<Rightarrow> net_addr \<Rightarrow>
   go_error + rtpCodec \<times> serverObfsConn" where
  "codecFor chacha rnd now c addr =
     (let key = addr_String addr in
      case codecs c key of
        Some existing \<Rightarrow>
          Inr (rc_codec existing, c\<lparr>codecs := (codecs c)(key \<mapsto> existing\<lparr>lastUsed := now\<rparr>)\<rparr>)
      | None \<Rightarrow>
          (case newRTPCodec chacha (conn_key c) (fst rnd) (snd rnd) now of
             Inl e \<Rightarrow> Inl e
           | Inr codec \<Rightarrow>
               Inr (codec, c\<lparr>codecs := (codecs c)(key \<mapsto> \<lparr>rc_codec = codec, lastUsed = now\<rparr>)\<rparr>)))"

text \<open>
  \<open>WriteTo\<close>: the number of bytes accepted or the error, the connection afterwards, and the
  datagrams handed to the socket. The codec is shared with the map, so its new packet counter is
  stored back into the entry.
\<close>

definition server_WriteTo ::
  "(bytes \<Rightarrow> go_error + aead) \<Rightarrow> codec_seed \<Rightarrow> socket_writes \<Rightarrow> time \<Rightarrow> bytes \<Rightarrow>
   serverObfsConn \<Rightarrow> bytes \<Rightarrow> net_addr \<Rightarrow>
   (go_error + nat) \<times> serverObfsConn \<times> (bytes \<times> net_addr) list" where
  "server_WriteTo chacha rnd sock now rawBuf c payload addr =
     (case codecFor chacha rnd now c addr of
        Inl e \<Rightarrow> (Inl e, c, [])
      | Inr (codec, c) \<Rightarrow>
          (case wrap codec now rawBuf payload of
             Inl e \<Rightarrow> (Inl e, c, [])
           | Inr (wire, codec') \<Rightarrow>
               let c = c\<lparr>codecs := (codecs c)(addr_String addr \<mapsto> \<lparr>rc_codec = codec', lastUsed = now\<rparr>)\<rparr> in
               (case sock wire addr of
                  Some e \<Rightarrow> (Inl e, c, [(wire, addr)])
                | None \<Rightarrow> (Inr (length payload), c, [(wire, addr)]))))"

definition client_WriteTo ::
  "socket_writes \<Rightarrow> time \<Rightarrow> bytes \<Rightarrow> obfsPacketConn \<Rightarrow> bytes \<Rightarrow> net_addr \<Rightarrow>
   (go_error + nat) \<times> obfsPacketConn \<times> (bytes \<times> net_addr) list" where
  "client_WriteTo sock now rawBuf c payload addr =
     (if \<not> samePacketAddress (Some addr) (Some (remote c)) then
        (Inl (New ''call vk_parasite: unexpected DTLS destination''), c, [])
      else case wrap (op_codec c) now rawBuf payload of
        Inl e \<Rightarrow> (Inl e, c, [])
      | Inr (wire, codec') \<Rightarrow>
          let c' = c\<lparr>op_codec := codec'\<rparr> in
          (case sock wire (remote c) of
             Some e \<Rightarrow> (Inl e, c', [(wire, remote c)])
           | None \<Rightarrow> (Inr (length payload), c', [(wire, remote c)])))"

definition reapCodecs :: "time \<Rightarrow> duration \<Rightarrow> serverObfsConn \<Rightarrow> serverObfsConn" where
  "reapCodecs now idleFor c =
     (let cutoff = now - idleFor in
      c\<lparr>codecs := (\<lambda>key. case codecs c key of None \<Rightarrow> None
                   | Some entry \<Rightarrow> if lastUsed entry < cutoff then None else Some entry)\<rparr>)"

definition codecCount :: "serverObfsConn \<Rightarrow> nat" where
  "codecCount c = card (dom (codecs c))"

section \<open>Reading skips foreign traffic\<close>

text \<open>Successive calls of a reader: their results and what the socket still holds.\<close>

fun read_calls :: "('s \<Rightarrow> ('r \<times> 's) option) \<Rightarrow> nat \<Rightarrow> 's \<Rightarrow> ('r list \<times> 's) option" where
  "read_calls rd 0 s = Some ([], s)"
| "read_calls rd (Suc n) s =
     (case rd s of None \<Rightarrow> None
      | Some (r, s') \<Rightarrow> map_option (\<lambda>(rs, s''). (r # rs, s'')) (read_calls rd n s'))"

text \<open>
  The contract of a filtering reader: it returns the outcome of the first event it accepts and
  drops those before it.
\<close>

locale filtering_reader =
  fixes rd :: "'e list \<Rightarrow> ('r \<times> 'e list) option"
    and accepts :: "'e \<Rightarrow> bool"
    and outcome :: "'e \<Rightarrow> 'r"
  assumes rd_Nil: "rd [] = None"
    and rd_Cons: "rd (e # es) = (if accepts e then Some (outcome e, es) else rd es)"
begin

lemma rd_blocks: "rd es = None \<longleftrightarrow> (\<forall>e \<in> set es. \<not> accepts e)"
  by (induction es) (auto simp: rd_Nil rd_Cons)

lemma rd_skip: "\<forall>e \<in> set junk. \<not> accepts e \<Longrightarrow> rd (junk @ es) = rd es"
  by (induction junk) (auto simp: rd_Cons)

lemma read_calls_skip:
  "\<not> accepts e \<Longrightarrow> 0 < n \<Longrightarrow> read_calls rd n (e # es) = read_calls rd n es"
  by (cases n) (simp_all add: rd_Cons)

lemma read_calls_filter:
  "\<exists>rest. read_calls rd (length (filter accepts es)) es = Some (map outcome (filter accepts es), rest)"
proof (induction es)
  case (Cons e es)
  then show ?case
    by (cases "filter accepts es = []") (auto simp: rd_Cons read_calls_skip)
qed simp

end

definition server_accepts :: "rtpCodec \<Rightarrow> go_error + bytes \<times> net_addr \<Rightarrow> bool" where
  "server_accepts dec e =
     (case e of Inl _ \<Rightarrow> True
      | Inr (datagram, addr) \<Rightarrow> \<not> isl (unwrap dec (take maximumWirePacket datagram)))"

definition server_outcome :: "rtpCodec \<Rightarrow> nat \<Rightarrow> go_error + bytes \<times> net_addr \<Rightarrow> read_result" where
  "server_outcome dec cap e =
     (case e of Inl err \<Rightarrow> ([], None, Some err)
      | Inr (datagram, addr) \<Rightarrow>
          let wire = take maximumWirePacket datagram; plain = projr (unwrap dec wire) in
          if cap < length wire \<and> cap < length plain
          then (take cap plain, Some addr, Some ShortBuffer) else (plain, Some addr, None))"

definition client_accepts :: "obfsPacketConn \<Rightarrow> go_error + bytes \<times> net_addr \<Rightarrow> bool" where
  "client_accepts c e =
     (case e of Inl _ \<Rightarrow> True
      | Inr (datagram, addr) \<Rightarrow> samePacketAddress (Some addr) (Some (remote c)) \<and>
          \<not> isl (unwrap (op_codec c) (take maximumWirePacket datagram)))"

definition client_outcome :: "obfsPacketConn \<Rightarrow> nat \<Rightarrow> go_error + bytes \<times> net_addr \<Rightarrow> read_result" where
  "client_outcome c cap e =
     (case e of Inl err \<Rightarrow> ([], None, Some err)
      | Inr (datagram, addr) \<Rightarrow>
          let plain = projr (unwrap (op_codec c) (take maximumWirePacket datagram)) in
          if cap < length plain
          then (take cap plain, Some addr, Some ShortBuffer) else (plain, Some addr, None))"

interpretation srv: filtering_reader "server_ReadFrom dec cap" "server_accepts dec"
  "server_outcome dec cap" for dec cap
proof
  fix e :: "go_error + bytes \<times> net_addr" and es
  show "server_ReadFrom dec cap [] = None" by simp
  show "server_ReadFrom dec cap (e # es) =
      (if server_accepts dec e then Some (server_outcome dec cap e, es) else server_ReadFrom dec cap es)"
    by (cases e) (auto simp: server_accepts_def server_outcome_def Let_def split: sum.splits)
qed

interpretation cli: filtering_reader "client_ReadFrom c cap" "client_accepts c"
  "client_outcome c cap" for c cap
proof
  fix e :: "go_error + bytes \<times> net_addr" and es
  show "client_ReadFrom c cap [] = None" by simp
  show "client_ReadFrom c cap (e # es) =
      (if client_accepts c e then Some (client_outcome c cap e, es) else client_ReadFrom c cap es)"
    by (cases e) (auto simp: client_accepts_def client_outcome_def Let_def split: sum.splits if_splits)
qed

lemma samePacketAddress_refl [simp]: "samePacketAddress (Some a) (Some a)"
  by (cases a) auto

lemma samePacketAddress_String:
  "samePacketAddress (Some a) (Some b) \<Longrightarrow> addr_String a = addr_String b"
proof (cases a; cases b)
  fix ip port zone ip' port' zone'
  assume s: "samePacketAddress (Some a) (Some b)"
    and a: "a = UDPAddr ip port zone" "b = UDPAddr ip' port' zone'"
  have "ip = [] \<longleftrightarrow> ip' = []" using s a by (auto simp: IP_Equal_def split: if_splits)
  moreover have "IP_String ip = IP_String ip'" using s a by (intro IP_Equal_String) simp
  ultimately show "addr_String a = addr_String b" using s a by simp
qed auto

section \<open>Delivery\<close>

lemma wrap_wire_short:
  assumes "codec_good c" "length rawBuf = maxCodecWireBuffer" "wrap c now rawBuf p = Inr (w, c')"
  shows "take maximumWirePacket w = w"
proof -
  have "wrap_accepts p" "length w = 36 + length p + wrap_padding c"
    using assms length_wrap [of rawBuf c now p w c'] by (auto simp: codec_good_def wrap_layout)
  then have "length w \<le> maximumWirePacket"
    using wrap_padding_bounds [of c] by (simp add: wrap_accepts_def obfs_consts)
  then show ?thesis by simp
qed

lemma send_all_short:
  assumes "send_all wrap c ps = Inr (ws, c')" "codec_good c" "pooled ps"
  shows "\<forall>w \<in> set ws. take maximumWirePacket w = w"
  using assms
proof (induction ps arbitrary: c ws)
  case (Cons x ps)
  obtain now buf p where x: "x = (now, buf, p)" by (cases x)
  from Cons.prems(1) x obtain w e vs where w: "wrap c now buf p = Inr (w, e)"
    "send_all wrap e ps = Inr (vs, c')" "ws = w # vs"
    by (auto split: sum.splits)
  have "codec_good e" using rtp.wrp_good [OF Cons.prems(2) _ w(1)] Cons.prems(3) x by simp
  then show ?case
    using Cons.IH [OF w(2)] Cons.prems(2,3) w wrap_wire_short [of c buf now p w e] x by simp
qed simp

abbreviation payloads :: "(time \<times> bytes \<times> bytes) list \<Rightarrow> bytes list" where
  "payloads ps \<equiv> map (\<lambda>(now, rawBuf, payload). payload) ps"

lemma send_all_unwrap:
  assumes "send_all wrap c ps = Inr (ws, c')" "codec_good c" "pooled ps" "codec_aead d = codec_aead c"
  shows "map (\<lambda>w. unwrap d (take maximumWirePacket w)) ws = map Inr (payloads ps)"
proof -
  have "map (\<lambda>w. unwrap d (take maximumWirePacket w)) ws = map (unwrap d) ws"
    using send_all_short [OF assms(1-3)] by simp
  then show ?thesis
    using rtp.send_all_received [OF assms] by (simp add: comp_def case_prod_beta)
qed

lemma server_outcomes:
  assumes "map (\<lambda>w. unwrap d (take maximumWirePacket w)) ws = map Inr qs"
    "\<forall>q \<in> set qs. length q \<le> cap"
  shows "map (server_outcome d cap) (map (\<lambda>w. Inr (w, addr)) ws) = map (\<lambda>q. (q, Some addr, None)) qs"
  using assms
proof (induction ws arbitrary: qs)
  case (Cons w ws)
  then show ?case by (cases qs) (auto simp: server_outcome_def Let_def)
qed simp

lemma client_outcomes:
  assumes "map (\<lambda>w. unwrap (op_codec c) (take maximumWirePacket w)) ws = map Inr qs"
    "\<forall>q \<in> set qs. length q \<le> cap"
  shows "map (client_outcome c cap) (map (\<lambda>w. Inr (w, addr)) ws) = map (\<lambda>q. (q, Some addr, None)) qs"
  using assms
proof (induction ws arbitrary: qs)
  case (Cons w ws)
  then show ?case by (cases qs) (auto simp: client_outcome_def Let_def)
qed simp

section \<open>One flow per remote\<close>

definition wire_seq :: "bytes \<Rightarrow> u16" where "wire_seq w = Uint16 (slice 2 4 w)"
definition wire_ssrc :: "bytes \<Rightarrow> u32" where "wire_ssrc w = Uint32 (slice 8 12 w)"

lemma wire_fields:
  assumes "codec_good c" "length rawBuf = maxCodecWireBuffer" "wrap c now rawBuf p = Inr (w, c')"
  shows "wire_seq w = initialSeq c + ucast (count c)" "wire_ssrc w = ssrc c"
proof -
  obtain rest where w: "w = rtp_header c now @ rest"
    using assms by (auto simp: codec_good_def wrap_layout)
  show "wire_seq w = initialSeq c + ucast (count c)" "wire_ssrc w = ssrc c"
    unfolding w wire_seq_def wire_ssrc_def rtp_header_fields by (rule Uint16_PutUint16 Uint32_PutUint32)+
qed

text \<open>A sequence of writes with their inputs, and the datagrams they hand to the socket.\<close>

type_synonym write_op = "codec_seed \<times> socket_writes \<times> time \<times> bytes \<times> bytes \<times> net_addr"

fun server_writes ::
  "(bytes \<Rightarrow> go_error + aead) \<Rightarrow> serverObfsConn \<Rightarrow> write_op list \<Rightarrow>
   serverObfsConn \<times> (bytes \<times> net_addr) list" where
  "server_writes chacha c [] = (c, [])"
| "server_writes chacha c ((rnd, sock, now, rawBuf, payload, addr) # ops) =
     (case server_WriteTo chacha rnd sock now rawBuf c payload addr of
        (_, c', sent) \<Rightarrow>
          (case server_writes chacha c' ops of (c'', sent') \<Rightarrow> (c'', sent @ sent')))"

definition sent_to :: "string \<Rightarrow> (bytes \<times> net_addr) list \<Rightarrow> bytes list" where
  "sent_to key sent = map fst (filter (\<lambda>(w, a). addr_String a = key) sent)"

text \<open>Every stored codec is usable: what \<open>newRTPCodec\<close> gives and \<open>wrap\<close> keeps.\<close>

definition conn_good :: "serverObfsConn \<Rightarrow> bool" where
  "conn_good c \<longleftrightarrow> (\<forall>key e. codecs c key = Some e \<longrightarrow> codec_good (rc_codec e))"

definition chacha_ok :: "(bytes \<Rightarrow> go_error + aead) \<Rightarrow> bool" where
  "chacha_ok chacha \<longleftrightarrow> (\<forall>key a. chacha key = Inr a \<longrightarrow> aead_laws a)"

lemma newRTPCodec_good:
  assumes "chacha_ok chacha" "newRTPCodec chacha key seed gen now = Inr c"
  shows "codec_good c" "count c = 0"
  using assms newRTPCodec_wf [of chacha key seed gen now c]
  by (auto simp: codec_good_def chacha_ok_def newRTPCodec_def split: sum.splits)

text \<open>
  The RTP flow towards an address, abstractly: its source id and the next sequence number. A
  write to the address sends the next packet of that flow and leaves every other flow alone.
\<close>

definition flow :: "serverObfsConn \<Rightarrow> string \<Rightarrow> (u32 \<times> u16) option" where
  "flow c key =
     map_option (\<lambda>e. (ssrc (rc_codec e), initialSeq (rc_codec e) + ucast (count (rc_codec e))))
       (codecs c key)"

fun numbered :: "u32 \<Rightarrow> u16 \<Rightarrow> bytes list \<Rightarrow> bool" where
  "numbered s q [] \<longleftrightarrow> True"
| "numbered s q (w # ws) \<longleftrightarrow> wire_ssrc w = s \<and> wire_seq w = q \<and> numbered s (q + 1) ws"

lemma codecFor_flow:
  assumes "chacha_ok chacha" "conn_good c" "codecFor chacha rnd now c addr = Inr (r, c1)"
  shows "codec_good r" "conn_good c1" "codecs c1 (addr_String addr) = Some \<lparr>rc_codec = r, lastUsed = now\<rparr>"
    "k \<noteq> addr_String addr \<Longrightarrow> codecs c1 k = codecs c k"
    "flow c (addr_String addr) = None \<or> flow c (addr_String addr) = flow c1 (addr_String addr)"
proof -
  let ?k = "addr_String addr"
  have "codec_good r \<and> conn_good c1 \<and> codecs c1 ?k = Some \<lparr>rc_codec = r, lastUsed = now\<rparr> \<and>
      (flow c ?k = None \<or> flow c ?k = flow c1 ?k) \<and> (\<forall>k. k \<noteq> ?k \<longrightarrow> codecs c1 k = codecs c k)"
  proof (cases "codecs c ?k")
    case None
    then show ?thesis
      using assms newRTPCodec_good [OF assms(1)]
      by (auto simp: codecFor_def Let_def conn_good_def flow_def split: sum.splits if_splits)
  next
    case (Some e)
    then have "codec_good (rc_codec e)" using assms(2) by (auto simp: conn_good_def)
    moreover have "e\<lparr>lastUsed := now\<rparr> = \<lparr>rc_codec = rc_codec e, lastUsed = now\<rparr>" by (cases e) simp
    ultimately show ?thesis
      using assms(2,3) Some
      by (auto simp: codecFor_def Let_def conn_good_def flow_def split: if_splits)
  qed
  then show "codec_good r" "conn_good c1"
    "codecs c1 (addr_String addr) = Some \<lparr>rc_codec = r, lastUsed = now\<rparr>"
    "k \<noteq> addr_String addr \<Longrightarrow> codecs c1 k = codecs c k"
    "flow c (addr_String addr) = None \<or> flow c (addr_String addr) = flow c1 (addr_String addr)"
    by auto
qed

lemma server_WriteTo_flow:
  assumes "chacha_ok chacha" "conn_good c" "length rawBuf = maxCodecWireBuffer"
    "server_WriteTo chacha rnd sock now rawBuf c payload addr = (res, c', sent)"
  shows "conn_good c'" "k \<noteq> addr_String addr \<Longrightarrow> flow c' k = flow c k"
    "sent = [] \<and> (flow c (addr_String addr) = None \<or> flow c' (addr_String addr) = flow c (addr_String addr)) \<or>
     (\<exists>w s q. sent = [(w, addr)] \<and> wire_ssrc w = s \<and> wire_seq w = q \<and>
        (flow c (addr_String addr) = None \<or> flow c (addr_String addr) = Some (s, q)) \<and>
        flow c' (addr_String addr) = Some (s, q + 1))"
proof -
  let ?k = "addr_String addr"
  let ?concl = "conn_good c' \<and> (\<forall>k. k \<noteq> ?k \<longrightarrow> flow c' k = flow c k) \<and>
    (sent = [] \<and> (flow c ?k = None \<or> flow c' ?k = flow c ?k) \<or>
     (\<exists>w s q. sent = [(w, addr)] \<and> wire_ssrc w = s \<and> wire_seq w = q \<and>
        (flow c ?k = None \<or> flow c ?k = Some (s, q)) \<and> flow c' ?k = Some (s, q + 1)))"
  have ?concl
  proof (cases "codecFor chacha rnd now c addr")
    case (Inl e)
    then show ?thesis using assms(2,4) by (simp add: server_WriteTo_def)
  next
    case (Inr rc)
    then obtain r c1 where "codecFor chacha rnd now c addr = Inr (r, c1)" by (cases rc) auto
    note cf = this codecFor_flow [OF assms(1,2) this]
    show ?thesis
    proof (cases "wrap r now rawBuf payload")
      case (Inl e)
      then have "c' = c1" "sent = []" using assms(4) cf(1) by (simp_all add: server_WriteTo_def)
      then show ?thesis using cf by (auto simp: flow_def)
    next
      case (Inr wc)
      then obtain w r' where w: "wrap r now rawBuf payload = Inr (w, r')" by (cases wc) auto
      then have c': "c' = c1\<lparr>codecs := (codecs c1)(?k \<mapsto> \<lparr>rc_codec = r', lastUsed = now\<rparr>)\<rparr>"
        and sent: "sent = [(w, addr)]"
        using assms(4) cf(1) by (auto simp: server_WriteTo_def Let_def split: option.splits)
      have keep: "codec_good r'" "ssrc r' = ssrc r" "initialSeq r' = initialSeq r" "count r' = count r + 1"
        using rtp.wrp_good [OF cf(2) assms(3) w] wrap_preserves [OF assms(3) _ w] cf(2)
        by (auto simp: codec_good_def)
      have fields: "wire_ssrc w = ssrc r" "wire_seq w = initialSeq r + ucast (count r)"
        using wire_fields [OF cf(2) assms(3) w] by auto
      have "flow c1 ?k = Some (ssrc r, initialSeq r + ucast (count r))" by (simp add: flow_def cf)
      moreover have "flow c' ?k = Some (ssrc r, initialSeq r + ucast (count r) + 1)"
        by (simp add: flow_def c' keep ucast_add_u16 add.assoc)
      moreover have "conn_good c'" using cf(3) keep(1)
        by (auto simp: c' conn_good_def split: if_splits)
      moreover have "\<forall>k. k \<noteq> ?k \<longrightarrow> flow c' k = flow c k" using cf(5) by (simp add: flow_def c')
      ultimately show ?thesis using sent fields cf(6) by auto
    qed
  qed
  then show "conn_good c'" "k \<noteq> ?k \<Longrightarrow> flow c' k = flow c k"
    "sent = [] \<and> (flow c ?k = None \<or> flow c' ?k = flow c ?k) \<or>
     (\<exists>w s q. sent = [(w, addr)] \<and> wire_ssrc w = s \<and> wire_seq w = q \<and>
        (flow c ?k = None \<or> flow c ?k = Some (s, q)) \<and> flow c' ?k = Some (s, q + 1))"
    by auto
qed

abbreviation pooled_ops :: "write_op list \<Rightarrow> bool" where
  "pooled_ops ops \<equiv> \<forall>(rnd, sock, now, rawBuf, payload, addr) \<in> set ops. length rawBuf = maxCodecWireBuffer"

lemma server_writes_numbered:
  assumes "chacha_ok chacha" "conn_good c" "pooled_ops ops" "server_writes chacha c ops = (c', sent)"
  shows "\<exists>s q. (flow c k = None \<or> flow c k = Some (s, q)) \<and> numbered s q (sent_to k sent)"
  using assms(2-4)
proof (induction ops arbitrary: c sent)
  case Nil
  then show ?case by (cases "flow c k") (auto simp: sent_to_def)
next
  case (Cons op ops)
  obtain rnd sock now rawBuf payload addr where op: "op = (rnd, sock, now, rawBuf, payload, addr)"
    by (cases op) auto
  obtain res c1 sent1 where w: "server_WriteTo chacha rnd sock now rawBuf c payload addr = (res, c1, sent1)"
    by (cases "server_WriteTo chacha rnd sock now rawBuf c payload addr") auto
  obtain sent2 where r: "server_writes chacha c1 ops = (c', sent2)" and sent: "sent = sent1 @ sent2"
    using Cons.prems(3) by (auto simp: op w split: prod.splits)
  have buf: "length rawBuf = maxCodecWireBuffer" using Cons.prems(2) op by auto
  note st = server_WriteTo_flow [OF assms(1) Cons.prems(1) buf w]
  obtain s q where IH: "flow c1 k = None \<or> flow c1 k = Some (s, q)" "numbered s q (sent_to k sent2)"
    using Cons.IH [OF st(1) _ r] Cons.prems(2) by auto
  show ?case
  proof (cases "sent1 = [] \<or> k \<noteq> addr_String addr")
    case True
    then have "sent_to k sent = sent_to k sent2" using st(3) by (auto simp: sent sent_to_def)
    moreover have "flow c k = None \<or> flow c k = flow c1 k" using st(2) [of k] st(3) True by (cases "k = addr_String addr") auto
    ultimately show ?thesis using IH by metis
  next
    case False
    then obtain w s' q' where "sent1 = [(w, addr)]" "wire_ssrc w = s'" "wire_seq w = q'"
      "flow c k = None \<or> flow c k = Some (s', q')" "flow c1 k = Some (s', q' + 1)"
      using st(3) by auto
    with IH False show ?thesis by (auto simp: sent sent_to_def)
  qed
qed

section \<open>Properties\<close>

definition demo_addr :: net_addr where
  "demo_addr = UDPAddr [192, 0, 2, 1] 3478 []"

lemma demo_packet:
  obtains w c' where "wrap demo_codec 5 (replicate maxCodecWireBuffer 1) [1, 2] = Inr (w, c')"
    "unwrap demo_codec (take maximumWirePacket w) = Inr [1, 2]"
proof -
  obtain w c' where w: "wrap demo_codec 5 (replicate maxCodecWireBuffer 1) [1, 2] = Inr (w, c')"
    using wrap_total [of "replicate maxCodecWireBuffer 1" demo_codec "[1, 2]" 5] by auto
  then show ?thesis
    using that unwrap_wrap [OF _ _ _ w, of demo_codec] wrap_wire_short [OF _ _ w] by simp
qed

lemma demo_junk: "unwrap c (take maximumWirePacket [9]) = Inl (New ''RTP wrapper: invalid packet length'')"
  by (simp add: unwrap_def obfs_consts)

text \<open>
  C10. The server receives exactly what a peer of the same key sends, in order, whatever foreign
  traffic reaches the port in between: when the datagrams the decoder accepts are the peer's
  wrapped packets, successive reads with a large enough buffer return its payloads and address,
  without an error.
\<close>

theorem server_receives_in_order:
  assumes "send_all wrap c ps = Inr (ws, c')" "codec_good c" "pooled ps"
    "codec_aead dec = codec_aead c" "filter (server_accepts dec) reads = map (\<lambda>w. Inr (w, addr)) ws"
    "\<forall>p \<in> set (payloads ps). length p \<le> cap"
  shows "\<exists>rest. read_calls (server_ReadFrom dec cap) (length ps) reads =
    Some (map (\<lambda>p. (p, Some addr, None)) (payloads ps), rest)"
proof -
  have u: "map (\<lambda>w. unwrap dec (take maximumWirePacket w)) ws = map Inr (payloads ps)"
    by (rule send_all_unwrap [OF assms(1-4)])
  then have "length ws = length ps" using map_eq_imp_length_eq by fastforce
  then show ?thesis
    using srv.read_calls_filter [of dec cap reads] server_outcomes [OF u assms(6), of addr] assms(5)
    by simp
qed

theorem server_receives_in_order_witness:
  "\<exists>w c' rest.
     send_all wrap demo_codec [(5, replicate maxCodecWireBuffer 1, [1, 2])] = Inr ([w], c') \<and>
     read_calls (server_ReadFrom demo_codec 1500) 1 [Inr ([9], demo_addr), Inr (w, demo_addr)] =
       Some ([([1, 2], Some demo_addr, None)], rest)"
proof -
  obtain w c' where w: "wrap demo_codec 5 (replicate maxCodecWireBuffer 1) [1, 2] = Inr (w, c')"
    "unwrap demo_codec (take maximumWirePacket w) = Inr [1, 2]"
    by (rule demo_packet)
  let ?ps = "[(5, replicate maxCodecWireBuffer 1, [1, 2])] :: (time \<times> bytes \<times> bytes) list"
  have run: "send_all wrap demo_codec ?ps = Inr ([w], c')" by (simp add: w)
  have "\<exists>rest. read_calls (server_ReadFrom demo_codec 1500) (length ?ps)
      [Inr ([9], demo_addr), Inr (w, demo_addr)]
      = Some (map (\<lambda>p. (p, Some demo_addr, None)) (payloads ?ps), rest)"
    by (rule server_receives_in_order [OF run]) (simp_all add: server_accepts_def demo_junk w)
  with run show ?thesis by auto
qed

text \<open>
  The client's connection is bound to its remote: a read that returns data returns the payload
  of a datagram that came from the remote and unwraps under the key, foreign datagrams before it
  are skipped, and a write to another address is refused without sending anything.
\<close>

lemma client_bound_to_remote:
  "(client_ReadFrom c cap reads = Some ((p, Some addr, None), rest) \<longleftrightarrow>
     (\<exists>junk d. reads = junk @ Inr (d, addr) # rest \<and> (\<forall>e \<in> set junk. \<not> client_accepts c e) \<and>
        samePacketAddress (Some addr) (Some (remote c)) \<and>
        unwrap (op_codec c) (take maximumWirePacket d) = Inr p \<and> length p \<le> cap)) \<and>
   (samePacketAddress (Some other) (Some (remote c)) \<or>
     client_WriteTo sock now rawBuf c payload other =
       (Inl (New ''call vk_parasite: unexpected DTLS destination''), c, []))"
proof -
  have "client_ReadFrom c cap reads = Some ((p, Some addr, None), rest) \<longleftrightarrow>
     (\<exists>junk d. reads = junk @ Inr (d, addr) # rest \<and> (\<forall>e \<in> set junk. \<not> client_accepts c e) \<and>
        samePacketAddress (Some addr) (Some (remote c)) \<and>
        unwrap (op_codec c) (take maximumWirePacket d) = Inr p \<and> length p \<le> cap)" (is "?L = ?R")
  proof
    assume ?L
    then show ?R
    proof (induction reads)
      case (Cons e reads)
      show ?case
      proof (cases "client_accepts c e")
        case True
        with Cons.prems show ?thesis
          by (intro exI [of _ "[]"] exI [of _ "fst (projr e)"])
            (auto simp: cli.rd_Cons client_accepts_def client_outcome_def Let_def
              split: sum.splits if_splits)
      next
        case False
        with Cons obtain junk d where "reads = junk @ Inr (d, addr) # rest"
          "\<forall>e \<in> set junk. \<not> client_accepts c e" "samePacketAddress (Some addr) (Some (remote c))"
          "unwrap (op_codec c) (take maximumWirePacket d) = Inr p" "length p \<le> cap"
          by (auto simp: cli.rd_Cons)
        with False show ?thesis by (intro exI [of _ "e # junk"] exI [of _ d]) simp
      qed
    qed simp
  next
    assume ?R
    then show ?L by (auto simp: cli.rd_skip)
  qed
  then show ?thesis by (simp add: client_WriteTo_def)
qed

lemma client_bound_to_remote_witness:
  "\<exists>w c' c. wrap demo_codec 5 (replicate maxCodecWireBuffer 1) [1, 2] = Inr (w, c') \<and>
     c = newObfsPacketConn demo_addr demo_codec \<and>
     client_ReadFrom c 1500 [Inr ([9], demo_addr), Inr (w, demo_addr)] =
       Some (([1, 2], Some demo_addr, None), [])"
proof -
  obtain w c' where w: "wrap demo_codec 5 (replicate maxCodecWireBuffer 1) [1, 2] = Inr (w, c')"
    "unwrap demo_codec (take maximumWirePacket w) = Inr [1, 2]"
    by (rule demo_packet)
  let ?c = "newObfsPacketConn demo_addr demo_codec"
  have "client_ReadFrom ?c 1500 [Inr ([9], demo_addr), Inr (w, demo_addr)] =
       Some (([1, 2], Some demo_addr, None), [])"
    unfolding client_bound_to_remote [of ?c, THEN conjunct1]
    by (intro exI [of _ "[Inr ([9], demo_addr)]"] exI [of _ w])
      (simp add: client_accepts_def newObfsPacketConn_def demo_junk w)
  with w(1) show ?thesis by blast
qed

text \<open>
  Each remote sees one gapless RTP flow: whatever the server writes to all its remotes in
  whatever order, the packets it hands to the socket for one address carry a single SSRC and
  consecutive sequence numbers.
\<close>

lemma server_flow_per_remote:
  assumes "newServerObfsConn chacha key rnd now = Inr c" "chacha_ok chacha" "pooled_ops ops"
    "server_writes chacha c ops = (c', sent)"
  shows "\<exists>s q. numbered s q (sent_to (addr_String addr) sent)"
proof -
  have "conn_good c" using assms(1) by (auto simp: newServerObfsConn_def conn_good_def split: sum.splits)
  then show ?thesis using server_writes_numbered [OF assms(2) _ assms(3,4)] by blast
qed

lemma server_flow_per_remote_witness:
  "\<exists>c c' sent. newServerObfsConn (\<lambda>_. Inr plain_aead) [] (Inr (replicate 10 1), Inr (sconst 0)) 0 = Inr c \<and>
     server_writes (\<lambda>_. Inr plain_aead) c
       [((Inr (replicate 10 1), Inr (sconst 0)), \<lambda>_ _. None, 3, replicate maxCodecWireBuffer 0, [1], demo_addr)]
       = (c', sent) \<and> length (sent_to (addr_String demo_addr) sent) = 1 \<and>
     (\<exists>s q. numbered s q (sent_to (addr_String demo_addr) sent))"
proof -
  let ?ch = "\<lambda>_ :: bytes. Inr plain_aead :: go_error + aead"
  let ?rnd = "(Inr (replicate 10 1), Inr (sconst 0)) :: codec_seed"
  let ?ops = "[(?rnd, \<lambda>_ _. None, 3, replicate maxCodecWireBuffer 0, [1], demo_addr)] :: write_op list"
  have ok: "chacha_ok ?ch" by (simp add: chacha_ok_def)
  obtain c where c: "newServerObfsConn ?ch [] ?rnd 0 = Inr c" and m: "codecs c = Map.empty"
    by (auto simp: newServerObfsConn_def newRTPCodec_def)
  obtain r where r: "newRTPCodec ?ch (conn_key c) (fst ?rnd) (snd ?rnd) 3 = Inr r"
    by (auto simp: newRTPCodec_def)
  obtain w r' where w: "wrap r 3 (replicate maxCodecWireBuffer 0) [1] = Inr (w, r')"
    using wrap_total [OF _ newRTPCodec_good(1) [OF ok r], of "replicate maxCodecWireBuffer 0" "[1]" 3]
    by auto
  obtain c' sent where run: "server_writes ?ch c ?ops = (c', sent)" by (cases "server_writes ?ch c ?ops")
  then have "sent = [(w, demo_addr)]"
    using r w by (auto simp: server_WriteTo_def codecFor_def m Let_def)
  moreover have "\<exists>s q. numbered s q (sent_to (addr_String demo_addr) sent)"
    by (rule server_flow_per_remote [OF c ok _ run]) simp
  ultimately show ?thesis using c run by (auto simp: sent_to_def)
qed

end
