(* ===== verification/Stream_Header.thy ===== *)
theory Stream_Header
  imports Prelude
begin

text \<open>
  The header that opens every tunnelled stream (\<open>transport/call/vk-parasite/stream_header.go\<close>):
  one byte for the kind and the destination address. The address type \<open>M.Socksaddr\<close> and its
  serializer belong to github.com/sagernet/sing, so both are parameters: a type variable and a
  record of the four operations the code calls.
\<close>

record 'd serializer =
  WriteAddrPort :: "'d \<Rightarrow> go_error + bytes"
  ReadAddrPort :: "bytes \<Rightarrow> go_error + 'd \<times> bytes"
  AddrPortLen :: "'d \<Rightarrow> nat"
  IsValid :: "'d \<Rightarrow> bool"

text \<open>
  What the transport relies on for an address: it serializes to at most 259 bytes (a type byte,
  a length byte, a 255-byte name and a port), the announced length is the length written, and
  reading takes exactly the written bytes off the front and returns the address.
\<close>

definition serializable :: "'d serializer \<Rightarrow> 'd \<Rightarrow> bool" where
  "serializable ser d \<longleftrightarrow>
     (\<exists>bs. WriteAddrPort ser d = Inr bs \<and> length bs = AddrPortLen ser d \<and> length bs \<le> 259 \<and>
        (\<forall>rest. ReadAddrPort ser (bs @ rest) = Inr (d, rest)))"

lemma serializableE:
  assumes "serializable ser d"
  obtains bs where "WriteAddrPort ser d = Inr bs" "length bs = AddrPortLen ser d" "length bs \<le> 259"
    "\<And>rest. ReadAddrPort ser (bs @ rest) = Inr (d, rest)"
  using assms unfolding serializable_def by blast

section \<open>Headers\<close>

definition streamKindTCP :: byte where "streamKindTCP = 0x01"
definition streamKindUDP :: byte where "streamKindUDP = 0x02"

definition errUnknownStreamKind :: go_error where
  "errUnknownStreamKind = New ''call vk_parasite: unknown stream kind''"
definition errInvalidAddress :: go_error where
  "errInvalidAddress = New ''call vk_parasite: invalid stream destination address''"

text \<open>
  \<open>writeStreamHeader\<close>: the error, if any, and the bytes that reached the writer. \<open>werr\<close> is the
  outcome of the first write; the second is part of the serializer.
\<close>

definition writeStreamHeader ::
  "'d serializer \<Rightarrow> go_error option \<Rightarrow> byte \<Rightarrow> 'd \<Rightarrow> go_error option \<times> bytes" where
  "writeStreamHeader ser werr kind dest =
     (if kind \<noteq> streamKindTCP \<and> kind \<noteq> streamKindUDP then
        (Some (Errorf ''%w: %d'' errUnknownStreamKind), [])
      else if \<not> IsValid ser dest then (Some errInvalidAddress, [])
      else case werr of Some e \<Rightarrow> (Some e, [])
      | None \<Rightarrow>
          (case WriteAddrPort ser dest of
             Inl e \<Rightarrow> (Some e, [kind])
           | Inr bs \<Rightarrow> (None, kind # bs)))"

definition readStreamHeader :: "'d serializer \<Rightarrow> bytes \<Rightarrow> go_error + (byte \<times> 'd) \<times> bytes" where
  "readStreamHeader ser r =
     (case ReadFull 1 r of Inl e \<Rightarrow> Inl e
      | Inr (kindBuf, r) \<Rightarrow>
          let kind = kindBuf ! 0 in
          if kind \<noteq> streamKindTCP \<and> kind \<noteq> streamKindUDP then
            Inl (Errorf ''%w: %d'' errUnknownStreamKind)
          else
            (case ReadAddrPort ser r of Inl e \<Rightarrow> Inl e
             | Inr (dest, r) \<Rightarrow> Inr ((kind, dest), r)))"

definition header_enc :: "'d serializer \<Rightarrow> byte \<times> 'd \<Rightarrow> bytes \<Rightarrow> bool" where
  "header_enc ser m f \<longleftrightarrow>
     serializable ser (snd m) \<and> writeStreamHeader ser None (fst m) (snd m) = (None, f)"

interpretation stream_header: framed "header_enc ser" "readStreamHeader ser" id for ser
proof
  fix m :: "byte \<times> 'a" and f rest
  assume "header_enc ser m f"
  then obtain bs where "serializable ser (snd m)" and w: "WriteAddrPort ser (snd m) = Inr bs"
    and f: "f = fst m # bs" and k: "fst m = streamKindTCP \<or> fst m = streamKindUDP"
    by (auto simp: header_enc_def writeStreamHeader_def split: if_splits sum.splits)
  then have "ReadAddrPort ser (bs @ rest) = Inr (snd m, rest)"
    by (auto elim: serializableE)
  then show "readStreamHeader ser (f @ rest) = Inr (id m, rest)"
    using k by (cases m) (auto simp: f readStreamHeader_def ReadFull_def)
qed

text \<open>A serializer that meets the assumptions, for the witnesses: a port number in two bytes.\<close>

definition port_serializer :: "u16 serializer" where
  "port_serializer = \<lparr>WriteAddrPort = (\<lambda>d. Inr (PutUint16 d)),
     ReadAddrPort = (\<lambda>bs. map_sum id (\<lambda>(xs, ys). (Uint16 xs, ys)) (ReadFull 2 bs)),
     AddrPortLen = (\<lambda>_. 2), IsValid = (\<lambda>_. True)\<rparr>"

lemma port_serializable [simp]: "serializable port_serializer d"
proof -
  have "ReadFull 2 (PutUint16 d @ rest) = Inr (PutUint16 d, rest)" for rest
    by (rule ReadFull_append) simp
  then show ?thesis by (simp add: serializable_def port_serializer_def)
qed

lemma port_valid [simp]: "IsValid port_serializer d"
  by (simp add: port_serializer_def)

text \<open>
  Stream headers are self-delimiting: the header the opener writes for a destination is read
  back by the other side as the same kind and destination, and the stream's data after it is
  left untouched.
\<close>

lemma stream_header_roundtrip:
  assumes "serializable ser dest" "writeStreamHeader ser None kind dest = (None, f)"
  shows "readStreamHeader ser (f @ payload) = Inr ((kind, dest), payload)"
  using stream_header.read_enc [of ser "(kind, dest)" f payload] assms by (simp add: header_enc_def)

lemma stream_header_roundtrip_witness:
  "\<exists>f. writeStreamHeader port_serializer None streamKindUDP 443 = (None, f) \<and>
     readStreamHeader port_serializer (f @ [1, 2]) = Inr ((streamKindUDP, 443), [1, 2])"
proof -
  have "writeStreamHeader port_serializer None streamKindUDP 443 = (None, streamKindUDP # PutUint16 443)"
    by (simp add: writeStreamHeader_def port_serializer_def)
  then show ?thesis using stream_header_roundtrip [of port_serializer 443 streamKindUDP _ "[1, 2]"] by simp
qed

end
