(* ===== verification/Datagram.thy ===== *)
theory Datagram
  imports Stream_Header Obfs
begin

text \<open>
  UDP over QUIC datagrams (\<open>transport/call/vk-parasite/datagram.go\<close>): the frame format,
  fragmentation in \<open>Write\<close> and reassembly in \<open>deliverFragment\<close>, for one association. QUIC datagrams
  may be lost, duplicated and reordered. The router that maps identifiers to associations is in
  the theory \<open>Datagram_Router\<close>.
\<close>

section \<open>Constants\<close>

definition maxDatagramFragments :: nat where "maxDatagramFragments = 255"
definition datagramFragmentHeader :: nat where "datagramFragmentHeader = 2"
definition datagramAssocIDReserve :: nat where "datagramAssocIDReserve = 4"
definition datagramPacketIDReserve :: nat where "datagramPacketIDReserve = 5"
definition maxDatagramPayload :: nat where "maxDatagramPayload = 65535"
definition maxPendingDatagrams :: nat where "maxPendingDatagrams = 16"
definition datagramReassemblyTimeout :: duration where "datagramReassemblyTimeout = 5 * Second"
definition datagramReceiveQueue :: nat where "datagramReceiveQueue = 256"

lemmas datagram_consts = maxDatagramFragments_def datagramFragmentHeader_def
  datagramAssocIDReserve_def datagramPacketIDReserve_def maxDatagramPayload_def
  maxPendingDatagrams_def datagramReassemblyTimeout_def datagramReceiveQueue_def

definition errDatagramTooLarge :: go_error where
  "errDatagramTooLarge = New ''call vk_parasite: UDP datagram is too large for the datagram path''"
definition errDatagramNoBudget :: go_error where
  "errDatagramNoBudget = New ''call vk_parasite: datagram header leaves no room for payload''"
definition errDatagramMalformed :: go_error where
  "errDatagramMalformed = New ''call vk_parasite: malformed datagram fragment header''"
definition errAssociationClosed :: go_error where
  "errAssociationClosed = New ''call vk_parasite: datagram association closed''"
definition errAssociationNoTunnel :: go_error where
  "errAssociationNoTunnel = New ''call vk_parasite: QUIC connection is nil''"

section \<open>Frames\<close>

record 'd datagramFrame =
  associationID :: u64
  frame_destination :: 'd
  packetID :: u64
  frame_total :: byte
  frame_index :: byte
  fragment :: bytes

definition parseDatagramFrame :: "'d serializer \<Rightarrow> bytes \<Rightarrow> go_error + 'd datagramFrame" where
  "parseDatagramFrame ser raw =
     (case ReadUvarint raw of Inl e \<Rightarrow> Inl e
      | Inr (aid, reader) \<Rightarrow>
     (case ReadAddrPort ser reader of Inl e \<Rightarrow> Inl e
      | Inr (dest, reader) \<Rightarrow>
     (case ReadUvarint reader of Inl e \<Rightarrow> Inl e
      | Inr (pid, reader) \<Rightarrow>
     (case ReadFull datagramFragmentHeader reader of Inl e \<Rightarrow> Inl e
      | Inr (fragmentHeader, reader) \<Rightarrow>
          if fragmentHeader ! 0 = 0 \<or> fragmentHeader ! 0 \<le> fragmentHeader ! 1 then
            Inl errDatagramMalformed
          else Inr \<lparr>associationID = aid, frame_destination = dest, packetID = pid,
                 frame_total = fragmentHeader ! 0, frame_index = fragmentHeader ! 1,
                 fragment = reader\<rparr>))))"

section \<open>Associations\<close>

text \<open>
  \<open>pendingDatagram\<close>: a fragment slot is \<open>None\<close> while it is nil. \<open>recvQueue\<close> is the buffered channel,
  \<open>assoc_closed\<close> whether the channel \<open>closed\<close> is closed, \<open>assoc_conn\<close> the identity of the QUIC
  connection (\<open>None\<close> for nil). The scratch buffer \<open>header\<close> is rebuilt by every call that reads it
  and is not part of the state.
\<close>

record pendingDatagram =
  pd_packetID :: u64
  pd_total :: byte
  remaining :: byte
  pd_size :: nat
  fragments :: "bytes option list"
  expiresAt :: time

record 'd datagramAssociation =
  assoc_id :: u64
  assoc_conn :: "nat option"
  destination :: 'd
  recvQueue :: "bytes list"
  assoc_closed :: bool
  nextPacket :: u64
  headerBase :: "bytes option"
  pending :: "pendingDatagram list"

definition newDatagramAssociation :: "u64 \<Rightarrow> nat option \<Rightarrow> 'd \<Rightarrow> 'd datagramAssociation" where
  "newDatagramAssociation i conn dest =
     \<lparr>assoc_id = i, assoc_conn = conn, destination = dest, recvQueue = [], assoc_closed = False,
      nextPacket = 0, headerBase = None, pending = []\<rparr>"

text \<open>
  \<open>deliver\<close>: Go's \<open>select\<close> picks any ready case, so with room in the queue of a closed association
  either may be taken; \<open>pick\<close> is that choice.
\<close>

definition deliver :: "bool \<Rightarrow> 'd datagramAssociation \<Rightarrow> bytes \<Rightarrow> 'd datagramAssociation" where
  "deliver pick a payload =
     (if length (recvQueue a) < datagramReceiveQueue \<and> (assoc_closed a \<longrightarrow> pick)
      then a\<lparr>recvQueue := recvQueue a @ [payload]\<rparr> else a)"

text \<open>\<open>Read\<close> into \<open>cap\<close> bytes: \<open>None\<close> while it blocks.\<close>

definition assoc_Read ::
  "bool \<Rightarrow> 'd datagramAssociation \<Rightarrow> nat \<Rightarrow>
   ((bytes \<times> go_error option) \<times> 'd datagramAssociation) option" where
  "assoc_Read pick a cap =
     (case recvQueue a of
        payload # rest \<Rightarrow>
          if assoc_closed a \<and> \<not> pick then Some (([], Some EOF), a)
          else if cap < length payload
          then Some ((take cap payload, Some ShortBuffer), a\<lparr>recvQueue := rest\<rparr>)
          else Some ((payload, None), a\<lparr>recvQueue := rest\<rparr>)
      | [] \<Rightarrow> if assoc_closed a then Some (([], Some EOF), a) else None)"

section \<open>Reassembly\<close>

text \<open>The position of the last candidate with the identifier, as the loop leaves \<open>found\<close>.\<close>

fun find_packet :: "u64 \<Rightarrow> pendingDatagram list \<Rightarrow> nat option" where
  "find_packet pid [] = None"
| "find_packet pid (c # cs) =
     (case find_packet pid cs of
        Some i \<Rightarrow> Some (Suc i)
      | None \<Rightarrow> if pd_packetID c = pid then Some 0 else None)"

definition oldest_pending :: "pendingDatagram list \<Rightarrow> nat" where
  "oldest_pending ps =
     foldl (\<lambda>oldest i. if expiresAt (ps ! i) < expiresAt (ps ! oldest) then i else oldest) 0
       [1..<length ps]"

definition remove_at :: "nat \<Rightarrow> 'a list \<Rightarrow> 'a list" where
  "remove_at i xs = take i xs @ drop (i + 1) xs"

text \<open>
  \<open>pendingFor\<close>: the position in \<open>pending\<close> of the assembler for a packet, and the new list. The
  assembler is shared with the list, so callers update it in place at that position.
\<close>

definition pendingFor ::
  "'d datagramAssociation \<Rightarrow> u64 \<Rightarrow> byte \<Rightarrow> time \<Rightarrow> nat option \<times> 'd datagramAssociation" where
  "pendingFor a pid tot now =
     (let kept = filter (\<lambda>c. pd_packetID c = pid \<or> now < expiresAt c) (pending a) in
      case find_packet pid kept of
        Some i \<Rightarrow>
          ((if pd_total (kept ! i) \<noteq> tot then None else Some i), a\<lparr>pending := kept\<rparr>)
      | None \<Rightarrow>
          let kept = (if maxPendingDatagrams \<le> length kept
                      then remove_at (oldest_pending kept) kept else kept);
              created = \<lparr>pd_packetID = pid, pd_total = tot, remaining = tot, pd_size = 0,
                         fragments = replicate (unat tot) None,
                         expiresAt = now + datagramReassemblyTimeout\<rparr>
          in (Some (length kept), a\<lparr>pending := kept @ [created]\<rparr>))"

fun dropPending :: "u64 \<Rightarrow> pendingDatagram list \<Rightarrow> pendingDatagram list" where
  "dropPending pid [] = []"
| "dropPending pid (c # cs) = (if pd_packetID c \<noteq> pid then c # dropPending pid cs else cs)"

definition deliverFragment ::
  "'d datagramAssociation \<Rightarrow> time \<Rightarrow> 'd datagramFrame \<Rightarrow> 'd datagramAssociation" where
  "deliverFragment a now frame =
     (if assoc_closed a then a
      else if frame_total frame = 1 then deliver False a (fragment frame)
      else
      case pendingFor a (packetID frame) (frame_total frame) now of
        (None, a) \<Rightarrow> a
      | (Some i, a) \<Rightarrow>
          let p = pending a ! i; k = unat (frame_index frame) in
          if fragments p ! k \<noteq> None then a
          else
          let p = p\<lparr>fragments := (fragments p)[k := Some (fragment frame)],
                    pd_size := pd_size p + length (fragment frame),
                    remaining := remaining p - 1\<rparr>;
              a = a\<lparr>pending := (pending a)[i := p]\<rparr> in
          if maxDatagramPayload < pd_size p then
            a\<lparr>pending := dropPending (packetID frame) (pending a)\<rparr>
          else if 0 < remaining p then a
          else
          let payload = concat (map (case_option [] id) (fragments p)) in
          deliver False (a\<lparr>pending := dropPending (packetID frame) (pending a)\<rparr>) payload)"

section \<open>Writing\<close>

definition framePrefixReserve :: "'d serializer \<Rightarrow> 'd datagramAssociation \<Rightarrow> nat" where
  "framePrefixReserve ser a =
     datagramAssocIDReserve + AddrPortLen ser (destination a) + datagramPacketIDReserve"

definition fragmentBudget :: "'d serializer \<Rightarrow> 'd datagramAssociation \<Rightarrow> int" where
  "fragmentBudget ser a =
     int maxDatagramFramePayload - int (framePrefixReserve ser a) - int datagramFragmentHeader"

text \<open>
  \<open>framePrefix\<close>: identifier and destination are encoded once and kept, the packet number is
  counted up and appended.
\<close>

definition framePrefix ::
  "'d serializer \<Rightarrow> 'd datagramAssociation \<Rightarrow> (go_error + bytes) \<times> 'd datagramAssociation" where
  "framePrefix ser a =
     (case (case headerBase a of
              Some base \<Rightarrow> Inr base
            | None \<Rightarrow>
                (case WriteAddrPort ser (destination a) of
                   Inl e \<Rightarrow> Inl e
                 | Inr bs \<Rightarrow> Inr (PutUvarint (assoc_id a) @ bs))) of
        Inl e \<Rightarrow> (Inl e, a)
      | Inr base \<Rightarrow>
          let pid = nextPacket a + 1 in
          (Inr (base @ PutUvarint pid), a\<lparr>headerBase := Some base, nextPacket := pid\<rparr>))"

text \<open>
  The loop over the fragments from \<open>index\<close> on, \<open>n\<close> of them left: \<open>send\<close> is the outcome of
  \<open>SendDatagram\<close>; the result is the error that stopped the loop and the datagrams sent.
\<close>

fun writeFragments ::
  "(nat \<Rightarrow> bytes \<Rightarrow> go_error option) \<Rightarrow> bytes \<Rightarrow> nat \<Rightarrow> nat \<Rightarrow> bytes \<Rightarrow> nat \<Rightarrow> nat \<Rightarrow>
   go_error option \<times> bytes list" where
  "writeFragments send pre tot budget p index 0 = (None, [])"
| "writeFragments send pre tot budget p index (Suc n) =
     (let start = index * budget;
          end' = (if length p < start + budget then length p else start + budget);
          packet = pre @ [word_of_nat tot, word_of_nat index] @ slice start end' p in
      case send index packet of
        Some e \<Rightarrow> (Some e, [])
      | None \<Rightarrow>
          (case writeFragments send pre tot budget p (index + 1) n of
             (r, packets) \<Rightarrow> (r, packet # packets)))"

definition assoc_Write ::
  "'d serializer \<Rightarrow> (nat \<Rightarrow> bytes \<Rightarrow> go_error option) \<Rightarrow> 'd datagramAssociation \<Rightarrow> bytes \<Rightarrow>
   (go_error + nat) \<times> 'd datagramAssociation \<times> bytes list" where
  "assoc_Write ser send a p =
     (if assoc_conn a = None then (Inl errAssociationNoTunnel, a, [])
      else if assoc_closed a then (Inl errAssociationClosed, a, [])
      else if maxDatagramPayload < length p then
        (Inl (Errorf ''%w: %d bytes for %s'' errDatagramTooLarge), a, [])
      else
      case framePrefix ser a of
        (Inl e, a) \<Rightarrow> (Inl e, a, [])
      | (Inr pre, a) \<Rightarrow>
          if framePrefixReserve ser a < length pre then
            (Inl (Errorf ''%w: %s'' errDatagramNoBudget), a, [])
          else if fragmentBudget ser a < 1 then
            (Inl (Errorf ''%w: %s'' errDatagramNoBudget), a, [])
          else
          let budget = nat (fragmentBudget ser a);
              tot = (if budget < length p then (length p + budget - 1) div budget else 1) in
          if maxDatagramFragments < tot then
            (Inl (Errorf ''%w: %d bytes for %s'' errDatagramTooLarge), a, [])
          else
          (case writeFragments send pre tot budget p 0 tot of
             (Some e, sent) \<Rightarrow> (Inl e, a, sent)
           | (None, sent) \<Rightarrow> (Inr (length p), a, sent)))"

section \<open>Fragments of a datagram\<close>

definition frag_count :: "nat \<Rightarrow> bytes \<Rightarrow> nat" where
  "frag_count budget p =
     (if budget < length p then (length p + budget - 1) div budget else 1)"

definition frag :: "nat \<Rightarrow> bytes \<Rightarrow> nat \<Rightarrow> bytes" where
  "frag budget p i = take budget (drop (i * budget) p)"

lemma concat_frag: "concat (map (frag b p) [0..<n]) = take (n * b) p"
proof (induction n)
  case (Suc n)
  have "take (n * b + b) p = take (n * b) p @ take b (drop (n * b) p)" by (rule take_add)
  with Suc show ?case by (simp add: frag_def add.commute)
qed simp

lemma frag_count_covers:
  assumes "0 < b"
  shows "length p \<le> frag_count b p * b" "1 \<le> frag_count b p"
proof -
  have "length p \<le> (length p + b - 1) div b * b" if "b < length p"
  proof -
    have "length p + b - 1 = (length p + b - 1) div b * b + (length p + b - 1) mod b" by simp
    moreover have "(length p + b - 1) mod b < b" using assms by simp
    ultimately show ?thesis by linarith
  qed
  moreover have "1 \<le> (length p + b - 1) div b" if "b < length p"
    using that assms by (simp add: Suc_le_eq div_greater_zero_iff)
  ultimately show "length p \<le> frag_count b p * b" "1 \<le> frag_count b p"
    by (auto simp: frag_count_def)
qed

lemma concat_all_frags: "0 < b \<Longrightarrow> concat (map (frag b p) [0..<frag_count b p]) = p"
  using frag_count_covers(1) [of b p] by (simp add: concat_frag)

lemma frag_count_bound:
  assumes "length p \<le> 65535" "1013 \<le> b"
  shows "frag_count b p \<le> 65"
proof -
  have "length p + b - 1 < 66 * b" using assms by simp
  then have "(length p + b - 1) div b < 66" by (rule less_mult_imp_div_less)
  then show ?thesis by (simp add: frag_count_def)
qed

lemma slice_frag:
  "slice (i * b) (if length p < i * b + b then length p else i * b + b) p = frag b p i"
  by (auto simp: slice_def frag_def)

lemma writeFragments_sent:
  assumes "\<And>i q. send i q = None"
  shows "writeFragments send pre tot b p index n =
    (None, map (\<lambda>i. pre @ [word_of_nat tot, word_of_nat i] @ frag b p i) [index..<index + n])"
proof (induction n arbitrary: index)
  case (Suc n)
  have "[index..<index + Suc n] = index # [Suc index..<Suc index + n]"
    by (simp add: upt_conv_Cons)
  with Suc [of "Suc index"] show ?case
    by (simp add: assms slice_frag Let_def del: upt_Suc)
qed simp

section \<open>The frames a write sends\<close>

text \<open>The cached header is the encoding of the identifier and the destination.\<close>

definition tx_inv :: "'d serializer \<Rightarrow> 'd datagramAssociation \<Rightarrow> bool" where
  "tx_inv ser a \<longleftrightarrow>
     (case headerBase a of None \<Rightarrow> True
      | Some base \<Rightarrow> \<exists>bs. WriteAddrPort ser (destination a) = Inr bs \<and> base = PutUvarint (assoc_id a) @ bs)"

lemma tx_inv_new [simp]: "tx_inv ser (newDatagramAssociation i conn dest)"
  by (simp add: tx_inv_def newDatagramAssociation_def)

definition mk_frame :: "'d datagramAssociation \<Rightarrow> u64 \<Rightarrow> nat \<Rightarrow> nat \<Rightarrow> bytes \<Rightarrow> nat \<Rightarrow> 'd datagramFrame" where
  "mk_frame a pid tot b p i =
     \<lparr>associationID = assoc_id a, frame_destination = destination a, packetID = pid,
      frame_total = word_of_nat tot, frame_index = word_of_nat i, fragment = frag b p i\<rparr>"

lemma parse_frame:
  assumes "\<And>rest. ReadAddrPort ser (bs @ rest) = Inr (d, rest)" "t \<noteq> 0" "i < t"
  shows "parseDatagramFrame ser ((PutUvarint aid @ bs) @ PutUvarint pid @ [t, i] @ f) =
    Inr \<lparr>associationID = aid, frame_destination = d, packetID = pid, frame_total = t,
         frame_index = i, fragment = f\<rparr>"
proof -
  have "ReadFull datagramFragmentHeader ([t, i] @ f) = Inr ([t, i], f)"
    by (rule ReadFull_append) (simp add: datagram_consts)
  with assms show ?thesis
    by (simp add: parseDatagramFrame_def not_less [symmetric] del: append_assoc)
       (simp add: parseDatagramFrame_def not_less [symmetric])
qed

lemma small_bytes:
  assumes "i < n" "n \<le> 255"
  shows "(word_of_nat n :: byte) \<noteq> 0" "(word_of_nat i :: byte) < word_of_nat n"
    "unat (word_of_nat n :: byte) = n" "unat (word_of_nat i :: byte) = i"
proof -
  show u: "unat (word_of_nat n :: byte) = n" "unat (word_of_nat i :: byte) = i"
    using assms by simp_all
  show "(word_of_nat n :: byte) \<noteq> 0"
  proof
    assume "(word_of_nat n :: byte) = 0"
    then have "unat (word_of_nat n :: byte) = 0" by (simp only: unsigned_0)
    with u(1) assms show False by linarith
  qed
  show "(word_of_nat i :: byte) < word_of_nat n" using u assms by (simp add: word_less_nat_alt)
qed

text \<open>
  An open association whose counters are within the reserves of the header: every datagram of up
  to 65535 bytes is written.
\<close>

definition writable :: "'d serializer \<Rightarrow> 'd datagramAssociation \<Rightarrow> bool" where
  "writable ser a \<longleftrightarrow>
     assoc_conn a \<noteq> None \<and> \<not> assoc_closed a \<and> tx_inv ser a \<and> serializable ser (destination a) \<and>
     unat (assoc_id a) < 2 ^ 28 \<and> unat (nextPacket a) + 1 < 2 ^ 35"

abbreviation budget_of :: "'d serializer \<Rightarrow> 'd datagramAssociation \<Rightarrow> nat" where
  "budget_of ser a \<equiv> nat (fragmentBudget ser a)"

lemma budget_bounds:
  assumes "serializable ser (destination a)"
  shows "int (budget_of ser a) = fragmentBudget ser a" "1013 \<le> budget_of ser a"
    "budget_of ser a + framePrefixReserve ser a + 2 = maxDatagramFramePayload"
proof -
  have "AddrPortLen ser (destination a) \<le> 259" using assms by (auto elim: serializableE)
  then show "int (budget_of ser a) = fragmentBudget ser a" "1013 \<le> budget_of ser a"
    "budget_of ser a + framePrefixReserve ser a + 2 = maxDatagramFramePayload"
    by (simp_all add: fragmentBudget_def framePrefixReserve_def datagram_consts mtu_consts)
qed

lemma framePrefix_ok:
  assumes "writable ser a" "WriteAddrPort ser (destination a) = Inr bs"
  shows "framePrefix ser a =
      (Inr ((PutUvarint (assoc_id a) @ bs) @ PutUvarint (nextPacket a + 1)),
       a\<lparr>headerBase := Some (PutUvarint (assoc_id a) @ bs), nextPacket := nextPacket a + 1\<rparr>)"
    and "length ((PutUvarint (assoc_id a) @ bs) @ PutUvarint (nextPacket a + 1)) \<le> framePrefixReserve ser a"
proof -
  show "framePrefix ser a =
      (Inr ((PutUvarint (assoc_id a) @ bs) @ PutUvarint (nextPacket a + 1)),
       a\<lparr>headerBase := Some (PutUvarint (assoc_id a) @ bs), nextPacket := nextPacket a + 1\<rparr>)"
    using assms by (auto simp: writable_def tx_inv_def framePrefix_def Let_def split: option.splits)
  have "unat (nextPacket a + 1) = unat (nextPacket a) + 1"
    using assms(1) by (simp add: writable_def unat_word_ariths)
  then have "length (PutUvarint (nextPacket a + 1)) \<le> 5"
    using assms(1) by (intro length_uvarint_bytes) (simp_all add: writable_def)
  moreover have "length (PutUvarint (assoc_id a)) \<le> 4"
    using assms(1) by (intro length_uvarint_bytes) (simp_all add: writable_def)
  moreover have "length bs = AddrPortLen ser (destination a)"
    using assms by (auto simp: writable_def elim: serializableE)
  ultimately show "length ((PutUvarint (assoc_id a) @ bs) @ PutUvarint (nextPacket a + 1)) \<le> framePrefixReserve ser a"
    by (simp add: framePrefixReserve_def datagram_consts)
qed

lemma assoc_Write_sent:
  assumes "writable ser a" "length p \<le> 65535" "\<And>i q. send i q = None"
  defines "b \<equiv> budget_of ser a" and "n \<equiv> frag_count (budget_of ser a) p"
  obtains a' raws where "assoc_Write ser send a p = (Inr (length p), a', raws)"
    "map (parseDatagramFrame ser) raws = map (Inr \<circ> mk_frame a (nextPacket a + 1) n b p) [0..<n]"
    "\<forall>r \<in> set raws. length r \<le> maxDatagramFramePayload"
    "nextPacket a' = nextPacket a + 1" "tx_inv ser a'" "assoc_id a' = assoc_id a"
    "destination a' = destination a" "n \<le> 65"
proof -
  obtain bs where bs: "WriteAddrPort ser (destination a) = Inr bs"
    "\<And>rest. ReadAddrPort ser (bs @ rest) = Inr (destination a, rest)"
    using assms(1) by (auto simp: writable_def elim: serializableE)
  have ser: "serializable ser (destination a)" using assms(1) by (simp add: writable_def)
  note bud = budget_bounds [OF ser, folded b_def]
  have n: "n \<le> 65" unfolding n_def using assms(2) bud(2) by (intro frag_count_bound) (simp_all add: b_def)
  let ?pre = "(PutUvarint (assoc_id a) @ bs) @ PutUvarint (nextPacket a + 1)"
  let ?a' = "a\<lparr>headerBase := Some (PutUvarint (assoc_id a) @ bs), nextPacket := nextPacket a + 1\<rparr>"
  let ?raw = "\<lambda>i. ?pre @ [word_of_nat n, word_of_nat i] @ frag b p i"
  note pre = framePrefix_ok [OF assms(1) bs(1)]
  have same: "framePrefixReserve ser ?a' = framePrefixReserve ser a" "fragmentBudget ser ?a' = fragmentBudget ser a"
    by (simp_all add: framePrefixReserve_def fragmentBudget_def)
  have open': "assoc_conn a \<noteq> None" "\<not> assoc_closed a" using assms(1) by (simp_all add: writable_def)
  have small: "\<not> maxDatagramFragments < n" "\<not> maxDatagramPayload < length p" "\<not> fragmentBudget ser a < 1"
    using n assms(2) bud by (simp_all add: datagram_consts)
  have nd: "(if b < length p then (length p + b - 1) div b else 1) = n"
    by (simp add: n_def b_def frag_count_def)
  have "assoc_Write ser send a p = (Inr (length p), ?a', map ?raw [0..<n])"
    using open' small pre
    by (simp add: assoc_Write_def same b_def [symmetric] nd Let_def writeFragments_sent [OF assms(3)])
  moreover have "parseDatagramFrame ser (?raw i) = Inr (mk_frame a (nextPacket a + 1) n b p i)" if "i < n" for i
    using parse_frame [OF bs(2) small_bytes(1,2) [of i n]] that n by (simp add: mk_frame_def)
  then have "map (parseDatagramFrame ser) (map ?raw [0..<n]) = map (Inr \<circ> mk_frame a (nextPacket a + 1) n b p) [0..<n]"
    by simp
  moreover have "\<forall>r \<in> set (map ?raw [0..<n]). length r \<le> maxDatagramFramePayload"
    using pre(2) bud(3) by (auto simp: frag_def)
  moreover have "tx_inv ser ?a'" using bs(1) by (simp add: tx_inv_def)
  ultimately show ?thesis using n by (intro that [of ?a' "map ?raw [0..<n]"]) (assumption | simp)+
qed

end
