(* ===== verification/Datagram_Reassembly.thy ===== *)
theory Datagram_Reassembly
  imports Datagram "HOL-Library.Multiset"
begin

text \<open>
  Reassembly of fragmented datagrams in \<open>deliverFragment\<close>, over arbitrary arrivals: the
  invariant of the pending list, that nothing but sent datagrams is ever delivered, and that a
  datagram whose fragments all arrive in time is delivered whatever their order and whatever
  arrives in between.
\<close>

section \<open>The pending list\<close>

abbreviation ids :: "pendingDatagram list \<Rightarrow> u64 list" where
  "ids L \<equiv> map pd_packetID L"

lemma find_packet_None: "find_packet pid cs = None \<longleftrightarrow> pid \<notin> set (ids cs)"
  by (induction cs) (auto split: option.splits)

lemma find_packet_Some:
  "find_packet pid cs = Some i \<Longrightarrow> i < length cs \<and> pd_packetID (cs ! i) = pid"
  by (induction cs arbitrary: i) (auto split: option.splits if_splits)

lemma set_remove_at: "set (remove_at i xs) \<subseteq> set xs"
  by (auto simp: remove_at_def dest: in_set_takeD in_set_dropD)

lemma distinct_remove_at: "distinct (map f xs) \<Longrightarrow> distinct (map f (remove_at i xs))"
proof -
  assume "distinct (map f xs)"
  moreover have "map f (remove_at i xs) = take i (map f xs) @ drop (Suc i) (map f xs)"
    by (simp add: remove_at_def take_map drop_map)
  ultimately show ?thesis
    using set_take_disj_set_drop_if_distinct [of "map f xs" i "Suc i"] by simp
qed

lemma length_remove_at: "i < length xs \<Longrightarrow> length (remove_at i xs) = length xs - 1"
  by (simp add: remove_at_def)

text \<open>Eviction takes an entry that expires first.\<close>

lemma oldest_pending_min:
  assumes "ps \<noteq> []"
  shows "oldest_pending ps < length ps \<and> (\<forall>j < length ps. expiresAt (ps ! oldest_pending ps) \<le> expiresAt (ps ! j))"
proof -
  define g where "g = (\<lambda>oldest i. if expiresAt (ps ! i) < expiresAt (ps ! oldest) then i else oldest)"
  have "foldl g 0 [1..<n] < n \<and> (\<forall>j < n. expiresAt (ps ! foldl g 0 [1..<n]) \<le> expiresAt (ps ! j))"
    if "0 < n" for n
    using that
  proof (induction n)
    case (Suc n)
    show ?case
    proof (cases "n = 0")
      case False
      then have IH: "foldl g 0 [1..<n] < n"
        "\<forall>j < n. expiresAt (ps ! foldl g 0 [1..<n]) \<le> expiresAt (ps ! j)"
        using Suc.IH by auto
      have "foldl g 0 [1..<Suc n] = g (foldl g 0 [1..<n]) n" using False by simp
      with IH show ?thesis by (auto simp: g_def less_Suc_eq)
    qed simp
  qed simp
  then show ?thesis using assms by (simp add: oldest_pending_def g_def)
qed

lemma dropPending_filter:
  "distinct (ids L) \<Longrightarrow> dropPending pid L = filter (\<lambda>c. pd_packetID c \<noteq> pid) L"
proof (induction L)
  case (Cons c cs)
  then show ?case by (auto simp: image_iff intro!: filter_True [symmetric])
qed simp

lemma update_by_id:
  assumes "distinct (ids L)" "i < length L" "pd_packetID (L ! i) = pid"
  shows "L[i := x] = map (\<lambda>c. if pd_packetID c = pid then x else c) L"
proof (rule nth_equalityI)
  fix j assume "j < length (L[i := x])"
  then have "j < length L" by simp
  then show "L[i := x] ! j = map (\<lambda>c. if pd_packetID c = pid then x else c) L ! j"
    using assms nth_eq_iff_index_eq [OF assms(1), of i j] by (auto simp: nth_list_update)
qed simp

section \<open>One fragment\<close>

definition created :: "u64 \<Rightarrow> byte \<Rightarrow> time \<Rightarrow> pendingDatagram" where
  "created pid tot now =
     \<lparr>pd_packetID = pid, pd_total = tot, remaining = tot, pd_size = 0,
      fragments = replicate (unat tot) None, expiresAt = now + datagramReassemblyTimeout\<rparr>"

definition entry_for :: "'d datagramAssociation \<Rightarrow> u64 \<Rightarrow> byte \<Rightarrow> time \<Rightarrow> pendingDatagram" where
  "entry_for a pid tot now =
     (case find (\<lambda>c. pd_packetID c = pid) (pending a) of
        Some e \<Rightarrow> e | None \<Rightarrow> created pid tot now)"

definition put :: "pendingDatagram \<Rightarrow> 'd datagramFrame \<Rightarrow> pendingDatagram" where
  "put e f =
     e\<lparr>fragments := (fragments e)[unat (frame_index f) := Some (fragment f)],
       pd_size := pd_size e + length (fragment f), remaining := remaining e - 1\<rparr>"

definition assembled :: "pendingDatagram \<Rightarrow> bytes" where
  "assembled e = concat (map (case_option [] id) (fragments e))"

lemma put_simps [simp]:
  "pd_packetID (put e f) = pd_packetID e" "pd_total (put e f) = pd_total e"
  "expiresAt (put e f) = expiresAt e"
  by (simp_all add: put_def)

lemma entry_for_id [simp]: "pd_packetID (entry_for a pid tot now) = pid"
  by (auto simp: entry_for_def created_def find_Some_iff split: option.split)

lemma entry_for_present:
  assumes "distinct (ids (pending a))" "e \<in> set (pending a)" "pd_packetID e = pid"
  shows "entry_for a pid tot now = e"
proof (cases "find (\<lambda>c. pd_packetID c = pid) (pending a)")
  case None
  then show ?thesis using assms by (auto simp: find_None_iff)
next
  case (Some e')
  then have "e' \<in> set (pending a)" "pd_packetID e' = pid" by (auto simp: find_Some_iff)
  then have "e' = e" using assms by (metis distinct_map inj_onD)
  with Some show ?thesis by (simp add: entry_for_def)
qed

lemma entry_for_absent:
  assumes "pid \<notin> set (ids (pending a))"
  shows "entry_for a pid tot now = created pid tot now"
proof -
  have "find (\<lambda>c. pd_packetID c = pid) (pending a) = None" using assms by (auto simp: find_None_iff)
  then show ?thesis by (simp add: entry_for_def)
qed

text \<open>
  \<open>pendingFor\<close> up to the order of the list: it offers the assembler of the packet, keeps the
  identifiers distinct and the list short, and loses only expired entries unless it is full.
\<close>

lemma pendingFor_spec:
  assumes "distinct (ids (pending a))"
  obtains i L where
    "pendingFor a pid tot now =
       (if pd_total (entry_for a pid tot now) \<noteq> tot then None else Some i, a\<lparr>pending := L\<rparr>)"
    "i < length L" "L ! i = entry_for a pid tot now" "distinct (ids L)"
    "set L \<subseteq> insert (entry_for a pid tot now) (set (pending a))"
    "length (pending a) \<le> 16 \<Longrightarrow> length L \<le> 16"
    "\<And>c. c \<in> set (pending a) \<Longrightarrow> now < expiresAt c \<Longrightarrow>
       pid \<in> set (ids (pending a)) \<or> length (pending a) < 16 \<Longrightarrow> c \<in> set L"
proof -
  define kept where "kept = filter (\<lambda>c. pd_packetID c = pid \<or> now < expiresAt c) (pending a)"
  have dk: "distinct (ids kept)" unfolding kept_def using assms by (rule distinct_map_filter)
  have lk: "length kept \<le> length (pending a)" by (simp add: kept_def)
  have mem: "pid \<in> set (ids kept) \<longleftrightarrow> pid \<in> set (ids (pending a))" by (auto simp: kept_def)
  show ?thesis
  proof (cases "find_packet pid kept")
    case (Some i)
    note i = find_packet_Some [OF Some]
    have "kept ! i \<in> set (pending a)" using i nth_mem [of i kept] by (auto simp: kept_def)
    then have e: "entry_for a pid tot now = kept ! i" using entry_for_present assms i by blast
    show ?thesis
    proof (rule that [of i kept])
      show "pendingFor a pid tot now =
          (if pd_total (entry_for a pid tot now) \<noteq> tot then None else Some i, a\<lparr>pending := kept\<rparr>)"
        by (simp only: pendingFor_def kept_def [symmetric] Let_def Some option.case e)
    qed (use i e dk lk in \<open>simp_all\<close>, auto simp: kept_def)
  next
    case None
    then have new: "pid \<notin> set (ids (pending a))" using mem find_packet_None by metis
    then have e: "entry_for a pid tot now = created pid tot now" by (rule entry_for_absent)
    define short where
      "short = (if maxPendingDatagrams \<le> length kept then remove_at (oldest_pending kept) kept else kept)"
    have ss: "set short \<subseteq> set kept" using set_remove_at [of "oldest_pending kept" kept] by (simp add: short_def)
    have ds: "distinct (ids short)" using dk distinct_remove_at by (auto simp: short_def)
    have ls: "length short \<le> 15" if "length (pending a) \<le> 16"
    proof (cases "maxPendingDatagrams \<le> length kept")
      case True
      then have "oldest_pending kept < length kept"
        using oldest_pending_min [of kept] by (cases "kept = []") (auto simp: datagram_consts)
      with True lk that show ?thesis by (simp add: short_def length_remove_at)
    next
      case False
      then show ?thesis by (simp add: short_def datagram_consts)
    qed
    have "pendingFor a pid tot now = (Some (length short), a\<lparr>pending := short @ [created pid tot now]\<rparr>)"
      using None by (simp add: pendingFor_def kept_def [symmetric] Let_def short_def created_def)
    moreover have "pd_total (created pid tot now) = tot" by (simp add: created_def)
    moreover have "pid \<notin> set (ids short)" using None ss by (auto simp: find_packet_None)
    moreover have "c \<in> set short" if "c \<in> set (pending a)" "now < expiresAt c" "length (pending a) < 16" for c
    proof -
      have "short = kept" using that lk by (simp add: short_def datagram_consts)
      then show ?thesis using that by (simp add: kept_def)
    qed
    ultimately show ?thesis
      using e ds ls ss new
      by (intro that [of "length short" "short @ [created pid tot now]"])
        (simp_all, auto simp: created_def kept_def)
  qed
qed

text \<open>\<open>deliverFragment\<close> up to the order of the list, branch by branch.\<close>

definition without :: "u64 \<Rightarrow> pendingDatagram list \<Rightarrow> pendingDatagram list" where
  "without pid L = filter (\<lambda>c. pd_packetID c \<noteq> pid) L"

definition replaced :: "pendingDatagram \<Rightarrow> pendingDatagram list \<Rightarrow> pendingDatagram list" where
  "replaced x L = map (\<lambda>c. if pd_packetID c = pd_packetID x then x else c) L"

lemma without_replaced: "without (pd_packetID x) (replaced x L) = without (pd_packetID x) L"
  by (induction L) (auto simp: without_def replaced_def)

lemma ids_replaced [simp]: "ids (replaced x L) = ids L"
  by (simp add: replaced_def)

lemma length_replaced [simp]: "length (replaced x L) = length L"
  by (simp add: replaced_def)

lemma set_replaced:
  "set (replaced x L) = {c \<in> set L. pd_packetID c \<noteq> pd_packetID x} \<union>
     (if pd_packetID x \<in> set (ids L) then {x} else {})"
  by (induction L) (auto simp: replaced_def)

definition frag_step ::
  "'d datagramAssociation \<Rightarrow> time \<Rightarrow> 'd datagramFrame \<Rightarrow> pendingDatagram \<Rightarrow> pendingDatagram list \<Rightarrow> bool" where
  "frag_step a now f e L \<longleftrightarrow>
     distinct (ids L) \<and> e \<in> set L \<and>
     (\<forall>c \<in> set L. c = e \<or> c \<in> set (pending a) \<and> pd_packetID c \<noteq> packetID f) \<and>
     (length (pending a) \<le> 16 \<longrightarrow> length L \<le> 16) \<and>
     (\<forall>c \<in> set (pending a). now < expiresAt c \<longrightarrow>
        packetID f \<in> set (ids (pending a)) \<or> length (pending a) < 16 \<longrightarrow> c \<in> set L) \<and>
     deliverFragment a now f =
       (if pd_total e \<noteq> frame_total f \<or> fragments e ! unat (frame_index f) \<noteq> None then a\<lparr>pending := L\<rparr>
        else if maxDatagramPayload < pd_size (put e f) then a\<lparr>pending := without (packetID f) L\<rparr>
        else if 0 < remaining (put e f) then a\<lparr>pending := replaced (put e f) L\<rparr>
        else deliver False (a\<lparr>pending := without (packetID f) L\<rparr>) (assembled (put e f)))"

lemma deliverFragment_spec:
  fixes now :: time
  assumes "distinct (ids (pending a))" "\<not> assoc_closed a" "frame_total f \<noteq> 1"
  shows "\<exists>L. frag_step a now f (entry_for a (packetID f) (frame_total f) now) L"
proof -
  let ?pid = "packetID f"
  define e where "e = entry_for a (packetID f) (frame_total f) now"
  obtain i L where pf: "pendingFor a ?pid (frame_total f) now =
       (if pd_total e \<noteq> frame_total f then None else Some i, a\<lparr>pending := L\<rparr>)"
    and i: "i < length L" "L ! i = e" and d: "distinct (ids L)"
    and sub: "set L \<subseteq> insert e (set (pending a))"
    and len: "length (pending a) \<le> 16 \<Longrightarrow> length L \<le> 16"
    and keep: "\<And>c. c \<in> set (pending a) \<Longrightarrow> now < expiresAt c \<Longrightarrow>
       ?pid \<in> set (ids (pending a)) \<or> length (pending a) < 16 \<Longrightarrow> c \<in> set L"
    using pendingFor_spec [OF assms(1), of ?pid "frame_total f" now] unfolding e_def by blast
  have id: "pd_packetID e = ?pid" by (simp add: e_def)
  have eL: "e \<in> set L" using i nth_mem by metis
  have oth: "c = e \<or> c \<in> set (pending a) \<and> pd_packetID c \<noteq> ?pid" if "c \<in> set L" for c
    using that eL d id sub unfolding distinct_map inj_on_def by (metis insert_iff subsetD)
  have upd: "L[i := put e f] = replaced (put e f) L"
    using update_by_id [OF d i(1), of ?pid "put e f"] i(2) id by (simp add: replaced_def)
  have drp: "dropPending ?pid (replaced (put e f) L) = without ?pid L"
    using dropPending_filter [of "replaced (put e f) L" ?pid] d without_replaced [of "put e f" L] id
    by (simp add: without_def)
  have p: "e\<lparr>fragments := (fragments e)[unat (frame_index f) := Some (fragment f)],
      pd_size := pd_size e + length (fragment f), remaining := remaining e - 1\<rparr> = put e f"
    by (simp add: put_def)
  have "deliverFragment a now f =
       (if pd_total e \<noteq> frame_total f \<or> fragments e ! unat (frame_index f) \<noteq> None then a\<lparr>pending := L\<rparr>
        else if maxDatagramPayload < pd_size (put e f) then a\<lparr>pending := without ?pid L\<rparr>
        else if 0 < remaining (put e f) then a\<lparr>pending := replaced (put e f) L\<rparr>
        else deliver False (a\<lparr>pending := without ?pid L\<rparr>) (assembled (put e f)))"
    using assms(2,3) by (simp add: deliverFragment_def pf i(2) Let_def p upd drp assembled_def)
  with d eL oth len keep have "frag_step a now f e L" by (simp only: frag_step_def) blast
  then show ?thesis unfolding e_def by blast
qed

lemma frag_stepD:
  assumes "frag_step a now f e L"
  shows "distinct (ids L)" "e \<in> set L"
    "c \<in> set L \<Longrightarrow> c = e \<or> c \<in> set (pending a) \<and> pd_packetID c \<noteq> packetID f"
    "length (pending a) \<le> 16 \<Longrightarrow> length L \<le> 16"
    "c \<in> set (pending a) \<Longrightarrow> now < expiresAt c \<Longrightarrow>
       packetID f \<in> set (ids (pending a)) \<or> length (pending a) < 16 \<Longrightarrow> c \<in> set L"
    "deliverFragment a now f =
       (if pd_total e \<noteq> frame_total f \<or> fragments e ! unat (frame_index f) \<noteq> None then a\<lparr>pending := L\<rparr>
        else if maxDatagramPayload < pd_size (put e f) then a\<lparr>pending := without (packetID f) L\<rparr>
        else if 0 < remaining (put e f) then a\<lparr>pending := replaced (put e f) L\<rparr>
        else deliver False (a\<lparr>pending := without (packetID f) L\<rparr>) (assembled (put e f)))"
  using assms unfolding frag_step_def by (simp_all only:)

section \<open>The invariant\<close>

text \<open>
  An assembler in the list is incomplete, has a slot per fragment, and its counters say how many
  slots are empty and how many bytes the others hold.
\<close>

definition missing :: "'a option list \<Rightarrow> nat" where
  "missing xs = length (filter (\<lambda>x. x = None) xs)"

definition pd_wf :: "pendingDatagram \<Rightarrow> bool" where
  "pd_wf e \<longleftrightarrow> length (fragments e) = unat (pd_total e) \<and> unat (remaining e) = missing (fragments e) \<and>
     0 < missing (fragments e) \<and> pd_size e = length (assembled e) \<and> pd_size e \<le> maxDatagramPayload"

definition rx_wf :: "'d datagramAssociation \<Rightarrow> bool" where
  "rx_wf a \<longleftrightarrow> distinct (ids (pending a)) \<and> (\<forall>e \<in> set (pending a). pd_wf e) \<and>
     length (pending a) \<le> maxPendingDatagrams \<and> length (recvQueue a) \<le> datagramReceiveQueue"

definition valid_frame :: "'d datagramFrame \<Rightarrow> bool" where
  "valid_frame f \<longleftrightarrow> frame_index f < frame_total f"

lemma parse_valid: "parseDatagramFrame ser raw = Inr f \<Longrightarrow> valid_frame f"
  by (auto simp: parseDatagramFrame_def valid_frame_def not_le split: sum.splits if_splits)

lemma missing_update:
  "k < length xs \<Longrightarrow> xs ! k = None \<Longrightarrow> missing xs = Suc (missing (xs[k := Some y]))"
  by (induction xs arbitrary: k) (auto simp: missing_def split: nat.split)

lemma missing_0: "missing xs = 0 \<longleftrightarrow> None \<notin> set xs"
  by (induction xs) (auto simp: missing_def)

lemma assembled_update:
  "k < length xs \<Longrightarrow> xs ! k = None \<Longrightarrow>
     length (concat (map (case_option [] id) (xs[k := Some y]))) =
     length (concat (map (case_option [] id) xs)) + length y"
  by (induction xs arbitrary: k) (auto split: nat.split option.split)

lemma created_wf: "tot \<noteq> 0 \<Longrightarrow> pd_wf (created pid tot now)"
  by (auto simp: pd_wf_def created_def missing_def assembled_def unat_gt_0 filter_replicate
      concat_replicate_trivial)

lemma put_counts:
  assumes "pd_wf e" "valid_frame f" "pd_total e = frame_total f"
    "fragments e ! unat (frame_index f) = None"
  shows "unat (frame_index f) < length (fragments e)"
    "unat (remaining (put e f)) = missing (fragments (put e f))"
    "pd_size (put e f) = length (assembled (put e f))"
    "length (fragments (put e f)) = unat (pd_total e)"
proof -
  show k: "unat (frame_index f) < length (fragments e)"
    using assms by (simp add: pd_wf_def valid_frame_def word_less_nat_alt)
  have m: "missing (fragments e) = Suc (missing (fragments (put e f)))"
    using missing_update [OF k assms(4)] by (simp add: put_def)
  have "unat (remaining e - 1) = unat (remaining e) - 1"
    using assms(1) by (intro unat_minus_one) (auto simp: pd_wf_def)
  then show "unat (remaining (put e f)) = missing (fragments (put e f))"
    using assms(1) m by (simp add: put_def pd_wf_def)
  show "pd_size (put e f) = length (assembled (put e f))"
    using assembled_update [OF k assms(4)] assms(1) by (simp add: put_def assembled_def pd_wf_def)
  show "length (fragments (put e f)) = unat (pd_total e)"
    using assms(1) by (simp add: put_def pd_wf_def)
qed

lemma valid_frame_total: "valid_frame f \<Longrightarrow> frame_total f \<noteq> 0"
  by (auto simp: valid_frame_def)

lemma entry_for_wf:
  assumes "rx_wf a" "valid_frame f"
  shows "pd_wf (entry_for a (packetID f) (frame_total f) now)"
proof (cases "packetID f \<in> set (ids (pending a))")
  case True
  then obtain e where "e \<in> set (pending a)" "pd_packetID e = packetID f" by auto
  then show ?thesis using assms(1) entry_for_present [of a e] by (auto simp: rx_wf_def)
next
  case False
  then show ?thesis using entry_for_absent created_wf valid_frame_total [OF assms(2)] by metis
qed

lemma deliver_simps [simp]:
  "pending (deliver pick a p) = pending a" "assoc_closed (deliver pick a p) = assoc_closed a"
  by (simp_all add: deliver_def)

lemma deliverFragment_closed [simp]: "assoc_closed (deliverFragment a now f) = assoc_closed a"
proof (cases "assoc_closed a \<or> frame_total f = 1")
  case True
  then show ?thesis by (auto simp: deliverFragment_def)
next
  case False
  have "assoc_closed (snd (pendingFor a (packetID f) (frame_total f) now)) = assoc_closed a"
    by (simp add: pendingFor_def Let_def split: option.split)
  with False show ?thesis
    by (auto simp: deliverFragment_def Let_def split: prod.splits option.splits)
qed

lemma deliverFragment_rx_wf:
  assumes "rx_wf a" "valid_frame f"
  shows "rx_wf (deliverFragment a now f)"
proof (cases "assoc_closed a \<or> frame_total f = 1")
  case True
  then show ?thesis using assms(1) by (auto simp: deliverFragment_def deliver_def rx_wf_def)
next
  case False
  let ?e = "entry_for a (packetID f) (frame_total f) now"
  have d: "distinct (ids (pending a))" and l: "length (pending a) \<le> 16" and q: "length (recvQueue a) \<le> 256"
    using assms(1) by (auto simp: rx_wf_def datagram_consts)
  have ewf: "pd_wf ?e" by (rule entry_for_wf [OF assms])
  have o: "\<not> assoc_closed a" "frame_total f \<noteq> 1" using False by auto
  obtain L where st: "frag_step a now f ?e L" using deliverFragment_spec [OF d o] by blast
  note L = frag_stepD [OF st] and df = frag_stepD(6) [OF st]
  have wfL: "\<forall>c \<in> set L. pd_wf c" using L(3) ewf assms(1) by (auto simp: rx_wf_def)
  have w: "distinct (ids (without (packetID f) L))" "\<forall>c \<in> set (without (packetID f) L). pd_wf c"
      "length (without (packetID f) L) \<le> 16"
    using L(1,4) l wfL by (auto simp: without_def distinct_map_filter intro: order.trans [OF length_filter_le])
  have r: "\<forall>c \<in> set (replaced (put ?e f) L). pd_wf c"
    if "pd_total ?e = frame_total f" "fragments ?e ! unat (frame_index f) = None"
      "\<not> maxDatagramPayload < pd_size (put ?e f)" "0 < remaining (put ?e f)"
  proof -
    have "pd_wf (put ?e f)"
      using put_counts [OF ewf assms(2) that(1,2)] that(3,4) by (auto simp: pd_wf_def word_less_nat_alt)
    then show ?thesis using wfL by (auto simp: set_replaced split: if_splits)
  qed
  show ?thesis
    using L(1,4) l w r wfL q
    by (auto simp: df rx_wf_def datagram_consts deliver_def)
qed

section \<open>Only sent datagrams are delivered\<close>

text \<open>
  \<open>D\<close> gives, for each packet number the sender has used, the fragments it cut the datagram into.
  A frame is genuine if it is one of those fragments.
\<close>

definition genuine :: "(u64 \<rightharpoonup> bytes list) \<Rightarrow> 'd datagramFrame \<Rightarrow> bool" where
  "genuine D f \<longleftrightarrow> valid_frame f \<and>
     (case D (packetID f) of None \<Rightarrow> False
      | Some fs \<Rightarrow> length fs = unat (frame_total f) \<and> fragment f = fs ! unat (frame_index f))"

definition part_of :: "(u64 \<rightharpoonup> bytes list) \<Rightarrow> pendingDatagram \<Rightarrow> bool" where
  "part_of D e \<longleftrightarrow>
     (case D (pd_packetID e) of None \<Rightarrow> False
      | Some fs \<Rightarrow> length fs = unat (pd_total e) \<and> list_all2 (\<lambda>o' x. o' = None \<or> o' = Some x) (fragments e) fs)"

definition sent_payloads :: "(u64 \<rightharpoonup> bytes list) \<Rightarrow> bytes set" where
  "sent_payloads D = concat ` ran D"

lemma complete_fragments:
  "list_all2 (\<lambda>o' x. o' = None \<or> o' = Some x) os fs \<Longrightarrow> None \<notin> set os \<Longrightarrow>
     concat (map (case_option [] id) os) = concat fs"
  by (induction rule: list_all2_induct) auto

lemma created_part:
  assumes "genuine D f"
  shows "part_of D (created (packetID f) (frame_total f) now)"
  using assms by (auto simp: genuine_def part_of_def created_def list_all2_conv_all_nth split: option.splits)

lemma put_part:
  assumes "genuine D f" "part_of D e" "pd_packetID e = packetID f"
  shows "part_of D (put e f)"
  using assms
  by (auto simp: genuine_def part_of_def put_def list_all2_conv_all_nth split: option.splits)
    (metis nth_list_update_eq nth_list_update_neq)

lemma entry_for_part:
  assumes "genuine D f" "\<forall>e \<in> set (pending a). part_of D e"
  shows "part_of D (entry_for a (packetID f) (frame_total f) now)"
  using assms created_part by (auto simp: entry_for_def find_Some_iff split: option.split)

lemma deliverFragment_safe:
  assumes "rx_wf a" "\<forall>e \<in> set (pending a). part_of D e" "genuine D f"
  shows "\<forall>e \<in> set (pending (deliverFragment a now f)). part_of D e"
    "\<exists>new. recvQueue (deliverFragment a now f) = recvQueue a @ new \<and> set new \<subseteq> sent_payloads D"
proof -
  let ?a' = "deliverFragment a now f" and ?e = "entry_for a (packetID f) (frame_total f) now"
  obtain fs where fs: "D (packetID f) = Some fs" "length fs = unat (frame_total f)"
    "fragment f = fs ! unat (frame_index f)" and v: "valid_frame f"
    using assms(3) by (auto simp: genuine_def split: option.splits)
  have sent: "concat fs \<in> sent_payloads D" using fs(1) by (auto simp: sent_payloads_def ran_def)
  have "(\<forall>e \<in> set (pending ?a'). part_of D e) \<and>
    (\<exists>new. recvQueue ?a' = recvQueue a @ new \<and> set new \<subseteq> sent_payloads D)"
  proof (cases "assoc_closed a \<or> frame_total f = 1")
    case True
    have "fragment f = concat fs" if "frame_total f = 1"
      using that fs v by (auto simp: valid_frame_def length_Suc_conv word_less_nat_alt)
    with True show ?thesis using assms(2) sent by (auto simp: deliverFragment_def deliver_def)
  next
    case False
    have d: "distinct (ids (pending a))" using assms(1) by (simp add: rx_wf_def)
    have ep: "part_of D ?e" by (rule entry_for_part [OF assms(3,2)])
    have pp: "part_of D (put ?e f)" using put_part [OF assms(3) ep] by simp
    have o: "\<not> assoc_closed a" "frame_total f \<noteq> 1" using False by auto
    obtain L where st: "frag_step a now f ?e L" using deliverFragment_spec [OF d o] by blast
    note L = frag_stepD(3) [OF st] and df = frag_stepD(6) [OF st]
    have pL: "\<forall>c \<in> set L. part_of D c" using L ep assms(2) by blast
    have fin: "assembled (put ?e f) = concat fs" if "pd_total ?e = frame_total f"
      "fragments ?e ! unat (frame_index f) = None" "\<not> 0 < remaining (put ?e f)"
    proof -
      have "missing (fragments (put ?e f)) = 0"
        using put_counts(2) [OF entry_for_wf [OF assms(1) v] v that(1,2)] that(3)
        by (simp add: word_less_nat_alt)
      then show ?thesis using pp fs(1) complete_fragments
        by (auto simp: assembled_def part_of_def missing_0)
    qed
    show ?thesis
      using pL pp fin sent
      by (auto simp: df deliver_def without_def set_replaced split: if_splits)
  qed
  then show "\<forall>e \<in> set (pending ?a'). part_of D e"
    "\<exists>new. recvQueue ?a' = recvQueue a @ new \<and> set new \<subseteq> sent_payloads D" by auto
qed

section \<open>A datagram whose fragments arrive is delivered\<close>

definition receive_all :: "'d datagramAssociation \<Rightarrow> (time \<times> 'd datagramFrame) list \<Rightarrow> 'd datagramAssociation" where
  "receive_all a evs = foldl (\<lambda>a (now, f). deliverFragment a now f) a evs"

lemma receive_all_simps [simp]:
  "receive_all a [] = a"
  "receive_all a ((now, f) # evs) = receive_all (deliverFragment a now f) evs"
  by (simp_all add: receive_all_def)

lemma deliverFragment_queue:
  "\<exists>new. recvQueue (deliverFragment a now f) = recvQueue a @ new \<and> length new \<le> 1"
proof -
  have "recvQueue (snd (pendingFor a pid tot now)) = recvQueue a" for pid tot
    by (simp add: pendingFor_def Let_def split: option.split)
  then have "recvQueue b = recvQueue a" if "pendingFor a pid tot now = (r, b)" for pid tot r b
    using that by (metis snd_conv)
  then show ?thesis
    by (auto simp: deliverFragment_def Let_def deliver_def split: prod.splits option.splits)
qed

lemma receive_all_queue: "\<exists>new. recvQueue (receive_all a evs) = recvQueue a @ new"
proof (induction evs arbitrary: a)
  case (Cons ev evs)
  obtain now f where ev: "ev = (now, f)" by (cases ev)
  obtain n1 where "recvQueue (deliverFragment a now f) = recvQueue a @ n1"
    using deliverFragment_queue by blast
  moreover obtain n2 where
    "recvQueue (receive_all a (ev # evs)) = recvQueue (deliverFragment a now f) @ n2"
    using Cons.IH ev by auto
  ultimately show ?case by auto
qed simp

definition marks :: "bytes list \<Rightarrow> nat set \<Rightarrow> bytes option list" where
  "marks fs J = map (\<lambda>i. if i \<in> J then Some (fs ! i) else None) [0..<length fs]"

lemma marks_empty: "marks fs {} = replicate (length fs) None"
  by (simp add: marks_def map_replicate_const)

lemma marks_update: "j < length fs \<Longrightarrow> (marks fs J)[j := Some (fs ! j)] = marks fs (insert j J)"
  by (rule nth_equalityI) (auto simp: marks_def nth_list_update)

lemma marks_nth: "j < length fs \<Longrightarrow> marks fs J ! j = None \<longleftrightarrow> j \<notin> J"
  by (simp add: marks_def)

lemma marks_missing: "missing (marks fs J) = 0 \<longleftrightarrow> {..<length fs} \<subseteq> J"
  by (auto simp: missing_0 marks_def)

lemma marks_full: "{..<length fs} \<subseteq> J \<Longrightarrow> concat (map (case_option [] id) (marks fs J)) = concat fs"
proof -
  assume J: "{..<length fs} \<subseteq> J"
  have "marks fs J = map Some fs" by (rule nth_equalityI) (use J in \<open>auto simp: marks_def\<close>)
  then show ?thesis by (simp add: comp_def)
qed

lemma marks_length: "length (concat (map (case_option [] id) (marks fs J))) \<le> length (concat fs)"
proof -
  have le: "sum_list (map (length \<circ> (\<lambda>i. case_option [] id (if i \<in> J then Some (fs ! i) else None))) [0..<length fs])
      \<le> sum_list (map (\<lambda>i. length (fs ! i)) [0..<length fs])"
    by (rule sum_list_mono) simp
  have "map (\<lambda>i. length (fs ! i)) [0..<length fs] = map length fs"
    by (rule nth_equalityI) simp_all
  with le show ?thesis by (simp add: marks_def length_concat comp_def)
qed

text \<open>
  The state while datagram \<open>k\<close> with fragments \<open>fs\<close> is being assembled: the fragments \<open>J\<close> have
  arrived, the assembler lives at least until \<open>until\<close>, all pending identifiers are in \<open>U\<close>.
\<close>

definition assembling :: "u64 set \<Rightarrow> time \<Rightarrow> u64 \<Rightarrow> bytes list \<Rightarrow> nat set \<Rightarrow> 'd datagramAssociation \<Rightarrow> bool" where
  "assembling U until k fs J a \<longleftrightarrow>
     \<not> assoc_closed a \<and> rx_wf a \<and> set (ids (pending a)) \<subseteq> U \<and>
     (if J = {} then k \<notin> set (ids (pending a))
      else \<exists>e \<in> set (pending a). pd_packetID e = k \<and> unat (pd_total e) = length fs \<and>
             fragments e = marks fs J \<and> until \<le> expiresAt e)"

lemma assembling_other:
  assumes "assembling U until k fs J a" "valid_frame f" "packetID f \<noteq> k" "packetID f \<in> U"
    "finite U" "card U \<le> 16" "now < until"
  shows "assembling U until k fs J (deliverFragment a now f)"
proof (cases "frame_total f = 1")
  case True
  then show ?thesis
    using assms(1) deliverFragment_rx_wf [OF _ assms(2), of a now]
    by (auto simp: assembling_def deliverFragment_def)
next
  case False
  let ?e = "entry_for a (packetID f) (frame_total f) now" and ?a' = "deliverFragment a now f"
  have d: "distinct (ids (pending a))" and o: "\<not> assoc_closed a" and sub: "set (ids (pending a)) \<subseteq> U"
    using assms(1) by (auto simp: assembling_def rx_wf_def)
  have room: "packetID f \<in> set (ids (pending a)) \<or> length (pending a) < 16"
  proof (rule disjCI)
    assume "\<not> length (pending a) < 16"
    then have "16 \<le> card (set (ids (pending a)))" using d distinct_card [OF d] by simp
    then have "set (ids (pending a)) = U" using assms(5,6) sub by (meson card_seteq order.trans)
    then show "packetID f \<in> set (ids (pending a))" using assms(4) by simp
  qed
  obtain L where st: "frag_step a now f ?e L" using deliverFragment_spec [OF d o False] by blast
  note L = frag_stepD [OF st]
  have pend: "pending ?a' = L \<or> pending ?a' = without (packetID f) L \<or> pending ?a' = replaced (put ?e f) L"
    using L(6) by auto
  have keep: "c \<in> set (pending ?a') \<longleftrightarrow> c \<in> set L" if "pd_packetID c = k" for c
    using pend that assms(3) by (auto simp: without_def set_replaced split: if_splits)
  have idk: "k \<in> set (ids (pending ?a')) \<longleftrightarrow> k \<in> set (ids L)" using keep by (auto simp: image_iff)
  have "set (ids (pending ?a')) \<subseteq> set (ids L)"
    using pend ids_replaced [of "put ?e f" L] by (elim disjE) (simp_all only:, auto simp: without_def)
  moreover have "set (ids L) \<subseteq> U" using L(3) sub assms(4) by fastforce
  moreover have "k \<notin> set (ids L)" if "k \<notin> set (ids (pending a))"
    using L(3) that assms(3) by fastforce
  moreover have "c \<in> set L" if "c \<in> set (pending a)" "until \<le> expiresAt c" for c
    using L(5) [OF that(1) _ room] that(2) assms(7) by simp
  ultimately show ?thesis
    using assms(1) keep idk deliverFragment_rx_wf [OF _ assms(2), of a now]
    by (auto simp: assembling_def split: if_splits)
qed

definition fragment_of :: "u64 \<Rightarrow> bytes list \<Rightarrow> 'd datagramFrame \<Rightarrow> bool" where
  "fragment_of k fs f \<longleftrightarrow> genuine [k \<mapsto> fs] f"

lemma assembling_entry:
  assumes "assembling U until k fs J a" "fragment_of k fs f" "T \<le> now" "until = T + datagramReassemblyTimeout"
  defines "e \<equiv> entry_for a k (frame_total f) now"
  shows "pd_wf e" "fragments e = marks fs J" "pd_total e = frame_total f" "until \<le> expiresAt e"
    "packetID f = k" "length fs = unat (frame_total f)"
proof -
  have g: "valid_frame f" "packetID f = k" "length fs = unat (frame_total f)"
    using assms(2) by (auto simp: fragment_of_def genuine_def split: if_splits)
  have wf: "rx_wf a" using assms(1) by (simp add: assembling_def)
  show "pd_wf e" using entry_for_wf [OF wf g(1)] g(2) by (simp add: e_def)
  have "fragments e = marks fs J \<and> pd_total e = frame_total f \<and> until \<le> expiresAt e"
  proof (cases "J = {}")
    case True
    then have "e = created k (frame_total f) now"
      using assms(1) by (simp add: e_def entry_for_absent assembling_def)
    then show ?thesis using True g(3) assms(3,4) by (simp add: created_def marks_empty)
  next
    case False
    then obtain e' where e': "e' \<in> set (pending a)" "pd_packetID e' = k" "unat (pd_total e') = length fs"
      "fragments e' = marks fs J" "until \<le> expiresAt e'"
      using assms(1) by (auto simp: assembling_def)
    then have "e = e'" using entry_for_present [of a e' k] wf by (simp add: e_def rx_wf_def)
    then show ?thesis using e' g(3) by (simp add: word_unat_eq_iff)
  qed
  then show "fragments e = marks fs J" "pd_total e = frame_total f" "until \<le> expiresAt e"
    "packetID f = k" "length fs = unat (frame_total f)" using g by auto
qed

lemma assembling_own:
  assumes "assembling U until k fs J a" "fragment_of k fs f" "T \<le> now"
    "until = T + datagramReassemblyTimeout" "unat (frame_index f) \<notin> J" "2 \<le> length fs"
    "length (concat fs) \<le> maxDatagramPayload" "k \<in> U" "length (recvQueue a) < datagramReceiveQueue"
  defines "J' \<equiv> insert (unat (frame_index f)) J" and "a' \<equiv> deliverFragment a now f"
  shows "if {..<length fs} \<subseteq> J' then recvQueue a' = recvQueue a @ [concat fs]
    else assembling U until k fs J' a'"
proof -
  let ?e = "entry_for a k (frame_total f) now" and ?j = "unat (frame_index f)"
  note en = assembling_entry [OF assms(1-4)]
  have v: "valid_frame f" and fr: "fragment f = fs ! ?j"
    using assms(2) by (auto simp: fragment_of_def genuine_def split: if_splits)
  have wf: "rx_wf a" and o: "\<not> assoc_closed a" and sub: "set (ids (pending a)) \<subseteq> U"
    using assms(1) by (auto simp: assembling_def)
  have j: "?j < length fs" using v en(6) by (simp add: valid_frame_def word_less_nat_alt)
  have t1: "frame_total f \<noteq> 1" using en(6) assms(6) by auto
  have empty: "fragments ?e ! ?j = None" using en(2) marks_nth [OF j] assms(5) by simp
  note pc = put_counts [OF en(1) v en(3) empty]
  have frs: "fragments (put ?e f) = marks fs J'"
    by (simp add: put_def en(2) fr marks_update [OF j] J'_def)
  have size: "\<not> maxDatagramPayload < pd_size (put ?e f)"
    using pc(3) marks_length [of fs J'] assms(7) by (simp add: assembled_def frs)
  have rem: "0 < remaining (put ?e f) \<longleftrightarrow> \<not> {..<length fs} \<subseteq> J'"
    using pc(2) marks_missing [of fs J'] by (simp add: frs word_less_nat_alt neq0_conv [symmetric] del: neq0_conv)
  have d: "distinct (ids (pending a))" using wf by (simp add: rx_wf_def)
  obtain L where st: "frag_step a now f ?e L"
    using deliverFragment_spec [OF d o t1] en(5) by blast
  note L = frag_stepD [OF st]
  have a': "a' = (if {..<length fs} \<subseteq> J'
      then deliver False (a\<lparr>pending := without k L\<rparr>) (assembled (put ?e f))
      else a\<lparr>pending := replaced (put ?e f) L\<rparr>)"
    unfolding a'_def using L(6) en(3,5) empty size rem by simp
  show ?thesis
  proof (cases "{..<length fs} \<subseteq> J'")
    case True
    then have "assembled (put ?e f) = concat fs" using marks_full by (simp add: assembled_def frs)
    with True a' o assms(9) show ?thesis by (simp add: deliver_def)
  next
    case False
    have "k \<in> set (ids L)" using L(2) by (metis entry_for_id image_eqI list.set_map)
    then have "put ?e f \<in> set (pending a')" using a' False by (simp add: set_replaced)
    then have "\<exists>e \<in> set (pending a'). pd_packetID e = k \<and> unat (pd_total e) = length fs \<and>
        fragments e = marks fs J' \<and> until \<le> expiresAt e"
      by (intro bexI [of _ "put ?e f"]) (simp_all add: frs en(3,4,6))
    moreover have "set (ids L) \<subseteq> U" using L(3) sub assms(8) by fastforce
    moreover have "ids (pending a') = ids L" using a' False by simp
    moreover have "rx_wf a'" unfolding a'_def by (rule deliverFragment_rx_wf [OF wf v])
    moreover have "J' \<noteq> {}" by (simp add: J'_def)
    ultimately show ?thesis
      using False o by (simp add: assembling_def a'_def del: set_map)
  qed
qed

lemma receive_all_delivers:
  assumes "assembling U until k fs J a" "until = T + datagramReassemblyTimeout"
    "finite U" "card U \<le> 16" "k \<in> U" "2 \<le> length fs" "length (concat fs) \<le> maxDatagramPayload"
    "\<not> {..<length fs} \<subseteq> J"
    "\<forall>(now, f) \<in> set evs. valid_frame f \<and> packetID f \<in> U \<and> T \<le> now \<and> now < until \<and>
       (packetID f = k \<longrightarrow> fragment_of k fs f)"
    "distinct (map (\<lambda>(now, f). unat (frame_index f)) (filter (\<lambda>(now, f). packetID f = k) evs))"
    "J \<inter> set (map (\<lambda>(now, f). unat (frame_index f)) (filter (\<lambda>(now, f). packetID f = k) evs)) = {}"
    "{..<length fs} \<subseteq> J \<union> set (map (\<lambda>(now, f). unat (frame_index f)) (filter (\<lambda>(now, f). packetID f = k) evs))"
    "length (recvQueue a) + length evs \<le> datagramReceiveQueue"
  shows "concat fs \<in> set (recvQueue (receive_all a evs))"
  using assms(1,8-)
proof (induction evs arbitrary: a J)
  case (Cons ev evs)
  obtain now f where ev: "ev = (now, f)" by (cases ev)
  let ?a = "deliverFragment a now f"
  obtain new where q: "recvQueue ?a = recvQueue a @ new" "length new \<le> 1"
    using deliverFragment_queue by blast
  have f: "valid_frame f" "packetID f \<in> U" "T \<le> now" "now < until" "packetID f = k \<Longrightarrow> fragment_of k fs f"
    using Cons.prems(3) ev by auto
  show ?case
  proof (cases "packetID f = k")
    case False
    then have "assembling U until k fs J ?a"
      using assembling_other [OF Cons.prems(1) f(1) _ f(2) assms(3,4) f(4)] by blast
    then have "concat fs \<in> set (recvQueue (receive_all ?a evs))"
      using Cons.prems ev False q by (intro Cons.IH) auto
    then show ?thesis by (simp add: ev)
  next
    case True
    let ?j = "unat (frame_index f)"
    have "?j \<notin> J" using Cons.prems(5) ev True by auto
    moreover have "length (recvQueue a) < datagramReceiveQueue" using Cons.prems(7) by simp
    ultimately have own: "if {..<length fs} \<subseteq> insert ?j J then recvQueue ?a = recvQueue a @ [concat fs]
        else assembling U until k fs (insert ?j J) ?a"
      using assembling_own [OF Cons.prems(1) f(5) [OF True] f(3) assms(2) _ assms(6,7,5)] by blast
    show ?thesis
    proof (cases "{..<length fs} \<subseteq> insert ?j J")
      case True
      then have "concat fs \<in> set (recvQueue ?a)" using own by simp
      then show ?thesis using receive_all_queue [of ?a evs] ev by auto
    next
      case incomplete: False
      have "concat fs \<in> set (recvQueue (receive_all ?a evs))"
        using Cons.prems own incomplete ev True q by (intro Cons.IH [of "insert ?j J"]) auto
      then show ?thesis by (simp add: ev)
    qed
  qed
qed auto

lemma receive_all_single:
  assumes "(now, f) \<in> set evs" "frame_total f = 1" "\<not> assoc_closed a"
    "length (recvQueue a) + length evs \<le> datagramReceiveQueue"
  shows "fragment f \<in> set (recvQueue (receive_all a evs))"
  using assms
proof (induction evs arbitrary: a)
  case (Cons ev evs)
  obtain t g where ev: "ev = (t, g)" by (cases ev)
  let ?a = "deliverFragment a t g"
  obtain new where q: "recvQueue ?a = recvQueue a @ new" "length new \<le> 1"
    using deliverFragment_queue by blast
  show ?case
  proof (cases "(now, f) = ev")
    case True
    then have "fragment f \<in> set (recvQueue ?a)"
      using Cons.prems ev by (auto simp: deliverFragment_def deliver_def)
    then show ?thesis using receive_all_queue [of ?a evs] ev by auto
  next
    case False
    then have "fragment f \<in> set (recvQueue (receive_all ?a evs))"
      using Cons.prems ev q by (intro Cons.IH) auto
    then show ?thesis by (simp add: ev)
  qed
qed simp

text \<open>Datagrams as they come off the connection: those that do not parse are dropped.\<close>

definition parsed :: "'d serializer \<Rightarrow> (time \<times> bytes) list \<Rightarrow> (time \<times> 'd datagramFrame) list" where
  "parsed ser arrivals =
     map (\<lambda>(now, raw). (now, projr (parseDatagramFrame ser raw)))
       (filter (\<lambda>(now, raw). \<not> isl (parseDatagramFrame ser raw)) arrivals)"

definition receive_raw :: "'d serializer \<Rightarrow> 'd datagramAssociation \<Rightarrow> (time \<times> bytes) list \<Rightarrow> 'd datagramAssociation" where
  "receive_raw ser a arrivals =
     foldl (\<lambda>a (now, raw). case parseDatagramFrame ser raw of Inl _ \<Rightarrow> a
            | Inr f \<Rightarrow> deliverFragment a now f) a arrivals"

lemma receive_raw_parsed: "receive_raw ser a arrivals = receive_all a (parsed ser arrivals)"
proof (induction arrivals arbitrary: a)
  case (Cons x arrivals)
  obtain now raw where x: "x = (now, raw)" by (cases x)
  show ?case
    using Cons [unfolded receive_raw_def parsed_def]
    by (cases "parseDatagramFrame ser raw") (simp_all add: x receive_raw_def parsed_def)
qed (simp add: receive_raw_def parsed_def)

lemma parsed_valid: "(now, f) \<in> set (parsed ser arrivals) \<Longrightarrow> valid_frame f"
proof -
  assume "(now, f) \<in> set (parsed ser arrivals)"
  then obtain raw where "\<not> isl (parseDatagramFrame ser raw)" "f = projr (parseDatagramFrame ser raw)"
    by (auto simp: parsed_def)
  then have "parseDatagramFrame ser raw = Inr f" by (cases "parseDatagramFrame ser raw") auto
  then show ?thesis by (rule parse_valid)
qed

lemma receive_all_rx_wf:
  "\<forall>(now, f) \<in> set evs. valid_frame f \<Longrightarrow> rx_wf a \<Longrightarrow> rx_wf (receive_all a evs)"
proof (induction evs arbitrary: a)
  case (Cons x evs)
  then show ?case using deliverFragment_rx_wf [of a "snd x" "fst x"] by (cases x) auto
qed simp

lemma receive_all_safe:
  assumes "\<forall>(now, f) \<in> set evs. genuine D f" "rx_wf a" "\<forall>e \<in> set (pending a). part_of D e"
  shows "\<exists>new. recvQueue (receive_all a evs) = recvQueue a @ new \<and> set new \<subseteq> sent_payloads D"
  using assms
proof (induction evs arbitrary: a)
  case (Cons x evs)
  obtain now f where x: "x = (now, f)" by (cases x)
  let ?a = "deliverFragment a now f"
  have g: "genuine D f" using Cons.prems(1) x by auto
  then have wf: "rx_wf ?a" using deliverFragment_rx_wf [OF Cons.prems(2)] by (simp add: genuine_def)
  note safe = deliverFragment_safe [OF Cons.prems(2,3) g, of now]
  obtain new2 where "recvQueue (receive_all ?a evs) = recvQueue ?a @ new2"
    "set new2 \<subseteq> sent_payloads D"
    using Cons.IH [OF _ wf safe(1)] Cons.prems(1) by auto
  with safe(2) x show ?case by auto
qed simp

section \<open>Properties\<close>

text \<open>
  Every UDP datagram that fits the protocol is sent: with the counters inside the reserves of
  the frame header, \<open>Write\<close> never runs out of budget, cuts the datagram into at most 65 frames, each
  small enough for one QUIC datagram, and the frames parse back to the fragments in order, whose
  concatenation is the datagram.
\<close>

lemma datagram_write_frames:
  assumes "writable ser a" "length p \<le> maxDatagramPayload"
  shows "\<exists>a' raws fs. assoc_Write ser (\<lambda>_ _. None) a p = (Inr (length p), a', raws) \<and>
    map (parseDatagramFrame ser) raws =
      map (\<lambda>i. Inr \<lparr>associationID = assoc_id a, frame_destination = destination a,
        packetID = nextPacket a + 1, frame_total = word_of_nat (length fs),
        frame_index = word_of_nat i, fragment = fs ! i\<rparr>) [0..<length fs] \<and>
    concat fs = p \<and> 1 \<le> length fs \<and> length fs \<le> 65 \<and>
    (\<forall>r \<in> set raws. length r \<le> maxDatagramFramePayload) \<and> nextPacket a' = nextPacket a + 1"
proof -
  let ?b = "budget_of ser a" and ?n = "frag_count (budget_of ser a) p"
  let ?fs = "map (frag ?b p) [0..<?n]"
  have b: "0 < ?b" using assms(1) budget_bounds(2) [of ser a] by (simp add: writable_def)
  have len: "length p \<le> 65535" using assms(2) by (simp add: datagram_consts)
  have snd': "\<And>i q. (\<lambda>_ _. None) i q = None" by simp
  obtain a' raws where w: "assoc_Write ser (\<lambda>_ _. None) a p = (Inr (length p), a', raws)"
    "map (parseDatagramFrame ser) raws = map (Inr \<circ> mk_frame a (nextPacket a + 1) ?n ?b p) [0..<?n]"
    "\<forall>r \<in> set raws. length r \<le> maxDatagramFramePayload" "nextPacket a' = nextPacket a + 1" "?n \<le> 65"
    using assoc_Write_sent [OF assms(1) len snd'] by metis
  have "concat ?fs = p" by (rule concat_all_frags [OF b])
  moreover have "1 \<le> ?n" by (rule frag_count_covers(2) [OF b])
  ultimately show ?thesis
    using w by (intro exI [of _ a'] exI [of _ raws] exI [of _ ?fs]) (simp add: mk_frame_def)
qed

text \<open>An association as the tunnel opens it, on which the witnesses run.\<close>

definition demo_assoc :: "u16 datagramAssociation" where
  "demo_assoc = newDatagramAssociation 7 (Some 0) 443"

lemma demo_assoc_ok [simp]: "writable port_serializer demo_assoc" "rx_wf demo_assoc"
    "pending demo_assoc = []" "\<not> assoc_closed demo_assoc" "recvQueue demo_assoc = []"
  by (simp_all add: demo_assoc_def writable_def newDatagramAssociation_def rx_wf_def tx_inv_def)

lemma demo_raw:
  "parseDatagramFrame port_serializer [7, 1, 187, 1, 2, 1, 8] =
     Inr \<lparr>associationID = 7, frame_destination = 443, packetID = 1, frame_total = 2,
          frame_index = 1, fragment = [8]\<rparr>"
  "parseDatagramFrame port_serializer [7, 1, 187, 1, 2, 0, 9] =
     Inr \<lparr>associationID = 7, frame_destination = 443, packetID = 1, frame_total = 2,
          frame_index = 0, fragment = [9]\<rparr>"
  by code_simp+

lemma datagram_write_frames_witness:
  "\<exists>a' raws fs. assoc_Write port_serializer (\<lambda>_ _. None) demo_assoc (replicate 3000 5) = (Inr 3000, a', raws) \<and>
    concat fs = replicate 3000 (5 :: byte) \<and> (\<forall>r \<in> set raws. length r \<le> maxDatagramFramePayload)"
  using datagram_write_frames [of port_serializer demo_assoc "replicate 3000 5"]
  by (auto simp: datagram_consts)

text \<open>
  Reassembly keeps its bookkeeping under arbitrary arrivals: at most 16 datagrams are pending,
  with distinct numbers, each incomplete and at most 65535 bytes, its counter of missing
  fragments exact (so it never wraps), and the queue of assembled datagrams is bounded.
\<close>

lemma reassembly_invariant:
  assumes "rx_wf a"
  shows "rx_wf (receive_raw ser a arrivals)"
  unfolding receive_raw_parsed using parsed_valid assms by (intro receive_all_rx_wf) auto

lemma reassembly_invariant_witness:
  "rx_wf (receive_raw port_serializer demo_assoc [(3, [7, 1, 187, 1, 2, 1, 9]), (4, [7, 1]), (5, [7, 1, 187, 2, 3, 0, 9])])"
  by (rule reassembly_invariant) simp

text \<open>
  C2. Nothing is made up: when every arriving frame is a fragment of some datagram the peer sent,
  in whatever order, however often and with whatever gaps they arrive, each payload handed to the
  reader is exactly one of the sent datagrams.
\<close>

theorem reassembly_delivers_only_sent:
  assumes "\<forall>(now, f) \<in> set (parsed ser arrivals). genuine D f" "rx_wf a"
    "\<forall>e \<in> set (pending a). part_of D e"
  shows "\<exists>new. recvQueue (receive_raw ser a arrivals) = recvQueue a @ new \<and> set new \<subseteq> sent_payloads D"
  using receive_all_safe [OF assms] by (simp add: receive_raw_parsed)

theorem reassembly_delivers_only_sent_witness:
  "\<exists>new. recvQueue (receive_raw port_serializer demo_assoc
      [(3, [7, 1, 187, 1, 2, 1, 8]), (4, [7, 1, 187, 1, 2, 0, 9])]) = recvQueue demo_assoc @ new \<and>
    set new \<subseteq> sent_payloads [1 \<mapsto> [[9], [8]]]"
  by (rule reassembly_delivers_only_sent)
    (simp_all add: parsed_def demo_raw genuine_def valid_frame_def)

lemma mk_frames_of:
  assumes "n \<le> 65" "0 < b" "n = frag_count b p" "f \<in> set (map (mk_frame a k n b p) [0..<n])"
  shows "fragment_of k (map (frag b p) [0..<n]) f" "packetID f = k"
proof -
  obtain i where i: "i < n" "f = mk_frame a k n b p i" using assms(4) by auto
  note sb = small_bytes [of i n, OF i(1)]
  show "packetID f = k" using i(2) by (simp add: mk_frame_def)
  show "fragment_of k (map (frag b p) [0..<n]) f"
    using i sb assms(1)
    by (simp add: fragment_of_def genuine_def valid_frame_def mk_frame_def del: unat_byte_of_nat)
qed

lemma mk_frames_index:
  assumes "n \<le> 65"
  shows "map (\<lambda>f. unat (frame_index f)) (map (mk_frame a k n b p) [0..<n]) = [0..<n]"
  using assms by (intro nth_equalityI) (simp_all add: mk_frame_def)

text \<open>The datagrams of packet \<open>k\<close> among the arrivals.\<close>

definition of_packet :: "'d serializer \<Rightarrow> u64 \<Rightarrow> bytes \<Rightarrow> bool" where
  "of_packet ser k raw =
     (case parseDatagramFrame ser raw of Inl _ \<Rightarrow> False | Inr f \<Rightarrow> packetID f = k)"

lemma of_packet_frames:
  "map snd (filter (\<lambda>(now, f). packetID f = k) (parsed ser arrivals)) =
     map (projr \<circ> parseDatagramFrame ser) (filter (of_packet ser k) (map snd arrivals))"
proof (induction arrivals)
  case (Cons x arrivals)
  obtain now raw where x: "x = (now, raw)" by (cases x)
  show ?case using Cons
    by (cases "parseDatagramFrame ser raw") (auto simp: x parsed_def of_packet_def)
qed (simp add: parsed_def)

lemma written_of_packet:
  assumes "map (parseDatagramFrame ser) raws = map (Inr \<circ> mk_frame a k n b p) [0..<n]" "r \<in> set raws"
  shows "of_packet ser k r" "packetID (projr (parseDatagramFrame ser r)) = k"
proof -
  have "parseDatagramFrame ser r \<in> set (map (Inr \<circ> mk_frame a k n b p) [0..<n])"
    using assms by (metis image_eqI list.set_map)
  then show "of_packet ser k r" "packetID (projr (parseDatagramFrame ser r)) = k"
    by (auto simp: of_packet_def mk_frame_def)
qed

text \<open>
  C1. A datagram whose frames all arrive is delivered. Let the peer write \<open>p\<close>, let its frames
  arrive once each, in any order and interleaved with any other frames, within the reassembly
  timeout, with at most 16 datagrams in assembly and room in the receive queue: then \<open>p\<close> is
  handed to the reader.
\<close>

theorem datagram_delivered:
  assumes "writable ser a" "length p \<le> maxDatagramPayload"
    "assoc_Write ser (\<lambda>_ _. None) a p = (Inr m, a', raws)"
    "mset (filter (of_packet ser (nextPacket a + 1)) (map snd arrivals)) = mset raws"
    "rx_wf c" "\<not> assoc_closed c" "nextPacket a + 1 \<notin> set (ids (pending c))"
    "finite U" "card U \<le> maxPendingDatagrams"
    "set (ids (pending c)) \<union> (packetID \<circ> snd) ` set (parsed ser arrivals) \<subseteq> U"
    "\<forall>(now, raw) \<in> set arrivals. T \<le> now \<and> now < T + datagramReassemblyTimeout"
    "length (recvQueue c) + length arrivals \<le> datagramReceiveQueue"
  shows "p \<in> set (recvQueue (receive_raw ser c arrivals))"
proof -
  let ?b = "budget_of ser a" and ?n = "frag_count (budget_of ser a) p" and ?k = "nextPacket a + 1"
  let ?fs = "map (frag ?b p) [0..<?n]" and ?evs = "parsed ser arrivals"
  let ?fl = "map snd (filter (\<lambda>(now, f). packetID f = ?k) ?evs)"
  have b: "0 < ?b" using assms(1) budget_bounds(2) [of ser a] by (simp add: writable_def)
  have len: "length p \<le> 65535" using assms(2) by (simp add: datagram_consts)
  have fs: "concat ?fs = p" by (rule concat_all_frags [OF b])
  obtain w: "map (parseDatagramFrame ser) raws = map (Inr \<circ> mk_frame a ?k ?n ?b p) [0..<?n]" and n: "?n \<le> 65"
    using assoc_Write_sent [OF assms(1) len, of "\<lambda>_ _. None"] assms(3) by force
  have "mset ?fl = mset (map (mk_frame a ?k ?n ?b p) [0..<?n])"
  proof -
    have "mset ?fl = mset (map (projr \<circ> parseDatagramFrame ser) raws)"
      unfolding of_packet_frames mset_map using assms(4) by simp
    also have "map (projr \<circ> parseDatagramFrame ser) raws = map projr (map (parseDatagramFrame ser) raws)" by simp
    finally show ?thesis unfolding w by (simp add: comp_def)
  qed
  note fl = this
  have own: "fragment_of ?k ?fs f" if "(now, f) \<in> set ?evs" "packetID f = ?k" for now f
  proof -
    have "f \<in> set ?fl" using that by force
    then have "f \<in> set (map (mk_frame a ?k ?n ?b p) [0..<?n])" using fl by (metis set_mset_mset)
    then show ?thesis using mk_frames_of(1) [OF n b refl] by blast
  qed
  have "map (\<lambda>(now, f). unat (frame_index f)) (filter (\<lambda>(now, f). packetID f = ?k) ?evs) =
      map (\<lambda>f. unat (frame_index f)) ?fl" by (simp add: case_prod_beta comp_def)
  then have idx: "mset (map (\<lambda>(now, f). unat (frame_index f)) (filter (\<lambda>(now, f). packetID f = ?k) ?evs)) =
      mset [0..<?n]"
  proof -
    have "mset (map (\<lambda>f. unat (frame_index f)) ?fl) =
        mset (map (\<lambda>f. unat (frame_index f)) (map (mk_frame a ?k ?n ?b p) [0..<?n]))"
      by (simp only: mset_map [of "\<lambda>f. unat (frame_index f)"] fl)
    then show ?thesis
      using \<open>map _ (filter _ ?evs) = map _ ?fl\<close> by (simp only: mk_frames_index [OF n])
  qed
  have idx': "distinct (map (\<lambda>(now, f). unat (frame_index f)) (filter (\<lambda>(now, f). packetID f = ?k) ?evs))"
    "set (map (\<lambda>(now, f). unat (frame_index f)) (filter (\<lambda>(now, f). packetID f = ?k) ?evs)) = {..<?n}"
    using mset_eq_imp_distinct_iff [OF idx] mset_eq_setD [OF idx] by (auto simp: atLeast0LessThan)
  have room: "length (recvQueue c) + length ?evs \<le> datagramReceiveQueue"
    using assms(12) length_filter_le [of _ arrivals] by (auto simp: parsed_def intro: order.trans [rotated])
  have n1: "1 \<le> ?n" by (rule frag_count_covers(2) [OF b])
  then obtain now0 f0 where f0: "(now0, f0) \<in> set ?evs" "packetID f0 = ?k"
    using idx'(2) by (auto simp del: set_map) (fastforce simp: lessThan_def)
  show ?thesis
  proof (cases "?n = 1")
    case True
    have g: "valid_frame f0" "unat (frame_total f0) = 1" "fragment f0 = ?fs ! unat (frame_index f0)"
      using own [OF f0] True by (auto simp: fragment_of_def genuine_def split: if_splits)
    then have "unat (frame_index f0) = 0" by (simp add: valid_frame_def word_less_nat_alt)
    with g True have "frame_total f0 = 1 \<and> fragment f0 = concat ?fs" by (simp add: word_unat_eq_iff)
    then show ?thesis
      using receive_all_single [OF f0(1) _ assms(6) room] fs by (simp add: receive_raw_parsed)
  next
    case False
    have k: "?k \<in> U" using f0 assms(10) by force
    have "concat ?fs \<in> set (recvQueue (receive_all c ?evs))"
    proof (rule receive_all_delivers [where J = "{}" and U = U and T = T and k = ?k])
      show "assembling U (T + datagramReassemblyTimeout) ?k ?fs {} c"
        using assms(5-7,10) by (simp add: assembling_def)
      show "\<forall>(now, f) \<in> set ?evs. valid_frame f \<and> packetID f \<in> U \<and> T \<le> now \<and>
          now < T + datagramReassemblyTimeout \<and> (packetID f = ?k \<longrightarrow> fragment_of ?k ?fs f)"
      proof clarify
        fix now f assume m: "(now, f) \<in> set ?evs"
        then obtain raw where "(now, raw) \<in> set arrivals" by (auto simp: parsed_def)
        then have "T \<le> now" "now < T + datagramReassemblyTimeout" using assms(11) by auto
        moreover have "packetID f \<in> U" using m assms(10) by force
        ultimately show "valid_frame f \<and> packetID f \<in> U \<and> T \<le> now \<and>
          now < T + datagramReassemblyTimeout \<and> (packetID f = ?k \<longrightarrow> fragment_of ?k ?fs f)"
          using own [OF m] parsed_valid [OF m] by simp
      qed
      show "\<not> {..<length ?fs} \<subseteq> {}" using n1 by (simp add: lessThan_empty_iff)
    qed (use assms(8,9) k n1 False fs assms(2) idx' room in \<open>auto simp: datagram_consts\<close>)
    then show ?thesis using fs by (simp add: receive_raw_parsed)
  qed
qed

theorem datagram_delivered_witness:
  "\<exists>m a' raws. assoc_Write port_serializer (\<lambda>_ _. None) demo_assoc (replicate 3000 5) = (Inr m, a', raws) \<and>
     replicate 3000 5 \<in> set (recvQueue (receive_raw port_serializer demo_assoc (map (Pair 9) (rev raws))))"
proof -
  let ?p = "replicate 3000 5 :: bytes" and ?n = "frag_count (budget_of port_serializer demo_assoc) (replicate 3000 5)"
  let ?b = "budget_of port_serializer demo_assoc"
  have l: "length ?p \<le> 65535" by simp
  have k: "nextPacket demo_assoc + 1 = 1" by (simp add: demo_assoc_def newDatagramAssociation_def)
  obtain a' raws where w: "assoc_Write port_serializer (\<lambda>_ _. None) demo_assoc ?p = (Inr (length ?p), a', raws)"
    and f: "map (parseDatagramFrame port_serializer) raws =
      map (Inr \<circ> mk_frame demo_assoc (nextPacket demo_assoc + 1) ?n ?b ?p) [0..<?n]" and n: "?n \<le> 65"
    by (rule assoc_Write_sent [OF demo_assoc_ok(1) l, of "\<lambda>_ _. None"]) auto
  note fr = written_of_packet [OF f, unfolded k]
  have "length raws \<le> 65" using arg_cong [OF f, of length] n by simp
  then have "?p \<in> set (recvQueue (receive_raw port_serializer demo_assoc (map (Pair 9) (rev raws))))"
    using fr
    by (intro datagram_delivered [OF demo_assoc_ok(1) _ w, where U = "{1}" and T = 0])
      (auto simp: datagram_consts k parsed_def comp_def filter_True)
  with w show ?thesis by blast
qed

end
