(* ===== verification/Datagram_Router.thy ===== *)
theory Datagram_Router
  imports Datagram_Reassembly
begin

text \<open>
  The router of \<open>transport/call/vk-parasite/datagram.go\<close>: associations are objects shared between
  the router's table and the connections handed to their users, so they live in a heap and the
  table maps an identifier to an address. Each operation that holds the router's lock is one
  atomic step.
\<close>

section \<open>State and operations\<close>

text \<open>
  \<open>onAccept\<close> tells whether an accept handler is set; \<open>accepted\<close> lists the associations for which it
  was started, in order.
\<close>

record 'd datagramRouter =
  heap :: "'d datagramAssociation list"
  associations :: "u64 \<rightharpoonup> nat"
  nextID :: u64
  router_closed :: bool
  onAccept :: bool
  accepted :: "nat list"

definition newDatagramRouter :: "'d datagramRouter" where
  "newDatagramRouter =
     \<lparr>heap = [], associations = Map.empty, nextID = 0, router_closed = False, onAccept = False,
      accepted = []\<rparr>"

definition setAcceptHandler :: "bool \<Rightarrow> 'd datagramRouter \<Rightarrow> 'd datagramRouter" where
  "setAcceptHandler handler r = r\<lparr>onAccept := handler\<rparr>"

definition newAssociation :: "'d datagramRouter \<Rightarrow> nat option \<Rightarrow> 'd \<Rightarrow> nat \<times> 'd datagramRouter" where
  "newAssociation r conn dest =
     (let i = nextID r + 1; p = length (heap r);
          r = r\<lparr>nextID := i, heap := heap r @ [newDatagramAssociation i conn dest]\<rparr> in
      (p, if router_closed r then r else r\<lparr>associations := (associations r)(i \<mapsto> p)\<rparr>))"

definition acceptAssociation ::
  "'d serializer \<Rightarrow> 'd datagramRouter \<Rightarrow> u64 \<Rightarrow> 'd \<Rightarrow> nat option \<Rightarrow> nat option \<times> 'd datagramRouter" where
  "acceptAssociation ser r i dest conn =
     (if \<not> onAccept r \<or> \<not> IsValid ser dest then (None, r)
      else if router_closed r then (None, r)
      else case associations r i of
        Some existing \<Rightarrow> (Some existing, r)
      | None \<Rightarrow>
          let p = length (heap r) in
          (Some p, r\<lparr>heap := heap r @ [newDatagramAssociation i conn dest],
                     associations := (associations r)(i \<mapsto> p), accepted := accepted r @ [p]\<rparr>))"

definition removeAssociation :: "u64 \<Rightarrow> 'd datagramRouter \<Rightarrow> 'd datagramRouter" where
  "removeAssociation i r = r\<lparr>associations := (associations r)(i := None)\<rparr>"

definition routeReceivedDatagram ::
  "'d serializer \<Rightarrow> 'd datagramRouter \<Rightarrow> time \<Rightarrow> bytes \<Rightarrow> nat option \<Rightarrow> 'd datagramRouter" where
  "routeReceivedDatagram ser r now raw conn =
     (case parseDatagramFrame ser raw of Inl _ \<Rightarrow> r
      | Inr frame \<Rightarrow>
          (case (case associations r (associationID frame) of
                   Some p \<Rightarrow> (Some p, r)
                 | None \<Rightarrow> acceptAssociation ser r (associationID frame) (frame_destination frame) conn) of
             (None, r) \<Rightarrow> r
           | (Some p, r) \<Rightarrow> r\<lparr>heap := (heap r)[p := deliverFragment (heap r ! p) now frame]\<rparr>))"

text \<open>\<open>Close\<close> of the association at address \<open>p\<close>; the body runs once.\<close>

definition assoc_Close :: "nat \<Rightarrow> 'd datagramRouter \<Rightarrow> 'd datagramRouter" where
  "assoc_Close p r =
     (if assoc_closed (heap r ! p) then r
      else
        let a = heap r ! p;
            r = removeAssociation (assoc_id a) r in
        r\<lparr>heap := (heap r)[p := a\<lparr>assoc_closed := True, pending := []\<rparr>]\<rparr>)"

text \<open>
  The associations of the table that a predicate selects. The code walks the map in no particular
  order; they are listed by address.
\<close>

definition doomed :: "('d datagramAssociation \<Rightarrow> bool) \<Rightarrow> 'd datagramRouter \<Rightarrow> nat list" where
  "doomed P r =
     filter (\<lambda>p. associations r (assoc_id (heap r ! p)) = Some p \<and> P (heap r ! p)) [0..<length (heap r)]"

definition closeConn :: "nat option \<Rightarrow> 'd datagramRouter \<Rightarrow> 'd datagramRouter" where
  "closeConn conn r =
     (let dead = doomed (\<lambda>a. assoc_conn a = conn) r;
          r = foldl (\<lambda>r p. removeAssociation (assoc_id (heap r ! p)) r) r dead in
      foldl (\<lambda>r p. assoc_Close p r) r dead)"

definition router_close :: "'d datagramRouter \<Rightarrow> 'd datagramRouter" where
  "router_close r =
     (let r = r\<lparr>router_closed := True\<rparr>;
          dead = doomed (\<lambda>_. True) r;
          r = r\<lparr>associations := Map.empty\<rparr> in
      foldl (\<lambda>r p. assoc_Close p r) r dead)"

text \<open>The reader and writer of an association run on its object in the heap.\<close>

definition router_Read :: "bool \<Rightarrow> nat \<Rightarrow> nat \<Rightarrow> 'd datagramRouter \<Rightarrow> 'd datagramRouter" where
  "router_Read pick p cap r =
     (case assoc_Read pick (heap r ! p) cap of None \<Rightarrow> r | Some (_, a) \<Rightarrow> r\<lparr>heap := (heap r)[p := a]\<rparr>)"

definition router_Write ::
  "'d serializer \<Rightarrow> (nat \<Rightarrow> bytes \<Rightarrow> go_error option) \<Rightarrow> nat \<Rightarrow> bytes \<Rightarrow> 'd datagramRouter \<Rightarrow> 'd datagramRouter" where
  "router_Write ser send p payload r =
     (case assoc_Write ser send (heap r ! p) payload of (_, a, _) \<Rightarrow> r\<lparr>heap := (heap r)[p := a]\<rparr>)"

section \<open>The table\<close>

text \<open>
  Every entry of the table leads to an open association with that identifier, a closed router has
  an empty table, and every association's reassembly state is sound.
\<close>

definition router_inv :: "'d datagramRouter \<Rightarrow> bool" where
  "router_inv r \<longleftrightarrow>
     (\<forall>i p. associations r i = Some p \<longrightarrow>
        p < length (heap r) \<and> assoc_id (heap r ! p) = i \<and> \<not> assoc_closed (heap r ! p)) \<and>
     (router_closed r \<longrightarrow> associations r = Map.empty) \<and> (\<forall>a \<in> set (heap r). rx_wf a)"

lemma router_invD:
  assumes "router_inv r"
  shows "associations r i = Some p \<Longrightarrow> p < length (heap r)"
    "associations r i = Some p \<Longrightarrow> assoc_id (heap r ! p) = i"
    "associations r i = Some p \<Longrightarrow> \<not> assoc_closed (heap r ! p)"
    "router_closed r \<Longrightarrow> associations r = Map.empty" "a \<in> set (heap r) \<Longrightarrow> rx_wf a"
  using assms by (auto simp: router_inv_def)

lemma new_rx_wf [simp]: "rx_wf (newDatagramAssociation i conn dest)"
  by (simp add: rx_wf_def newDatagramAssociation_def)

lemma new_assoc_simps [simp]:
  "assoc_id (newDatagramAssociation i conn dest) = i"
  "\<not> assoc_closed (newDatagramAssociation i conn dest)"
  "assoc_conn (newDatagramAssociation i conn dest) = conn"
  by (simp_all add: newDatagramAssociation_def)

lemma router_inv_new: "router_inv newDatagramRouter"
  by (simp add: router_inv_def newDatagramRouter_def)

lemma router_inv_alloc:
  assumes "router_inv r" "\<not> router_closed r"
  shows "router_inv (r\<lparr>heap := heap r @ [newDatagramAssociation i conn dest],
    associations := (associations r)(i \<mapsto> length (heap r))\<rparr>)"
  using assms by (auto simp: router_inv_def nth_append less_Suc_eq)

lemma router_inv_update:
  assumes "router_inv r" "rx_wf a" "assoc_id a = assoc_id (heap r ! p)"
    "assoc_closed a = assoc_closed (heap r ! p)"
  shows "router_inv (r\<lparr>heap := (heap r)[p := a]\<rparr>)"
proof -
  have "assoc_id ((heap r)[p := a] ! q) = assoc_id (heap r ! q)"
    "assoc_closed ((heap r)[p := a] ! q) = assoc_closed (heap r ! q)" for q
    using assms(3,4) nth_update_same [of assoc_id a] nth_update_same [of assoc_closed a] by auto
  then show ?thesis
    using assms(1,2) set_update_subset_insert [of "heap r" p a] by (auto simp: router_inv_def)
qed

lemma newAssociation_inv:
  assumes "router_inv r"
  shows "router_inv (snd (newAssociation r conn dest))"
  using assms by (auto simp: newAssociation_def Let_def router_inv_def nth_append less_Suc_eq)

lemma acceptAssociation_inv:
  assumes "router_inv r"
  shows "router_inv (snd (acceptAssociation ser r i dest conn))"
  using assms router_inv_alloc [OF assms, of i conn dest]
  by (auto simp: acceptAssociation_def Let_def router_inv_def split: option.splits)

lemma deliverFragment_id [simp]: "assoc_id (deliverFragment a now f) = assoc_id a"
proof -
  have "assoc_id (snd (pendingFor a pid tot now)) = assoc_id a" for pid tot
    by (simp add: pendingFor_def Let_def split: option.split)
  then have "assoc_id b = assoc_id a" if "pendingFor a pid tot now = (x, b)" for pid tot x b
    using that by (metis snd_conv)
  then show ?thesis
    by (auto simp: deliverFragment_def Let_def deliver_def split: prod.splits option.splits)
qed

text \<open>
  What routing does to the association an identifier leads to: it is the receiving side of that
  association alone, created on demand when there is a handler.
\<close>

definition view :: "'d datagramRouter \<Rightarrow> u64 \<Rightarrow> 'd datagramAssociation option" where
  "view r i = map_option (\<lambda>p. heap r ! p) (associations r i)"

lemma route_cases:
  fixes now :: time and conn :: "nat option"
  assumes "router_inv r" "parseDatagramFrame ser raw = Inr f"
  defines "r' \<equiv> routeReceivedDatagram ser r now raw conn"
  obtains (known) p where "associations r (associationID f) = Some p" "p < length (heap r)"
      "r' = r\<lparr>heap := (heap r)[p := deliverFragment (heap r ! p) now f]\<rparr>"
    | (dropped) "associations r (associationID f) = None" "r' = r"
      "\<not> onAccept r \<or> \<not> IsValid ser (frame_destination f) \<or> router_closed r"
    | (created) "associations r (associationID f) = None" "onAccept r" "\<not> router_closed r"
      "IsValid ser (frame_destination f)"
      "r' = r\<lparr>heap := heap r @ [deliverFragment (newDatagramAssociation (associationID f) conn (frame_destination f)) now f],
         associations := (associations r)(associationID f \<mapsto> length (heap r)),
         accepted := accepted r @ [length (heap r)]\<rparr>"
proof (cases "associations r (associationID f)")
  case (Some p)
  then show ?thesis
    using assms(2) router_invD(1) [OF assms(1) Some]
    by (intro known [of p]) (simp_all add: r'_def routeReceivedDatagram_def)
next
  case None
  show ?thesis
  proof (cases "onAccept r \<and> IsValid ser (frame_destination f) \<and> \<not> router_closed r")
    case True
    then show ?thesis
      using None assms(2)
      by (intro created) (simp_all add: r'_def routeReceivedDatagram_def acceptAssociation_def Let_def)
  next
    case False
    then show ?thesis
      using None assms(2)
      by (intro dropped) (auto simp: r'_def routeReceivedDatagram_def acceptAssociation_def)
  qed
qed

lemma route_inv:
  assumes "router_inv r"
  shows "router_inv (routeReceivedDatagram ser r now raw conn)"
proof (cases "parseDatagramFrame ser raw")
  case (Inl e)
  then show ?thesis using assms by (simp add: routeReceivedDatagram_def)
next
  case (Inr f)
  have v: "valid_frame f" by (rule parse_valid [OF Inr])
  show ?thesis
  proof (rule route_cases [OF assms Inr, where now = now and conn = conn])
    fix p assume "p < length (heap r)"
      and r': "routeReceivedDatagram ser r now raw conn =
        r\<lparr>heap := (heap r)[p := deliverFragment (heap r ! p) now f]\<rparr>"
    then have "rx_wf (heap r ! p)" using router_invD(5) [OF assms] by simp
    then show ?thesis
      unfolding r' using deliverFragment_rx_wf v by (intro router_inv_update [OF assms]) auto
  next
    let ?new = "newDatagramAssociation (associationID f) conn (frame_destination f)"
    assume "\<not> router_closed r" and r': "routeReceivedDatagram ser r now raw conn =
      r\<lparr>heap := heap r @ [deliverFragment ?new now f],
        associations := (associations r)(associationID f \<mapsto> length (heap r)),
        accepted := accepted r @ [length (heap r)]\<rparr>"
    moreover have "rx_wf (deliverFragment ?new now f)" by (rule deliverFragment_rx_wf [OF new_rx_wf v])
    ultimately show ?thesis using assms by (auto simp: router_inv_def nth_append less_Suc_eq)
  qed (use assms in simp)
qed

lemma assoc_Close_inv:
  assumes "router_inv r"
  shows "router_inv (assoc_Close p r)"
proof (cases "assoc_closed (heap r ! p) \<or> \<not> p < length (heap r)")
  case True
  then show ?thesis
    using assms by (auto simp: assoc_Close_def Let_def router_inv_def removeAssociation_def not_less
        list_update_beyond)
next
  case False
  let ?a = "(heap r ! p)\<lparr>assoc_closed := True, pending := []\<rparr>"
  have "rx_wf ?a" using False router_invD(5) [OF assms, of "heap r ! p"] by (simp add: rx_wf_def)
  then show ?thesis
    using assms False set_update_subset_insert [of "heap r" p ?a]
    by (auto simp: assoc_Close_def Let_def router_inv_def removeAssociation_def nth_list_update)
qed

lemma removeAssociation_inv: "router_inv r \<Longrightarrow> router_inv (removeAssociation i r)"
  by (auto simp: router_inv_def removeAssociation_def)

lemma closeConn_inv: "router_inv r \<Longrightarrow> router_inv (closeConn conn r)"
  unfolding closeConn_def Let_def
  by (intro foldl_invariant [where P = router_inv] assoc_Close_inv removeAssociation_inv)

lemma router_close_inv: "router_inv r \<Longrightarrow> router_inv (router_close r)"
  unfolding router_close_def Let_def
  by (intro foldl_invariant [where P = router_inv] assoc_Close_inv) (auto simp: router_inv_def)

lemma assoc_Read_simps:
  "assoc_Read pick a cap = Some (x, a') \<Longrightarrow>
     assoc_id a' = assoc_id a \<and> assoc_closed a' = assoc_closed a \<and> pending a' = pending a \<and>
     length (recvQueue a') \<le> length (recvQueue a)"
  by (auto simp: assoc_Read_def split: list.splits if_splits)

lemma assoc_Write_simps:
  assumes "assoc_Write ser send a p = (x, a', sent)"
  shows "assoc_id a' = assoc_id a" "assoc_closed a' = assoc_closed a" "pending a' = pending a"
    "recvQueue a' = recvQueue a"
proof -
  have "framePrefix ser a = (y, b) \<Longrightarrow> assoc_id b = assoc_id a \<and> assoc_closed b = assoc_closed a \<and>
      pending b = pending a \<and> recvQueue b = recvQueue a" for y b
    by (auto simp: framePrefix_def Let_def split: sum.splits)
  then show "assoc_id a' = assoc_id a" "assoc_closed a' = assoc_closed a" "pending a' = pending a"
    "recvQueue a' = recvQueue a"
    using assms by (auto simp: assoc_Write_def Let_def split: if_splits prod.splits sum.splits option.splits)
qed

section \<open>Runs of the router\<close>

inductive router_step :: "'d serializer \<Rightarrow> 'd datagramRouter \<Rightarrow> 'd datagramRouter \<Rightarrow> bool" for ser where
  step_handler: "router_step ser r (setAcceptHandler h r)"
| step_new: "router_step ser r (snd (newAssociation r conn dest))"
| step_route: "router_step ser r (routeReceivedDatagram ser r now raw conn)"
| step_read: "p < length (heap r) \<Longrightarrow> router_step ser r (router_Read pick p cap r)"
| step_write: "p < length (heap r) \<Longrightarrow> router_step ser r (router_Write ser send p payload r)"
| step_close_assoc: "p < length (heap r) \<Longrightarrow> router_step ser r (assoc_Close p r)"
| step_close_conn: "router_step ser r (closeConn conn r)"
| step_close: "router_step ser r (router_close r)"

lemma router_step_inv:
  assumes "router_step ser r r'" "router_inv r"
  shows "router_inv r'"
  using assms
proof (cases rule: router_step.cases)
  case (step_handler h)
  then show ?thesis using assms(2) by (simp add: setAcceptHandler_def router_inv_def)
next
  case (step_read p pick cap)
  have wf: "rx_wf (heap r ! p)" using router_invD(5) [OF assms(2)] step_read by simp
  show ?thesis
  proof (cases "assoc_Read pick (heap r ! p) cap")
    case None
    then show ?thesis using step_read assms(2) by (simp add: router_Read_def)
  next
    case (Some xa)
    then obtain x a where a: "assoc_Read pick (heap r ! p) cap = Some (x, a)" by (cases xa) auto
    note simps = assoc_Read_simps [OF a]
    have "rx_wf a" using wf simps by (simp add: rx_wf_def)
    then show ?thesis
      using step_read a simps by (simp add: router_Read_def router_inv_update [OF assms(2)])
  qed
next
  case (step_write p send payload)
  have wf: "rx_wf (heap r ! p)" using router_invD(5) [OF assms(2)] step_write by simp
  obtain x a sent where a: "assoc_Write ser send (heap r ! p) payload = (x, a, sent)"
    by (cases "assoc_Write ser send (heap r ! p) payload") auto
  note simps = assoc_Write_simps [OF a]
  have "rx_wf a" using wf simps by (simp add: rx_wf_def)
  then show ?thesis
    using step_write a simps by (simp add: router_Write_def router_inv_update [OF assms(2)])
qed (simp_all add: newAssociation_inv route_inv assoc_Close_inv closeConn_inv router_close_inv)

interpretation router: invariant_system "\<lambda>r. r = newDatagramRouter" "router_step ser" router_inv for ser
  by unfold_locales (auto simp: router_inv_new intro: router_step_inv)

section \<open>Isolation of associations\<close>

lemma view_route_other:
  assumes "router_inv r" "\<And>f. parseDatagramFrame ser raw = Inr f \<Longrightarrow> associationID f \<noteq> i"
  shows "view (routeReceivedDatagram ser r now raw conn) i = view r i"
proof (cases "parseDatagramFrame ser raw")
  case (Inl e)
  then show ?thesis by (simp add: routeReceivedDatagram_def)
next
  case (Inr f)
  then have ne: "associationID f \<noteq> i" using assms(2) by blast
  show ?thesis
  proof (rule route_cases [OF assms(1) Inr, where now = now and conn = conn])
    fix p assume p: "associations r (associationID f) = Some p"
      and r': "routeReceivedDatagram ser r now raw conn =
        r\<lparr>heap := (heap r)[p := deliverFragment (heap r ! p) now f]\<rparr>"
    have "q \<noteq> p" if "associations r i = Some q" for q
      using that p ne router_invD(2) [OF assms(1)] by metis
    then show ?thesis unfolding r' by (auto simp: view_def option.map_sel split: option.split
          intro!: option.map_cong)
  next
    assume r': "routeReceivedDatagram ser r now raw conn =
      r\<lparr>heap := heap r @ [deliverFragment (newDatagramAssociation (associationID f) conn (frame_destination f)) now f],
        associations := (associations r)(associationID f \<mapsto> length (heap r)),
        accepted := accepted r @ [length (heap r)]\<rparr>"
    have "q < length (heap r)" if "associations r i = Some q" for q
      using router_invD(1) [OF assms(1) that] .
    then show ?thesis unfolding r' using ne
      by (auto simp: view_def nth_append intro!: option.map_cong)
  qed simp
qed

lemma view_route_same:
  assumes "router_inv r" "parseDatagramFrame ser raw = Inr f" "view r (associationID f) = Some a"
  shows "view (routeReceivedDatagram ser r now raw conn) (associationID f) = Some (deliverFragment a now f)"
proof -
  obtain p where "associations r (associationID f) = Some p" "heap r ! p = a"
    using assms(3) by (auto simp: view_def)
  then show ?thesis
    using route_cases [OF assms(1,2), where now = now and conn = conn] router_invD(1) [OF assms(1)]
    by (auto simp: view_def routeReceivedDatagram_def assms(2))
qed

text \<open>Datagrams arriving on the paths of a tunnel, each with its time and connection.\<close>

definition route_all ::
  "'d serializer \<Rightarrow> 'd datagramRouter \<Rightarrow> (time \<times> bytes \<times> nat option) list \<Rightarrow> 'd datagramRouter" where
  "route_all ser r arrivals = foldl (\<lambda>r (now, raw, conn). routeReceivedDatagram ser r now raw conn) r arrivals"

definition for_assoc :: "'d serializer \<Rightarrow> u64 \<Rightarrow> bytes \<Rightarrow> bool" where
  "for_assoc ser i raw =
     (case parseDatagramFrame ser raw of Inl _ \<Rightarrow> False | Inr f \<Rightarrow> associationID f = i)"

lemma view_route_all:
  assumes "router_inv r" "view r i = Some a"
  shows "view (route_all ser r arrivals) i =
    Some (receive_raw ser a (map (\<lambda>(now, raw, conn). (now, raw))
      (filter (\<lambda>(now, raw, conn). for_assoc ser i raw) arrivals)))"
  using assms
proof (induction arrivals arbitrary: r a)
  case Nil
  then show ?case by (simp add: route_all_def receive_raw_def)
next
  case (Cons x arrivals)
  obtain now raw conn where x: "x = (now, raw, conn)" by (cases x)
  let ?r = "routeReceivedDatagram ser r now raw conn"
  have inv: "router_inv ?r" by (rule route_inv [OF Cons.prems(1)])
  have run: "route_all ser r (x # arrivals) = route_all ser ?r arrivals" by (simp add: x route_all_def)
  show ?case
  proof (cases "for_assoc ser i raw")
    case True
    then obtain f where f: "parseDatagramFrame ser raw = Inr f" "associationID f = i"
      by (auto simp: for_assoc_def split: sum.splits)
    then have "view ?r i = Some (deliverFragment a now f)"
      using view_route_same [OF Cons.prems(1) f(1), of a now conn] Cons.prems(2) by simp
    from Cons.IH [OF inv this] True f(1) run show ?thesis by (simp add: x receive_raw_def)
  next
    case False
    then have "view ?r i = view r i"
      by (intro view_route_other [OF Cons.prems(1)]) (auto simp: for_assoc_def)
    then show ?thesis using Cons.IH [OF inv, of a] Cons.prems(2) False run by (simp add: x)
  qed
qed

section \<open>Closing a connection\<close>

lemma fold_remove:
  defines "rm \<equiv> foldl (\<lambda>r p. removeAssociation (assoc_id (heap r ! p)) r)"
  shows "heap (rm r ps) = heap r"
    "associations (rm r ps) i = (if i \<in> (\<lambda>p. assoc_id (heap r ! p)) ` set ps then None else associations r i)"
proof -
  have "heap (rm r ps) = heap r \<and>
    associations (rm r ps) i = (if i \<in> (\<lambda>p. assoc_id (heap r ! p)) ` set ps then None else associations r i)"
    unfolding rm_def by (induction ps arbitrary: r) (simp_all add: removeAssociation_def)
  then show "heap (rm r ps) = heap r"
    "associations (rm r ps) i = (if i \<in> (\<lambda>p. assoc_id (heap r ! p)) ` set ps then None else associations r i)"
    by auto
qed

lemma fold_close:
  assumes "\<forall>p \<in> set ps. p < length (heap r) \<and> associations r (assoc_id (heap r ! p)) = None"
  defines "r' \<equiv> foldl (\<lambda>r p. assoc_Close p r) r ps"
  shows "associations r' = associations r \<and> length (heap r') = length (heap r) \<and>
    (\<forall>q. q \<notin> set ps \<longrightarrow> heap r' ! q = heap r ! q) \<and> (\<forall>p \<in> set ps. assoc_closed (heap r' ! p)) \<and>
    (\<forall>q. assoc_id (heap r' ! q) = assoc_id (heap r ! q)) \<and>
    (\<forall>q. assoc_closed (heap r ! q) \<longrightarrow> assoc_closed (heap r' ! q))"
  unfolding r'_def using assms(1)
proof (induction ps arbitrary: r)
  case (Cons p ps)
  let ?r = "assoc_Close p r"
  have p: "p < length (heap r)" "associations r (assoc_id (heap r ! p)) = None" using Cons.prems by auto
  have heap: "heap ?r = (if assoc_closed (heap r ! p) then heap r
      else (heap r)[p := (heap r ! p)\<lparr>assoc_closed := True, pending := []\<rparr>])"
    and assocs: "associations ?r = associations r"
    using p by (auto simp: assoc_Close_def Let_def removeAssociation_def)
  have id: "assoc_id (heap ?r ! q) = assoc_id (heap r ! q)" for q
    unfolding heap using nth_update_same [of assoc_id _ "heap r" p q] by simp
  have cl: "assoc_closed (heap ?r ! p)" using p heap by simp
  have mono: "assoc_closed (heap r ! q) \<Longrightarrow> assoc_closed (heap ?r ! q)" for q
    unfolding heap by (cases "q = p") (use p in auto)
  have len: "length (heap ?r) = length (heap r)" unfolding heap by simp
  have oth: "q \<noteq> p \<Longrightarrow> heap ?r ! q = heap r ! q" for q unfolding heap by simp
  have "\<forall>p \<in> set ps. p < length (heap ?r) \<and> associations ?r (assoc_id (heap ?r ! p)) = None"
    using Cons.prems assocs id len by simp
  note IH = Cons.IH [OF this]
  show ?case using IH assocs id cl mono len oth by auto
qed simp

lemma doomed_ids:
  assumes "router_inv r"
  shows "i \<in> (\<lambda>p. assoc_id (heap r ! p)) ` set (doomed P r) \<longleftrightarrow> (\<exists>a. view r i = Some a \<and> P a)"
proof
  assume "i \<in> (\<lambda>p. assoc_id (heap r ! p)) ` set (doomed P r)"
  then show "\<exists>a. view r i = Some a \<and> P a" by (auto simp: doomed_def view_def)
next
  assume "\<exists>a. view r i = Some a \<and> P a"
  then obtain p where p: "associations r i = Some p" "P (heap r ! p)" by (auto simp: view_def)
  then have "p \<in> set (doomed P r)" "assoc_id (heap r ! p) = i"
    using router_invD(1,2) [OF assms p(1)] by (auto simp: doomed_def)
  then show "i \<in> (\<lambda>p. assoc_id (heap r ! p)) ` set (doomed P r)" by blast
qed

lemma closeConn_view:
  assumes "router_inv r"
  shows "view (closeConn conn r) i =
      (case view r i of None \<Rightarrow> None | Some a \<Rightarrow> if assoc_conn a = conn then None else Some a)"
    "\<forall>p < length (heap r). associations r (assoc_id (heap r ! p)) = Some p \<and> assoc_conn (heap r ! p) = conn \<longrightarrow>
       assoc_closed (heap (closeConn conn r) ! p)"
proof -
  let ?d = "doomed (\<lambda>a. assoc_conn a = conn) r"
  define r1 where "r1 = foldl (\<lambda>r p. removeAssociation (assoc_id (heap r ! p)) r) r ?d"
  have h1: "heap r1 = heap r" and a1: "associations r1 j =
      (if j \<in> (\<lambda>p. assoc_id (heap r ! p)) ` set ?d then None else associations r j)" for j
    unfolding r1_def by (rule fold_remove)+
  have cc: "closeConn conn r = foldl (\<lambda>r p. assoc_Close p r) r1 ?d"
    by (simp add: closeConn_def r1_def Let_def)
  have "\<forall>p \<in> set ?d. p < length (heap r1) \<and> associations r1 (assoc_id (heap r1 ! p)) = None"
    using h1 a1 by (auto simp: doomed_def)
  note fc = fold_close [OF this, folded cc]
  show "\<forall>p < length (heap r). associations r (assoc_id (heap r ! p)) = Some p \<and> assoc_conn (heap r ! p) = conn \<longrightarrow>
       assoc_closed (heap (closeConn conn r) ! p)"
    using fc by (auto simp: doomed_def)
  show "view (closeConn conn r) i =
      (case view r i of None \<Rightarrow> None | Some a \<Rightarrow> if assoc_conn a = conn then None else Some a)"
  proof (cases "\<exists>a. view r i = Some a \<and> assoc_conn a = conn")
    case True
    then have "associations (closeConn conn r) i = None" using fc a1 [of i] doomed_ids [OF assms] by auto
    then show ?thesis using True by (auto simp: view_def)
  next
    case False
    then have same: "associations (closeConn conn r) i = associations r i"
      using fc a1 [of i] doomed_ids [OF assms] by auto
    have "heap (closeConn conn r) ! p = heap r ! p" if "associations r i = Some p" for p
    proof -
      have "p \<notin> set ?d" using that False by (auto simp: doomed_def view_def)
      then show ?thesis using fc h1 by simp
    qed
    then show ?thesis using False same by (auto simp: view_def split: option.split)
  qed
qed

section \<open>Properties\<close>

lemma demo_reach:
  "reach (\<lambda>r. r = newDatagramRouter) (router_step port_serializer)
     (snd (newAssociation newDatagramRouter (Some 3) 443))"
  by (rule reach_step, rule reach_init, rule refl, rule step_new)

lemma demo_view:
  "view (snd (newAssociation newDatagramRouter (Some 3) 443)) 1 =
     Some (newDatagramAssociation 1 (Some 3) (443 :: u16))"
  by (simp add: newAssociation_def newDatagramRouter_def view_def)

text \<open>
  C3. Whatever sequence of opening, routing, reading, writing and closing the tunnel goes through,
  an identifier in the router's table leads to an association that exists, bears that identifier
  and is open, each association's reassembly state is sound, and a closed router routes nothing.
\<close>

theorem router_table_sound:
  assumes "reach (\<lambda>r. r = newDatagramRouter) (router_step ser) r"
  shows "router_inv r \<and> (case view r i of None \<Rightarrow> True | Some a \<Rightarrow>
      assoc_id a = i \<and> \<not> assoc_closed a \<and> rx_wf a \<and> \<not> router_closed r)"
proof -
  have inv: "router_inv r" by (rule router.reach_inv [OF assms])
  then show ?thesis
    using router_invD [OF inv] by (auto simp: view_def split: option.split)
qed

theorem router_table_sound_witness:
  "router_inv (snd (newAssociation newDatagramRouter (Some 3) (443 :: u16)))"
  using router_table_sound [OF demo_reach] by blast

text \<open>
  C4. Associations do not interfere: routing any interleaving of datagrams for any associations
  leaves each open association in exactly the state it would reach by receiving its own datagrams
  alone, in their order of arrival.
\<close>

theorem router_refines_associations:
  assumes "reach (\<lambda>r. r = newDatagramRouter) (router_step ser) r" "view r i = Some a"
  shows "view (route_all ser r arrivals) i =
    Some (receive_raw ser a (map (\<lambda>(now, raw, conn). (now, raw))
      (filter (\<lambda>(now, raw, conn). for_assoc ser i raw) arrivals)))"
  by (rule view_route_all [OF router.reach_inv [OF assms(1)] assms(2)])

theorem router_refines_associations_witness:
  "\<exists>b. view (route_all port_serializer (snd (newAssociation newDatagramRouter (Some 3) 443))
      [(2, [1, 1, 187, 1, 1, 0, 9], Some 3), (3, [0], None)]) 1 = Some b"
  using router_refines_associations [OF demo_reach demo_view] by blast

text \<open>
  When a path dies, exactly its associations go: after \<open>closeConn\<close> no identifier leads to an
  association of that connection, all of them are closed, and every other association is
  reachable and unchanged.
\<close>

lemma closeConn_exact:
  assumes "reach (\<lambda>r. r = newDatagramRouter) (router_step ser) r"
  shows "view (closeConn conn r) i =
      (case view r i of None \<Rightarrow> None | Some a \<Rightarrow> if assoc_conn a = conn then None else Some a) \<and>
    (associations r i = Some p \<and> assoc_conn (heap r ! p) = conn \<longrightarrow>
       assoc_closed (heap (closeConn conn r) ! p))"
proof -
  have inv: "router_inv r" by (rule router.reach_inv [OF assms])
  have "assoc_closed (heap (closeConn conn r) ! p)"
    if "associations r i = Some p" "assoc_conn (heap r ! p) = conn"
    using closeConn_view(2) [OF inv, of conn] router_invD(1,2) [OF inv that(1)] that by simp
  then show ?thesis using closeConn_view(1) [OF inv] by blast
qed

lemma closeConn_exact_witness:
  "view (closeConn (Some 3) (snd (newAssociation newDatagramRouter (Some 3) (443 :: u16)))) 1 = None"
  using closeConn_exact [OF demo_reach, of "Some 3" 1] by (simp add: demo_view)

end
