(* ===== verification/Tunnel_Protocol.thy ===== *)
theory Tunnel_Protocol
  imports Prelude
begin

text \<open>
  The frames of the relay tunnel (\<open>transport/call/tunnel/protocol.go\<close>) and the tracker that repeats
  a configuration until it is acknowledged (\<open>config_ack.go\<close>). A frame is a four-byte length, a
  connection id, a message type and the payload; \<open>DecodeFrames\<close> returns the list of messages its
  callback gets, in order.
\<close>

section \<open>Frames\<close>

definition MsgConnect :: byte where "MsgConnect = 0x01"
definition MsgConnectOK :: byte where "MsgConnectOK = 0x02"
definition MsgConnectErr :: byte where "MsgConnectErr = 0x03"
definition MsgData :: byte where "MsgData = 0x04"
definition MsgClose :: byte where "MsgClose = 0x05"
definition MsgUDP :: byte where "MsgUDP = 0x06"
definition MsgUDPReply :: byte where "MsgUDPReply = 0x07"
definition MsgConfig :: byte where "MsgConfig = 0x08"
definition MsgConfigAck :: byte where "MsgConfigAck = 0x09"
definition MsgFlowCredit :: byte where "MsgFlowCredit = 0x0c"
definition ControlConnID :: u32 where "ControlConnID = 0"

lemmas msg_defs = MsgConnect_def MsgConnectOK_def MsgConnectErr_def MsgData_def MsgClose_def MsgUDP_def
  MsgUDPReply_def MsgConfig_def MsgConfigAck_def MsgFlowCredit_def

type_synonym message = "u32 \<times> byte \<times> bytes"

definition EncodeFrame :: "u32 \<Rightarrow> byte \<Rightarrow> bytes \<Rightarrow> bytes" where
  "EncodeFrame connID msgType payload =
     (let buf = replicate (4 + 5 + length payload) 0;
          buf = write_at 0 (PutUint32 (word_of_nat (5 + length payload))) buf;
          buf = write_at 4 (PutUint32 connID) buf;
          buf = write_at 8 [msgType] buf;
          buf = write_at 9 payload buf
      in buf)"

definition LooksLikeRelayFrame :: "bytes \<Rightarrow> bool" where
  "LooksLikeRelayFrame payload =
     (if length payload < 9 then False
      else let frameLen = be_val (slice 0 4 payload) in 5 \<le> frameLen \<and> frameLen + 4 \<le> length payload)"

function DecodeFrames :: "bytes \<Rightarrow> message list" where
  "DecodeFrames data =
     (if length data < 4 then []
      else
        let frameLen = be_val (slice 0 4 data) in
        if frameLen < 5 \<or> length data < 4 + frameLen then []
        else (Uint32 (slice 4 8 data), data ! 8, slice 9 (4 + frameLen) data) # DecodeFrames (drop (4 + frameLen) data))"
  by auto
termination by (relation "measure length") auto

declare DecodeFrames.simps [simp del]

section \<open>Configuration\<close>

definition clamp16 :: "int \<Rightarrow> int" where
  "clamp16 n = (let n = (if n < 1 then 1 else n) in if 0xFFFF < n then 0xFFFF else n)"

definition EncodeVP8Config :: "int \<Rightarrow> int \<Rightarrow> int \<Rightarrow> bytes" where
  "EncodeVP8Config fps batch trackCount =
     (let payload = replicate 6 0;
          payload = write_at 0 (PutUint16 (word_of_int (clamp16 fps))) payload;
          payload = write_at 2 (PutUint16 (word_of_int (clamp16 batch))) payload;
          payload = write_at 4 (PutUint16 (word_of_int (clamp16 trackCount))) payload
      in EncodeFrame ControlConnID MsgConfig payload)"

definition DecodeVP8Config :: "bytes \<Rightarrow> (int \<times> int \<times> int) option" where
  "DecodeVP8Config payload =
     (if length payload < 4 then None
      else Some (int (be_val (slice 0 2 payload)), int (be_val (slice 2 4 payload)),
                 if 6 \<le> length payload then int (be_val (slice 4 6 payload)) else 1))"

section \<open>The layout of a frame\<close>

lemma EncodeFrame_layout [wire]:
  "EncodeFrame c t p = PutUint32 (word_of_nat (5 + length p)) @ PutUint32 c @ [t] @ p"
proof -
  let ?srcs = "[PutUint32 (word_of_nat (5 + length p)), PutUint32 c, [t], p]"
  have "fill 0 ?srcs (replicate (4 + 5 + length p) 0) = concat ?srcs" by (rule fill_exact) simp
  then show ?thesis by (simp add: EncodeFrame_def Let_def)
qed

lemma length_EncodeFrame [simp]: "length (EncodeFrame c t p) = 9 + length p"
  by (simp add: wire)

text \<open>Payloads whose length field does not wrap around.\<close>

definition encodable :: "message \<Rightarrow> bool" where
  "encodable m \<longleftrightarrow> 5 + length (snd (snd m)) < 2 ^ 32"

abbreviation enc_frame :: "message \<Rightarrow> bytes" where
  "enc_frame m \<equiv> EncodeFrame (fst m) (fst (snd m)) (snd (snd m))"

lemma DecodeFrames_Nil [simp]: "DecodeFrames [] = []"
  by (simp add: DecodeFrames.simps)

lemma be_val_PutUint32: "k < 2 ^ 32 \<Longrightarrow> be_val (PutUint32 (word_of_nat k)) = k"
  by (simp add: be_val_be_bytes unat_of_nat)

lemma DecodeFrames_frame:
  assumes "5 + length p < 2 ^ 32"
  shows "DecodeFrames (EncodeFrame c t p @ rest) = (c, t, p) # DecodeFrames rest"
proof -
  let ?d = "EncodeFrame c t p @ rest"
  have "slice 0 4 ?d = PutUint32 (word_of_nat (5 + length p))" by (simp add: wire slice_def)
  moreover have "be_val (PutUint32 (word_of_nat (5 + length p))) = 5 + length p"
    by (rule be_val_PutUint32 [OF assms])
  moreover have "slice 4 8 ?d = PutUint32 c" "?d ! 8 = t" "slice 9 (9 + length p) ?d = p" "drop (9 + length p) ?d = rest"
    by (simp_all add: wire slice_def nth_append)
  ultimately show ?thesis by (subst DecodeFrames.simps) (simp add: Let_def add.commute)
qed

lemma DecodeFrames_frames:
  "\<forall>m \<in> set ms. encodable m \<Longrightarrow> DecodeFrames (concat (map enc_frame ms) @ rest) = ms @ DecodeFrames rest"
  by (induction ms) (auto simp: DecodeFrames_frame encodable_def)

text \<open>Whatever arrives, the decoded messages are the longest sequence of whole frames it starts with.\<close>

lemma DecodeFrames_exact:
  "\<exists>rest. data = concat (map enc_frame (DecodeFrames data)) @ rest \<and> DecodeFrames rest = [] \<and>
     (\<forall>m \<in> set (DecodeFrames data). encodable m)"
proof (induction data rule: DecodeFrames.induct)
  case (1 data)
  let ?n = "be_val (slice 0 4 data)"
  show ?case
  proof (cases "length data < 4 \<or> ?n < 5 \<or> length data < 4 + ?n")
    case True
    then have "DecodeFrames data = []" by (subst DecodeFrames.simps) (auto simp: Let_def)
    then show ?thesis by simp
  next
    case False
    then have len: "4 \<le> length data" "5 \<le> ?n" "4 + ?n \<le> length data" by auto
    let ?m = "(Uint32 (slice 4 8 data), data ! 8, slice 9 (4 + ?n) data)"
    let ?rest = "drop (4 + ?n) data"
    have dec: "DecodeFrames data = ?m # DecodeFrames ?rest"
      using False by (subst DecodeFrames.simps) (auto simp: Let_def)
    have p: "5 + length (slice 9 (4 + ?n) data) = ?n" using len by simp
    have n: "?n < 2 ^ 32" using be_val_less [of "slice 0 4 data"] len by simp
    have "PutUint32 (word_of_nat ?n) = slice 0 4 data" using len by simp
    then have "enc_frame ?m = slice 0 4 data @ slice 4 8 data @ slice 8 9 data @ slice 9 (4 + ?n) data"
      using len p slice_single [of 8 data] by (simp add: wire)
    also have "\<dots> = slice 0 (4 + ?n) data" using len by (simp add: slice_adjacent)
    finally have "data = enc_frame ?m @ ?rest" by (simp add: slice_drop)
    moreover obtain rest where "?rest = concat (map enc_frame (DecodeFrames ?rest)) @ rest" "DecodeFrames rest = []"
      "\<forall>m \<in> set (DecodeFrames ?rest). encodable m"
      using 1 False by (auto simp: Let_def)
    ultimately show ?thesis using dec p n by (intro exI [of _ rest]) (simp add: encodable_def)
  qed
qed

section \<open>Clamped configurations\<close>

lemma clamp16_range: "1 \<le> clamp16 n" "clamp16 n \<le> 65535"
  by (simp_all add: clamp16_def Let_def)

lemma be_val_PutUint16: "be_val (PutUint16 (w :: u16)) = unat w"
  using unat_bound [of w] by (simp add: be_val_be_bytes)

lemma config_bytes: "int (unat (word_of_int (clamp16 n) :: u16)) = clamp16 n"
  using clamp16_range [of n] by (simp add: uint_word_of_int)

lemma EncodeVP8Config_payload:
  "EncodeVP8Config f b t = EncodeFrame ControlConnID MsgConfig
     (PutUint16 (word_of_int (clamp16 f)) @ PutUint16 (word_of_int (clamp16 b)) @ PutUint16 (word_of_int (clamp16 t)))"
  by (simp add: EncodeVP8Config_def Let_def write_at_def)

lemma DecodeVP8Config_layout:
  "DecodeVP8Config (PutUint16 f @ PutUint16 b @ PutUint16 t) = Some (int (unat f), int (unat b), int (unat t))"
  by (simp only: DecodeVP8Config_def slice_def length_append length_be_bytes)
    (simp add: be_val_PutUint16)

section \<open>Repeating a configuration until it is acknowledged\<close>

text \<open>
  \<open>ConfigAckTracker\<close>: channels are numbers, \<open>closed_chans\<close> those that are closed. Closing a closed
  channel panics in Go, so every operation returns \<open>None\<close> if it would.
\<close>

record ConfigAckTracker =
  acked :: "nat option"
  cancel :: "nat option"
  confirmed :: bool
  closed_chans :: "nat set"
  next_chan :: nat

definition newTracker :: ConfigAckTracker where
  "newTracker = \<lparr>acked = None, cancel = None, confirmed = False, closed_chans = {}, next_chan = 0\<rparr>"

definition Acknowledged :: "ConfigAckTracker \<Rightarrow> bool" where "Acknowledged t = confirmed t"

definition close_chan :: "nat \<Rightarrow> ConfigAckTracker \<Rightarrow> ConfigAckTracker option" where
  "close_chan c t = (if c \<in> closed_chans t then None else Some (t\<lparr>closed_chans := insert c (closed_chans t)\<rparr>))"

definition Arm :: "ConfigAckTracker \<Rightarrow> ((nat \<times> nat) \<times> ConfigAckTracker) option" where
  "Arm t =
     (case (case cancel t of None \<Rightarrow> Some t | Some c \<Rightarrow> close_chan c t) of
        None \<Rightarrow> None
      | Some t \<Rightarrow>
          let a = next_chan t; c = next_chan t + 1 in
          Some ((a, c), t\<lparr>acked := Some a, cancel := Some c, next_chan := next_chan t + 2\<rparr>))"

definition Mark :: "ConfigAckTracker \<Rightarrow> ConfigAckTracker option" where
  "Mark t =
     (let t = t\<lparr>confirmed := True\<rparr> in
      case acked t of None \<Rightarrow> Some t
      | Some a \<Rightarrow> if a \<in> closed_chans t then Some t else close_chan a t)"

text \<open>
  \<open>SendVP8ConfigUntilAcked\<close>: \<open>wakes\<close> are the outcomes of its \<open>select\<close>, one per round; the result is the
  frames sent and whether the call has returned.
\<close>

datatype wake = OnAcked | OnCancel | OnStop | OnTick

fun resend_loop :: "bytes \<Rightarrow> wake list \<Rightarrow> bytes list \<times> bool" where
  "resend_loop frame [] = ([], False)"
| "resend_loop frame (OnTick # ws) = (let (fs, fin) = resend_loop frame ws in (frame # fs, fin))"
| "resend_loop frame (_ # ws) = ([], True)"

definition SendVP8ConfigUntilAcked :: "int \<Rightarrow> int \<Rightarrow> int \<Rightarrow> wake list \<Rightarrow> bytes list \<times> bool" where
  "SendVP8ConfigUntilAcked fps batch trackCount wakes =
     (let frame = EncodeVP8Config fps batch trackCount; (fs, fin) = resend_loop frame wakes in (frame # fs, fin))"

inductive tracker_step :: "ConfigAckTracker option \<Rightarrow> ConfigAckTracker option \<Rightarrow> bool" where
  arm: "tracker_step (Some t) (map_option snd (Arm t))"
| mark: "tracker_step (Some t) (Mark t)"

text \<open>The current \<open>cancel\<close> channel is open, and the two current channels differ.\<close>

definition tracker_inv :: "ConfigAckTracker option \<Rightarrow> bool" where
  "tracker_inv s \<longleftrightarrow> (\<exists>t. s = Some t \<and> closed_chans t \<subseteq> {..<next_chan t} \<and>
     (\<forall>a. acked t = Some a \<longrightarrow> a < next_chan t) \<and>
     (\<forall>c. cancel t = Some c \<longrightarrow> c < next_chan t \<and> c \<notin> closed_chans t \<and> acked t \<noteq> Some c))"

interpretation tracker: invariant_system "\<lambda>s. s = Some newTracker" tracker_step tracker_inv
proof
  show "tracker_inv s" if "s = Some newTracker" for s using that by (simp add: tracker_inv_def newTracker_def)
  show "tracker_inv t" if "tracker_inv s" "tracker_step s t" for s t
    using that(2,1)
    by cases (auto simp: tracker_inv_def Arm_def Mark_def close_chan_def Let_def split: option.splits if_splits)
qed

lemma tracker_ready:
  assumes "tracker_inv (Some k)"
  shows "Mark k \<noteq> None"
    "\<exists>a c k'. Arm k = Some ((a, c), k') \<and> (\<forall>old. cancel k = Some old \<longrightarrow> old \<in> closed_chans k') \<and>
       a \<notin> closed_chans k' \<and> c \<notin> closed_chans k'"
  using assms by (auto simp: tracker_inv_def Mark_def Arm_def close_chan_def Let_def split: option.splits)

lemma resend_loop_returns:
  "snd (resend_loop frame ws) \<longleftrightarrow> (\<exists>w \<in> set ws. w \<noteq> OnTick)"
  "set (fst (resend_loop frame ws)) \<subseteq> {frame}"
  "length (fst (resend_loop frame ws)) = length (takeWhile (\<lambda>w. w = OnTick) ws)"
  by (induction frame ws rule: resend_loop.induct) (auto split: prod.splits)

section \<open>Properties\<close>

text \<open>
  C15. Framing is exact in both directions: any sequence of messages is decoded as it was
  encoded, however much follows it, and whatever bytes arrive, the messages handed to the callback
  are precisely the whole frames the bytes start with; nothing is invented from a torn or
  malformed tail and no whole frame before it is lost.
\<close>

theorem tunnel_frames_exact:
  "((\<forall>m \<in> set ms. encodable m) \<longrightarrow> DecodeFrames (concat (map enc_frame ms) @ rest) = ms @ DecodeFrames rest) \<and>
   (\<exists>tail. data = concat (map enc_frame (DecodeFrames data)) @ tail \<and> DecodeFrames tail = [])"
  using DecodeFrames_frames [of ms rest] DecodeFrames_exact [of data] by blast

theorem tunnel_frames_exact_witness:
  "DecodeFrames (concat (map enc_frame [(7, MsgData, [1, 2]), (8, MsgClose, [])]) @ [9])
     = [(7, MsgData, [1, 2]), (8, MsgClose, [])] @ DecodeFrames [9]"
  using tunnel_frames_exact [of "[(7, MsgData, [1, 2]), (8, MsgClose, [])]" "[9]" "[]"] by (simp add: encodable_def)

text \<open>
  The configuration handshake: what the peer decodes is what was sent, clamped to
  1..65535; the sender repeats the same frame once per tick and returns at the first
  acknowledgement, cancellation or stop; and the tracker never closes a channel twice, whatever the
  order of \<open>Arm\<close> and \<open>Mark\<close>, while every \<open>Arm\<close> cancels the sender armed before.
\<close>

lemma config_handshake:
  "(\<exists>p. DecodeFrames (EncodeVP8Config f b t) = [(ControlConnID, MsgConfig, p)] \<and>
        DecodeVP8Config p = Some (clamp16 f, clamp16 b, clamp16 t)) \<and>
   set (fst (SendVP8ConfigUntilAcked f b t ws)) = {EncodeVP8Config f b t} \<and>
   (snd (SendVP8ConfigUntilAcked f b t ws) \<longleftrightarrow> (\<exists>w \<in> set ws. w \<noteq> OnTick)) \<and>
   (reach (\<lambda>s. s = Some newTracker) tracker_step s \<longrightarrow>
     (\<exists>k a c k'. s = Some k \<and> Mark k \<noteq> None \<and> Arm k = Some ((a, c), k') \<and>
        (\<forall>old. cancel k = Some old \<longrightarrow> old \<in> closed_chans k') \<and> a \<notin> closed_chans k' \<and> c \<notin> closed_chans k'))"
proof (intro conjI impI)
  let ?p = "PutUint16 (word_of_int (clamp16 f)) @ PutUint16 (word_of_int (clamp16 b)) @ PutUint16 (word_of_int (clamp16 t))"
  have "DecodeFrames (EncodeVP8Config f b t @ []) = [(ControlConnID, MsgConfig, ?p)]"
    unfolding EncodeVP8Config_payload by (subst DecodeFrames_frame) simp_all
  moreover have "DecodeVP8Config ?p = Some (clamp16 f, clamp16 b, clamp16 t)"
    by (simp only: DecodeVP8Config_layout config_bytes)
  ultimately show "\<exists>p. DecodeFrames (EncodeVP8Config f b t) = [(ControlConnID, MsgConfig, p)] \<and>
        DecodeVP8Config p = Some (clamp16 f, clamp16 b, clamp16 t)" by simp
  show "set (fst (SendVP8ConfigUntilAcked f b t ws)) = {EncodeVP8Config f b t}"
    using resend_loop_returns(2) [of "EncodeVP8Config f b t" ws] by (auto simp: SendVP8ConfigUntilAcked_def Let_def split: prod.splits)
  show "snd (SendVP8ConfigUntilAcked f b t ws) \<longleftrightarrow> (\<exists>w \<in> set ws. w \<noteq> OnTick)"
    using resend_loop_returns(1) [of "EncodeVP8Config f b t" ws] by (auto simp: SendVP8ConfigUntilAcked_def Let_def split: prod.splits)
  assume "reach (\<lambda>s. s = Some newTracker) tracker_step s"
  from tracker.reach_inv [OF this] obtain k where k: "s = Some k" "tracker_inv (Some k)" by (auto simp: tracker_inv_def)
  with tracker_ready [OF k(2)]
  show "\<exists>k a c k'. s = Some k \<and> Mark k \<noteq> None \<and> Arm k = Some ((a, c), k') \<and>
        (\<forall>old. cancel k = Some old \<longrightarrow> old \<in> closed_chans k') \<and> a \<notin> closed_chans k' \<and> c \<notin> closed_chans k'"
    by blast
qed

lemma config_handshake_witness:
  "\<exists>k a c k'. map_option snd (Arm newTracker) = Some k \<and> Arm k = Some ((a, c), k') \<and> cancel k = Some 1 \<and> 1 \<in> closed_chans k'"
proof -
  have "reach (\<lambda>s. s = Some newTracker) tracker_step (Some newTracker)" by (rule reach_init) simp
  then have "reach (\<lambda>s. s = Some newTracker) tracker_step (map_option snd (Arm newTracker))"
    by (rule reach_step) (rule tracker_step.arm)
  moreover have "map_option (cancel \<circ> snd) (Arm newTracker) = Some (Some 1)" by (simp add: Arm_def newTracker_def Let_def)
  ultimately show ?thesis using config_handshake [of 0 0 0 "[]" "map_option snd (Arm newTracker)"] by auto
qed

end
