(* ===== verification/Relay_Bridge.thy ===== *)
theory Relay_Bridge
  imports Tunnel_Protocol
begin

text \<open>
  The relay bridge (\<open>transport/call/tunnel/relay_bridge.go\<close>): connections multiplexed over one data
  tunnel. Connections are objects the application keeps after the bridge has dropped them, so they
  live in heaps (\<open>tcs\<close>, \<open>ucs\<close>, \<open>cucs\<close>) and the bridge's maps hold addresses. Frames given to the
  current tunnel are collected in \<open>sent\<close>. A method of a connection that uses the bridge returns the
  messages it sends and whether it deletes its entry. Channels that only wake a reader or writer
  (\<open>readCond\<close>, \<open>creditCh\<close>) carry no data and are not represented: a call that would block returns
  \<open>Blocked\<close> and is repeated.
\<close>

definition relayFlowWindowBytes :: int where "relayFlowWindowBytes = 256 * 1024"
definition relayFlowChunkBytes :: int where "relayFlowChunkBytes = 16 * 1024"

datatype 'a outcome = Blocked | Failed go_error | Returned 'a

section \<open>Stream connections\<close>

text \<open>\<open>rdy\<close> is the channel of capacity one: empty, or the value it holds (\<open>Some None\<close> is nil).\<close>

record tunnelConn =
  tc_id :: u32
  rdy :: "go_error option option"
  readBuf :: bytes
  tc_closed :: bool
  sendCredit :: int
  tc_flow :: bool

type_synonym 'c effect = "'c \<times> (byte \<times> bytes) list \<times> bool"

definition newTunnelConn :: "u32 \<Rightarrow> bool \<Rightarrow> tunnelConn" where
  "newTunnelConn cid flowControl =
     \<lparr>tc_id = cid, rdy = None, readBuf = [], tc_closed = False,
      sendCredit = (if flowControl then relayFlowWindowBytes else 0), tc_flow = flowControl\<rparr>"

definition put_rdy :: "go_error option \<Rightarrow> tunnelConn \<Rightarrow> tunnelConn" where
  "put_rdy v tc = (if rdy tc = None then tc\<lparr>rdy := Some v\<rparr> else tc)"

definition returnReadCredit :: "int \<Rightarrow> tunnelConn \<Rightarrow> (byte \<times> bytes) list" where
  "returnReadCredit credit tc =
     (if \<not> tc_flow tc \<or> credit \<le> 0 \<or> tc_closed tc then []
      else [(MsgFlowCredit, PutUint32 (word_of_int credit))])"

text \<open>\<open>tunnelConn.Read\<close> into a buffer of \<open>cap\<close> bytes.\<close>

definition tc_Read :: "nat \<Rightarrow> tunnelConn \<Rightarrow> bytes outcome \<times> tunnelConn effect" where
  "tc_Read cap tc =
     (if 0 < length (readBuf tc) then
        let n = min cap (length (readBuf tc));
            tc' = tc\<lparr>readBuf := drop n (readBuf tc)\<rparr> in
        (Returned (take n (readBuf tc)), tc', returnReadCredit (int n) tc', False)
      else if tc_closed tc then (Failed EOF, tc, [], False)
      else (Blocked, tc, [], False))"

definition takeSendCredit :: "int \<Rightarrow> tunnelConn \<Rightarrow> unit outcome \<times> tunnelConn" where
  "takeSendCredit sz tc =
     (if sz \<le> sendCredit tc then (Returned (), tc\<lparr>sendCredit := sendCredit tc - sz\<rparr>)
      else if tc_closed tc then (Failed ClosedPipe, tc)
      else (Blocked, tc))"

text \<open>
  The loop of \<open>tunnelConn.Write\<close>, one round on \<open>b\<close> with \<open>written\<close> bytes already sent: \<open>Returned n\<close> with
  \<open>n = length b\<close> ends the call, a smaller \<open>n\<close> is the next round's start.
\<close>

definition write_round :: "bytes \<Rightarrow> nat \<Rightarrow> tunnelConn \<Rightarrow> nat outcome \<times> tunnelConn effect" where
  "write_round b written tc =
     (if length b \<le> written then (Returned written, tc, [], False)
      else
        let chunkSize = min (nat relayFlowChunkBytes) (length b - written) in
        (case takeSendCredit (int chunkSize) tc of
           (Failed e, tc) \<Rightarrow> (Failed e, tc, [], False)
         | (Blocked, tc) \<Rightarrow> (Blocked, tc, [], False)
         | (Returned _, tc) \<Rightarrow>
             (Returned (written + chunkSize), tc, [(MsgData, slice written (written + chunkSize) b)], False)))"

definition tc_Write :: "bytes \<Rightarrow> tunnelConn \<Rightarrow> nat outcome \<times> tunnelConn effect" where
  "tc_Write b tc =
     (if tc_closed tc then (Failed ClosedPipe, tc, [], False)
      else if \<not> tc_flow tc then (Returned (length b), tc, [(MsgData, b)], False)
      else write_round b 0 tc)"

definition addSendCredit :: "int \<Rightarrow> tunnelConn \<Rightarrow> tunnelConn" where
  "addSendCredit credit tc =
     (if \<not> tc_flow tc \<or> credit \<le> 0 \<or> tc_closed tc then tc
      else tc\<lparr>sendCredit := min relayFlowWindowBytes (sendCredit tc + credit)\<rparr>)"

definition tc_close :: "bool \<Rightarrow> tunnelConn \<Rightarrow> tunnelConn effect" where
  "tc_close notifyPeer tc =
     (let first = \<not> tc_closed tc;
          tc = (if first then (put_rdy (Some ClosedPipe) tc)\<lparr>tc_closed := True\<rparr> else tc) in
      (tc\<lparr>readBuf := []\<rparr>, if first \<and> notifyPeer then [(MsgClose, [])] else [], first \<and> notifyPeer))"

definition tc_deliver :: "bytes \<Rightarrow> tunnelConn \<Rightarrow> tunnelConn effect" where
  "tc_deliver payload tc =
     (if tc_closed tc then (tc, [], False)
      else if tc_flow tc \<and> relayFlowWindowBytes < int (length (readBuf tc) + length payload) then tc_close True tc
      else (tc\<lparr>readBuf := readBuf tc @ payload\<rparr>, [], False))"

definition tc_remoteClosed :: "tunnelConn \<Rightarrow> tunnelConn" where
  "tc_remoteClosed tc = (if tc_closed tc then tc else (put_rdy (Some ClosedPipe) tc)\<lparr>tc_closed := True\<rparr>)"

section \<open>Packet connections\<close>

text \<open>The joiner's side: a queue of 64 packets.\<close>

record udpClient =
  pending :: "bytes list"
  uc_closed :: bool
  uc_addr :: gostring

definition uc_deliver :: "bytes \<Rightarrow> udpClient \<Rightarrow> bool \<times> udpClient" where
  "uc_deliver payload c =
     (if uc_closed c then (False, c)
      else if length (pending c) < 64 then (True, c\<lparr>pending := pending c @ [payload]\<rparr>)
      else (False, c))"

definition closePending :: "udpClient \<Rightarrow> (bool \<times> nat) \<times> udpClient" where
  "closePending c =
     (if uc_closed c then ((False, 0), c)
      else ((True, sum_list (map length (pending c))), c\<lparr>uc_closed := True, pending := []\<rparr>))"

text \<open>\<open>tunnelPacketConn\<close>: reading takes one packet and cuts it to the buffer.\<close>

definition pc_Read :: "nat \<Rightarrow> udpClient \<Rightarrow> bytes outcome \<times> udpClient" where
  "pc_Read cap c =
     (case pending c of
        data # rest \<Rightarrow> (Returned (take cap data), c\<lparr>pending := rest\<rparr>)
      | [] \<Rightarrow> if uc_closed c then (Failed EOF, c) else (Blocked, c))"

definition pc_Write :: "gostring \<Rightarrow> bytes \<Rightarrow> udpClient \<Rightarrow> nat outcome \<times> (byte \<times> bytes) list" where
  "pc_Write destStr b c =
     (if uc_closed c then (Failed ClosedPipe, [])
      else
        let payload = replicate (1 + length destStr + length b) 0;
            payload = write_at 0 [word_of_nat (length destStr)] payload;
            payload = write_at 1 destStr payload;
            payload = write_at (1 + length destStr) b payload in
        (Returned (length b), [(MsgUDP, payload)]))"

text \<open>The creator's side: a byte buffer.\<close>

record creatorUDPConn =
  cu_id :: u32
  cu_addr :: gostring
  cu_readBuf :: bytes
  cu_closed :: bool

definition newCreatorUDPConn :: "u32 \<Rightarrow> gostring \<Rightarrow> creatorUDPConn" where
  "newCreatorUDPConn cid addr = \<lparr>cu_id = cid, cu_addr = addr, cu_readBuf = [], cu_closed = False\<rparr>"

definition cu_Read :: "nat \<Rightarrow> creatorUDPConn \<Rightarrow> bytes outcome \<times> creatorUDPConn" where
  "cu_Read cap uc =
     (if 0 < length (cu_readBuf uc) then
        let n = min cap (length (cu_readBuf uc)) in
        (Returned (take n (cu_readBuf uc)), uc\<lparr>cu_readBuf := drop n (cu_readBuf uc)\<rparr>)
      else if cu_closed uc then (Failed EOF, uc)
      else (Blocked, uc))"

definition cu_Write :: "bytes \<Rightarrow> creatorUDPConn \<Rightarrow> nat outcome \<times> (byte \<times> bytes) list" where
  "cu_Write b uc = (if cu_closed uc then (Failed ClosedPipe, []) else (Returned (length b), [(MsgUDPReply, b)]))"

definition cu_close :: "bool \<Rightarrow> creatorUDPConn \<Rightarrow> creatorUDPConn effect" where
  "cu_close notifyPeer uc =
     (let first = \<not> cu_closed uc in
      (uc\<lparr>cu_closed := True, cu_readBuf := []\<rparr>, if first \<and> notifyPeer then [(MsgClose, [])] else [], first \<and> notifyPeer))"

definition cu_deliver :: "bytes \<Rightarrow> creatorUDPConn \<Rightarrow> creatorUDPConn" where
  "cu_deliver payload uc = (if cu_closed uc then uc else uc\<lparr>cu_readBuf := cu_readBuf uc @ payload\<rparr>)"

definition cu_remoteClosed :: "creatorUDPConn \<Rightarrow> creatorUDPConn" where
  "cu_remoteClosed uc = uc\<lparr>cu_closed := True\<rparr>"

section \<open>The bridge\<close>

text \<open>\<open>Target\<close> and \<open>Egress\<close> are connections the dialer of the creator opened, by number.\<close>

datatype conn_ref = TC nat | Target nat
datatype udp_ref = UC nat | CUC nat | Egress nat

record relayBridge =
  rb_mode :: string
  tunnelGeneration :: u64
  nextGeneration :: u64
  conns :: "u32 \<rightharpoonup> conn_ref"
  udpClients :: "u32 \<rightharpoonup> udp_ref"
  nextID :: u32
  rb_ready :: bool
  rb_closed :: bool
  flowControl :: bool
  acceptHandler :: bool
  udpAcceptHandler :: bool
  onPeerConfig :: bool
  tcs :: "tunnelConn list"
  ucs :: "udpClient list"
  cucs :: "creatorUDPConn list"
  sent :: "bytes list"
  reconfigured :: "(int \<times> int) list"
  peerConfigs :: "(int \<times> int \<times> int) list"
  accepted :: "(nat \<times> gostring) list"
  udpAccepted :: "(nat \<times> gostring) list"
  connecting :: "(u32 \<times> gostring) list"
  udpJobs :: "(u32 \<times> bytes) list"
  udpDials :: "(u32 \<times> gostring \<times> bytes) list"
  targetWrites :: "(nat \<times> bytes) list"
  targetClosed :: "nat set"

definition NewRelayBridge :: "bool \<Rightarrow> string \<Rightarrow> relayBridge" where
  "NewRelayBridge flow mode =
     \<lparr>rb_mode = mode, tunnelGeneration = 1, nextGeneration = 1, conns = Map.empty, udpClients = Map.empty,
      nextID = 0, rb_ready = False, rb_closed = False, flowControl = flow, acceptHandler = False,
      udpAcceptHandler = False, onPeerConfig = False, tcs = [], ucs = [], cucs = [], sent = [],
      reconfigured = [], peerConfigs = [], accepted = [], udpAccepted = [], connecting = [], udpJobs = [],
      udpDials = [], targetWrites = [], targetClosed = {}\<rparr>"

definition isCurrentTunnelGeneration :: "u64 \<Rightarrow> relayBridge \<Rightarrow> bool" where
  "isCurrentTunnelGeneration generation rb \<longleftrightarrow> tunnelGeneration rb = generation"

definition SetAcceptHandler :: "bool \<Rightarrow> relayBridge \<Rightarrow> relayBridge" where
  "SetAcceptHandler fn rb = rb\<lparr>acceptHandler := fn\<rparr>"

definition SetUDPAcceptHandler :: "bool \<Rightarrow> relayBridge \<Rightarrow> relayBridge" where
  "SetUDPAcceptHandler fn rb = rb\<lparr>udpAcceptHandler := fn\<rparr>"

definition SetOnPeerConfig :: "bool \<Rightarrow> relayBridge \<Rightarrow> relayBridge" where
  "SetOnPeerConfig fn rb = rb\<lparr>onPeerConfig := fn\<rparr>"

definition MarkReady :: "relayBridge \<Rightarrow> relayBridge" where "MarkReady rb = rb\<lparr>rb_ready := True\<rparr>"

definition rb_send :: "u32 \<Rightarrow> byte \<Rightarrow> bytes \<Rightarrow> relayBridge \<Rightarrow> relayBridge" where
  "rb_send connID msgType payload rb = rb\<lparr>sent := sent rb @ [EncodeFrame connID msgType payload]\<rparr>"

text \<open>A method of a stream connection at address \<open>p\<close>: its messages go out and its entry may be deleted.\<close>

definition send_all_msgs :: "u32 \<Rightarrow> (byte \<times> bytes) list \<Rightarrow> relayBridge \<Rightarrow> relayBridge" where
  "send_all_msgs cid msgs rb = rb\<lparr>sent := sent rb @ map (\<lambda>(t, payload). EncodeFrame cid t payload) msgs\<rparr>"

definition on_tc :: "nat \<Rightarrow> tunnelConn effect \<Rightarrow> relayBridge \<Rightarrow> relayBridge" where
  "on_tc p eff rb =
     (let (tc, msgs, del) = eff;
          rb = send_all_msgs (tc_id tc) msgs (rb\<lparr>tcs := (tcs rb)[p := tc]\<rparr>) in
      if del then rb\<lparr>conns := (conns rb)(tc_id tc := None)\<rparr> else rb)"

definition on_cuc :: "nat \<Rightarrow> creatorUDPConn effect \<Rightarrow> relayBridge \<Rightarrow> relayBridge" where
  "on_cuc p eff rb =
     (let (uc, msgs, del) = eff;
          rb = send_all_msgs (cu_id uc) msgs (rb\<lparr>cucs := (cucs rb)[p := uc]\<rparr>) in
      if del then rb\<lparr>udpClients := (udpClients rb)(cu_id uc := None)\<rparr> else rb)"

text \<open>\<open>closeAll\<close>; \<open>order\<close> and \<open>uorder\<close> are the orders in which \<open>Range\<close> visits the two maps.\<close>

definition close_conn :: "bool \<Rightarrow> relayBridge \<Rightarrow> u32 \<Rightarrow> relayBridge" where
  "close_conn notifyPeer rb key =
     (case conns rb key of None \<Rightarrow> rb
      | Some (TC p) \<Rightarrow>
          let rb = on_tc p (tc_close notifyPeer (tcs rb ! p)) rb in rb\<lparr>conns := (conns rb)(key := None)\<rparr>
      | Some (Target c) \<Rightarrow> rb\<lparr>targetClosed := insert c (targetClosed rb), conns := (conns rb)(key := None)\<rparr>)"

definition close_udp :: "bool \<Rightarrow> relayBridge \<Rightarrow> u32 \<Rightarrow> relayBridge" where
  "close_udp notifyPeer rb key =
     (case udpClients rb key of None \<Rightarrow> rb
      | Some (UC p) \<Rightarrow> rb\<lparr>ucs := (ucs rb)[p := snd (closePending (ucs rb ! p))], udpClients := (udpClients rb)(key := None)\<rparr>
      | Some (CUC p) \<Rightarrow>
          let rb = on_cuc p (cu_close notifyPeer (cucs rb ! p)) rb in rb\<lparr>udpClients := (udpClients rb)(key := None)\<rparr>
      | Some (Egress c) \<Rightarrow> rb\<lparr>targetClosed := insert c (targetClosed rb), udpClients := (udpClients rb)(key := None)\<rparr>)"

definition closeAll :: "u32 list \<Rightarrow> u32 list \<Rightarrow> bool \<Rightarrow> relayBridge \<Rightarrow> relayBridge" where
  "closeAll order uorder notifyPeer rb =
     foldl (close_udp notifyPeer) (foldl (close_conn notifyPeer) rb order) uorder"

definition rb_Close :: "u32 list \<Rightarrow> u32 list \<Rightarrow> relayBridge \<Rightarrow> relayBridge" where
  "rb_Close order uorder rb = (if rb_closed rb then rb else closeAll order uorder True (rb\<lparr>rb_closed := True\<rparr>))"

definition rb_Reset :: "u32 list \<Rightarrow> u32 list \<Rightarrow> relayBridge \<Rightarrow> relayBridge" where
  "rb_Reset order uorder rb = closeAll order uorder True rb"

definition handleTunnelClose :: "u32 list \<Rightarrow> u32 list \<Rightarrow> relayBridge \<Rightarrow> relayBridge" where
  "handleTunnelClose order uorder rb = closeAll order uorder False rb"

text \<open>\<open>flow\<close>: whether the new tunnel has flow control. The new tunnel's own callbacks come with the returned generation.\<close>

definition SwapTunnel :: "bool \<Rightarrow> u32 list \<Rightarrow> u32 list \<Rightarrow> relayBridge \<Rightarrow> u64 \<times> relayBridge" where
  "SwapTunnel flow order uorder rb =
     (let generation = nextGeneration rb + 1;
          rb = rb\<lparr>nextGeneration := generation, tunnelGeneration := generation, flowControl := flow, sent := []\<rparr> in
      (generation, closeAll order uorder False rb))"

section \<open>Messages from the tunnel\<close>

definition handleFlowCredit :: "u32 \<Rightarrow> bytes \<Rightarrow> relayBridge \<Rightarrow> relayBridge" where
  "handleFlowCredit connID payload rb =
     (if \<not> flowControl rb \<or> connID = ControlConnID \<or> length payload \<noteq> 4 then rb
      else
        let credit = int (be_val payload) in
        if credit \<le> 0 \<or> relayFlowWindowBytes < credit then rb
        else case conns rb connID of
               Some (TC p) \<Rightarrow> rb\<lparr>tcs := (tcs rb)[p := addSendCredit credit (tcs rb ! p)]\<rparr>
             | _ \<Rightarrow> rb)"

definition handleJoinerMessage :: "u32 \<Rightarrow> byte \<Rightarrow> bytes \<Rightarrow> relayBridge \<Rightarrow> relayBridge" where
  "handleJoinerMessage connID msgType payload rb =
     (if msgType = MsgUDPReply then
        (case udpClients rb connID of
           Some (UC p) \<Rightarrow> rb\<lparr>ucs := (ucs rb)[p := snd (uc_deliver payload (ucs rb ! p))]\<rparr>
         | _ \<Rightarrow> rb)
      else case conns rb connID of
        Some (TC p) \<Rightarrow>
          if msgType = MsgConnectOK then rb\<lparr>tcs := (tcs rb)[p := put_rdy None (tcs rb ! p)]\<rparr>
          else if msgType = MsgConnectErr then
            rb\<lparr>tcs := (tcs rb)[p := put_rdy (Some (External (map (\<lambda>b. char_of (unat b)) payload))) (tcs rb ! p)]\<rparr>
          else if msgType = MsgData then on_tc p (tc_deliver payload (tcs rb ! p)) rb
          else if msgType = MsgClose then
            rb\<lparr>tcs := (tcs rb)[p := tc_remoteClosed (tcs rb ! p)], conns := (conns rb)(connID := None)\<rparr>
          else rb
      | _ \<Rightarrow> rb)"

definition handleCreatorMessage :: "u32 \<Rightarrow> byte \<Rightarrow> bytes \<Rightarrow> relayBridge \<Rightarrow> relayBridge" where
  "handleCreatorMessage connID msgType payload rb =
     (if msgType = MsgConnect then
        if acceptHandler rb then
          let p = length (tcs rb);
              rb = rb\<lparr>tcs := tcs rb @ [newTunnelConn connID (flowControl rb)], conns := (conns rb)(connID \<mapsto> TC p)\<rparr>;
              rb = rb_send connID MsgConnectOK [] rb in
          rb\<lparr>accepted := accepted rb @ [(p, payload)]\<rparr>
        else rb\<lparr>connecting := connecting rb @ [(connID, payload)]\<rparr>
      else if msgType = MsgUDP then rb\<lparr>udpJobs := udpJobs rb @ [(connID, payload)]\<rparr>
      else if msgType = MsgData then
        (case conns rb connID of
           None \<Rightarrow> rb_send connID MsgClose [] rb
         | Some (TC p) \<Rightarrow> on_tc p (tc_deliver payload (tcs rb ! p)) rb
         | Some (Target c) \<Rightarrow> rb\<lparr>targetWrites := targetWrites rb @ [(c, payload)]\<rparr>)
      else if msgType = MsgClose then
        let rb = (case conns rb connID of None \<Rightarrow> rb
                  | Some (TC p) \<Rightarrow> rb\<lparr>conns := (conns rb)(connID := None), tcs := (tcs rb)[p := tc_remoteClosed (tcs rb ! p)]\<rparr>
                  | Some (Target c) \<Rightarrow> rb\<lparr>conns := (conns rb)(connID := None), targetClosed := insert c (targetClosed rb)\<rparr>) in
        (case udpClients rb connID of None \<Rightarrow> rb
         | Some (UC p) \<Rightarrow> rb\<lparr>udpClients := (udpClients rb)(connID := None)\<rparr>
         | Some (CUC p) \<Rightarrow> rb\<lparr>udpClients := (udpClients rb)(connID := None), cucs := (cucs rb)[p := cu_remoteClosed (cucs rb ! p)]\<rparr>
         | Some (Egress c) \<Rightarrow> rb\<lparr>udpClients := (udpClients rb)(connID := None), targetClosed := insert c (targetClosed rb)\<rparr>)
      else rb)"

definition handleMessage :: "relayBridge \<Rightarrow> message \<Rightarrow> relayBridge" where
  "handleMessage rb m =
     (case m of (connID, msgType, payload) \<Rightarrow>
        if msgType = MsgFlowCredit then handleFlowCredit connID payload rb
        else if connID = ControlConnID \<and> msgType = MsgConfig then
          (case DecodeVP8Config payload of None \<Rightarrow> rb
           | Some (fps, batch, trackCount) \<Rightarrow>
               if rb_mode rb = ''creator'' then
                 let rb = rb\<lparr>reconfigured := reconfigured rb @ [(fps, batch)]\<rparr>;
                     rb = rb_send ControlConnID MsgConfigAck [] rb in
                 if onPeerConfig rb then rb\<lparr>peerConfigs := peerConfigs rb @ [(fps, batch, trackCount)]\<rparr> else rb
               else rb)
        else if connID = ControlConnID \<and> msgType = MsgConfigAck then rb
        else if rb_mode rb = ''joiner'' then handleJoinerMessage connID msgType payload rb
        else if rb_mode rb = ''creator'' then handleCreatorMessage connID msgType payload rb
        else rb)"

definition handleTunnelData :: "bytes \<Rightarrow> relayBridge \<Rightarrow> relayBridge" where
  "handleTunnelData data rb = foldl handleMessage rb (DecodeFrames data)"

text \<open>The callbacks that \<open>bindTunnelCallbacks\<close> installs on a tunnel of the given generation.\<close>

definition onData :: "u64 \<Rightarrow> bytes \<Rightarrow> relayBridge \<Rightarrow> relayBridge" where
  "onData generation data rb = (if isCurrentTunnelGeneration generation rb then handleTunnelData data rb else rb)"

definition onClose :: "u64 \<Rightarrow> u32 list \<Rightarrow> u32 list \<Rightarrow> relayBridge \<Rightarrow> relayBridge" where
  "onClose generation order uorder rb =
     (if isCurrentTunnelGeneration generation rb then handleTunnelClose order uorder rb else rb)"

section \<open>Calls from the application\<close>

text \<open>\<open>DialContext\<close> up to the \<open>MsgConnect\<close>; \<open>ipv6\<close> tells what \<open>M.ParseSocksaddr\<close> says of the destination.\<close>

definition dial_begin :: "bool \<Rightarrow> gostring \<Rightarrow> relayBridge \<Rightarrow> nat outcome \<times> relayBridge" where
  "dial_begin ipv6 destination rb =
     (if rb_closed rb then (Failed (New ''relay: bridge already closed''), rb)
      else if ipv6 then (Failed (New ''relay: network unreachable (ipv6): %s''), rb)
      else if \<not> rb_ready rb then (Blocked, rb)
      else
        let cid = nextID rb + 1; p = length (tcs rb);
            rb = rb\<lparr>nextID := cid, tcs := tcs rb @ [newTunnelConn cid (flowControl rb)], conns := (conns rb)(cid \<mapsto> TC p)\<rparr> in
        (Returned p, rb_send cid MsgConnect destination rb))"

text \<open>Its second half; \<open>cancelled\<close> tells whether the \<open>select\<close> takes the branch of the context.\<close>

definition dial_wait :: "bool \<Rightarrow> nat \<Rightarrow> relayBridge \<Rightarrow> nat outcome \<times> relayBridge" where
  "dial_wait cancelled p rb =
     (let tc = tcs rb ! p; cid = tc_id tc in
      if cancelled then
        (Failed ContextDone, rb_send cid MsgClose [] (rb\<lparr>conns := (conns rb)(cid := None)\<rparr>))
      else case rdy tc of None \<Rightarrow> (Blocked, rb)
           | Some v \<Rightarrow>
               let rb = rb\<lparr>tcs := (tcs rb)[p := tc\<lparr>rdy := None\<rparr>]\<rparr> in
               (case v of Some e \<Rightarrow> (Failed e, rb\<lparr>conns := (conns rb)(cid := None)\<rparr>)
                | None \<Rightarrow> if tc_closed tc then (Failed ClosedPipe, rb\<lparr>conns := (conns rb)(cid := None)\<rparr>)
                           else (Returned p, rb)))"

definition rb_ListenPacket :: "bool \<Rightarrow> gostring \<Rightarrow> relayBridge \<Rightarrow> (u32 \<times> nat) outcome \<times> relayBridge" where
  "rb_ListenPacket ipv6 destination rb =
     (if rb_closed rb then (Failed (New ''relay: bridge already closed''), rb)
      else if ipv6 then (Failed (New ''relay: network unreachable (ipv6): %s''), rb)
      else if \<not> rb_ready rb then (Blocked, rb)
      else
        let cid = nextID rb + 1; p = length (ucs rb) in
        (Returned (cid, p),
         rb\<lparr>nextID := cid, ucs := ucs rb @ [\<lparr>pending = [], uc_closed = False, uc_addr = destination\<rparr>],
            udpClients := (udpClients rb)(cid \<mapsto> UC p)\<rparr>))"

definition pc_Close :: "u32 \<Rightarrow> nat \<Rightarrow> relayBridge \<Rightarrow> relayBridge" where
  "pc_Close cid p rb =
     (let ((first, _), c) = closePending (ucs rb ! p); rb = rb\<lparr>ucs := (ucs rb)[p := c]\<rparr> in
      if first then rb_send cid MsgClose [] (rb\<lparr>udpClients := (udpClients rb)(cid := None)\<rparr>) else rb)"

section \<open>Connections of the creator without handlers\<close>

text \<open>\<open>connectTCP\<close>: the dialer's outcome (\<open>Inl\<close> the masked error text), the read loop and its end.\<close>

definition connect_dialled :: "u32 \<Rightarrow> bytes + nat \<Rightarrow> relayBridge \<Rightarrow> relayBridge" where
  "connect_dialled connID res rb =
     (case res of
        Inl text \<Rightarrow> rb_send connID MsgConnectErr text rb
      | Inr c \<Rightarrow> rb_send connID MsgConnectOK [] (rb\<lparr>conns := (conns rb)(connID \<mapsto> Target c)\<rparr>))"

definition connect_read :: "u32 \<Rightarrow> bytes \<Rightarrow> relayBridge \<Rightarrow> relayBridge" where
  "connect_read connID chunk rb = (if chunk \<noteq> [] then rb_send connID MsgData chunk rb else rb)"

definition connect_end :: "u32 \<Rightarrow> relayBridge \<Rightarrow> relayBridge" where
  "connect_end connID rb = (let rb = rb_send connID MsgClose [] rb in rb\<lparr>conns := (conns rb)(connID := None)\<rparr>)"

text \<open>\<open>handleUDP\<close>: the address and data of a packet; with a handler the packet goes to its connection.\<close>

definition udp_parse :: "bytes \<Rightarrow> (gostring \<times> bytes) option" where
  "udp_parse payload =
     (if length payload < 2 then None
      else
        let addrLen = unat (payload ! 0) in
        if addrLen = 0 \<or> length payload < 1 + addrLen then None
        else if 0 \<in> set (slice 1 (1 + addrLen) payload) then None
        else Some (slice 1 (1 + addrLen) payload, drop (1 + addrLen) payload))"

definition net_write :: "udp_ref \<Rightarrow> bytes \<Rightarrow> relayBridge \<Rightarrow> relayBridge" where
  "net_write ref data rb =
     (case ref of UC _ \<Rightarrow> rb
      | CUC p \<Rightarrow> send_all_msgs (cu_id (cucs rb ! p)) (snd (cu_Write data (cucs rb ! p))) rb
      | Egress c \<Rightarrow> rb\<lparr>targetWrites := targetWrites rb @ [(c, data)]\<rparr>)"

definition handleUDP :: "u32 \<Rightarrow> bytes \<Rightarrow> relayBridge \<Rightarrow> relayBridge" where
  "handleUDP connID payload rb =
     (case udp_parse payload of None \<Rightarrow> rb
      | Some (addr, data) \<Rightarrow>
          if udpAcceptHandler rb then
            (case udpClients rb connID of
               Some (CUC p) \<Rightarrow> rb\<lparr>cucs := (cucs rb)[p := cu_deliver data (cucs rb ! p)]\<rparr>
             | Some _ \<Rightarrow> rb
             | None \<Rightarrow>
                 let p = length (cucs rb) in
                 rb\<lparr>cucs := cucs rb @ [cu_deliver data (newCreatorUDPConn connID addr)],
                    udpClients := (udpClients rb)(connID \<mapsto> CUC p), udpAccepted := udpAccepted rb @ [(p, addr)]\<rparr>)
          else
            (case udpClients rb connID of
               Some ref \<Rightarrow> net_write ref data rb
             | None \<Rightarrow> rb\<lparr>udpDials := udpDials rb @ [(connID, addr, data)]\<rparr>))"

text \<open>The rest of \<open>handleUDP\<close> once the dialer answers, and the goroutine that reads replies.\<close>

definition udp_dialled :: "u32 \<Rightarrow> bytes \<Rightarrow> go_error + nat \<Rightarrow> relayBridge \<Rightarrow> relayBridge" where
  "udp_dialled connID data res rb =
     (case res of Inl e \<Rightarrow> rb
      | Inr c \<Rightarrow>
          (case udpClients rb connID of
             Some ref \<Rightarrow> net_write ref data (rb\<lparr>targetClosed := insert c (targetClosed rb)\<rparr>)
           | None \<Rightarrow> net_write (Egress c) data (rb\<lparr>udpClients := (udpClients rb)(connID \<mapsto> Egress c)\<rparr>)))"

definition egress_read :: "u32 \<Rightarrow> bytes \<Rightarrow> relayBridge \<Rightarrow> relayBridge" where
  "egress_read connID packet rb = rb_send connID MsgUDPReply packet rb"

definition egress_end :: "u32 \<Rightarrow> nat \<Rightarrow> relayBridge \<Rightarrow> relayBridge" where
  "egress_end connID c rb =
     (let rb = rb_send connID MsgClose [] rb in
      rb\<lparr>udpClients := (udpClients rb)(connID := None), targetClosed := insert c (targetClosed rb)\<rparr>)"

end
