(* ===== verification/Relay_Flow.thy ===== *)
theory Relay_Flow
  imports Relay_Bridge
begin

text \<open>
  Credit-based flow control of the relay bridge, end to end: two stream connections with the same id,
  one on each side of the tunnel, which delivers the messages of each side in order. The steps
  are the methods of \<open>Relay_Bridge\<close>; \<open>conn_recv\<close> is what the bridge does with a message for a listed
  connection. Shown are that the window is never exceeded, that the reader gets a prefix of what was
  written and, with both ends open, that everything can be delivered and the writer gets its whole
  window back.
\<close>

section \<open>Messages to a listed connection\<close>

definition conn_recv :: "byte \<times> bytes \<Rightarrow> tunnelConn \<Rightarrow> tunnelConn effect" where
  "conn_recv m tc =
     (case m of (t, payload) \<Rightarrow>
        if t = MsgFlowCredit then
          (if length payload = 4 \<and> 0 < be_val payload \<and> int (be_val payload) \<le> relayFlowWindowBytes
           then addSendCredit (int (be_val payload)) tc else tc, [], False)
        else if t = MsgData then tc_deliver payload tc
        else if t = MsgClose then (tc_remoteClosed tc, [], True)
        else (tc, [], False))"

lemma keeps_id:
  "tc_id (put_rdy v tc) = tc_id tc" "tc_id (addSendCredit n tc) = tc_id tc" "tc_id (tc_remoteClosed tc) = tc_id tc"
  "tc_id (fst (tc_close b tc)) = tc_id tc" "tc_id (fst (tc_deliver payload tc)) = tc_id tc"
  by (simp_all add: put_rdy_def addSendCredit_def tc_remoteClosed_def tc_close_def tc_deliver_def Let_def)

text \<open>The bridge's handler does just that, on either side, and touches no other connection.\<close>

lemma handleMessage_listed:
  assumes "conns rb c = Some (TC p)" "tc_id (tcs rb ! p) = c" "c \<noteq> ControlConnID"
    and "flowControl rb" "rb_mode rb = ''joiner'' \<or> rb_mode rb = ''creator''" "udpClients rb c = None"
    and "t \<in> {MsgData, MsgFlowCredit, MsgClose}"
  shows "handleMessage rb (c, t, payload) = on_tc p (conn_recv (t, payload) (tcs rb ! p)) rb"
proof -
  have d: "MsgData \<noteq> MsgFlowCredit" "MsgClose \<noteq> MsgFlowCredit" "MsgData \<noteq> MsgClose" "MsgData \<noteq> MsgConnect"
    "MsgClose \<noteq> MsgConnect" "MsgData \<noteq> MsgUDP" "MsgClose \<noteq> MsgUDP" "MsgData \<noteq> MsgUDPReply" "MsgClose \<noteq> MsgUDPReply"
    "MsgData \<noteq> MsgConnectOK" "MsgClose \<noteq> MsgConnectOK" "MsgData \<noteq> MsgConnectErr" "MsgClose \<noteq> MsgConnectErr"
    by (simp_all add: msg_defs)
  note defs = handleMessage_def handleFlowCredit_def handleJoinerMessage_def handleCreatorMessage_def conn_recv_def on_tc_def
    send_all_msgs_def Let_def
  consider "t = MsgData" | "t = MsgFlowCredit" | "t = MsgClose" using assms(7) by blast
  then show ?thesis
  proof cases
    case 1
    show ?thesis using assms(5) by (elim disjE) (simp_all add: 1 defs d assms(1-4,6))
  next
    case 2
    then show ?thesis by (simp add: defs assms(1-4,6))
  next
    case 3
    show ?thesis using assms(5) by (elim disjE) (simp_all add: 3 defs d d [symmetric] assms(1-4,6) keeps_id)
  qed
qed

section \<open>Two ends and the channel between them\<close>

record link =
  ends :: "bool \<Rightarrow> tunnelConn"
  listed :: "bool \<Rightarrow> bool"
  chan :: "bool \<Rightarrow> (byte \<times> bytes) list"
  wrote :: "bool \<Rightarrow> bytes"
  got :: "bool \<Rightarrow> bytes"

definition link_init :: "link \<Rightarrow> bool" where
  "link_init l \<longleftrightarrow> (\<exists>c. l = \<lparr>ends = \<lambda>_. newTunnelConn c True, listed = \<lambda>_. True, chan = \<lambda>_. [], wrote = \<lambda>_. [], got = \<lambda>_. []\<rparr>)"

definition put :: "bool \<Rightarrow> tunnelConn effect \<Rightarrow> link \<Rightarrow> link" where
  "put d eff l =
     (case eff of (tc, msgs, del) \<Rightarrow>
        l\<lparr>ends := (ends l)(d := tc), chan := (chan l)(d := chan l d @ msgs), listed := (listed l)(d := listed l d \<and> \<not> del)\<rparr>)"

text \<open>
  Side \<open>d\<close> writes a chunk, reads, takes a message off the other side's channel (or drops it, perhaps
  answering with \<open>MsgClose\<close>, when the connection is no longer listed), or is closed by its owner.
\<close>

inductive link_step :: "link \<Rightarrow> link \<Rightarrow> bool" where
  link_write: "write_round b n (ends l d) = (Returned k, tc, msgs, del) \<Longrightarrow>
    link_step l ((put d (tc, msgs, del) l)\<lparr>wrote := (wrote l)(d := wrote l d @ concat (map snd msgs))\<rparr>)"
| link_read: "tc_Read cap (ends l d) = (Returned bs, tc, msgs, del) \<Longrightarrow>
    link_step l ((put d (tc, msgs, del) l)\<lparr>got := (got l)(d := got l d @ bs)\<rparr>)"
| link_recv: "chan l (\<not> d) = m # rest \<Longrightarrow> listed l d \<Longrightarrow>
    link_step l (put d (conn_recv m (ends l d)) (l\<lparr>chan := (chan l)(\<not> d := rest)\<rparr>))"
| link_drop: "chan l (\<not> d) = m # rest \<Longrightarrow> \<not> listed l d \<Longrightarrow> answer \<in> {[], [(MsgClose, [])]} \<Longrightarrow>
    link_step l (put d (ends l d, answer, False) (l\<lparr>chan := (chan l)(\<not> d := rest)\<rparr>))"
| link_close: "tc_close notify (ends l d) = (tc, msgs, del) \<Longrightarrow> link_step l (put d (tc, msgs, True) l)"

section \<open>One direction of the link\<close>

definition data_of :: "(byte \<times> bytes) list \<Rightarrow> bytes" where
  "data_of msgs = concat (map snd (filter (\<lambda>m. fst m = MsgData) msgs))"

definition credit_of :: "(byte \<times> bytes) list \<Rightarrow> int" where
  "credit_of msgs = sum_list (map (\<lambda>m. int (be_val (snd m))) (filter (\<lambda>m. fst m = MsgFlowCredit) msgs))"

lemma data_of_simps [simp]:
  "data_of [] = []" "data_of (m # ms) = (if fst m = MsgData then snd m @ data_of ms else data_of ms)"
  "data_of (ms @ ms') = data_of ms @ data_of ms'"
  by (simp_all add: data_of_def)

lemma credit_of_simps [simp]:
  "credit_of [] = 0"
  "credit_of (m # ms) = (if fst m = MsgFlowCredit then int (be_val (snd m)) + credit_of ms else credit_of ms)"
  "credit_of (ms @ ms') = credit_of ms + credit_of ms'"
  by (simp_all add: credit_of_def)

lemma credit_of_nonneg: "0 \<le> credit_of ms"
  by (induction ms) auto

text \<open>
  The writer \<open>w\<close>, the reader \<open>r\<close>, the messages \<open>cw\<close> and \<open>cr\<close> under way from each of them, the bytes
  written and read so far. The credit the writer holds, the data under way, the data buffered and the
  credit under way back never exceed the window, and make it up exactly while both are open.
\<close>

definition window :: "tunnelConn \<Rightarrow> tunnelConn \<Rightarrow> (byte \<times> bytes) list \<Rightarrow> (byte \<times> bytes) list \<Rightarrow> int" where
  "window w r cw cr = sendCredit w + int (length (data_of cw)) + int (length (readBuf r)) + credit_of cr"

definition credits_ok :: "(byte \<times> bytes) list \<Rightarrow> bool" where
  "credits_ok ms \<longleftrightarrow> (\<forall>m \<in> set ms. fst m \<in> {MsgData, MsgFlowCredit, MsgClose} \<and>
     (fst m = MsgFlowCredit \<longrightarrow> length (snd m) = 4 \<and> 0 < be_val (snd m)))"

definition dir_ok :: "tunnelConn \<Rightarrow> tunnelConn \<Rightarrow> (byte \<times> bytes) list \<Rightarrow> (byte \<times> bytes) list \<Rightarrow> bytes \<Rightarrow> bytes \<Rightarrow> bool" where
  "dir_ok w r cw cr wr gt \<longleftrightarrow>
     tc_flow w \<and> tc_flow r \<and> 0 \<le> sendCredit w \<and> credits_ok cw \<and> credits_ok cr \<and>
     window w r cw cr \<le> relayFlowWindowBytes \<and>
     (\<not> tc_closed w \<and> \<not> tc_closed r \<longrightarrow> window w r cw cr = relayFlowWindowBytes) \<and>
     (MsgClose \<in> fst ` set cw \<longrightarrow> tc_closed w) \<and>
     prefix (gt @ readBuf r) wr \<and> (\<not> tc_closed r \<longrightarrow> wr = gt @ readBuf r @ data_of cw)"

lemma dir_okD:
  assumes "dir_ok w r cw cr wr gt"
  shows "tc_flow w" "tc_flow r" "0 \<le> sendCredit w" "credits_ok cw" "credits_ok cr" "window w r cw cr \<le> relayFlowWindowBytes"
    "\<not> tc_closed w \<Longrightarrow> \<not> tc_closed r \<Longrightarrow> window w r cw cr = relayFlowWindowBytes"
    "MsgClose \<in> fst ` set cw \<Longrightarrow> tc_closed w" "prefix (gt @ readBuf r) wr"
    "\<not> tc_closed r \<Longrightarrow> wr = gt @ readBuf r @ data_of cw"
  using assms unfolding dir_ok_def by blast+

text \<open>The writer's own steps.\<close>

lemma dir_write:
  assumes ok: "dir_ok w r cw cr wr gt" and run: "write_round b n w = (Returned k, w', msgs, del)"
  shows "dir_ok w' r (cw @ msgs) cr (wr @ concat (map snd msgs)) gt"
proof (cases "msgs = []")
  case True
  then have "w' = w" using run by (auto simp: write_round_def takeSendCredit_def Let_def split: if_splits)
  then show ?thesis using ok True by simp
next
  case False
  define c where "c = slice n (n + min (nat relayFlowChunkBytes) (length b - n)) b"
  have c: "length c = min (nat relayFlowChunkBytes) (length b - n)" by (simp add: c_def)
  have w: "int (length c) \<le> sendCredit w" "w' = w\<lparr>sendCredit := sendCredit w - int (length c)\<rparr>" "msgs = [(MsgData, c)]"
    using run False unfolding c by (auto simp: write_round_def takeSendCredit_def Let_def c_def split: if_splits)
  have d: "MsgData \<noteq> MsgFlowCredit" "MsgData \<noteq> MsgClose" by (simp_all add: msg_defs)
  show ?thesis using ok w(1) d unfolding dir_ok_def w(2,3) by (auto simp: window_def credits_ok_def)
qed

lemma dir_writer_other:
  assumes ok: "dir_ok w r cw cr wr gt" and w': "sendCredit w' = sendCredit w" "tc_flow w' = tc_flow w" "tc_closed w \<longrightarrow> tc_closed w'"
    and msgs: "credits_ok msgs" "data_of msgs = []" "MsgClose \<in> fst ` set msgs \<longrightarrow> tc_closed w'"
  shows "dir_ok w' r (cw @ msgs) cr wr gt"
  using ok w' msgs unfolding dir_ok_def by (auto simp: window_def credits_ok_def)

lemma dir_writer_recv:
  assumes ok: "dir_ok w r cw (m # cr) wr gt" and run: "conn_recv m w = (w', msgs, del)"
  shows "dir_ok w' r (cw @ msgs) cr wr gt"
proof -
  obtain t payload where m: "m = (t, payload)" by (cases m)
  have d: "MsgData \<noteq> MsgFlowCredit" "MsgData \<noteq> MsgClose" "MsgClose \<noteq> MsgFlowCredit" by (simp_all add: msg_defs)
  have cr: "credits_ok cr" using dir_okD(5) [OF ok] by (simp add: credits_ok_def)
  show ?thesis
  proof (cases "t = MsgFlowCredit")
    case True
    let ?n = "int (be_val payload)"
    have n: "length payload = 4" "0 < ?n" using dir_okD(5) [OF ok] True m by (auto simp: credits_ok_def)
    have sum: "sendCredit w + ?n + int (length (data_of cw)) + int (length (readBuf r)) + credit_of cr \<le> relayFlowWindowBytes"
      using dir_okD(6) [OF ok] True m by (simp add: window_def)
    then have fits: "sendCredit w + ?n \<le> relayFlowWindowBytes" "?n \<le> relayFlowWindowBytes"
      using credit_of_nonneg [of cr] dir_okD(3) [OF ok] by linarith+
    have w': "w' = (if tc_closed w then w else w\<lparr>sendCredit := sendCredit w + ?n\<rparr>)" "msgs = []"
      using run m True n fits dir_okD(1) [OF ok] by (auto simp: conn_recv_def addSendCredit_def)
    show ?thesis using ok cr n True m unfolding dir_ok_def w'(1) w'(2) by (auto simp: window_def)
  next
    case False
    have w': "sendCredit w' = sendCredit w" "tc_flow w' = tc_flow w" "tc_closed w \<longrightarrow> tc_closed w'"
      "credits_ok msgs" "data_of msgs = []" "MsgClose \<in> fst ` set msgs \<longrightarrow> tc_closed w'"
      using run m False d by (auto simp: conn_recv_def tc_deliver_def tc_close_def tc_remoteClosed_def put_rdy_def
          credits_ok_def Let_def split: if_splits)
    have "dir_ok w r cw cr wr gt" using ok cr False m unfolding dir_ok_def by (auto simp: window_def)
    then show ?thesis using dir_writer_other w' by blast
  qed
qed

lemma dir_drop_back:
  assumes ok: "dir_ok w r cw (m # cr) wr gt" and closed: "tc_closed w" and a: "answer \<in> {[], [(MsgClose, [])]}"
  shows "dir_ok w r (cw @ answer) cr wr gt"
proof -
  have "MsgClose \<noteq> MsgData" "MsgClose \<noteq> MsgFlowCredit" by (simp_all add: msg_defs)
  then show ?thesis using ok closed a credit_of_nonneg [of "[m]"] unfolding dir_ok_def
    by (auto simp: window_def credits_ok_def split: if_splits)
qed

text \<open>The reader's steps.\<close>

lemma dir_deliver:
  assumes ok: "dir_ok w r ((MsgData, payload) # cw) cr wr gt" "\<not> tc_closed r"
  shows "tc_deliver payload r = (r\<lparr>readBuf := readBuf r @ payload\<rparr>, [], False)"
proof -
  have "int (length (readBuf r) + length payload) \<le> relayFlowWindowBytes"
    using dir_okD(3,6) [OF ok(1)] credit_of_nonneg [of cr] by (simp add: window_def)
  then show ?thesis using ok(2) by (simp add: tc_deliver_def)
qed

lemma dir_reader_recv:
  assumes ok: "dir_ok w r (m # cw) cr wr gt" and run: "conn_recv m r = (r', msgs, del)"
  shows "dir_ok w r' cw (cr @ msgs) wr gt" "MsgClose \<in> fst ` set msgs \<longrightarrow> False"
proof -
  obtain t payload where m: "m = (t, payload)" by (cases m)
  have d: "MsgData \<noteq> MsgFlowCredit" "MsgData \<noteq> MsgClose" "MsgClose \<noteq> MsgFlowCredit" by (simp_all add: msg_defs)
  have t: "t \<in> {MsgData, MsgFlowCredit, MsgClose}" "credits_ok cw" using dir_okD(4) [OF ok] m by (auto simp: credits_ok_def)
  have "dir_ok w r' cw (cr @ msgs) wr gt \<and> msgs = []"
  proof (cases "t = MsgData \<and> \<not> tc_closed r")
    case True
    then have r': "r' = r\<lparr>readBuf := readBuf r @ payload\<rparr>" "msgs = []"
      using run m dir_deliver [of w r payload cw cr wr gt] ok d by (auto simp: conn_recv_def)
    show ?thesis using ok True t(2) m unfolding dir_ok_def r' by (auto simp: window_def prefix_def)
  next
    case False
    have r': "readBuf r' = readBuf r" "tc_flow r' = tc_flow r" "tc_closed r \<longrightarrow> tc_closed r'" "msgs = []"
      using run m False t(1) d by (auto simp: conn_recv_def tc_deliver_def addSendCredit_def tc_remoteClosed_def put_rdy_def
          split: if_splits)
    have c: "\<not> tc_closed r' \<Longrightarrow> \<not> tc_closed r \<and> t \<noteq> MsgData" using False r'(3) by blast
    show ?thesis using ok r' c t(2) m d unfolding dir_ok_def by (auto simp: window_def prefix_def split: if_splits)
  qed
  then show "dir_ok w r' cw (cr @ msgs) wr gt" "MsgClose \<in> fst ` set msgs \<longrightarrow> False" by auto
qed

lemma credit_bytes:
  assumes "0 < n" "int n \<le> relayFlowWindowBytes"
  shows "be_val (PutUint32 (word_of_int (int n))) = n" "length (PutUint32 (word_of_int (int n))) = 4"
  using assms be_val_PutUint32 [of n] by (simp_all add: relayFlowWindowBytes_def)

lemma dir_read:
  assumes ok: "dir_ok w r cw cr wr gt" and run: "tc_Read cap r = (Returned bs, r', msgs, del)"
  shows "dir_ok w r' cw (cr @ msgs) wr (gt @ bs)"
proof -
  let ?n = "min cap (length (readBuf r))"
  have r': "r' = r\<lparr>readBuf := drop ?n (readBuf r)\<rparr>" "bs = take ?n (readBuf r)" "msgs = returnReadCredit (int ?n) r'"
    using run by (auto simp: tc_Read_def Let_def split: if_splits)
  have buf: "bs @ readBuf r' = readBuf r" using r' by simp
  have len: "int (length (readBuf r)) = int ?n + int (length (readBuf r'))" using r' by simp
  have bound: "int ?n \<le> relayFlowWindowBytes"
    using dir_okD(3,6) [OF ok] credit_of_nonneg [of cr] by (simp add: window_def)
  have d: "MsgFlowCredit \<noteq> MsgData" "MsgFlowCredit \<noteq> MsgClose" by (simp_all add: msg_defs)
  have msgs: "credits_ok msgs" "credit_of msgs \<le> int ?n" "\<not> tc_closed r \<Longrightarrow> credit_of msgs = int ?n"
    using credit_bytes [of ?n] bound d dir_okD(2) [OF ok] r'(1)
    by (auto simp: r'(3) returnReadCredit_def credits_ok_def split: if_splits)
  have "prefix ((gt @ bs) @ readBuf r') wr" using dir_okD(9) [OF ok] buf by simp
  moreover have "wr = (gt @ bs) @ readBuf r' @ data_of cw" if "\<not> tc_closed r"
    using dir_okD(10) [OF ok that] buf by (metis append.assoc)
  moreover have "tc_closed r' = tc_closed r" "tc_flow r' = tc_flow r" using r'(1) by simp_all
  moreover have "credits_ok (cr @ msgs)" using dir_okD(5) [OF ok] msgs(1) by (auto simp: credits_ok_def)
  moreover have "window w r' cw (cr @ msgs) \<le> window w r cw cr"
    "\<not> tc_closed r \<Longrightarrow> window w r' cw (cr @ msgs) = window w r cw cr"
    using msgs(2,3) len by (simp_all add: window_def)
  ultimately show ?thesis using dir_okD(1-8) [OF ok] unfolding dir_ok_def by auto
qed

lemma dir_reader_other:
  assumes ok: "dir_ok w r cw cr wr gt" and r': "readBuf r' = readBuf r" "tc_flow r' = tc_flow r" "tc_closed r' = tc_closed r"
    and msgs: "credits_ok msgs" "credit_of msgs = 0"
  shows "dir_ok w r' cw (cr @ msgs) wr gt"
  using ok r' msgs unfolding dir_ok_def by (auto simp: window_def credits_ok_def)

lemma dir_reader_close:
  assumes ok: "dir_ok w r cw cr wr gt" and run: "tc_close notify r = (r', msgs, del)"
  shows "dir_ok w r' cw (cr @ msgs) wr gt" "dir_ok r w cr cw wr' gt' \<Longrightarrow> dir_ok r' w (cr @ msgs) cw wr' gt'"
proof -
  have d: "MsgClose \<noteq> MsgData" "MsgClose \<noteq> MsgFlowCredit" by (simp_all add: msg_defs)
  have r': "readBuf r' = []" "tc_flow r' = tc_flow r" "tc_closed r'" "sendCredit r' = sendCredit r"
    "credits_ok msgs" "credit_of msgs = 0" "data_of msgs = []"
    using run d by (auto simp: tc_close_def put_rdy_def credits_ok_def Let_def split: if_splits)
  show "dir_ok w r' cw (cr @ msgs) wr gt"
    using ok r' unfolding dir_ok_def by (auto simp: window_def credits_ok_def dest: append_prefixD)
  show "dir_ok r' w (cr @ msgs) cw wr' gt'" if "dir_ok r w cr cw wr' gt'"
    using dir_writer_other [OF that, of r' msgs] r' by simp
qed

lemma dir_drop:
  assumes ok: "dir_ok w r (m # cw) cr wr gt" and closed: "tc_closed r" and a: "answer \<in> {[], [(MsgClose, [])]}"
  shows "dir_ok w r cw (cr @ answer) wr gt"
proof -
  have d: "MsgClose \<noteq> MsgData" "MsgClose \<noteq> MsgFlowCredit" by (simp_all add: msg_defs)
  have a': "credits_ok (cr @ answer)" "credit_of answer = 0"
    using a d dir_okD(5) [OF ok] by (auto simp: credits_ok_def)
  have "window w r cw (cr @ answer) \<le> window w r (m # cw) cr" by (simp add: window_def a'(2))
  moreover have "credits_ok cw" "MsgClose \<in> fst ` set cw \<longrightarrow> MsgClose \<in> fst ` set (m # cw)"
    using dir_okD(4) [OF ok] by (auto simp: credits_ok_def)
  ultimately show ?thesis using dir_okD [OF ok] closed a'(1) unfolding dir_ok_def by (meson order_trans)
qed

section \<open>Both directions\<close>

definition link_inv :: "link \<Rightarrow> bool" where
  "link_inv l \<longleftrightarrow> (\<forall>d. dir_ok (ends l d) (ends l (\<not> d)) (chan l d) (chan l (\<not> d)) (wrote l d) (got l (\<not> d)) \<and>
     (\<not> listed l d \<longrightarrow> tc_closed (ends l d)))"

lemma link_invD:
  assumes "link_inv l"
  shows "dir_ok (ends l d) (ends l (\<not> d)) (chan l d) (chan l (\<not> d)) (wrote l d) (got l (\<not> d))"
    "dir_ok (ends l (\<not> d)) (ends l d) (chan l (\<not> d)) (chan l d) (wrote l (\<not> d)) (got l d)"
    "\<not> listed l d \<Longrightarrow> tc_closed (ends l d)"
  using assms [unfolded link_inv_def, rule_format, of d] assms [unfolded link_inv_def, rule_format, of "\<not> d"] by auto

lemma link_invI:
  assumes "dir_ok (ends l s) (ends l (\<not> s)) (chan l s) (chan l (\<not> s)) (wrote l s) (got l (\<not> s))"
    "dir_ok (ends l (\<not> s)) (ends l s) (chan l (\<not> s)) (chan l s) (wrote l (\<not> s)) (got l s)"
    "\<not> listed l s \<longrightarrow> tc_closed (ends l s)" "\<not> listed l (\<not> s) \<longrightarrow> tc_closed (ends l (\<not> s))"
  shows "link_inv l"
  unfolding link_inv_def
proof
  fix d
  consider "d = s" | "d = (\<not> s)" by blast
  then show "dir_ok (ends l d) (ends l (\<not> d)) (chan l d) (chan l (\<not> d)) (wrote l d) (got l (\<not> d)) \<and>
     (\<not> listed l d \<longrightarrow> tc_closed (ends l d))" using assms by cases auto
qed

lemma conn_recv_closed: "conn_recv m tc = (tc', msgs, del) \<Longrightarrow> tc_closed tc \<or> del \<Longrightarrow> tc_closed tc'"
  by (auto simp: conn_recv_def addSendCredit_def tc_deliver_def tc_close_def tc_remoteClosed_def put_rdy_def Let_def
      split: prod.splits if_splits)

lemma link_step_inv:
  assumes step: "link_step l l'" and inv: "link_inv l"
  shows "link_inv l'"
  using step
proof (cases rule: link_step.cases)
  case (link_write b n d k tc msgs del)
  have f: "del = False" "readBuf tc = readBuf (ends l d)" "tc_flow tc = tc_flow (ends l d)" "tc_closed tc = tc_closed (ends l d)"
    "credits_ok msgs" "credit_of msgs = 0"
    using link_write(2) by (auto simp: write_round_def takeSendCredit_def credits_ok_def Let_def msg_defs split: if_splits)
  show ?thesis unfolding link_write(1)
    by (rule link_invI [of _ d])
      (use dir_write [OF link_invD(1) [OF inv] link_write(2)] dir_reader_other [OF link_invD(2) [OF inv, of d] f(2-6)]
        link_invD(3) [OF inv] f in \<open>auto simp: put_def\<close>)
next
  case (link_read cap d bs tc msgs del)
  have f: "del = False" "sendCredit tc = sendCredit (ends l d)" "tc_flow tc = tc_flow (ends l d)" "tc_closed (ends l d) \<longrightarrow> tc_closed tc"
    "data_of msgs = []" "MsgClose \<in> fst ` set msgs \<longrightarrow> tc_closed tc"
    using link_read(2) by (auto simp: tc_Read_def returnReadCredit_def Let_def msg_defs split: if_splits)
  have c: "credits_ok msgs"
    using dir_okD(5) [OF dir_read [OF link_invD(2) [OF inv] link_read(2)]] by (auto simp: credits_ok_def)
  show ?thesis unfolding link_read(1)
    by (rule link_invI [of _ d])
      (use dir_read [OF link_invD(2) [OF inv] link_read(2)] dir_writer_other [OF link_invD(1) [OF inv, of d] f(2-4) c f(5,6)]
        link_invD(3) [OF inv] f in \<open>auto simp: put_def\<close>)
next
  case (link_recv d m rest)
  obtain tc msgs del where e: "conn_recv m (ends l d) = (tc, msgs, del)" by (cases "conn_recv m (ends l d)") auto
  have 1: "dir_ok (ends l d) (ends l (\<not> d)) (chan l d) (m # rest) (wrote l d) (got l (\<not> d))"
    and 2: "dir_ok (ends l (\<not> d)) (ends l d) (m # rest) (chan l d) (wrote l (\<not> d)) (got l d)"
    using link_invD(1,2) [OF inv, of d] by (simp_all add: link_recv(2))
  show ?thesis unfolding link_recv(1) e
    by (rule link_invI [of _ d])
      (use dir_writer_recv [OF 1 e] dir_reader_recv(1) [OF 2 e] link_invD(3) [OF inv] conn_recv_closed [OF e] in \<open>auto simp: put_def\<close>)
next
  case (link_drop d m rest answer)
  have 1: "dir_ok (ends l d) (ends l (\<not> d)) (chan l d) (m # rest) (wrote l d) (got l (\<not> d))"
    and 2: "dir_ok (ends l (\<not> d)) (ends l d) (m # rest) (chan l d) (wrote l (\<not> d)) (got l d)"
    using link_invD(1,2) [OF inv, of d] by (simp_all add: link_drop(2))
  have c: "tc_closed (ends l d)" using link_invD(3) [OF inv] link_drop(3) by blast
  show ?thesis unfolding link_drop(1)
    by (rule link_invI [of _ d])
      (use dir_drop_back [OF 1 c link_drop(4)] dir_drop [OF 2 c link_drop(4)] link_invD(3) [OF inv] c in \<open>simp_all add: put_def\<close>)
next
  case (link_close notify d tc msgs del)
  have "tc_closed tc" using link_close(2) by (auto simp: tc_close_def Let_def split: if_splits)
  then show ?thesis unfolding link_close(1)
    by (intro link_invI [of _ d])
      (use dir_reader_close [OF link_invD(2) [OF inv] link_close(2)] link_invD(1,3) [OF inv] in \<open>simp_all add: put_def\<close>)
qed

lemma link_init_inv: "link_init l \<Longrightarrow> link_inv l"
  by (auto simp: link_init_def link_inv_def dir_ok_def newTunnelConn_def window_def credits_ok_def relayFlowWindowBytes_def)

interpretation flow: invariant_system link_init link_step link_inv
  by unfold_locales (auto intro: link_init_inv link_step_inv)

section \<open>Draining an open link\<close>

definition link_open :: "link \<Rightarrow> bool" where
  "link_open l \<longleftrightarrow> (\<forall>d. \<not> tc_closed (ends l d))"

definition load :: "(byte \<times> bytes) list \<Rightarrow> nat" where
  "load ms = sum_list (map (\<lambda>m. 3 * length (data_of [m]) + 1) ms)"

definition backlog :: "link \<Rightarrow> nat" where
  "backlog l = (\<Sum>d \<in> {True, False}. load (chan l d) + 2 * length (readBuf (ends l d)))"

lemma backlog_split: "backlog l = load (chan l d) + 2 * length (readBuf (ends l d)) + (load (chan l (\<not> d)) + 2 * length (readBuf (ends l (\<not> d))))"
  by (cases d) (simp_all add: backlog_def)

lemma backlog_0: "backlog l = 0 \<longleftrightarrow> (\<forall>d. chan l d = [] \<and> readBuf (ends l d) = [])"
proof -
  have "load ms = 0 \<longleftrightarrow> ms = []" for ms by (cases ms) (auto simp: load_def)
  then show ?thesis by (auto simp: backlog_def all_bool_eq)
qed

lemma drain_recv:
  assumes inv: "link_inv l" and op: "link_open l" and chan: "chan l (\<not> d) = m # rest"
  defines "l' \<equiv> put d (conn_recv m (ends l d)) (l\<lparr>chan := (chan l)(\<not> d := rest)\<rparr>)"
  shows "link_step l l'" "link_open l'" "wrote l' = wrote l" "backlog l' < backlog l"
proof -
  obtain t payload where m: "m = (t, payload)" by (cases m)
  have o: "\<not> tc_closed (ends l d)" "\<not> tc_closed (ends l (\<not> d))" using op by (simp_all add: link_open_def)
  have dir: "dir_ok (ends l (\<not> d)) (ends l d) (m # rest) (chan l d) (wrote l (\<not> d)) (got l d)"
    using link_invD(2) [OF inv, of d] by (simp add: chan)
  have t: "t = MsgData \<or> t = MsgFlowCredit"
    using dir_okD(4,8) [OF dir] o(2) m by (auto simp: credits_ok_def)
  have ne: "MsgData \<noteq> MsgFlowCredit" by (simp add: msg_defs)
  obtain tc where r: "conn_recv m (ends l d) = (tc, [], False)" "\<not> tc_closed tc"
    "2 * length (readBuf tc) + 1 \<le> 2 * length (readBuf (ends l d)) + (3 * length (data_of [m]) + 1)"
  proof (cases "t = MsgData")
    case True
    then show thesis using that dir_deliver [of "ends l (\<not> d)" "ends l d" payload rest] dir m o(1) ne
      by (simp add: conn_recv_def)
  next
    case False
    then show thesis using that t m o(1) by (auto simp: conn_recv_def addSendCredit_def)
  qed
  show "link_step l l'" unfolding l'_def using link_invD(3) [OF inv] o(1) by (intro link_step.link_recv [OF chan]) blast
  have f: "ends l' = (ends l)(d := tc)" "chan l' = (chan l)(\<not> d := rest)" "wrote l' = wrote l"
    by (auto simp: l'_def r put_def fun_eq_iff)
  show "link_open l'" using op r(2) by (simp add: link_open_def f)
  show "wrote l' = wrote l" by (rule f(3))
  have "load (m # rest) = load rest + (3 * length (data_of [m]) + 1)" by (simp add: load_def)
  then show "backlog l' < backlog l" using r(3) unfolding backlog_split [of l d] backlog_split [of l' d] by (simp add: f chan)
qed

lemma drain_read:
  assumes inv: "link_inv l" and op: "link_open l" and buf: "readBuf (ends l d) \<noteq> []"
  obtains l' where "link_step l l'" "link_open l'" "wrote l' = wrote l" "backlog l' < backlog l"
proof -
  let ?tc = "ends l d" and ?n = "length (readBuf (ends l d))"
  let ?tc' = "?tc\<lparr>readBuf := []\<rparr>"
  have o: "\<not> tc_closed ?tc" using op by (simp add: link_open_def)
  have run: "tc_Read ?n ?tc = (Returned (readBuf ?tc), ?tc', returnReadCredit (int ?n) ?tc', False)"
    using buf by (simp add: tc_Read_def Let_def)
  let ?l = "(put d (?tc', returnReadCredit (int ?n) ?tc', False) l)\<lparr>got := (got l)(d := got l d @ readBuf ?tc)\<rparr>"
  have "MsgFlowCredit \<noteq> MsgData" by (simp add: msg_defs)
  then have "load (chan l d @ returnReadCredit (int ?n) ?tc') \<le> load (chan l d) + 1"
    by (simp add: load_def returnReadCredit_def)
  moreover have "1 \<le> ?n" using buf by (simp add: Suc_le_eq)
  ultimately have "backlog ?l < backlog l" unfolding backlog_split [of l d] backlog_split [of ?l d] by (simp add: put_def)
  moreover have "link_step l ?l" by (rule link_step.link_read [OF run])
  moreover have "link_open ?l" using op by (simp add: link_open_def put_def)
  moreover have "wrote ?l = wrote l" by (simp add: put_def)
  ultimately show thesis using that [of ?l] by blast
qed

lemma drain:
  assumes "link_inv l" "link_open l"
  shows "\<exists>l'. link_step\<^sup>*\<^sup>* l l' \<and> link_open l' \<and> wrote l' = wrote l \<and> backlog l' = 0"
  using assms
proof (induction "backlog l" arbitrary: l rule: less_induct)
  case less
  show ?case
  proof (cases "backlog l = 0")
    case False
    have "\<exists>l'. link_step l l' \<and> link_open l' \<and> wrote l' = wrote l \<and> backlog l' < backlog l"
    proof (cases "\<exists>d. chan l d \<noteq> []")
      case True
      then obtain e m rest where "chan l e = m # rest" by (auto simp: neq_Nil_conv)
      then have "chan l (\<not> (\<not> e)) = m # rest" by simp
      from drain_recv [OF less.prems this] show ?thesis by blast
    next
      case no: False
      then obtain d where "readBuf (ends l d) \<noteq> []" using False by (auto simp: backlog_0)
      from drain_read [OF less.prems this] show ?thesis by metis
    qed
    then obtain l' where l': "link_step l l'" "link_open l'" "wrote l' = wrote l" "backlog l' < backlog l" by blast
    from less.hyps [OF l'(4) link_step_inv [OF l'(1) less.prems(1)] l'(2)] l' show ?thesis
      by (metis converse_rtranclp_into_rtranclp)
  qed (use less.prems in blast)
qed

section \<open>Properties\<close>

text \<open>
  C16. Flow control holds whatever the two ends do, in any interleaving, closing included: the credit
  a writer holds, the data under way, the data waiting at the reader and the credit under way back
  never exceed 256 KiB, so a message is never refused for want of room (the connection is closed only
  by its owners), and the bytes read so far are a prefix of the bytes written.
\<close>

theorem flow_window_respected:
  assumes "reach link_init link_step l"
  shows "window (ends l d) (ends l (\<not> d)) (chan l d) (chan l (\<not> d)) \<le> 256 * 1024 \<and>
    length (readBuf (ends l d)) \<le> 256 * 1024 \<and> prefix (got l (\<not> d)) (wrote l d) \<and>
    (\<forall>payload rest. chan l (\<not> d) = (MsgData, payload) # rest \<and> \<not> tc_closed (ends l d) \<longrightarrow>
       tc_deliver payload (ends l d) = ((ends l d)\<lparr>readBuf := readBuf (ends l d) @ payload\<rparr>, [], False))"
proof -
  note inv = flow.reach_inv [OF assms]
  note dir = link_invD(1) [OF inv, of d] and rev_dir = link_invD(2) [OF inv, of d]
  have "int (length (readBuf (ends l d))) \<le> relayFlowWindowBytes"
    using dir_okD(3,6) [OF rev_dir] credit_of_nonneg [of "chan l d"] by (simp add: window_def)
  moreover have "prefix (got l (\<not> d)) (wrote l d)" using dir_okD(9) [OF dir] by (rule append_prefixD)
  moreover have "tc_deliver payload (ends l d) = ((ends l d)\<lparr>readBuf := readBuf (ends l d) @ payload\<rparr>, [], False)"
    if "chan l (\<not> d) = (MsgData, payload) # rest" "\<not> tc_closed (ends l d)" for payload rest
    using dir_deliver [of "ends l (\<not> d)" "ends l d" payload rest] rev_dir that by simp
  ultimately show ?thesis using dir_okD(6) [OF dir] by (simp add: relayFlowWindowBytes_def)
qed

lemma demo_link:
  defines "l \<equiv> \<lparr>ends = \<lambda>_. newTunnelConn 1 True, listed = \<lambda>_. True, chan = \<lambda>_. [], wrote = \<lambda>_. [], got = \<lambda>_. []\<rparr>"
  defines "l' \<equiv> (put True ((newTunnelConn 1 True)\<lparr>sendCredit := 262141\<rparr>, [(MsgData, [7, 8, 9])], False) l)
    \<lparr>wrote := (wrote l)(True := [7, 8, 9])\<rparr>"
  shows "reach link_init link_step l'" "link_open l'" "wrote l' True = [7, 8, 9]" "chan l' True = [(MsgData, [7, 8, 9])]"
proof -
  have "write_round [7, 8, 9] 0 (ends l True) = (Returned 3, (newTunnelConn 1 True)\<lparr>sendCredit := 262141\<rparr>, [(MsgData, [7, 8, 9])], False)"
    by (simp add: write_round_def takeSendCredit_def newTunnelConn_def l_def relayFlowWindowBytes_def relayFlowChunkBytes_def slice_def)
  from link_step.link_write [OF this] have step: "link_step l l'" by (simp add: l'_def l_def)
  have "reach link_init link_step l" by (rule reach_init) (auto simp: link_init_def l_def)
  then show "reach link_init link_step l'" using step by (rule reach_step)
  show "link_open l'" "wrote l' True = [7, 8, 9]" "chan l' True = [(MsgData, [7, 8, 9])]"
    by (simp_all add: link_open_def l'_def l_def put_def newTunnelConn_def)
qed

theorem flow_window_respected_witness:
  "\<exists>l :: link. chan l True = [(MsgData, [7, 8, 9])] \<and> window (ends l True) (ends l False) (chan l True) (chan l False) \<le> 256 * 1024 \<and>
    tc_deliver [7, 8, 9] (ends l False) = ((ends l False)\<lparr>readBuf := readBuf (ends l False) @ [7, 8, 9]\<rparr>, [], False)"
proof -
  obtain l where l: "reach link_init link_step l" "link_open l" "chan l True = [(MsgData, [7, 8, 9])]"
    using demo_link by blast
  then show ?thesis
    using flow_window_respected [OF l(1), of True] flow_window_respected [OF l(1), of False]
    by (intro exI [of _ l]) (simp add: link_open_def)
qed

text \<open>
  C17. Flow control never wedges a connection: from every reachable state with both ends open, receiving
  and reading alone lead to a state where the other side has read every byte written, and then the
  writer holds the full window again, so that a write of any size can go on.
\<close>

theorem flow_control_live:
  assumes "reach link_init link_step l" "\<not> tc_closed (ends l True)" "\<not> tc_closed (ends l False)"
  shows "\<exists>l'. link_step\<^sup>*\<^sup>* l l' \<and> wrote l' = wrote l \<and>
    (\<forall>d. \<not> tc_closed (ends l' d) \<and> got l' (\<not> d) = wrote l d \<and> sendCredit (ends l' d) = 256 * 1024 \<and>
       (\<forall>b n. n < length b \<longrightarrow> (\<exists>k tc msgs. n < k \<and> write_round b n (ends l' d) = (Returned k, tc, msgs, False))))"
proof -
  note inv = flow.reach_inv [OF assms(1)]
  have "link_open l" using assms(2,3) by (simp add: link_open_def all_bool_eq)
  from drain [OF inv this] obtain l' where l': "link_step\<^sup>*\<^sup>* l l'" "link_open l'" "wrote l' = wrote l" "backlog l' = 0" by blast
  have inv': "link_inv l'" by (rule flow.steps_inv [OF l'(1) inv])
  have e: "chan l' d = []" "readBuf (ends l' d) = []" "\<not> tc_closed (ends l' d)" for d
    using l'(2,4) by (auto simp: backlog_0 link_open_def)
  have credit: "sendCredit (ends l' d) = 256 * 1024" for d
    using dir_okD(7) [OF link_invD(1) [OF inv', of d]] e by (simp add: window_def relayFlowWindowBytes_def)
  have "got l' (\<not> d) = wrote l d" for d
    using dir_okD(10) [OF link_invD(1) [OF inv', of d]] e l'(3) by simp
  moreover have "\<exists>k tc msgs. n < k \<and> write_round b n (ends l' d) = (Returned k, tc, msgs, False)" if "n < length b" for b n d
    using that credit [of d] by (simp add: write_round_def takeSendCredit_def relayFlowChunkBytes_def Let_def min_def)
  ultimately show ?thesis using l' e credit by blast
qed

theorem flow_control_live_witness:
  "\<exists>l l'. chan l True = [(MsgData, [7, 8, 9])] \<and> link_step\<^sup>*\<^sup>* l l' \<and> got l' False = [7, 8, 9] \<and> sendCredit (ends l' True) = 256 * 1024"
proof -
  obtain l where l: "reach link_init link_step l" "link_open l" "wrote l True = [7, 8, 9]" "chan l True = [(MsgData, [7, 8, 9])]"
    using demo_link by blast
  from flow_control_live [OF l(1)] l(2) obtain l' where "link_step\<^sup>*\<^sup>* l l'"
    "\<forall>d. got l' (\<not> d) = wrote l d \<and> sendCredit (ends l' d) = 256 * 1024" by (auto simp: link_open_def)
  then have "link_step\<^sup>*\<^sup>* l l' \<and> got l' (\<not> True) = [7, 8, 9] \<and> sendCredit (ends l' True) = 256 * 1024" using l(3) by metis
  then show ?thesis using l(4) by auto
qed

end
