(* ===== verification/Relay_Connect.thy ===== *)
theory Relay_Connect
  imports Relay_Flow
begin

text \<open>
  The relay bridge as a whole: what \<open>closeAll\<close> and a change of tunnel leave behind, how a
  dialled connection comes up on both sides (in the initial state of the flow-control analysis of
  \<open>Relay_Flow\<close>), and how a UDP packet travels from the joiner to the creator.
\<close>

section \<open>Well-formed bridges\<close>

definition bridge_wf :: "relayBridge \<Rightarrow> bool" where
  "bridge_wf rb \<longleftrightarrow>
     (\<forall>c p. conns rb c = Some (TC p) \<longrightarrow> p < length (tcs rb) \<and> tc_id (tcs rb ! p) = c) \<and>
     (\<forall>c p. udpClients rb c = Some (UC p) \<longrightarrow> p < length (ucs rb)) \<and>
     (\<forall>c p. udpClients rb c = Some (CUC p) \<longrightarrow> p < length (cucs rb) \<and> cu_id (cucs rb ! p) = c)"

lemma bridge_wfD:
  assumes "bridge_wf rb"
  shows "conns rb c = Some (TC p) \<Longrightarrow> p < length (tcs rb)" "conns rb c = Some (TC p) \<Longrightarrow> tc_id (tcs rb ! p) = c"
    "udpClients rb c = Some (UC p) \<Longrightarrow> p < length (ucs rb)"
    "udpClients rb c = Some (CUC p) \<Longrightarrow> p < length (cucs rb)" "udpClients rb c = Some (CUC p) \<Longrightarrow> cu_id (cucs rb ! p) = c"
  using assms unfolding bridge_wf_def by blast+

section \<open>Closing everything\<close>

lemma tc_close_closed: "tc_close b tc = (tc', msgs, del) \<Longrightarrow> tc_closed tc' \<and> readBuf tc' = [] \<and> tc_id tc' = tc_id tc \<and>
    (\<not> tc_closed tc \<longrightarrow> rdy tc' \<noteq> None) \<and> (tc_closed tc \<longrightarrow> rdy tc' = rdy tc) \<and> (\<not> b \<longrightarrow> msgs = [] \<and> \<not> del)"
  by (auto simp: tc_close_def put_rdy_def Let_def split: if_splits)

definition conn_shut :: "tunnelConn \<Rightarrow> tunnelConn \<Rightarrow> bool" where
  "conn_shut tc tc' \<longleftrightarrow> tc_closed tc' \<and> readBuf tc' = [] \<and> (\<not> tc_closed tc \<longrightarrow> rdy tc' \<noteq> None)"

lemma close_conn_effect:
  assumes wf: "bridge_wf rb" and run: "rb' = close_conn notify rb key"
  shows "conns rb' = (conns rb)(key := None)" "udpClients rb' = udpClients rb" "ucs rb' = ucs rb" "cucs rb' = cucs rb"
    "tunnelGeneration rb' = tunnelGeneration rb" "\<not> notify \<Longrightarrow> sent rb' = sent rb" "length (tcs rb') = length (tcs rb)"
    "conns rb key = Some (TC p) \<Longrightarrow> conn_shut (tcs rb ! p) (tcs rb' ! p)"
    "conns rb key \<noteq> Some (TC q) \<Longrightarrow> tcs rb' ! q = tcs rb ! q"
    "tc_id (tcs rb' ! q) = tc_id (tcs rb ! q)"
proof -
  have "conns rb' = (conns rb)(key := None) \<and> udpClients rb' = udpClients rb \<and> ucs rb' = ucs rb \<and> cucs rb' = cucs rb \<and>
    tunnelGeneration rb' = tunnelGeneration rb \<and> (\<not> notify \<longrightarrow> sent rb' = sent rb) \<and> length (tcs rb') = length (tcs rb) \<and>
    (\<forall>p. conns rb key = Some (TC p) \<longrightarrow> conn_shut (tcs rb ! p) (tcs rb' ! p)) \<and>
    (\<forall>q. conns rb key \<noteq> Some (TC q) \<longrightarrow> tcs rb' ! q = tcs rb ! q) \<and> (\<forall>q. tc_id (tcs rb' ! q) = tc_id (tcs rb ! q))"
  proof (cases "\<exists>p. conns rb key = Some (TC p)")
    case True
    then obtain p where p: "conns rb key = Some (TC p)" by blast
    obtain tc msgs del where e: "tc_close notify (tcs rb ! p) = (tc, msgs, del)" by (cases "tc_close notify (tcs rb ! p)") auto
    note c = tc_close_closed [OF e]
    have q: "p < length (tcs rb)" "tc_id (tcs rb ! p) = key" using bridge_wfD(1,2) [OF wf p] by simp_all
    then have "conns rb' = (conns rb)(key := None)" "tcs rb' = (tcs rb)[p := tc]"
      "sent rb' = sent rb @ map (\<lambda>(t, payload). EncodeFrame (tc_id tc) t payload) msgs"
      "udpClients rb' = udpClients rb" "ucs rb' = ucs rb" "cucs rb' = cucs rb" "tunnelGeneration rb' = tunnelGeneration rb"
      using c by (auto simp: run close_conn_def p e on_tc_def send_all_msgs_def Let_def)
    then show ?thesis using p q c by (auto simp: nth_list_update conn_shut_def)
  next
    case False
    then show ?thesis by (auto simp: run close_conn_def split: option.splits conn_ref.splits)
  qed
  then show "conns rb' = (conns rb)(key := None)" "udpClients rb' = udpClients rb" "ucs rb' = ucs rb" "cucs rb' = cucs rb"
    "tunnelGeneration rb' = tunnelGeneration rb" "\<not> notify \<Longrightarrow> sent rb' = sent rb" "length (tcs rb') = length (tcs rb)"
    "conns rb key = Some (TC p) \<Longrightarrow> conn_shut (tcs rb ! p) (tcs rb' ! p)"
    "conns rb key \<noteq> Some (TC q) \<Longrightarrow> tcs rb' ! q = tcs rb ! q" "tc_id (tcs rb' ! q) = tc_id (tcs rb ! q)" by blast+
qed

lemma close_conn_wf:
  assumes "bridge_wf rb"
  shows "bridge_wf (close_conn notify rb key)"
  using assms close_conn_effect(1-5,7,10) [OF assms, where notify = notify and key = key, OF refl] unfolding bridge_wf_def by auto

text \<open>All connections of the visited keys end up shut; the others keep their state.\<close>

lemma close_conns_effect:
  assumes "bridge_wf rb" "rb' = foldl (close_conn notify) rb order"
  shows "bridge_wf rb' \<and> conns rb' = conns rb |` (- set order) \<and> udpClients rb' = udpClients rb \<and> ucs rb' = ucs rb \<and> cucs rb' = cucs rb \<and>
    tunnelGeneration rb' = tunnelGeneration rb \<and> (\<not> notify \<longrightarrow> sent rb' = sent rb) \<and> length (tcs rb') = length (tcs rb) \<and>
    (\<forall>c p. c \<in> set order \<and> conns rb c = Some (TC p) \<longrightarrow> conn_shut (tcs rb ! p) (tcs rb' ! p)) \<and>
    (\<forall>q. (\<forall>c \<in> set order. conns rb c \<noteq> Some (TC q)) \<longrightarrow> tcs rb' ! q = tcs rb ! q)"
  using assms
proof (induction order arbitrary: rb)
  case Nil
  then show ?case by simp
next
  case (Cons key order)
  define r1 where "r1 = close_conn notify rb key"
  note e = close_conn_effect [OF Cons.prems(1) r1_def]
  have r1: "bridge_wf r1" "rb' = foldl (close_conn notify) r1 order"
    using close_conn_wf [OF Cons.prems(1)] Cons.prems(2) by (simp_all add: r1_def)
  note h = Cons.IH [OF r1]
  have shut: "conn_shut (tcs rb ! p) (tcs rb' ! p)" if c: "c \<in> set (key # order)" "conns rb c = Some (TC p)" for c p
  proof (cases "c = key")
    case True
    then have "conn_shut (tcs rb ! p) (tcs r1 ! p)" using e(8) c by simp
    moreover have "tcs rb' ! p = tcs r1 ! p"
    proof -
      have "conns r1 x \<noteq> Some (TC p)" for x
        using e(1) bridge_wfD(2) [OF Cons.prems(1)] c True by (auto split: if_splits)
      then show ?thesis using h by blast
    qed
    ultimately show ?thesis by simp
  next
    case False
    then have "conns r1 c = Some (TC p)" "c \<in> set order" using c e(1) by auto
    then have "conn_shut (tcs r1 ! p) (tcs rb' ! p)" using h by blast
    moreover have "tcs r1 ! p = tcs rb ! p"
      using e(9) bridge_wfD(2) [OF Cons.prems(1)] c(2) False by metis
    ultimately show ?thesis by simp
  qed
  have keep: "tcs rb' ! q = tcs rb ! q" if "\<forall>c \<in> set (key # order). conns rb c \<noteq> Some (TC q)" for q
    using that h e(1,9) by (metis (no_types, lifting) fun_upd_apply list.set_intros(1,2) option.distinct(1))
  have "conns rb' = conns rb |` (- set (key # order))"
    using h e(1) by (auto simp: fun_eq_iff restrict_map_def)
  then show ?case using h e(2-7) shut keep by auto
qed

lemma close_udp_effect:
  assumes wf: "bridge_wf rb" and run: "rb' = close_udp notify rb key"
  shows "udpClients rb' = (udpClients rb)(key := None)" "conns rb' = conns rb" "tcs rb' = tcs rb"
    "tunnelGeneration rb' = tunnelGeneration rb" "\<not> notify \<Longrightarrow> sent rb' = sent rb"
    "length (ucs rb') = length (ucs rb)" "length (cucs rb') = length (cucs rb)"
    "uc_closed (ucs rb ! p) \<longrightarrow> uc_closed (ucs rb' ! p)" "udpClients rb key = Some (UC p) \<Longrightarrow> uc_closed (ucs rb' ! p)"
    "cu_closed (cucs rb ! p) \<longrightarrow> cu_closed (cucs rb' ! p)" "udpClients rb key = Some (CUC p) \<Longrightarrow> cu_closed (cucs rb' ! p)"
    "cu_id (cucs rb' ! p) = cu_id (cucs rb ! p)"
proof -
  have uc: "uc_closed (snd (closePending c))" for c by (simp add: closePending_def)
  have "udpClients rb' = (udpClients rb)(key := None) \<and> conns rb' = conns rb \<and> tcs rb' = tcs rb \<and>
    tunnelGeneration rb' = tunnelGeneration rb \<and> (\<not> notify \<longrightarrow> sent rb' = sent rb) \<and>
    length (ucs rb') = length (ucs rb) \<and> length (cucs rb') = length (cucs rb) \<and>
    (\<forall>p. uc_closed (ucs rb ! p) \<longrightarrow> uc_closed (ucs rb' ! p)) \<and> (\<forall>p. udpClients rb key = Some (UC p) \<longrightarrow> uc_closed (ucs rb' ! p)) \<and>
    (\<forall>p. cu_closed (cucs rb ! p) \<longrightarrow> cu_closed (cucs rb' ! p)) \<and> (\<forall>p. udpClients rb key = Some (CUC p) \<longrightarrow> cu_closed (cucs rb' ! p)) \<and>
    (\<forall>p. cu_id (cucs rb' ! p) = cu_id (cucs rb ! p))"
  proof (cases "udpClients rb key")
    case None
    then show ?thesis by (auto simp: run close_udp_def)
  next
    case (Some ref)
    show ?thesis
    proof (cases ref)
      case (UC q)
      then show ?thesis using Some bridge_wfD(3) [OF wf, of key q] uc
        by (auto simp: run close_udp_def nth_list_update)
    next
      case (CUC q)
      then show ?thesis using Some bridge_wfD(4,5) [OF wf, of key q]
        by (auto simp: run close_udp_def on_cuc_def cu_close_def send_all_msgs_def nth_list_update Let_def)
    next
      case (Egress c)
      then show ?thesis using Some by (auto simp: run close_udp_def)
    qed
  qed
  then show "udpClients rb' = (udpClients rb)(key := None)" "conns rb' = conns rb" "tcs rb' = tcs rb"
    "tunnelGeneration rb' = tunnelGeneration rb" "\<not> notify \<Longrightarrow> sent rb' = sent rb"
    "length (ucs rb') = length (ucs rb)" "length (cucs rb') = length (cucs rb)"
    "uc_closed (ucs rb ! p) \<longrightarrow> uc_closed (ucs rb' ! p)" "udpClients rb key = Some (UC p) \<Longrightarrow> uc_closed (ucs rb' ! p)"
    "cu_closed (cucs rb ! p) \<longrightarrow> cu_closed (cucs rb' ! p)" "udpClients rb key = Some (CUC p) \<Longrightarrow> cu_closed (cucs rb' ! p)"
    "cu_id (cucs rb' ! p) = cu_id (cucs rb ! p)" by blast+
qed

lemma close_udps_effect:
  assumes "bridge_wf rb" "rb' = foldl (close_udp notify) rb order"
  shows "bridge_wf rb' \<and> udpClients rb' = udpClients rb |` (- set order) \<and> conns rb' = conns rb \<and> tcs rb' = tcs rb \<and>
    tunnelGeneration rb' = tunnelGeneration rb \<and> (\<not> notify \<longrightarrow> sent rb' = sent rb) \<and>
    (\<forall>p. uc_closed (ucs rb ! p) \<longrightarrow> uc_closed (ucs rb' ! p)) \<and> (\<forall>p. cu_closed (cucs rb ! p) \<longrightarrow> cu_closed (cucs rb' ! p)) \<and>
    (\<forall>c p. c \<in> set order \<and> udpClients rb c = Some (UC p) \<longrightarrow> uc_closed (ucs rb' ! p)) \<and>
    (\<forall>c p. c \<in> set order \<and> udpClients rb c = Some (CUC p) \<longrightarrow> cu_closed (cucs rb' ! p))"
  using assms
proof (induction order arbitrary: rb)
  case (Cons key order)
  define r1 where "r1 = close_udp notify rb key"
  note e = close_udp_effect [OF Cons.prems(1) r1_def]
  have "bridge_wf r1" using Cons.prems(1) e(1-3,6,7,12) unfolding bridge_wf_def by auto
  moreover have "rb' = foldl (close_udp notify) r1 order" using Cons.prems(2) by (simp add: r1_def)
  ultimately have h: "bridge_wf rb' \<and> udpClients rb' = udpClients r1 |` (- set order) \<and> conns rb' = conns r1 \<and> tcs rb' = tcs r1 \<and>
    tunnelGeneration rb' = tunnelGeneration r1 \<and> (\<not> notify \<longrightarrow> sent rb' = sent r1) \<and>
    (\<forall>p. uc_closed (ucs r1 ! p) \<longrightarrow> uc_closed (ucs rb' ! p)) \<and> (\<forall>p. cu_closed (cucs r1 ! p) \<longrightarrow> cu_closed (cucs rb' ! p)) \<and>
    (\<forall>c p. c \<in> set order \<and> udpClients r1 c = Some (UC p) \<longrightarrow> uc_closed (ucs rb' ! p)) \<and>
    (\<forall>c p. c \<in> set order \<and> udpClients r1 c = Some (CUC p) \<longrightarrow> cu_closed (cucs rb' ! p))" by (rule Cons.IH)
  have "udpClients rb' = udpClients rb |` (- set (key # order))" using h e(1) by (auto simp: fun_eq_iff restrict_map_def)
  moreover have "uc_closed (ucs rb' ! p)" if "c \<in> set (key # order)" "udpClients rb c = Some (UC p)" for c p
  proof (cases "c = key")
    case True
    then show ?thesis using h e(9) that(2) by blast
  next
    case False
    then have "udpClients r1 c = Some (UC p)" "c \<in> set order" using that e(1) by simp_all
    then show ?thesis using h by blast
  qed
  moreover have "cu_closed (cucs rb' ! p)" if "c \<in> set (key # order)" "udpClients rb c = Some (CUC p)" for c p
  proof (cases "c = key")
    case True
    then show ?thesis using h e(11) that(2) by blast
  next
    case False
    then have "udpClients r1 c = Some (CUC p)" "c \<in> set order" using that e(1) by simp_all
    then show ?thesis using h by blast
  qed
  ultimately show ?case using h e(2-5) e(8) e(10) by (simp, blast)
qed (auto simp: restrict_map_def fun_eq_iff)

text \<open>The dialled connections and sockets behind the entries are closed as well.\<close>

lemma close_targets_grow:
  "targetClosed rb \<subseteq> targetClosed (close_conn notify rb key)" "targetClosed rb \<subseteq> targetClosed (close_udp notify rb key)"
  by (auto simp: close_conn_def close_udp_def on_tc_def on_cuc_def send_all_msgs_def Let_def split: option.splits conn_ref.splits udp_ref.splits prod.splits)

lemma close_conns_targets:
  assumes "bridge_wf rb"
  shows "targetClosed rb \<subseteq> targetClosed (foldl (close_conn notify) rb order) \<and>
    (\<forall>c t. c \<in> set order \<and> conns rb c = Some (Target t) \<longrightarrow> t \<in> targetClosed (foldl (close_conn notify) rb order))"
proof (induction order rule: rev_induct)
  case (snoc key order)
  let ?r = "foldl (close_conn notify) rb order"
  have c: "conns ?r = conns rb |` (- set order)" using close_conns_effect [OF assms refl] by blast
  have "t \<in> targetClosed (close_conn notify ?r key)" if "c = key" "c \<notin> set order" "conns rb c = Some (Target t)" for c t
    using that c by (simp add: close_conn_def)
  then show ?case using snoc close_targets_grow(1) [of ?r notify key] by (simp, blast)
qed simp

lemma close_udps_targets:
  assumes "bridge_wf rb"
  shows "targetClosed rb \<subseteq> targetClosed (foldl (close_udp notify) rb order) \<and>
    (\<forall>c t. c \<in> set order \<and> udpClients rb c = Some (Egress t) \<longrightarrow> t \<in> targetClosed (foldl (close_udp notify) rb order))"
proof (induction order rule: rev_induct)
  case (snoc key order)
  let ?r = "foldl (close_udp notify) rb order"
  have c: "udpClients ?r = udpClients rb |` (- set order)" using close_udps_effect [OF assms refl] by blast
  have "t \<in> targetClosed (close_udp notify ?r key)" if "c = key" "c \<notin> set order" "udpClients rb c = Some (Egress t)" for c t
    using that c by (simp add: close_udp_def)
  then show ?case using snoc close_targets_grow(2) [of ?r notify key] by (simp, blast)
qed simp

lemma closeAll_targets:
  assumes wf: "bridge_wf rb" and orders: "set order = dom (conns rb)" "set uorder = dom (udpClients rb)"
    and run: "rb' = closeAll order uorder notify rb"
  shows "conns rb c = Some (Target t) \<Longrightarrow> t \<in> targetClosed rb'" "udpClients rb c = Some (Egress t) \<Longrightarrow> t \<in> targetClosed rb'"
proof -
  let ?r = "foldl (close_conn notify) rb order"
  have e: "bridge_wf ?r" "udpClients ?r = udpClients rb" using close_conns_effect [OF wf refl] by blast+
  note cs = close_conns_targets [OF wf, of notify order] and us = close_udps_targets [OF e(1), of notify uorder, folded closeAll_def]
  have "targetClosed ?r \<subseteq> targetClosed rb'" using us by (simp add: run)
  then show "conns rb c = Some (Target t) \<Longrightarrow> t \<in> targetClosed rb'" using cs orders(1) by blast
  show "udpClients rb c = Some (Egress t) \<Longrightarrow> t \<in> targetClosed rb'" using us orders(2) unfolding run e(2) by blast
qed

lemma restrict_dom_compl: "m |` (- dom m) = Map.empty"
  by (auto simp: restrict_map_def fun_eq_iff)

lemma closeAll_effect:
  assumes wf: "bridge_wf rb" and orders: "set order = dom (conns rb)" "set uorder = dom (udpClients rb)"
    and run: "rb' = closeAll order uorder notify rb"
  shows "conns rb' = Map.empty" "udpClients rb' = Map.empty" "tunnelGeneration rb' = tunnelGeneration rb"
    "\<not> notify \<Longrightarrow> sent rb' = sent rb"
    "conns rb c = Some (TC p) \<Longrightarrow> conn_shut (tcs rb ! p) (tcs rb' ! p)"
    "udpClients rb c = Some (UC p) \<Longrightarrow> uc_closed (ucs rb' ! p)"
    "udpClients rb c = Some (CUC p) \<Longrightarrow> cu_closed (cucs rb' ! p)"
proof -
  let ?r1 = "foldl (close_conn notify) rb order"
  note a = close_conns_effect [OF wf, of ?r1 notify order, OF refl]
  then have b: "bridge_wf ?r1" by blast
  note c = close_udps_effect [OF b, of rb' notify uorder]
  have r: "rb' = foldl (close_udp notify) ?r1 uorder" by (simp add: run closeAll_def)
  note b' = c [OF r]
  have ca: "conns ?r1 = Map.empty" "udpClients ?r1 = udpClients rb" using a by (simp_all add: orders restrict_dom_compl)
  show "conns rb' = Map.empty" "tunnelGeneration rb' = tunnelGeneration rb" using a b' ca(1) by simp_all
  show "udpClients rb' = Map.empty" using b' by (simp add: ca(2) orders restrict_dom_compl)
  show "\<not> notify \<Longrightarrow> sent rb' = sent rb" using a b' by simp
  show "conn_shut (tcs rb ! p) (tcs rb' ! p)" if "conns rb c = Some (TC p)"
  proof -
    have "c \<in> set order" using that orders(1) by blast
    then have "conn_shut (tcs rb ! p) (tcs ?r1 ! p)" using a that by blast
    then show ?thesis using b' by simp
  qed
  show "uc_closed (ucs rb' ! p)" if "udpClients rb c = Some (UC p)"
  proof -
    have "c \<in> set uorder" using that orders(2) by blast
    then show ?thesis using b' that unfolding ca(2) by blast
  qed
  show "cu_closed (cucs rb' ! p)" if "udpClients rb c = Some (CUC p)"
  proof -
    have "c \<in> set uorder" using that orders(2) by blast
    then show ?thesis using b' that unfolding ca(2) by blast
  qed
qed

lemma shut_calls:
  assumes "conn_shut tc tc'"
  shows "tc_Read n tc' = (Failed EOF, tc', [], False)" "tc_Write b tc' = (Failed ClosedPipe, tc', [], False)"
  using assms by (simp_all add: conn_shut_def tc_Read_def tc_Write_def)

section \<open>Dialling\<close>

lemma handleTunnelData_one:
  "5 + length p < 2 ^ 32 \<Longrightarrow> handleTunnelData (EncodeFrame c t p) rb = handleMessage rb (c, t, p)"
  using DecodeFrames_frame [of p c t "[]"] by (simp add: handleTunnelData_def)

lemma connect_accept:
  assumes "rb_mode k = ''creator''" "acceptHandler k" "5 + length dest < 2 ^ 32"
  shows "handleTunnelData (EncodeFrame c MsgConnect dest) k =
    (let q = length (tcs k) in
     k\<lparr>tcs := tcs k @ [newTunnelConn c (flowControl k)], conns := (conns k)(c \<mapsto> TC q),
       sent := sent k @ [EncodeFrame c MsgConnectOK []], accepted := accepted k @ [(q, dest)]\<rparr>)"
  using assms by (simp add: handleTunnelData_one handleMessage_def handleCreatorMessage_def rb_send_def msg_defs Let_def)

section \<open>UDP packets\<close>

lemma udp_payload:
  assumes "\<not> uc_closed c"
  shows "pc_Write dest b c = (Returned (length b), [(MsgUDP, word_of_nat (length dest) # dest @ b)])"
proof -
  let ?srcs = "[[word_of_nat (length dest)], dest, b]"
  have "fill 0 ?srcs (replicate (1 + length dest + length b) 0) = concat ?srcs" by (rule fill_exact) simp
  then show ?thesis using assms by (simp add: pc_Write_def Let_def)
qed

lemma udp_parse_payload:
  assumes "dest \<noteq> []" "length dest < 256" "0 \<notin> set dest"
  shows "udp_parse (word_of_nat (length dest) # dest @ b) = Some (dest, b)"
  using assms by (auto simp: udp_parse_def slice_def Let_def Suc_le_eq)

text \<open>A destination of 256 bytes or more is cut: its length wraps around in the single length byte.\<close>

lemma udp_parse_wrapped:
  assumes "length dest = 256 + n" "0 < n" "n < 256" "0 \<notin> set dest"
  shows "udp_parse (word_of_nat (length dest) # dest @ b) = Some (take n dest, drop n dest @ b)"
proof -
  have "unat (word_of_nat (length dest) :: byte) = length dest mod 256" by (rule unat_byte_of_nat)
  also have "\<dots> = n" using assms by simp
  finally have "unat (word_of_nat (length dest) :: byte) = n" .
  moreover have "0 \<notin> set (take n dest)" using assms(4) by (meson in_set_takeD)
  ultimately show ?thesis using assms by (simp add: udp_parse_def slice_def Let_def)
qed

text \<open>Packets that wait at the creator are merged: one read returns the bytes of all of them.\<close>

lemma creator_udp_merges:
  "\<not> cu_closed uc \<Longrightarrow> cu_readBuf uc = [] \<Longrightarrow> x \<noteq> [] \<Longrightarrow> length (x @ y) \<le> cap \<Longrightarrow>
     fst (cu_Read cap (cu_deliver y (cu_deliver x uc))) = Returned (x @ y)"
  by (simp add: cu_Read_def cu_deliver_def Let_def)

section \<open>Reachable bridges\<close>

inductive bridge_step :: "relayBridge \<Rightarrow> relayBridge \<Rightarrow> bool" where
  data: "bridge_step rb (onData generation bytes rb)"
| tunnel_closed: "set order = dom (conns rb) \<Longrightarrow> set uorder = dom (udpClients rb) \<Longrightarrow> bridge_step rb (onClose generation order uorder rb)"
| dial: "bridge_step rb (snd (dial_begin ipv6 dest rb))"
| dialled: "p < length (tcs rb) \<Longrightarrow> bridge_step rb (snd (dial_wait cancelled p rb))"
| listen: "bridge_step rb (snd (rb_ListenPacket ipv6 dest rb))"
| stream_read: "p < length (tcs rb) \<Longrightarrow> tc_Read n (tcs rb ! p) = (res, eff) \<Longrightarrow> bridge_step rb (on_tc p eff rb)"
| stream_write: "p < length (tcs rb) \<Longrightarrow> tc_Write b (tcs rb ! p) = (res, eff) \<Longrightarrow> bridge_step rb (on_tc p eff rb)"
| stream_round: "p < length (tcs rb) \<Longrightarrow> write_round b k (tcs rb ! p) = (res, eff) \<Longrightarrow> bridge_step rb (on_tc p eff rb)"
| stream_close: "p < length (tcs rb) \<Longrightarrow> bridge_step rb (on_tc p (tc_close True (tcs rb ! p)) rb)"
| packet_read: "p < length (ucs rb) \<Longrightarrow> bridge_step rb (rb\<lparr>ucs := (ucs rb)[p := snd (pc_Read n (ucs rb ! p))]\<rparr>)"
| packet_write: "bridge_step rb (send_all_msgs c (snd (pc_Write dest b (ucs rb ! p))) rb)"
| packet_close: "bridge_step rb (pc_Close c p rb)"
| creator_read: "bridge_step rb (rb\<lparr>cucs := (cucs rb)[p := snd (cu_Read n (cucs rb ! p))]\<rparr>)"
| creator_write: "bridge_step rb (send_all_msgs (cu_id (cucs rb ! p)) (snd (cu_Write b (cucs rb ! p))) rb)"
| creator_close: "p < length (cucs rb) \<Longrightarrow> bridge_step rb (on_cuc p (cu_close True (cucs rb ! p)) rb)"
| target_dialled: "bridge_step rb (connect_dialled c out rb)"
| target_read: "bridge_step rb (connect_read c chunk rb)"
| target_end: "bridge_step rb (connect_end c rb)"
| udp_job: "bridge_step rb (handleUDP c payload rb)"
| udp_dial: "bridge_step rb (udp_dialled c packet out' rb)"
| udp_reply: "bridge_step rb (egress_read c packet rb)"
| udp_end: "bridge_step rb (egress_end c k rb)"
| swap: "set order = dom (conns rb) \<Longrightarrow> set uorder = dom (udpClients rb) \<Longrightarrow>
    bridge_step rb (snd (SwapTunnel flow order uorder rb))"
| reset: "set order = dom (conns rb) \<Longrightarrow> set uorder = dom (udpClients rb) \<Longrightarrow> bridge_step rb (rb_Reset order uorder rb)"
| shut: "set order = dom (conns rb) \<Longrightarrow> set uorder = dom (udpClients rb) \<Longrightarrow> bridge_step rb (rb_Close order uorder rb)"
| configure: "rb' \<in> {SetAcceptHandler fn rb, SetUDPAcceptHandler fn rb, SetOnPeerConfig fn rb, MarkReady rb} \<Longrightarrow> bridge_step rb rb'"

definition bridge_init :: "relayBridge \<Rightarrow> bool" where
  "bridge_init rb \<longleftrightarrow> (\<exists>flow mode. rb = NewRelayBridge flow mode)"

text \<open>Entries stay valid when tables shrink and heaps keep the identity of their objects.\<close>

lemma wf_frame:
  assumes "bridge_wf rb" "conns rb' \<subseteq>\<^sub>m conns rb" "udpClients rb' \<subseteq>\<^sub>m udpClients rb"
    "length (tcs rb) \<le> length (tcs rb')" "length (ucs rb) \<le> length (ucs rb')" "length (cucs rb) \<le> length (cucs rb')"
    "\<And>p. p < length (tcs rb) \<Longrightarrow> tc_id (tcs rb' ! p) = tc_id (tcs rb ! p)"
    "\<And>p. p < length (cucs rb) \<Longrightarrow> cu_id (cucs rb' ! p) = cu_id (cucs rb ! p)"
  shows "bridge_wf rb'"
proof -
  have c: "conns rb c = Some x" if "conns rb' c = Some x" for c x using that assms(2) by (metis domI map_le_def)
  have u: "udpClients rb c = Some x" if "udpClients rb' c = Some x" for c x using that assms(3) by (metis domI map_le_def)
  show ?thesis unfolding bridge_wf_def
  proof (intro conjI allI impI)
    fix c p assume "conns rb' c = Some (TC p)"
    from bridge_wfD(1,2) [OF assms(1) c [OF this]] assms(4,7) show "p < length (tcs rb')" "tc_id (tcs rb' ! p) = c" by auto
  next
    fix c p assume "udpClients rb' c = Some (UC p)"
    from bridge_wfD(3) [OF assms(1) u [OF this]] assms(5) show "p < length (ucs rb')" by simp
  next
    fix c p assume "udpClients rb' c = Some (CUC p)"
    from bridge_wfD(4,5) [OF assms(1) u [OF this]] assms(6,8) show "p < length (cucs rb')" "cu_id (cucs rb' ! p) = c" by auto
  qed
qed

lemma map_le_delete: "m(k := None) \<subseteq>\<^sub>m m"
  by (simp add: map_le_def)

lemma wf_on_tc:
  assumes "bridge_wf rb" "tc_id (fst eff) = tc_id (tcs rb ! p)"
  shows "bridge_wf (on_tc p eff rb)"
  by (rule wf_frame [OF assms(1)])
    (use assms(2) in \<open>auto simp: on_tc_def send_all_msgs_def nth_update_same map_le_delete Let_def split: prod.splits\<close>)

lemma wf_on_cuc:
  assumes "bridge_wf rb" "cu_id (fst eff) = cu_id (cucs rb ! p)"
  shows "bridge_wf (on_cuc p eff rb)"
  by (rule wf_frame [OF assms(1)])
    (use assms(2) in \<open>auto simp: on_cuc_def send_all_msgs_def nth_update_same map_le_delete Let_def split: prod.splits\<close>)

lemma method_ids:
  "tc_Read n tc = (res, eff) \<Longrightarrow> tc_id (fst eff) = tc_id tc"
  "write_round b k tc = (res', eff) \<Longrightarrow> tc_id (fst eff) = tc_id tc"
  "tc_Write b tc = (res', eff) \<Longrightarrow> tc_id (fst eff) = tc_id tc"
  by (auto simp: tc_Read_def tc_Write_def write_round_def takeSendCredit_def Let_def split: if_splits outcome.splits prod.splits)

lemma wf_add_stream:
  assumes "bridge_wf rb" "tcs rb' = tcs rb @ [tc]" "conns rb' = (conns rb)(tc_id tc \<mapsto> TC (length (tcs rb)))"
    "udpClients rb' = udpClients rb" "ucs rb' = ucs rb" "cucs rb' = cucs rb"
  shows "bridge_wf rb'"
  using assms(1) unfolding bridge_wf_def assms(2-6) by (auto simp: nth_append less_Suc_eq)

lemma newTunnelConn_id [simp]: "tc_id (newTunnelConn c f) = c"
  by (simp add: newTunnelConn_def)

lemma wf_closeAll:
  assumes "bridge_wf rb"
  shows "bridge_wf (closeAll order uorder notify rb)"
proof -
  have "bridge_wf (foldl (close_conn notify) rb order)" using close_conns_effect [OF assms refl] by blast
  from close_udps_effect [OF this refl] show ?thesis by (simp add: closeAll_def)
qed

lemma wf_quiet:
  assumes "bridge_wf rb" "conns rb' = conns rb" "udpClients rb' = udpClients rb" "ucs rb' = ucs rb" "cucs rb' = cucs rb" "tcs rb' = tcs rb"
  shows "bridge_wf rb'"
  using assms(1) unfolding bridge_wf_def assms(2-6) .

lemma wf_handleJoiner:
  assumes wf: "bridge_wf rb"
  shows "bridge_wf (handleJoinerMessage c t payload rb)"
proof -
  have tc: "bridge_wf (rb\<lparr>tcs := (tcs rb)[p := f (tcs rb ! p)]\<rparr>)" if "\<And>x. tc_id (f x) = tc_id x" for p f
    by (rule wf_frame [OF wf]) (use that in \<open>auto simp: nth_update_same\<close>)
  have tcd: "bridge_wf (rb\<lparr>tcs := (tcs rb)[p := f (tcs rb ! p)], conns := (conns rb)(c := None)\<rparr>)" if "\<And>x. tc_id (f x) = tc_id x" for p f
    by (rule wf_frame [OF wf]) (use that in \<open>auto simp: nth_update_same map_le_delete\<close>)
  have uc: "bridge_wf (rb\<lparr>ucs := (ucs rb)[p := x]\<rparr>)" for p x by (rule wf_frame [OF wf]) auto
  show ?thesis using wf tc [of "put_rdy v" p for v p] tcd [of tc_remoteClosed] uc wf_on_tc [OF wf]
    by (auto simp: handleJoinerMessage_def keeps_id split: option.splits conn_ref.splits udp_ref.splits)
qed

lemma wf_handleCreator:
  assumes wf: "bridge_wf rb"
  shows "bridge_wf (handleCreatorMessage c t payload rb)"
proof -
  have conn: "bridge_wf (rb_send c MsgConnectOK [] (rb\<lparr>tcs := tcs rb @ [newTunnelConn c (flowControl rb)], conns := (conns rb)(c \<mapsto> TC (length (tcs rb)))\<rparr>)
      \<lparr>accepted := x\<rparr>)" for x
    by (rule wf_add_stream [OF wf, where tc = "newTunnelConn c (flowControl rb)"]) (simp_all add: rb_send_def)
  have q: "bridge_wf (rb\<lparr>connecting := x\<rparr>)" "bridge_wf (rb\<lparr>udpJobs := y\<rparr>)" "bridge_wf (rb_send c MsgClose [] rb)"
    "bridge_wf (rb\<lparr>targetWrites := z\<rparr>)" for x y z
    by (rule wf_quiet [OF wf]; simp add: rb_send_def)+
  have closed: "bridge_wf (case conns rb c of None \<Rightarrow> rb
      | Some (TC p) \<Rightarrow> rb\<lparr>conns := (conns rb)(c := None), tcs := (tcs rb)[p := tc_remoteClosed (tcs rb ! p)]\<rparr>
      | Some (Target k) \<Rightarrow> rb\<lparr>conns := (conns rb)(c := None), targetClosed := insert k (targetClosed rb)\<rparr>)"
    by (rule wf_frame [OF wf])
      (auto simp: map_le_delete nth_update_same keeps_id split: option.splits conn_ref.splits)
  have udp: "bridge_wf (case udpClients r c of None \<Rightarrow> r
         | Some (UC p) \<Rightarrow> r\<lparr>udpClients := (udpClients r)(c := None)\<rparr>
         | Some (CUC p) \<Rightarrow> r\<lparr>udpClients := (udpClients r)(c := None), cucs := (cucs r)[p := cu_remoteClosed (cucs r ! p)]\<rparr>
         | Some (Egress k) \<Rightarrow> r\<lparr>udpClients := (udpClients r)(c := None), targetClosed := insert k (targetClosed r)\<rparr>)" if "bridge_wf r" for r
    by (rule wf_frame [OF that])
      (auto simp: map_le_delete nth_update_same cu_remoteClosed_def split: option.splits udp_ref.splits)
  consider "t = MsgConnect" | "t = MsgUDP" | "t = MsgData" | "t = MsgClose" | "t \<notin> {MsgConnect, MsgUDP, MsgData, MsgClose}" by blast
  then show ?thesis
  proof cases
    case 3
    then show ?thesis using q wf_on_tc [OF wf]
      by (simp add: handleCreatorMessage_def msg_defs keeps_id split: option.split conn_ref.split)
  next
    case 4
    then show ?thesis using udp [OF closed] by (simp only: handleCreatorMessage_def Let_def msg_defs) simp
  qed (use wf conn q in \<open>simp_all add: handleCreatorMessage_def Let_def msg_defs\<close>)
qed

lemma wf_handleMessage: "bridge_wf rb \<Longrightarrow> bridge_wf (handleMessage rb m)"
proof -
  assume wf: "bridge_wf rb"
  have credit: "bridge_wf (handleFlowCredit c p rb)" for c p
    by (rule wf_frame [OF wf])
      (auto simp: handleFlowCredit_def nth_update_same keeps_id Let_def split: option.splits conn_ref.splits)
  have conf: "bridge_wf (rb_send ControlConnID MsgConfigAck [] (rb\<lparr>reconfigured := x\<rparr>))"
    "bridge_wf (rb_send ControlConnID MsgConfigAck [] (rb\<lparr>reconfigured := x\<rparr>)\<lparr>peerConfigs := y\<rparr>)" for x y
    by (rule wf_quiet [OF wf]; simp add: rb_send_def)+
  show ?thesis
    using wf credit conf wf_handleJoiner [OF wf] wf_handleCreator [OF wf]
    by (auto simp: handleMessage_def Let_def split: prod.splits option.splits)
qed

lemma wf_calls:
  assumes wf: "bridge_wf rb"
  shows "bridge_wf (snd (dial_begin ipv6 dest rb))" "bridge_wf (snd (dial_wait cancelled p rb))"
    "bridge_wf (snd (rb_ListenPacket ipv6 dest rb))" "bridge_wf (pc_Close c p rb)" "bridge_wf (handleUDP c payload rb)"
    "bridge_wf (udp_dialled c payload out rb)" "bridge_wf (connect_dialled c res rb)"
    "bridge_wf (connect_end c rb)" "bridge_wf (egress_end c k rb)"
proof -
  show "bridge_wf (snd (dial_begin ipv6 dest rb))"
    using wf by (auto simp: dial_begin_def rb_send_def Let_def
        intro: wf_add_stream [OF wf, where tc = "newTunnelConn (nextID rb + 1) (flowControl rb)"])
  show "bridge_wf (snd (dial_wait cancelled p rb))"
    by (rule wf_frame [OF wf])
      (auto simp: dial_wait_def rb_send_def Let_def map_le_delete nth_update_same split: option.splits)
  show "bridge_wf (snd (rb_ListenPacket ipv6 dest rb))"
    using wf by (auto simp: rb_ListenPacket_def bridge_wf_def Let_def less_Suc_eq)
  show "bridge_wf (pc_Close c p rb)"
    by (rule wf_frame [OF wf]) (auto simp: pc_Close_def rb_send_def Let_def map_le_delete split: prod.splits)
  have w: "bridge_wf (net_write ref b r) = bridge_wf r" for ref b r
    by (auto simp: net_write_def send_all_msgs_def bridge_wf_def split: udp_ref.splits)
  have t: "bridge_wf (r\<lparr>targetClosed := x\<rparr>) = bridge_wf r" "bridge_wf (r\<lparr>udpDials := y\<rparr>) = bridge_wf r" for r x y
    by (simp_all add: bridge_wf_def)
  have eg: "bridge_wf (rb\<lparr>udpClients := (udpClients rb)(c \<mapsto> Egress k)\<rparr>)" for k using wf by (auto simp: bridge_wf_def)
  have cuc: "bridge_wf (rb\<lparr>cucs := (cucs rb)[p := cu_deliver x (cucs rb ! p)]\<rparr>)" for p x
    by (rule wf_frame [OF wf]) (auto simp: nth_update_same cu_deliver_def)
  have new: "bridge_wf (rb\<lparr>cucs := cucs rb @ [cu_deliver x (newCreatorUDPConn c a)], udpClients := (udpClients rb)(c \<mapsto> CUC (length (cucs rb))),
      udpAccepted := z\<rparr>)" for x a z
    using wf by (auto simp: bridge_wf_def nth_append less_Suc_eq cu_deliver_def newCreatorUDPConn_def)
  show "bridge_wf (handleUDP c payload rb)"
    using wf cuc new by (auto simp: handleUDP_def w t Let_def split: option.splits udp_ref.splits)
  show "bridge_wf (udp_dialled c payload out rb)"
    using wf eg by (auto simp: udp_dialled_def w t split: sum.splits option.splits)
  show "bridge_wf (connect_dialled c res rb)"
    using wf by (auto simp: connect_dialled_def rb_send_def bridge_wf_def split: sum.splits)
  show "bridge_wf (connect_end c rb)" "bridge_wf (egress_end c k rb)"
    by (rule wf_frame [OF wf]; simp add: connect_end_def egress_end_def rb_send_def Let_def map_le_delete)+
qed

lemma bridge_step_wf:
  assumes "bridge_step rb rb'" and wf: "bridge_wf rb"
  shows "bridge_wf rb'"
  using assms(1)
proof (cases rule: bridge_step.cases)
  case (data g d)
  have "bridge_wf (foldl handleMessage rb ms)" for ms
    using foldl_invariant [of bridge_wf handleMessage] wf wf_handleMessage by blast
  then show ?thesis using wf by (simp add: data onData_def handleTunnelData_def)
next
  case (tunnel_closed order uorder g)
  then show ?thesis using wf wf_closeAll by (simp add: onClose_def handleTunnelClose_def)
next
  case (swap order uorder flow)
  have "bridge_wf (rb\<lparr>nextGeneration := g, tunnelGeneration := g, flowControl := flow, sent := []\<rparr>)" for g
    by (rule wf_quiet [OF wf]) simp_all
  then show ?thesis using wf_closeAll by (simp add: swap(1) SwapTunnel_def Let_def)
next
  case (shut order uorder)
  have "bridge_wf (rb\<lparr>rb_closed := True\<rparr>)" by (rule wf_quiet [OF wf]) simp_all
  then show ?thesis using wf wf_closeAll by (simp add: shut(1) rb_Close_def)
next
  case (configure fn)
  then show ?thesis
    by (intro wf_quiet [OF wf]) (auto simp: SetAcceptHandler_def SetUDPAcceptHandler_def SetOnPeerConfig_def MarkReady_def)
next
  case (packet_read p n)
  then show ?thesis by (intro wf_frame [OF wf]) auto
next
  case (creator_read p n)
  then show ?thesis by (intro wf_frame [OF wf]) (auto simp: nth_update_same cu_Read_def Let_def)
next
  case (packet_write c dest b p)
  then show ?thesis by (intro wf_quiet [OF wf]) (simp_all add: send_all_msgs_def)
next
  case (creator_write p b)
  then show ?thesis by (intro wf_quiet [OF wf]) (simp_all add: send_all_msgs_def)
next
  case (creator_close p)
  then show ?thesis using wf_on_cuc [OF wf] by (simp add: cu_close_def Let_def)
next
  case (target_read c chunk)
  then show ?thesis by (intro wf_quiet [OF wf]) (simp_all add: connect_read_def rb_send_def)
next
  case (udp_reply c packet)
  then show ?thesis by (intro wf_quiet [OF wf]) (simp_all add: egress_read_def rb_send_def)
next
  case (reset order uorder)
  then show ?thesis using wf wf_closeAll by (simp add: rb_Reset_def)
qed (use wf_calls [OF wf] wf_on_tc [OF wf] method_ids keeps_id in auto)

text \<open>The tunnel in use is always the one bound last.\<close>

definition gens :: "relayBridge \<Rightarrow> u64 \<times> u64" where
  "gens rb = (tunnelGeneration rb, nextGeneration rb)"

lemma gens_conn [simp]: "gens (on_tc p eff rb) = gens rb" "gens (on_cuc p eff' rb) = gens rb" "gens (rb_send c t x rb) = gens rb"
  "gens (send_all_msgs c ms rb) = gens rb" "gens (net_write ref b rb) = gens rb"
  by (auto simp: gens_def on_tc_def on_cuc_def rb_send_def send_all_msgs_def net_write_def Let_def split: prod.splits udp_ref.splits)

lemma gens_update [simp]: "gens (rb\<lparr>tcs := a\<rparr>) = gens rb" "gens (rb\<lparr>ucs := b\<rparr>) = gens rb" "gens (rb\<lparr>cucs := c\<rparr>) = gens rb"
  "gens (rb\<lparr>conns := d\<rparr>) = gens rb" "gens (rb\<lparr>udpClients := e\<rparr>) = gens rb" "gens (rb\<lparr>targetClosed := f\<rparr>) = gens rb"
  "gens (rb\<lparr>accepted := h\<rparr>) = gens rb" "gens (rb\<lparr>connecting := i\<rparr>) = gens rb" "gens (rb\<lparr>udpJobs := j\<rparr>) = gens rb"
  "gens (rb\<lparr>targetWrites := k\<rparr>) = gens rb" "gens (rb\<lparr>reconfigured := l\<rparr>) = gens rb" "gens (rb\<lparr>peerConfigs := m\<rparr>) = gens rb"
  "gens (rb\<lparr>udpAccepted := n\<rparr>) = gens rb" "gens (rb\<lparr>udpDials := q\<rparr>) = gens rb" "gens (rb\<lparr>nextID := r\<rparr>) = gens rb"
  "gens (rb\<lparr>rb_closed := s\<rparr>) = gens rb"
  by (simp_all add: gens_def)

lemma gens_closeAll [simp]: "gens (closeAll order uorder notify rb) = gens rb"
proof -
  have "gens (close_conn notify r key) = gens r" for r key
    by (auto simp: close_conn_def Let_def split: option.splits conn_ref.splits)
  moreover have "gens (close_udp notify r key) = gens r" for r key
    by (auto simp: close_udp_def Let_def split: option.splits udp_ref.splits)
  ultimately show ?thesis
    by (simp add: closeAll_def foldl_invariant [where P = "\<lambda>r. gens r = gens rb"])
qed

lemma gens_handle [simp]: "gens (handleFlowCredit c x rb) = gens rb" "gens (handleJoinerMessage c t x rb) = gens rb"
  "gens (handleCreatorMessage c t x rb) = gens rb"
  by (simp_all add: handleFlowCredit_def handleJoinerMessage_def handleCreatorMessage_def Let_def
      split: option.split conn_ref.split udp_ref.split)

lemma gens_handleMessage [simp]: "gens (handleMessage rb m) = gens rb"
  by (simp add: handleMessage_def Let_def split: prod.split option.split)

lemma bridge_step_gens:
  assumes "bridge_step rb rb'"
  shows "gens rb' = gens rb \<or> fst (gens rb') = snd (gens rb')"
  using assms
proof (cases rule: bridge_step.cases)
  case (data g d)
  have "gens (foldl handleMessage rb ms) = gens rb" for ms
    by (rule foldl_invariant [where P = "\<lambda>r. gens r = gens rb"]) simp_all
  then show ?thesis by (simp add: data onData_def handleTunnelData_def)
next
  case (swap order uorder flow)
  show ?thesis by (simp add: swap(1) SwapTunnel_def Let_def) (simp add: gens_def)
next
  case (configure fn)
  then show ?thesis by (auto simp: gens_def SetAcceptHandler_def SetUDPAcceptHandler_def SetOnPeerConfig_def MarkReady_def)
qed (auto simp: onClose_def handleTunnelClose_def rb_Reset_def rb_Close_def dial_begin_def dial_wait_def rb_ListenPacket_def
    pc_Close_def handleUDP_def udp_dialled_def connect_dialled_def connect_read_def connect_end_def egress_read_def egress_end_def Let_def
    split: option.splits sum.splits prod.splits udp_ref.splits)

definition bridge_inv :: "relayBridge \<Rightarrow> bool" where
  "bridge_inv rb \<longleftrightarrow> bridge_wf rb \<and> tunnelGeneration rb = nextGeneration rb"

interpretation bridge: invariant_system bridge_init bridge_step bridge_inv
proof
  show "bridge_inv rb" if "bridge_init rb" for rb
    using that by (auto simp: bridge_init_def NewRelayBridge_def bridge_wf_def bridge_inv_def)
  show "bridge_inv t" if "bridge_inv s" "bridge_step s t" for s t
    using that bridge_step_wf [OF that(2)] bridge_step_gens [OF that(2)] by (auto simp: bridge_inv_def gens_def)
qed

section \<open>Properties\<close>

text \<open>
  C19. A change of tunnel starts afresh: after \<open>SwapTunnel\<close> data or a close that still arrives from the
  old tunnel changes nothing, no entry of the old tunnel is left, every connection that was listed is
  closed (its reads end, its writes fail, a dial that waits for it is woken), the connections and sockets the
  bridge had dialled for its peer are closed too, and nothing is sent to the new tunnel on behalf of the old
  connections.
\<close>

theorem swap_tunnel_isolates:
  assumes "reach bridge_init bridge_step rb" "set order = dom (conns rb)" "set uorder = dom (udpClients rb)"
    and "SwapTunnel flow order uorder rb = (g, rb')"
  shows "onData (tunnelGeneration rb) late rb' = rb' \<and> onClose (tunnelGeneration rb) o1 o2 rb' = rb' \<and>
    tunnelGeneration rb' = g \<and> conns rb' = Map.empty \<and> udpClients rb' = Map.empty \<and> sent rb' = [] \<and>
    (\<forall>c p. conns rb c = Some (TC p) \<longrightarrow> (\<forall>n b. fst (tc_Read n (tcs rb' ! p)) = Failed EOF \<and> fst (tc_Write b (tcs rb' ! p)) = Failed ClosedPipe) \<and>
       (\<not> tc_closed (tcs rb ! p) \<longrightarrow> rdy (tcs rb' ! p) \<noteq> None)) \<and>
    (\<forall>c p. udpClients rb c = Some (UC p) \<longrightarrow> uc_closed (ucs rb' ! p)) \<and>
    (\<forall>c p. udpClients rb c = Some (CUC p) \<longrightarrow> cu_closed (cucs rb' ! p)) \<and>
    (\<forall>c t. conns rb c = Some (Target t) \<or> udpClients rb c = Some (Egress t) \<longrightarrow> t \<in> targetClosed rb')"
proof -
  let ?r = "rb\<lparr>nextGeneration := nextGeneration rb + 1, tunnelGeneration := nextGeneration rb + 1, flowControl := flow, sent := []\<rparr>"
  have inv: "bridge_wf rb" "tunnelGeneration rb = nextGeneration rb" using bridge.reach_inv [OF assms(1)] by (simp_all add: bridge_inv_def)
  have wf: "bridge_wf ?r" by (rule wf_quiet [OF inv(1)]) simp_all
  have run: "g = nextGeneration rb + 1" "rb' = closeAll order uorder False ?r"
    using assms(4) by (auto simp: SwapTunnel_def Let_def)
  have o: "set order = dom (conns ?r)" "set uorder = dom (udpClients ?r)" using assms(2,3) by simp_all
  note e = closeAll_effect [OF wf o run(2)]
  have "t \<in> targetClosed rb'" if "conns rb c = Some (Target t) \<or> udpClients rb c = Some (Egress t)" for c t
    using closeAll_targets [OF wf o run(2), of c t] that by auto
  moreover have "tunnelGeneration rb' = nextGeneration rb + 1" using e(3) by simp
  then have "tunnelGeneration rb' \<noteq> tunnelGeneration rb" using inv(2) by simp
  moreover from this have "onData (tunnelGeneration rb) late rb' = rb'" "onClose (tunnelGeneration rb) o1 o2 rb' = rb'"
    by (simp_all add: onData_def onClose_def isCurrentTunnelGeneration_def)
  moreover have "fst (tc_Read n (tcs rb' ! p)) = Failed EOF \<and> fst (tc_Write b (tcs rb' ! p)) = Failed ClosedPipe"
    "\<not> tc_closed (tcs rb ! p) \<Longrightarrow> rdy (tcs rb' ! p) \<noteq> None" if "conns rb c = Some (TC p)" for c p n b
    using e(5) [of c p] that shut_calls [of "tcs rb ! p" "tcs rb' ! p"] by (simp_all add: conn_shut_def)
  ultimately show ?thesis using e(1,2,3,4,6,7) run(1) by simp
qed

text \<open>A joiner with one dialled connection, for the witnesses.\<close>

definition demo_joiner :: relayBridge where
  "demo_joiner = MarkReady (NewRelayBridge True ''joiner'')"

definition demo_creator :: relayBridge where
  "demo_creator = SetAcceptHandler True (NewRelayBridge True ''creator'')"

lemma demo_bridges:
  "reach bridge_init bridge_step demo_joiner" "reach bridge_init bridge_step demo_creator"
proof -
  have "reach bridge_init bridge_step (NewRelayBridge True mode)" for mode by (rule reach_init) (auto simp: bridge_init_def)
  note start = this
  show "reach bridge_init bridge_step demo_joiner" unfolding demo_joiner_def
    by (rule reach_step [OF start [of "''joiner''"] bridge_step.configure]) simp
  show "reach bridge_init bridge_step demo_creator" unfolding demo_creator_def
    by (rule reach_step [OF start [of "''creator''"] bridge_step.configure [where fn = True]]) simp
qed

theorem swap_tunnel_isolates_witness:
  "\<exists>rb g rb'. conns rb 1 = Some (TC 0) \<and> SwapTunnel True [1] [] rb = (g, rb') \<and> conns rb' = Map.empty \<and>
     fst (tc_Read 9 (tcs rb' ! 0)) = Failed EOF \<and> onData 1 [1, 2, 3] rb' = rb'"
proof -
  let ?rb = "snd (dial_begin False [65] demo_joiner)"
  have r: "reach bridge_init bridge_step ?rb" by (rule reach_step [OF demo_bridges(1) bridge_step.dial])
  have f: "conns ?rb = [1 \<mapsto> TC 0]" "udpClients ?rb = Map.empty" "tunnelGeneration ?rb = 1"
    by (simp_all add: dial_begin_def demo_joiner_def MarkReady_def NewRelayBridge_def rb_send_def Let_def)
  obtain g rb' where s: "SwapTunnel True [1] [] ?rb = (g, rb')" by fastforce
  show ?thesis using swap_tunnel_isolates [OF r _ _ s, of "[1, 2, 3]" "[]" "[]"] f s
    by (intro exI [of _ ?rb] exI [of _ g] exI [of _ rb']) simp
qed

text \<open>
  C18. Connecting through the tunnel: a joiner dials a destination, the creator's bridge accepts and
  answers, the answer completes the dial. Then both sides list the same id, the accept handler got
  exactly the destination that was dialled, and the two connections are in the initial state of the
  flow-control link, so the results about it hold for them.
\<close>

theorem connect_establishes_link:
  assumes "reach bridge_init bridge_step j" "rb_ready j" "\<not> rb_closed j" "rb_mode j = ''joiner''" "flowControl j"
    and "reach bridge_init bridge_step k" "rb_mode k = ''creator''" "acceptHandler k" "flowControl k"
    and "length dest < 2 ^ 31" "nextID j + 1 \<noteq> ControlConnID"
    and "dial_begin False dest j = (Returned p, j1)"
    and "k1 = handleTunnelData (last (sent j1)) k" "j2 = handleTunnelData (last (sent k1)) j1"
  shows "\<exists>c q j3. dial_wait False p j2 = (Returned p, j3) \<and> conns j3 c = Some (TC p) \<and> conns k1 c = Some (TC q) \<and>
    last (accepted k1) = (q, dest) \<and>
    link_init \<lparr>ends = \<lambda>d. if d then tcs j3 ! p else tcs k1 ! q, listed = \<lambda>_. True, chan = \<lambda>_. [], wrote = \<lambda>_. [], got = \<lambda>_. []\<rparr>"
proof -
  let ?c = "nextID j + 1" and ?q = "length (tcs k)"
  have p: "p = length (tcs j)" and j1: "tcs j1 = tcs j @ [newTunnelConn ?c True]" "conns j1 = (conns j)(?c \<mapsto> TC p)"
    "sent j1 = sent j @ [EncodeFrame ?c MsgConnect dest]" "rb_mode j1 = ''joiner''" "udpClients j1 = udpClients j"
    using assms(2-5,12) by (auto simp: dial_begin_def rb_send_def Let_def split: if_splits)
  have k1: "tcs k1 = tcs k @ [newTunnelConn ?c True]" "conns k1 = (conns k)(?c \<mapsto> TC ?q)"
    "sent k1 = sent k @ [EncodeFrame ?c MsgConnectOK []]" "accepted k1 = accepted k @ [(?q, dest)]"
    using connect_accept [OF assms(7,8), of dest ?c] assms(9,10,13) j1(3) by (simp_all add: Let_def)
  have "j2 = handleMessage j1 (?c, MsgConnectOK, [])"
    using assms(14) k1(3) handleTunnelData_one [of "[]"] by simp
  also have "\<dots> = j1\<lparr>tcs := (tcs j1)[p := put_rdy None (tcs j1 ! p)]\<rparr>"
    using j1(2,4) assms(11) by (simp add: handleMessage_def handleJoinerMessage_def msg_defs)
  finally have j2: "j2 = j1\<lparr>tcs := (tcs j1)[p := (newTunnelConn ?c True)\<lparr>rdy := Some None\<rparr>]\<rparr>"
    by (simp add: j1(1) p put_rdy_def newTunnelConn_def)
  let ?j3 = "j2\<lparr>tcs := (tcs j2)[p := newTunnelConn ?c True]\<rparr>"
  have "dial_wait False p j2 = (Returned p, ?j3)"
    using p by (simp add: dial_wait_def j2 j1(1) newTunnelConn_def Let_def)
  moreover have "conns ?j3 ?c = Some (TC p)" "conns k1 ?c = Some (TC ?q)" "last (accepted k1) = (?q, dest)"
    by (simp_all add: j2 j1(2) k1(2,4))
  moreover have "tcs ?j3 ! p = newTunnelConn ?c True" "tcs k1 ! ?q = newTunnelConn ?c True"
    using p by (simp_all add: j2 j1(1) k1(1))
  then have "link_init \<lparr>ends = \<lambda>d. if d then tcs ?j3 ! p else tcs k1 ! ?q, listed = \<lambda>_. True, chan = \<lambda>_. [], wrote = \<lambda>_. [], got = \<lambda>_. []\<rparr>"
    by (simp add: link_init_def) (intro exI [of _ ?c] ext, simp)
  ultimately show ?thesis by blast
qed

theorem connect_establishes_link_witness:
  "\<exists>p j1 k1 c q. dial_begin False [65] demo_joiner = (Returned p, j1) \<and> k1 = handleTunnelData (last (sent j1)) demo_creator \<and>
     conns k1 c = Some (TC q) \<and> last (accepted k1) = (q, [65])"
proof -
  obtain p j1 where d: "dial_begin False [65] demo_joiner = (Returned p, j1)"
    by (simp add: dial_begin_def demo_joiner_def MarkReady_def NewRelayBridge_def Let_def)
  have f: "rb_ready demo_joiner" "\<not> rb_closed demo_joiner" "rb_mode demo_joiner = ''joiner''" "flowControl demo_joiner"
    "rb_mode demo_creator = ''creator''" "acceptHandler demo_creator" "flowControl demo_creator"
    "length [65 :: byte] < 2 ^ 31" "nextID demo_joiner + 1 \<noteq> ControlConnID"
    by (simp_all add: demo_joiner_def demo_creator_def MarkReady_def SetAcceptHandler_def NewRelayBridge_def ControlConnID_def)
  from connect_establishes_link [OF demo_bridges(1) f(1-4) demo_bridges(2) f(5-9) d refl refl] d show ?thesis by blast
qed

text \<open>
  A UDP packet written by the joiner arrives at the creator unchanged: the frame decodes to the same
  destination and data, and the first packet of a flow opens a connection to that destination whose
  next read returns the data. This needs a destination of at most 255 bytes without a zero byte.
\<close>

lemma udp_request_roundtrip:
  assumes "\<not> uc_closed u" "dest \<noteq> []" "length dest < 256" "0 \<notin> set dest" "b \<noteq> []" "length b < 2 ^ 31"
    and "udpAcceptHandler k" "udpClients k c = None"
  shows "\<exists>payload. pc_Write dest b u = (Returned (length b), [(MsgUDP, payload)]) \<and>
    DecodeFrames (EncodeFrame c MsgUDP payload) = [(c, MsgUDP, payload)] \<and>
    (\<exists>q. udpClients (handleUDP c payload k) c = Some (CUC q) \<and> udpAccepted (handleUDP c payload k) = udpAccepted k @ [(q, dest)] \<and>
       fst (cu_Read (length b) (cucs (handleUDP c payload k) ! q)) = Returned b)"
proof -
  let ?p = "word_of_nat (length dest) # dest @ b"
  have "DecodeFrames (EncodeFrame c MsgUDP ?p @ []) = [(c, MsgUDP, ?p)]"
    by (subst DecodeFrames_frame) (use assms(3,6) in simp_all)
  moreover have "udp_parse ?p = Some (dest, b)" by (rule udp_parse_payload [OF assms(2-4)])
  moreover have "fst (cu_Read (length b) (cu_deliver b (newCreatorUDPConn c dest))) = Returned b"
    using assms(5) by (simp add: cu_Read_def cu_deliver_def newCreatorUDPConn_def Let_def)
  ultimately show ?thesis
    using udp_payload [OF assms(1), of dest b] assms(7,8)
    by (intro exI [of _ ?p]) (simp add: handleUDP_def Let_def)
qed

lemma udp_request_roundtrip_witness:
  "\<exists>payload. pc_Write [65] [1, 2] \<lparr>pending = [], uc_closed = False, uc_addr = [65]\<rparr> = (Returned 2, [(MsgUDP, payload)]) \<and>
     (\<exists>q. udpAccepted (handleUDP 5 payload (SetUDPAcceptHandler True demo_creator)) = [(q, [65])])"
  using udp_request_roundtrip [of "\<lparr>pending = [], uc_closed = False, uc_addr = [65]\<rparr>" "[65]" "[1, 2]"
      "SetUDPAcceptHandler True demo_creator" 5]
  by (auto simp: SetUDPAcceptHandler_def demo_creator_def SetAcceptHandler_def NewRelayBridge_def)

end
