(* ===== verification/Quic_Relay.thy ===== *)
theory Quic_Relay
  imports Complex_Main Datagram_Router Auth
begin

text \<open>
  The pool of QUIC paths of \<open>transport/call/vk-parasite/quic_relay.go\<close>. Each of the \<open>pathCount\<close>
  workers is a goroutine that dials a path, watches it and dials again; the pool, the network
  generation and the closed flag are shared. A step of the relation below is a section of the
  code that runs under the lock or that touches shared state once. Dialling and the connections
  themselves are third-party code: their outcomes are chosen by the steps.
\<close>

section \<open>Constants and path quality\<close>

definition defaultQUICPathCount :: nat where "defaultQUICPathCount = DefaultWorkerCount"
definition pathRTTTolerance :: int where "pathRTTTolerance = 2"
definition pathRTTSlack :: duration where "pathRTTSlack = 30 * Millisecond"
definition pathLossLimit :: rat where "pathLossLimit = 1 / 5"
definition pathLossMinPackets :: nat where "pathLossMinPackets = 50"
definition initialBackoff :: duration where "initialBackoff = 500 * Millisecond"

definition ErrNoActiveQUICPaths :: go_error where
  "ErrNoActiveQUICPaths = New ''call vk_parasite: no active QUIC paths''"

text \<open>A path; \<open>p_conn\<close> identifies both the path object and its connection, \<open>p_gen\<close> the context it was dialled under.\<close>

record quicPathConn =
  p_id :: u16
  p_conn :: nat
  p_gen :: nat
  streams :: u64

record PathQuality =
  WorkerID :: u16
  SmoothedRTT :: duration
  PacketsSent :: u64
  PacketsLost :: u64

text \<open>The ratio is a \<open>float64\<close> in the code; it is a rational here, which agrees for counters below \<open>2 ^ 53\<close>.\<close>

definition LossRatio :: "PathQuality \<Rightarrow> rat" where
  "LossRatio q =
     (if unat (PacketsSent q) < pathLossMinPackets then 0
      else of_nat (unat (PacketsLost q)) / of_nat (unat (PacketsSent q)))"

definition pathIsUsable :: "PathQuality \<Rightarrow> duration \<Rightarrow> bool" where
  "pathIsUsable quality best =
     (if pathLossLimit < LossRatio quality then False
      else
        let rtt = SmoothedRTT quality in
        if rtt \<le> 0 \<or> best \<le> 0 then True
        else rtt \<le> best * pathRTTTolerance \<or> rtt \<le> best + pathRTTSlack)"

section \<open>The relay\<close>

text \<open>
  Where a worker's goroutine stands: not started, about to dial for the first time, dialling
  (the context it read), at the head of the reconnect loop, dialling there, waiting out the
  back-off, watching its path, or finished.
\<close>

datatype worker =
    NotStarted
  | InitTop
  | InitDial nat
  | Loop duration
  | Dial nat duration
  | Waiting nat duration
  | Active nat
  | Stopped

text \<open>
  \<open>gen\<close> names the current \<open>generationCtx\<close>; \<open>dead\<close> the connections whose context is done;
  \<open>parent_done\<close> whether the context given to \<open>NewQUICRelay\<close> is cancelled.
\<close>

record 'd relay =
  pathCount :: nat
  has_dial :: bool
  workers :: "worker list"
  paths :: "quicPathConn list"
  gen :: nat
  applied :: u64
  relay_closed :: bool
  parent_done :: bool
  initialPending :: int
  nextPath :: u64
  next_conn :: nat
  dead :: "nat set"
  dgramRouter :: "'d datagramRouter"

definition NewQUICRelay :: "int \<Rightarrow> bool \<Rightarrow> 'd relay" where
  "NewQUICRelay wanted dial =
     (let n = (if wanted \<le> 0 then defaultQUICPathCount else nat wanted) in
      \<lparr>pathCount = n, has_dial = dial, workers = replicate n NotStarted, paths = [], gen = 0,
       applied = 0, relay_closed = False, parent_done = False, initialPending = 0, nextPath = 0,
       next_conn = 0, dead = {}, dgramRouter = newDatagramRouter\<rparr>)"

text \<open>\<open>ctx_err r g\<close>: whether the generation context \<open>g\<close> is cancelled.\<close>

definition ctx_err :: "'d relay \<Rightarrow> nat \<Rightarrow> bool" where
  "ctx_err r g \<longleftrightarrow> parent_done r \<or> relay_closed r \<or> g \<noteq> gen r"

definition Start :: "'d relay \<Rightarrow> 'd relay" where
  "Start r =
     (if \<not> has_dial r then r
      else r\<lparr>initialPending := int (pathCount r), workers := replicate (pathCount r) InitTop\<rparr>)"

text \<open>Admission under the lock; a refused path is closed.\<close>

definition addCurrentPath :: "quicPathConn \<Rightarrow> nat \<Rightarrow> 'd relay \<Rightarrow> bool \<times> 'd relay" where
  "addCurrentPath path g r =
     (if relay_closed r \<or> g \<noteq> gen r \<or> ctx_err r g
      then (False, r\<lparr>dead := insert (p_conn path) (dead r)\<rparr>)
      else (True, r\<lparr>paths := paths r @ [path]\<rparr>))"

definition addPath :: "quicPathConn \<Rightarrow> 'd relay \<Rightarrow> 'd relay" where
  "addPath path r = r\<lparr>paths := paths r @ [path]\<rparr>"

fun drop_path :: "nat \<Rightarrow> quicPathConn list \<Rightarrow> quicPathConn list" where
  "drop_path c [] = []"
| "drop_path c (p # ps) = (if p_conn p = c then ps else p # drop_path c ps)"

definition removePath :: "nat \<Rightarrow> 'd relay \<Rightarrow> 'd relay" where
  "removePath c r = r\<lparr>paths := drop_path c (paths r)\<rparr>"

text \<open>\<open>watchPath\<close> once the connection's context is done, up to the decision to reconnect.\<close>

definition watchPath :: "nat \<Rightarrow> 'd relay \<Rightarrow> bool \<times> 'd relay" where
  "watchPath c r =
     (let r = removePath c r;
          r = r\<lparr>dgramRouter := closeConn (Some c) (dgramRouter r)\<rparr> in
      (\<not> relay_closed r \<and> has_dial r, r))"

definition next_backoff :: "duration \<Rightarrow> duration" where
  "next_backoff backoff = (if backoff < 5 * Second then backoff * 2 else backoff)"

text \<open>\<open>RebindNetwork\<close>; \<open>generation\<close> is 0 when the call gives none.\<close>

definition RebindNetwork :: "u64 \<Rightarrow> 'd relay \<Rightarrow> 'd relay" where
  "RebindNetwork generation r =
     (if generation \<noteq> 0 \<and> generation \<le> applied r then r
      else
        let r = (if generation \<noteq> 0 then r\<lparr>applied := generation\<rparr> else r) in
        r\<lparr>gen := gen r + 1, dead := dead r \<union> p_conn ` set (paths r)\<rparr>)"

definition relay_Close :: "'d relay \<Rightarrow> 'd relay" where
  "relay_Close r =
     (if relay_closed r then r
      else r\<lparr>relay_closed := True, dead := dead r \<union> p_conn ` set (paths r), paths := [],
             dgramRouter := router_close (dgramRouter r)\<rparr>)"

definition ActivePaths :: "'d relay \<Rightarrow> nat" where "ActivePaths r = length (paths r)"

definition initialPathsPending :: "'d relay \<Rightarrow> bool" where
  "initialPathsPending r \<longleftrightarrow> 0 < initialPending r"

definition AttachServerConn :: "'d relay \<Rightarrow> nat \<times> 'd relay" where
  "AttachServerConn r =
     (let c = next_conn r in
      (c, addPath \<lparr>p_id = 0, p_conn = c, p_gen = gen r, streams = 0\<rparr> (r\<lparr>next_conn := c + 1\<rparr>)))"

section \<open>Choosing a path\<close>

text \<open>
  \<open>pickPath\<close>; \<open>quality\<close> is the statistics of quic-go for a connection. The counter is read as a
  natural number: it stays below \<open>2 ^ 63\<close>, where the code's conversion to \<open>int\<close> is exact.
\<close>

definition best_rtt :: "(quicPathConn \<Rightarrow> PathQuality) \<Rightarrow> quicPathConn list \<Rightarrow> duration" where
  "best_rtt quality ps =
     foldl (\<lambda>best path. let rtt = SmoothedRTT (quality path) in
              if 0 < rtt \<and> (best = 0 \<or> rtt < best) then rtt else best) 0 ps"

definition pickPath ::
  "(quicPathConn \<Rightarrow> PathQuality) \<Rightarrow> 'd relay \<Rightarrow> (go_error + quicPathConn) \<times> 'd relay" where
  "pickPath quality r =
     (let activeCount = length (paths r) in
      if activeCount = 0 then (Inl ErrNoActiveQUICPaths, r)
      else
        let start = unat (nextPath r); r = r\<lparr>nextPath := nextPath r + 1\<rparr> in
        if activeCount = 1 then (Inr (paths r ! 0), r)
        else
          let best = best_rtt quality (paths r);
              order = map (\<lambda>offset. paths r ! ((start + offset) mod activeCount)) [0..<activeCount] in
          case find (\<lambda>path. pathIsUsable (quality path) best) order of
            Some path \<Rightarrow> (Inr path, r)
          | None \<Rightarrow> (Inr (paths r ! (start mod activeCount)), r))"

definition PathStats :: "(quicPathConn \<Rightarrow> PathQuality) \<Rightarrow> 'd relay \<Rightarrow> PathQuality list" where
  "PathStats quality r = map quality (paths r)"

text \<open>The mean RTT of the paths that have one (\<open>QUICRelay.SmoothedRTT\<close>).\<close>

definition relay_SmoothedRTT :: "(quicPathConn \<Rightarrow> PathQuality) \<Rightarrow> 'd relay \<Rightarrow> duration" where
  "relay_SmoothedRTT quality r =
     (let rtts = filter (\<lambda>rtt. 0 < rtt) (map (\<lambda>p. SmoothedRTT (quality p)) (paths r)) in
      if rtts = [] then 0 else sum_list rtts sdiv int (length rtts))"

definition count_stream :: "quicPathConn \<Rightarrow> 'd relay \<Rightarrow> 'd relay" where
  "count_stream path r =
     r\<lparr>paths := map (\<lambda>p. if p_conn p = p_conn path then p\<lparr>streams := streams p + 1\<rparr> else p) (paths r)\<rparr>"

text \<open>\<open>ListenPacket\<close>: a UDP association on the chosen path; \<open>dest\<close> is the parsed destination.\<close>

definition ListenPacket ::
  "(quicPathConn \<Rightarrow> PathQuality) \<Rightarrow> 'd relay \<Rightarrow> 'd \<Rightarrow> (go_error + nat) \<times> 'd relay" where
  "ListenPacket quality r dest =
     (case pickPath quality r of
        (Inl e, r) \<Rightarrow> (Inl e, r)
      | (Inr path, r) \<Rightarrow>
          let r = count_stream path r;
              (p, router) = newAssociation (dgramRouter r) (Some (p_conn path)) dest in
          (Inr p, r\<lparr>dgramRouter := router\<rparr>))"

text \<open>
  \<open>DialContext\<close>: \<open>opened\<close> is the outcome of opening a stream on the path, \<open>werr\<close> that of the first
  write; the result is the connection and the header bytes on the stream.
\<close>

definition DialContext ::
  "'d serializer \<Rightarrow> (quicPathConn \<Rightarrow> PathQuality) \<Rightarrow> (quicPathConn \<Rightarrow> go_error option) \<Rightarrow> go_error option \<Rightarrow>
   'd relay \<Rightarrow> 'd \<Rightarrow> (go_error + quicPathConn \<times> bytes) \<times> 'd relay" where
  "DialContext ser quality opened werr r dest =
     (case pickPath quality r of
        (Inl e, r) \<Rightarrow> (Inl e, r)
      | (Inr path, r) \<Rightarrow>
          (case opened path of Some e \<Rightarrow> (Inl e, r)
           | None \<Rightarrow>
               let r = count_stream path r in
               (case writeStreamHeader ser werr streamKindTCP dest of
                  (Some e, _) \<Rightarrow> (Inl e, r)
                | (None, header) \<Rightarrow> (Inr (path, header), r))))"

text \<open>
  \<open>handleInboundStream\<close>: the destination passed to the accept handler, or \<open>None\<close> when the stream is
  closed without a handler; \<open>has_handler\<close> tells whether one is set.
\<close>

definition handleInboundStream :: "'d serializer \<Rightarrow> bool \<Rightarrow> bytes \<Rightarrow> ('d \<times> bytes) option" where
  "handleInboundStream ser has_handler stream =
     (case readStreamHeader ser stream of
        Inl _ \<Rightarrow> None
      | Inr ((kind, dest), rest) \<Rightarrow>
          if kind = streamKindTCP then (if has_handler then Some (dest, rest) else None) else None)"

section \<open>The workers\<close>

definition set_worker :: "nat \<Rightarrow> worker \<Rightarrow> 'd relay \<Rightarrow> 'd relay" where
  "set_worker w x r = r\<lparr>workers := (workers r)[w := x]\<rparr>"

definition init_done :: "'d relay \<Rightarrow> 'd relay" where
  "init_done r = r\<lparr>initialPending := initialPending r - 1\<rparr>"

text \<open>A successful dial: a fresh connection, offered to the pool; \<open>retry\<close> is where the worker goes if it is refused.\<close>

definition dialled :: "nat \<Rightarrow> nat \<Rightarrow> worker \<Rightarrow> 'd relay \<Rightarrow> 'd relay" where
  "dialled w g retry r =
     (let c = next_conn r;
          path = \<lparr>p_id = word_of_nat w, p_conn = c, p_gen = g, streams = 0\<rparr> in
      case addCurrentPath path g (r\<lparr>next_conn := c + 1\<rparr>) of
        (True, r) \<Rightarrow> set_worker w (Active c) r
      | (False, r) \<Rightarrow> set_worker w retry r)"

abbreviation worker_at :: "'d relay \<Rightarrow> nat \<Rightarrow> worker \<Rightarrow> bool" where
  "worker_at r w x \<equiv> w < length (workers r) \<and> workers r ! w = x"

text \<open>
  \<open>initPath\<close> and \<open>reconnectPath\<close> as steps of worker \<open>w\<close>, the watcher of its path, and the events the
  rest of the program or the network causes.
\<close>

inductive relay_step :: "'d relay \<Rightarrow> 'd relay \<Rightarrow> bool" where
  start: "\<forall>x \<in> set (workers r). x = NotStarted \<Longrightarrow> relay_step r (Start r)"
| init_closed: "worker_at r w InitTop \<Longrightarrow> relay_closed r \<Longrightarrow> relay_step r (init_done (set_worker w Stopped r))"
| init_dial: "worker_at r w InitTop \<Longrightarrow> \<not> relay_closed r \<Longrightarrow> relay_step r (set_worker w (InitDial (gen r)) r)"
| init_terminal: "worker_at r w (InitDial g) \<Longrightarrow> relay_step r (init_done (set_worker w Stopped r))"
| init_failed: "worker_at r w (InitDial g) \<Longrightarrow> relay_step r (init_done (set_worker w (Loop initialBackoff) r))"
| init_ok: "worker_at r w (InitDial g) \<Longrightarrow> relay_step r (init_done (dialled w g (Loop initialBackoff) r))"
| loop_stop: "worker_at r w (Loop b) \<Longrightarrow> relay_closed r \<or> parent_done r \<Longrightarrow> relay_step r (set_worker w Stopped r)"
| loop_dial: "worker_at r w (Loop b) \<Longrightarrow> \<not> (relay_closed r \<or> parent_done r) \<Longrightarrow>
    relay_step r (set_worker w (Dial (gen r) b) r)"
| dial_ok: "worker_at r w (Dial g b) \<Longrightarrow> relay_step r (dialled w g (Loop b) r)"
| dial_terminal: "worker_at r w (Dial g b) \<Longrightarrow> relay_step r (set_worker w Stopped r)"
| dial_failed: "worker_at r w (Dial g b) \<Longrightarrow> relay_step r (set_worker w (Waiting g b) r)"
| wait_over: "worker_at r w (Waiting g b) \<Longrightarrow> relay_step r (set_worker w (Loop (next_backoff b)) r)"
| wait_cancelled: "worker_at r w (Waiting g b) \<Longrightarrow> ctx_err r g \<Longrightarrow> relay_step r (set_worker w (Loop initialBackoff) r)"
| conn_lost: "relay_step r (r\<lparr>dead := insert c (dead r)\<rparr>)"
| watch: "worker_at r w (Active c) \<Longrightarrow> c \<in> dead r \<Longrightarrow> watchPath c r = (again, r') \<Longrightarrow>
    relay_step r (set_worker w (if again then Loop initialBackoff else Stopped) r')"
| rebind: "relay_step r (RebindNetwork g r)"
| close: "relay_step r (relay_Close r)"
| cancelled: "relay_step r (r\<lparr>parent_done := True\<rparr>)"
| pick: "relay_step r (snd (pickPath quality r))"
| listen: "relay_step r (snd (ListenPacket quality r dest))"
| datagram: "relay_step r (r\<lparr>dgramRouter := routeReceivedDatagram ser (dgramRouter r) now raw conn\<rparr>)"

inductive_cases relay_stepE: "relay_step r r'"

section \<open>The invariant of the pool\<close>

definition backoff_ok :: "duration \<Rightarrow> bool" where
  "backoff_ok b \<longleftrightarrow> b \<in> {500 * Millisecond, 1 * Second, 2 * Second, 4 * Second, 8 * Second}"

fun worker_ok :: "worker \<Rightarrow> bool" where
  "worker_ok (Loop b) \<longleftrightarrow> backoff_ok b"
| "worker_ok (Dial g b) \<longleftrightarrow> backoff_ok b"
| "worker_ok (Waiting g b) \<longleftrightarrow> backoff_ok b"
| "worker_ok _ \<longleftrightarrow> True"

fun in_init :: "worker \<Rightarrow> bool" where
  "in_init InitTop \<longleftrightarrow> True"
| "in_init (InitDial g) \<longleftrightarrow> True"
| "in_init _ \<longleftrightarrow> False"

text \<open>
  Every pooled path is watched by the worker it belongs to; a path of an earlier network
  generation is already closed; a closed relay has no paths; the pending counter counts the
  workers still in their first attempt; back-offs are on their ladder.
\<close>

definition relay_inv :: "'d relay \<Rightarrow> bool" where
  "relay_inv r \<longleftrightarrow>
     length (workers r) = pathCount r \<and> pathCount r \<le> 65536 \<and>
     (\<forall>p \<in> set (paths r). worker_at r (unat (p_id p)) (Active (p_conn p)) \<and> (p_gen p = gen r \<or> p_conn p \<in> dead r)) \<and>
     distinct (map p_conn (paths r)) \<and>
     (relay_closed r \<longrightarrow> paths r = []) \<and>
     (\<forall>w c. worker_at r w (Active c) \<longrightarrow> c < next_conn r) \<and>
     (\<forall>x \<in> set (workers r). worker_ok x) \<and>
     initialPending r = int (length (filter in_init (workers r))) \<and>
     router_inv (dgramRouter r)"

lemma relay_invD:
  assumes "relay_inv r"
  shows "length (workers r) = pathCount r" "pathCount r \<le> 65536"
    "p \<in> set (paths r) \<Longrightarrow> unat (p_id p) < length (workers r)"
    "p \<in> set (paths r) \<Longrightarrow> workers r ! unat (p_id p) = Active (p_conn p)"
    "p \<in> set (paths r) \<Longrightarrow> p_gen p = gen r \<or> p_conn p \<in> dead r"
    "distinct (map p_conn (paths r))" "relay_closed r \<Longrightarrow> paths r = []"
    "w < length (workers r) \<Longrightarrow> workers r ! w = Active c \<Longrightarrow> c < next_conn r"
    "x \<in> set (workers r) \<Longrightarrow> worker_ok x"
    "initialPending r = int (length (filter in_init (workers r)))" "router_inv (dgramRouter r)"
  using assms unfolding relay_inv_def by blast+

lemma relay_invI:
  assumes "length (workers r) = pathCount r" "pathCount r \<le> 65536"
    "\<And>p. p \<in> set (paths r) \<Longrightarrow> worker_at r (unat (p_id p)) (Active (p_conn p))"
    "\<And>p. p \<in> set (paths r) \<Longrightarrow> p_gen p = gen r \<or> p_conn p \<in> dead r"
    "distinct (map p_conn (paths r))" "relay_closed r \<Longrightarrow> paths r = []"
    "\<And>w c. w < length (workers r) \<Longrightarrow> workers r ! w = Active c \<Longrightarrow> c < next_conn r"
    "\<And>x. x \<in> set (workers r) \<Longrightarrow> worker_ok x"
    "initialPending r = int (length (filter in_init (workers r)))" "router_inv (dgramRouter r)"
  shows "relay_inv r"
  using assms unfolding relay_inv_def by blast

lemma backoff_ok_simps: "backoff_ok initialBackoff" "backoff_ok b \<Longrightarrow> backoff_ok (next_backoff b)"
    "backoff_ok b \<Longrightarrow> 0 < b \<and> b \<le> 8 * Second"
  by (auto simp: backoff_ok_def next_backoff_def initialBackoff_def)

lemma relay_inv_worker:
  assumes "relay_inv r" "worker_at r w old" "worker_ok new" "\<And>c. new \<noteq> Active c"
    "\<And>c. old = Active c \<Longrightarrow> c \<notin> p_conn ` set (paths r)"
    "n = initialPending r + (if in_init new then 1 else 0) - (if in_init old then 1 else 0)"
  shows "relay_inv (r\<lparr>workers := (workers r)[w := new], initialPending := n\<rparr>)"
proof -
  note inv = relay_invD [OF assms(1)]
  have other: "w \<noteq> unat (p_id p)" if "p \<in> set (paths r)" for p
    using inv(4) [OF that] assms(2,5) that by auto
  have act: "workers r ! w' = Active c" if "w' < length (workers r)" "(workers r)[w := new] ! w' = Active c" for w' c
    using that assms(4) by (cases "w' = w") auto
  show ?thesis
  proof (rule relay_invI)
    fix x assume "x \<in> set (workers (r\<lparr>workers := (workers r)[w := new], initialPending := n\<rparr>))"
    then show "worker_ok x" using inv(9) assms(3) set_update_subset_insert [of "workers r" w new] by auto
  next
    show "initialPending (r\<lparr>workers := (workers r)[w := new], initialPending := n\<rparr>) =
        int (length (filter in_init (workers (r\<lparr>workers := (workers r)[w := new], initialPending := n\<rparr>))))"
      using filter_update_count [of w "workers r" in_init new] inv(10) assms(2,6) by simp
  next
    let ?r = "r\<lparr>workers := (workers r)[w := new], initialPending := n\<rparr>"
    fix p assume p: "p \<in> set (paths ?r)"
    then show "worker_at ?r (unat (p_id p)) (Active (p_conn p))" using inv(3,4) other by simp
    show "p_gen p = gen ?r \<or> p_conn p \<in> dead ?r" using inv(5) p by simp
  next
    let ?r = "r\<lparr>workers := (workers r)[w := new], initialPending := n\<rparr>"
    fix w' c assume "w' < length (workers ?r)" "workers ?r ! w' = Active c"
    then show "c < next_conn ?r" using inv(8) [of w' c] act [of w' c] by simp
  qed (use inv(1,2,6,7,11) in simp_all)
qed

lemma relay_inv_set_worker:
  assumes "relay_inv r" "worker_at r w old" "worker_ok new" "\<And>c. new \<noteq> Active c"
    "\<And>c. old = Active c \<Longrightarrow> c \<notin> p_conn ` set (paths r)"
  shows "in_init new = in_init old \<Longrightarrow> relay_inv (set_worker w new r)"
    and "in_init old \<Longrightarrow> \<not> in_init new \<Longrightarrow> relay_inv (init_done (set_worker w new r))"
  using relay_inv_worker [OF assms refl] by (simp_all add: set_worker_def init_done_def)

lemma relay_inv_dead: "relay_inv r \<Longrightarrow> relay_inv (r\<lparr>dead := dead r \<union> D\<rparr>)"
  by (auto simp: relay_inv_def)

lemma relay_inv_next_conn: "relay_inv r \<Longrightarrow> relay_inv (r\<lparr>next_conn := Suc (next_conn r)\<rparr>)"
  by (auto simp: relay_inv_def less_Suc_eq)

text \<open>Admitting a dialled path: only under the current generation, and then watched by its worker.\<close>

lemma relay_inv_admit:
  assumes "relay_inv r" "worker_at r w old" "\<And>c. old \<noteq> Active c" "\<not> relay_closed r" "g = gen r"
    "n = initialPending r - (if in_init old then 1 else 0)" "p_id p = word_of_nat w" "p_conn p = next_conn r" "p_gen p = g"
  shows "relay_inv (r\<lparr>next_conn := Suc (next_conn r), paths := paths r @ [p],
    workers := (workers r)[w := Active (next_conn r)], initialPending := n\<rparr>)"
proof -
  note inv = relay_invD [OF assms(1)]
  let ?r = "r\<lparr>next_conn := Suc (next_conn r), paths := paths r @ [p],
    workers := (workers r)[w := Active (next_conn r)], initialPending := n\<rparr>"
  have w: "w < 65536" "w < length (workers r)" using inv(1,2) assms(2) by auto
  then have u: "unat (p_id p) = w" by (simp add: assms(7) unat_of_nat)
  have fresh: "p_conn q < next_conn r \<and> w \<noteq> unat (p_id q)" if "q \<in> set (paths r)" for q
    using inv(8) [OF inv(3,4) [OF that]] inv(4) [OF that] assms(2,3) by auto
  show ?thesis
  proof (rule relay_invI)
    fix x assume "x \<in> set (workers ?r)"
    then show "worker_ok x"
      using inv(9) set_update_subset_insert [of "workers r" w "Active (next_conn r)"] by auto
  next
    show "initialPending ?r = int (length (filter in_init (workers ?r)))"
      using filter_update_count [of w "workers r" in_init "Active (next_conn r)"] inv(10) assms(2,6) by simp
  next
    fix w' c assume "w' < length (workers ?r)" "workers ?r ! w' = Active c"
    then show "c < next_conn ?r" using inv(8) [of w' c] by (cases "w' = w") auto
  next
    fix q assume "q \<in> set (paths ?r)"
    then show "worker_at ?r (unat (p_id q)) (Active (p_conn q))"
      using inv(3,4) fresh u w assms(8) by auto
  next
    show "distinct (map p_conn (paths ?r))" using inv(6) fresh assms(8) by (auto dest: fresh)
  next
    fix q assume "q \<in> set (paths ?r)"
    then show "p_gen q = gen ?r \<or> p_conn q \<in> dead ?r" using inv(5) [of q] assms(5,9) by auto
  qed (use inv(1,2,11) assms(4) in simp_all)
qed

lemma relay_inv_dialled:
  assumes "relay_inv r" "worker_at r w old" "\<And>c. old \<noteq> Active c" "worker_ok retry" "\<And>c. retry \<noteq> Active c"
    "\<not> in_init retry"
  shows "\<not> in_init old \<Longrightarrow> relay_inv (dialled w g retry r)"
    and "in_init old \<Longrightarrow> relay_inv (init_done (dialled w g retry r))"
proof -
  let ?c = "next_conn r"
  let ?p = "\<lparr>p_id = word_of_nat w, p_conn = ?c, p_gen = g, streams = 0\<rparr>"
  let ?n = "initialPending r - (if in_init old then 1 else 0)"
  have d: "dialled w g retry r =
      (if relay_closed r \<or> g \<noteq> gen r \<or> ctx_err r g
       then r\<lparr>next_conn := Suc ?c, dead := insert ?c (dead r), workers := (workers r)[w := retry]\<rparr>
       else r\<lparr>next_conn := Suc ?c, paths := paths r @ [?p], workers := (workers r)[w := Active ?c]\<rparr>)"
    by (simp add: dialled_def addCurrentPath_def set_worker_def Let_def ctx_err_def)
  have inv: "relay_inv ((dialled w g retry r)\<lparr>initialPending := ?n\<rparr>)"
  proof (cases "relay_closed r \<or> g \<noteq> gen r \<or> ctx_err r g")
    case True
    let ?r = "r\<lparr>next_conn := Suc ?c, dead := dead r \<union> {?c}\<rparr>"
    have "relay_inv ?r"
      using relay_inv_dead [OF relay_inv_next_conn [OF assms(1)], of "{?c}"] by simp
    then show ?thesis
      using relay_inv_worker [of ?r w old retry ?n] assms(2-6) True unfolding d by simp
  next
    case False
    then show ?thesis
      using relay_inv_admit [OF assms(1-3), of g ?n ?p] unfolding d by simp
  qed
  have pend: "initialPending (dialled w g retry r) = initialPending r" by (simp add: d)
  have self: "R\<lparr>initialPending := initialPending R\<rparr> = R" for R :: "'a relay" by (cases R) simp
  show "relay_inv (dialled w g retry r)" if "\<not> in_init old"
  proof -
    have "relay_inv ((dialled w g retry r)\<lparr>initialPending := initialPending (dialled w g retry r)\<rparr>)"
      using inv that by (simp add: pend)
    then show ?thesis by (simp only: self)
  qed
  show "in_init old \<Longrightarrow> relay_inv (init_done (dialled w g retry r))"
    using inv by (simp add: init_done_def pend)
qed

lemma drop_path_filter: "distinct (map p_conn ps) \<Longrightarrow> drop_path c ps = filter (\<lambda>p. p_conn p \<noteq> c) ps"
proof (induction ps)
  case (Cons p ps)
  then show ?case by (auto simp: image_iff intro!: filter_True [symmetric])
qed simp

lemma relay_inv_frame [simp]:
  "relay_inv (r\<lparr>nextPath := n\<rparr>) = relay_inv r" "relay_inv (r\<lparr>parent_done := d\<rparr>) = relay_inv r"
  "relay_inv (r\<lparr>applied := a\<rparr>) = relay_inv r"
  by (simp_all add: relay_inv_def)

lemma relay_inv_router:
  "relay_inv r \<Longrightarrow> router_inv d \<Longrightarrow> relay_inv (r\<lparr>dgramRouter := d\<rparr>)"
  by (auto simp: relay_inv_def)

lemma relay_inv_paths:
  assumes "relay_inv r" "map p_conn qs = map p_conn ps" "map p_id qs = map p_id ps" "map p_gen qs = map p_gen ps"
    "set ps \<subseteq> set (paths r)" "distinct (map p_conn ps)"
  shows "relay_inv (r\<lparr>paths := qs\<rparr>)"
proof -
  note inv = relay_invD [OF assms(1)]
  have "\<exists>p \<in> set (paths r). p_conn p = p_conn q \<and> p_id p = p_id q \<and> p_gen p = p_gen q" if q: "q \<in> set qs" for q
  proof -
    obtain i where i: "i < length qs" "q = qs ! i" using q unfolding in_set_conv_nth by blast
    have len: "length qs = length ps" using arg_cong [OF assms(2), of length] by simp
    have "p_conn (ps ! i) = p_conn q" "p_id (ps ! i) = p_id q" "p_gen (ps ! i) = p_gen q"
      using arg_cong [OF assms(2), of "\<lambda>l. l ! i"] arg_cong [OF assms(3), of "\<lambda>l. l ! i"]
        arg_cong [OF assms(4), of "\<lambda>l. l ! i"] i len by simp_all
    moreover have "ps ! i \<in> set (paths r)" using i(1) len assms(5) nth_mem by fastforce
    ultimately show ?thesis by blast
  qed
  note same = this
  show ?thesis
  proof (rule relay_invI)
    fix q assume "q \<in> set (paths (r\<lparr>paths := qs\<rparr>))"
    then obtain p where p: "p \<in> set (paths r)" "p_conn p = p_conn q" "p_id p = p_id q" "p_gen p = p_gen q"
      using same by auto
    show "worker_at (r\<lparr>paths := qs\<rparr>) (unat (p_id q)) (Active (p_conn q))"
      using inv(3,4) [OF p(1)] p by simp
    show "p_gen q = gen (r\<lparr>paths := qs\<rparr>) \<or> p_conn q \<in> dead (r\<lparr>paths := qs\<rparr>)"
      using inv(5) [OF p(1)] p by simp
  next
    assume "relay_closed (r\<lparr>paths := qs\<rparr>)"
    then have "ps = []" using inv(7) assms(5) by simp
    then show "paths (r\<lparr>paths := qs\<rparr>) = []" using assms(2) by simp
  next
    fix w c assume "w < length (workers (r\<lparr>paths := qs\<rparr>))" "workers (r\<lparr>paths := qs\<rparr>) ! w = Active c"
    then show "c < next_conn (r\<lparr>paths := qs\<rparr>)" using inv(8) by simp
  qed (use inv(1,2,9-11) assms(2,6) in simp_all)
qed

lemma pickPath_relay: "snd (pickPath quality r) = r \<or> snd (pickPath quality r) = r\<lparr>nextPath := nextPath r + 1\<rparr>"
  by (simp add: pickPath_def Let_def split: option.split)

lemma pickPath_inv: "relay_inv r \<Longrightarrow> relay_inv (snd (pickPath quality r))"
  using pickPath_relay [of quality r] by auto

lemma count_stream_inv:
  assumes "relay_inv r"
  shows "relay_inv (count_stream path r)"
  unfolding count_stream_def
  by (rule relay_inv_paths [OF assms, of _ "paths r"]) (use relay_invD(6) [OF assms] in simp_all)

lemma ListenPacket_inv:
  assumes "relay_inv r"
  shows "relay_inv (snd (ListenPacket quality r dest))"
proof (cases "pickPath quality r")
  case (Pair res r1)
  then have r1: "relay_inv r1" using pickPath_inv [OF assms, of quality] by simp
  show ?thesis
  proof (cases res)
    case (Inl e)
    then show ?thesis using Pair r1 by (simp add: ListenPacket_def)
  next
    case (Inr path)
    let ?r2 = "count_stream path r1"
    have "relay_inv ?r2" by (rule count_stream_inv [OF r1])
    moreover from this have "router_inv (snd (newAssociation (dgramRouter ?r2) (Some (p_conn path)) dest))"
      by (intro newAssociation_inv) (simp add: relay_inv_def)
    ultimately show ?thesis
      using Pair Inr by (simp add: ListenPacket_def Let_def case_prod_beta relay_inv_router)
  qed
qed

lemma watchPath_inv:
  assumes "relay_inv r" "watchPath c r = (again, r')"
  shows "relay_inv r'" "c \<notin> p_conn ` set (paths r')" "workers r' = workers r"
proof -
  let ?ps = "filter (\<lambda>p. p_conn p \<noteq> c) (paths r)"
  have r': "r' = r\<lparr>paths := ?ps, dgramRouter := closeConn (Some c) (dgramRouter r)\<rparr>"
    using assms(2) drop_path_filter [OF relay_invD(6) [OF assms(1)]]
    by (simp add: watchPath_def removePath_def Let_def)
  have "relay_inv (r\<lparr>paths := ?ps\<rparr>)"
    by (rule relay_inv_paths [OF assms(1), of _ ?ps])
      (use relay_invD(6) [OF assms(1)] in \<open>simp_all add: distinct_map_filter\<close>)
  then show "relay_inv r'"
    unfolding r' using relay_inv_router [OF _ closeConn_inv [OF relay_invD(11) [OF assms(1)]]]
    by simp
  show "c \<notin> p_conn ` set (paths r')" "workers r' = workers r" by (auto simp: r')
qed

lemma Start_inv:
  assumes "relay_inv r" "\<forall>x \<in> set (workers r). x = NotStarted"
  shows "relay_inv (Start r)"
proof -
  note inv = relay_invD [OF assms(1)]
  have none: "paths r = []"
    using inv(3,4) assms(2) by (metis list.set_intros(1) neq_Nil_conv nth_mem worker.distinct(11))
  show ?thesis
  proof (cases "has_dial r")
    case True
    then show ?thesis using inv none by (auto simp: Start_def relay_inv_def)
  qed (simp add: Start_def assms(1))
qed

lemma RebindNetwork_inv: "relay_inv r \<Longrightarrow> relay_inv (RebindNetwork g r)"
  by (auto simp: RebindNetwork_def Let_def relay_inv_def)

lemma relay_Close_inv: "relay_inv r \<Longrightarrow> relay_inv (relay_Close r)"
  using router_close_inv by (auto simp: relay_Close_def relay_inv_def)

lemmas relay_inv_intros = pickPath_inv ListenPacket_inv RebindNetwork_inv relay_Close_inv Start_inv

lemma relay_step_inv:
  assumes "relay_step r r'" "relay_inv r"
  shows "relay_inv r'"
  using assms
proof (induction rule: relay_step.induct)
  case (watch r w c again r')
  note w = watchPath_inv [OF watch.prems watch.hyps(3)]
  show ?case
    by (rule relay_inv_set_worker(1) [OF w(1), where old = "Active c"])
      (use watch w backoff_ok_simps(1) in auto)
next
  case (conn_lost r c)
  then show ?case using relay_inv_dead [of r "{c}"] by simp
next
  case (loop_dial r w b)
  then have "backoff_ok b" using relay_invD(9) [OF loop_dial.prems, of "Loop b"] nth_mem by fastforce
  then show ?case using loop_dial by (intro relay_inv_set_worker(1) [where old = "Loop b"]) auto
next
  case (dial_ok r w g b)
  then have "backoff_ok b" using relay_invD(9) [OF dial_ok.prems, of "Dial g b"] nth_mem by fastforce
  then show ?case using dial_ok by (intro relay_inv_dialled(1) [where old = "Dial g b"]) auto
next
  case (dial_failed r w g b)
  then have "backoff_ok b" using relay_invD(9) [OF dial_failed.prems, of "Dial g b"] nth_mem by fastforce
  then show ?case using dial_failed by (intro relay_inv_set_worker(1) [where old = "Dial g b"]) auto
next
  case (wait_over r w g b)
  then have "backoff_ok b" using relay_invD(9) [OF wait_over.prems, of "Waiting g b"] nth_mem by fastforce
  then show ?case
    using wait_over backoff_ok_simps(2) by (intro relay_inv_set_worker(1) [where old = "Waiting g b"]) auto
next
  case (datagram r ser now raw conn)
  then show ?case by (intro relay_inv_router route_inv relay_invD(11))
next
  case (init_ok r w g)
  then show ?case
    using backoff_ok_simps(1) by (intro relay_inv_dialled(2) [where old = "InitDial g"]) auto
qed (auto simp: backoff_ok_simps intro: relay_inv_intros relay_inv_set_worker)

lemma NewQUICRelay_inv: "n \<le> 65536 \<Longrightarrow> relay_inv (NewQUICRelay n dial)"
  by (auto simp: NewQUICRelay_def relay_inv_def Let_def defaultQUICPathCount_def auth_consts router_inv_new)

definition relay_init :: "'d relay \<Rightarrow> bool" where
  "relay_init r \<longleftrightarrow> (\<exists>n dial. n \<le> 65536 \<and> r = NewQUICRelay n dial)"

interpretation pool: invariant_system relay_init relay_step relay_inv
  by unfold_locales (auto simp: relay_init_def NewQUICRelay_inv intro: relay_step_inv)

lemma relay_ids_distinct:
  assumes "relay_inv r"
  shows "distinct (map p_id (paths r))" "length (paths r) \<le> pathCount r"
proof -
  note inv = relay_invD [OF assms]
  have "inj_on p_id (set (paths r))"
  proof (rule inj_onI)
    fix p q assume p: "p \<in> set (paths r)" "q \<in> set (paths r)" "p_id p = p_id q"
    then have "p_conn p = p_conn q" using inv(4) [OF p(1)] inv(4) [OF p(2)] by simp
    then show "p = q" using inv(6) p by (auto simp: distinct_map dest: inj_onD)
  qed
  then show d: "distinct (map p_id (paths r))" using inv(6) by (auto simp: distinct_map)
  have "inj_on (\<lambda>p. unat (p_id p)) (set (paths r))"
    using d by (auto simp: distinct_map inj_on_def word_unat_eq_iff)
  moreover have "(\<lambda>p. unat (p_id p)) ` set (paths r) \<subseteq> {..<pathCount r}" using inv(1,3) by auto
  ultimately have "card (set (paths r)) \<le> card {..<pathCount r}" by (intro card_inj_on_le) auto
  then show "length (paths r) \<le> pathCount r"
    using distinct_card [of "paths r"] inv(6) by (simp add: distinct_map)
qed

section \<open>Choosing a path: correctness and fairness\<close>

lemma pick_order:
  assumes "0 < length xs"
  shows "map (\<lambda>i. xs ! ((s + i) mod length xs)) [0..<length xs] = rotate s xs"
  by (rule nth_equalityI) (simp_all add: nth_rotate)

lemma pickPath_cases:
  assumes "paths r \<noteq> []"
  obtains p where "pickPath quality r = (Inr p, r\<lparr>nextPath := nextPath r + 1\<rparr>)" "p \<in> set (paths r)"
    "\<exists>x \<in> set (paths r). pathIsUsable (quality x) (best_rtt quality (paths r)) \<Longrightarrow>
       pathIsUsable (quality p) (best_rtt quality (paths r))"
proof -
  let ?n = "length (paths r)" and ?s = "unat (nextPath r)" and ?b = "best_rtt quality (paths r)"
  have n: "0 < ?n" using assms by simp
  have order: "map (\<lambda>i. paths r ! ((?s + i) mod ?n)) [0..<?n] = rotate ?s (paths r)"
    by (rule pick_order [OF n])
  show ?thesis
  proof (cases "?n = 1")
    case True
    then obtain x where "paths r = [x]" by (auto simp: length_Suc_conv)
    then show ?thesis by (intro that [of x]) (auto simp: pickPath_def Let_def)
  next
    case False
    show ?thesis
    proof (cases "find (\<lambda>path. pathIsUsable (quality path) ?b) (rotate ?s (paths r))")
      case None
      then have "\<forall>x \<in> set (paths r). \<not> pathIsUsable (quality x) ?b" by (simp add: find_None_iff)
      moreover have "paths r ! (?s mod ?n) \<in> set (paths r)" using n by (intro nth_mem) simp
      ultimately show ?thesis
        using None False assms
        by (intro that [of "paths r ! (?s mod ?n)"]) (auto simp: pickPath_def Let_def order)
    next
      case (Some p)
      then have "p \<in> set (paths r)" "pathIsUsable (quality p) ?b"
        by (auto simp: find_Some_iff) (metis nth_mem set_rotate length_rotate)
      then show ?thesis using Some False assms by (intro that [of p]) (auto simp: pickPath_def Let_def order)
    qed
  qed
qed

text \<open>Several calls in a row.\<close>

fun picks :: "(quicPathConn \<Rightarrow> PathQuality) \<Rightarrow> 'd relay \<Rightarrow> nat \<Rightarrow> (go_error + quicPathConn) list" where
  "picks quality r 0 = []"
| "picks quality r (Suc n) = (case pickPath quality r of (res, r') \<Rightarrow> res # picks quality r' n)"

lemma pickPath_usable:
  assumes "paths r \<noteq> []" "\<forall>p \<in> set (paths r). pathIsUsable (quality p) (best_rtt quality (paths r))"
  shows "pickPath quality r =
    (Inr (paths r ! (unat (nextPath r) mod length (paths r))), r\<lparr>nextPath := nextPath r + 1\<rparr>)"
proof -
  let ?n = "length (paths r)" and ?s = "unat (nextPath r)"
  have n: "0 < ?n" using assms(1) by simp
  obtain m where m: "?n = Suc m" using n by (cases ?n) auto
  have mem: "paths r ! (?s mod ?n) \<in> set (paths r)" using n by (intro nth_mem) simp
  have up: "[0..<?n] = 0 # [1..<?n]" using n by (simp add: upt_conv_Cons)
  show ?thesis
  proof (cases "?n = 1")
    case True
    then show ?thesis using assms(1) by (simp add: pickPath_def Let_def)
  next
    case False
    then show ?thesis using assms mem by (simp add: pickPath_def Let_def up)
  qed
qed

lemma picks_usable:
  assumes "paths r \<noteq> []" "\<forall>p \<in> set (paths r). pathIsUsable (quality p) (best_rtt quality (paths r))"
    "unat (nextPath r) + k < 2 ^ 64"
  shows "picks quality r k = map (\<lambda>i. Inr (paths r ! ((unat (nextPath r) + i) mod length (paths r)))) [0..<k]"
  using assms
proof (induction k arbitrary: r)
  case (Suc k)
  let ?r = "r\<lparr>nextPath := nextPath r + 1\<rparr>"
  have u: "unat (nextPath r + 1) = unat (nextPath r) + 1"
    using Suc.prems(3) by (simp add: unat_word_ariths)
  have "picks quality ?r k = map (\<lambda>i. Inr (paths r ! ((unat (nextPath r) + 1 + i) mod length (paths r)))) [0..<k]"
    using Suc.IH [of ?r] Suc.prems u by simp
  moreover have "[0..<Suc k] = 0 # map Suc [0..<k]" by (simp add: map_Suc_upt upt_conv_Cons)
  ultimately show ?case
    using pickPath_usable [OF Suc.prems(1,2)] by (simp del: upt_Suc)
qed simp

lemma mset_rotate: "mset (rotate n xs) = mset xs"
proof (induction n)
  case (Suc n)
  have "mset (rotate1 ys) = mset ys" for ys :: "'a list" by (cases ys) simp_all
  then show ?case using Suc by simp
qed simp

section \<open>Properties\<close>

text \<open>A run in which the first of four workers has connected, for the witnesses.\<close>

definition demo_relay :: "u16 relay" where
  "demo_relay = init_done (dialled 0 0 (Loop initialBackoff)
     (set_worker 0 (InitDial 0) (Start (NewQUICRelay 4 True))))"

lemma demo_relay_fields:
  "paths demo_relay = [\<lparr>p_id = 0, p_conn = 0, p_gen = 0, streams = 0\<rparr>]" "nextPath demo_relay = 0"
  "pathCount demo_relay = 4" "gen demo_relay = 0" "dead demo_relay = {}"
  by (simp_all add: demo_relay_def init_done_def dialled_def set_worker_def Start_def NewQUICRelay_def
      Let_def addCurrentPath_def ctx_err_def)

lemma demo_relay_reach: "reach relay_init relay_step demo_relay"
proof -
  let ?r0 = "NewQUICRelay 4 True :: u16 relay"
  let ?r2 = "set_worker 0 (InitDial 0) (Start ?r0)"
  have "reach relay_init relay_step ?r0" by (rule reach_init) (simp add: relay_init_def, rule exI [of _ 4], simp, blast)
  then have r1: "reach relay_init relay_step (Start ?r0)"
    by (rule reach_step) (rule relay_step.start, simp add: NewQUICRelay_def)
  have "relay_step (Start ?r0) (set_worker 0 (InitDial (gen (Start ?r0))) (Start ?r0))"
    by (rule relay_step.init_dial) (simp_all add: NewQUICRelay_def Start_def)
  then have r2: "reach relay_init relay_step ?r2"
    using reach_step [OF r1] by (simp add: NewQUICRelay_def Start_def)
  show ?thesis unfolding demo_relay_def
    by (rule reach_step [OF r2], rule relay_step.init_ok)
      (simp add: NewQUICRelay_def Start_def set_worker_def)
qed

text \<open>
  C5. The pool of paths stays sound through every interleaving of dialling, losing, rebinding and
  closing: at most one path per worker and never more than configured, no live path of an earlier
  network generation (such paths are already being closed), none at all once the relay is
  closed, and the count of first attempts still running is exact.
\<close>

theorem relay_pool_sound:
  assumes "reach relay_init relay_step r"
  shows "distinct (map p_id (paths r)) \<and> ActivePaths r \<le> pathCount r \<and>
    (\<forall>p \<in> set (paths r). p_gen p = gen r \<or> p_conn p \<in> dead r) \<and>
    (relay_closed r \<longrightarrow> paths r = []) \<and>
    (initialPathsPending r \<longleftrightarrow> (\<exists>x \<in> set (workers r). in_init x))"
proof -
  have inv: "relay_inv r" by (rule pool.reach_inv [OF assms])
  have "initialPathsPending r \<longleftrightarrow> (\<exists>x \<in> set (workers r). in_init x)"
    using relay_invD(10) [OF inv] by (auto simp: initialPathsPending_def filter_empty_conv)
  then show ?thesis
    using relay_ids_distinct [OF inv] relay_invD(5,7) [OF inv] by (auto simp: ActivePaths_def)
qed

theorem relay_pool_sound_witness: "ActivePaths demo_relay = 1 \<and> ActivePaths demo_relay \<le> pathCount demo_relay"
  using relay_pool_sound [OF demo_relay_reach] by (simp add: ActivePaths_def demo_relay_fields)

text \<open>
  Every back-off of a reconnecting worker is one of 0.5, 1, 2, 4 and 8 seconds, so a worker
  that is neither stopped nor connected tries again within eight seconds of a failure; and a path
  watched by a worker is one the pool admitted under a connection number it gave out.
\<close>

lemma reconnect_backoff_bounded:
  assumes "reach relay_init relay_step r" "worker_at r w (Waiting g b)"
  shows "b \<in> {500 * Millisecond, 1 * Second, 2 * Second, 4 * Second, 8 * Second} \<and>
    relay_step r (set_worker w (Loop (next_backoff b)) r) \<and> next_backoff b \<le> 8 * Second"
proof -
  have "worker_ok (workers r ! w)"
    by (rule relay_invD(9) [OF pool.reach_inv [OF assms(1)]]) (use assms(2) in \<open>auto simp: in_set_conv_nth\<close>)
  then have "backoff_ok b" using assms(2) by simp
  then show ?thesis
    using relay_step.wait_over [OF assms(2)] backoff_ok_simps(2,3) by (auto simp: backoff_ok_def next_backoff_def)
qed

lemma demo_waiting:
  defines "r \<equiv> set_worker 1 (Waiting 0 initialBackoff) (set_worker 1 (Dial 0 initialBackoff)
    (init_done (set_worker 1 (Loop initialBackoff) (set_worker 1 (InitDial 0) demo_relay))))"
  shows "reach relay_init relay_step r" "worker_at r 1 (Waiting 0 initialBackoff)"
proof -
  let ?r1 = "set_worker 1 (InitDial 0) demo_relay"
  let ?r2 = "init_done (set_worker 1 (Loop initialBackoff) ?r1)"
  let ?r3 = "set_worker 1 (Dial 0 initialBackoff) ?r2"
  have f: "workers demo_relay = [Active 0, InitTop, InitTop, InitTop]" "\<not> relay_closed demo_relay"
    "\<not> parent_done demo_relay"
    by (simp_all add: demo_relay_def init_done_def dialled_def set_worker_def Start_def NewQUICRelay_def
        Let_def addCurrentPath_def ctx_err_def eval_nat_numeral)
  have "relay_step demo_relay (set_worker 1 (InitDial (gen demo_relay)) demo_relay)"
    by (rule relay_step.init_dial) (simp_all add: f)
  then have r1: "reach relay_init relay_step ?r1"
    using reach_step [OF demo_relay_reach] by (simp add: demo_relay_fields)
  have r2: "reach relay_init relay_step ?r2"
    by (rule reach_step [OF r1], rule relay_step.init_failed [where g = 0]) (simp add: set_worker_def f)
  have "relay_step ?r2 (set_worker 1 (Dial (gen ?r2) initialBackoff) ?r2)"
    by (rule relay_step.loop_dial) (simp_all add: set_worker_def init_done_def f)
  then have r3: "reach relay_init relay_step ?r3"
    using reach_step [OF r2] by (simp add: set_worker_def init_done_def demo_relay_fields)
  show "reach relay_init relay_step r" unfolding r_def
    by (rule reach_step [OF r3], rule relay_step.dial_failed) (simp add: set_worker_def init_done_def f)
  show "worker_at r 1 (Waiting 0 initialBackoff)" by (simp add: r_def set_worker_def init_done_def f)
qed

lemma reconnect_backoff_bounded_witness: "next_backoff initialBackoff \<le> 8 * Second"
  using reconnect_backoff_bounded [OF demo_waiting] by blast

text \<open>
  A new stream gets a path whenever the pool has one, a usable one whenever there is a usable
  one, and while all paths are usable the choice is fair: as many consecutive calls as there are
  paths return each path exactly once.
\<close>

lemma pickPath_serves_all:
  assumes "unat (nextPath r) + length (paths r) < 2 ^ 64"
  shows "(paths r = [] \<longrightarrow> fst (pickPath quality r) = Inl ErrNoActiveQUICPaths) \<and>
    (paths r \<noteq> [] \<longrightarrow> (\<exists>p \<in> set (paths r). fst (pickPath quality r) = Inr p \<and>
       ((\<exists>x \<in> set (paths r). pathIsUsable (quality x) (best_rtt quality (paths r))) \<longrightarrow>
          pathIsUsable (quality p) (best_rtt quality (paths r))))) \<and>
    ((\<forall>x \<in> set (paths r). pathIsUsable (quality x) (best_rtt quality (paths r))) \<longrightarrow>
       mset (picks quality r (length (paths r))) = mset (map Inr (paths r)))"
proof -
  have "mset (picks quality r (length (paths r))) = mset (map Inr (paths r))"
    if "\<forall>x \<in> set (paths r). pathIsUsable (quality x) (best_rtt quality (paths r))" "paths r \<noteq> []"
  proof -
    have "picks quality r (length (paths r)) = map Inr (rotate (unat (nextPath r)) (paths r))"
      using picks_usable [OF that(2,1) assms] pick_order [of "paths r" "unat (nextPath r)"] that(2)
      by (simp flip: pick_order [of "paths r" "unat (nextPath r)"])
    then show ?thesis by (simp add: mset_rotate)
  qed
  moreover have "fst (pickPath quality r) = Inl ErrNoActiveQUICPaths" if "paths r = []"
    using that by (simp add: pickPath_def)
  moreover have "\<exists>p \<in> set (paths r). fst (pickPath quality r) = Inr p \<and>
       ((\<exists>x \<in> set (paths r). pathIsUsable (quality x) (best_rtt quality (paths r))) \<longrightarrow>
          pathIsUsable (quality p) (best_rtt quality (paths r)))" if "paths r \<noteq> []"
    by (rule pickPath_cases [OF that, of quality]) auto
  ultimately show ?thesis by fastforce
qed

lemma pickPath_serves_all_witness:
  "\<exists>p \<in> set (paths demo_relay). fst (pickPath
      (\<lambda>_. \<lparr>WorkerID = 0, SmoothedRTT = 5, PacketsSent = 0, PacketsLost = 0\<rparr>) demo_relay) = Inr p"
  using pickPath_serves_all [of demo_relay
      "\<lambda>_. \<lparr>WorkerID = 0, SmoothedRTT = 5, PacketsSent = 0, PacketsLost = 0\<rparr>"]
  by (auto simp: demo_relay_fields)

end
