(* ===== verification/Go_Sha256.thy ===== *)
theory Go_Sha256
  imports Prelude
begin

text \<open>
  \<open>crypto/sha256.Sum256\<close> of Go's standard library, which the server uses to store and compare
  passwords: padding, message schedule and the 64 rounds of FIPS 180-4 on 32-bit words.
\<close>

text \<open>
  The standard obtains its constants from the first 64 primes: a round constant is the first 32 bits of
  the fractional part of a cube root, a word of the initial hash the same of a square root. The model
  computes them so, with the integer root taken bit by bit; 35 bits are enough, since all roots are below 8.
\<close>

definition first_primes :: "nat list" where
  "first_primes = filter (\<lambda>n. list_all (\<lambda>d. n mod d \<noteq> 0) [2..<n]) [2..<312]"

definition int_root :: "nat \<Rightarrow> nat \<Rightarrow> nat" where
  "int_root k n = foldl (\<lambda>r b. if (r + 2 ^ b) ^ k \<le> n then r + 2 ^ b else r) 0 (rev [0..<35])"

definition root_fraction :: "nat \<Rightarrow> nat \<Rightarrow> u32" where
  "root_fraction k p = word_of_nat (int_root k (p * 2 ^ (32 * k)))"

definition sha256_K :: "u32 list" where
  "sha256_K = map (root_fraction 3) first_primes"

definition sha256_H0 :: "u32 list" where
  "sha256_H0 = map (root_fraction 2) (take 8 first_primes)"

text \<open>\<open>bits.RotateLeft32(x, -n)\<close> for \<open>0 < n < 32\<close>.\<close>

definition rotr :: "nat \<Rightarrow> u32 \<Rightarrow> u32" where
  "rotr n x = (drop_bit n x) OR (push_bit (32 - n) x)"

definition sha256_pad :: "bytes \<Rightarrow> bytes" where
  "sha256_pad m =
     m @ [0x80] @ replicate ((119 - length m mod 64) mod 64) 0 @ be_bytes 8 (8 * length m)"

text \<open>The schedule, newest word first: \<open>schedule 48\<close> extends the sixteen words of a block to 64.\<close>

fun schedule :: "nat \<Rightarrow> u32 list \<Rightarrow> u32 list" where
  "schedule 0 w = w"
| "schedule (Suc k) w =
     (let v1 = w ! 1; v2 = w ! 14;
          t1 = rotr 17 v1 XOR rotr 19 v1 XOR drop_bit 10 v1;
          t2 = rotr 7 v2 XOR rotr 18 v2 XOR drop_bit 3 v2 in
      schedule k ((t1 + w ! 6 + t2 + w ! 15) # w))"

fun sha256_round :: "u32 list \<Rightarrow> u32 \<times> u32 \<Rightarrow> u32 list" where
  "sha256_round [a, b, c, d, e, f, g, h] (k, w) =
     (let t1 = h + (rotr 6 e XOR rotr 11 e XOR rotr 25 e) + ((e AND f) XOR (NOT e AND g)) + k + w;
          t2 = (rotr 2 a XOR rotr 13 a XOR rotr 22 a) + ((a AND b) XOR (a AND c) XOR (b AND c)) in
      [t1 + t2, a, b, c, d + t1, e, f, g])"
| "sha256_round s _ = s"

fun words32 :: "bytes \<Rightarrow> u32 list" where
  "words32 (a # b # c # d # bs) = Uint32 [a, b, c, d] # words32 bs"
| "words32 _ = []"

definition sha256_block :: "u32 list \<Rightarrow> bytes \<Rightarrow> u32 list" where
  "sha256_block s block =
     map2 (+) s (foldl sha256_round s (zip sha256_K (rev (schedule 48 (rev (words32 block))))))"

fun sha256_blocks :: "nat \<Rightarrow> u32 list \<Rightarrow> bytes \<Rightarrow> u32 list" where
  "sha256_blocks 0 s m = s"
| "sha256_blocks (Suc n) s m = sha256_blocks n (sha256_block s (take 64 m)) (drop 64 m)"

definition Sum256 :: "bytes \<Rightarrow> bytes" where
  "Sum256 m =
     (let p = sha256_pad m in concat (map PutUint32 (sha256_blocks (length p div 64) sha256_H0 p)))"

section \<open>The digest has 32 bytes\<close>

lemma length_first_primes: "8 \<le> length first_primes"
proof -
  have "[2..<20 + 292 :: nat] = [2..<20] @ [20..<20 + 292]" by (rule upt_add_eq_append) simp
  moreover have "length (filter (\<lambda>n. list_all (\<lambda>d. n mod d \<noteq> 0) [2..<n]) [2..<20 :: nat]) = 8" by simp
  moreover have "(20 + 292 :: nat) = 312" by simp
  ultimately show ?thesis by (simp only: first_primes_def filter_append length_append le_add1)
qed

lemma length_sha256_pad: "64 dvd length (sha256_pad m)"
proof -
  have "(r + 1 + (119 - r) mod 64 + 8) mod 64 = 0" if "r < 64" for r :: nat
  proof (cases "r \<le> 55")
    case True
    then have "(119 - r) mod 64 = 55 - r" by (simp add: mod_if)
    then show ?thesis using True by simp
  next
    case False
    then have "(119 - r) mod 64 = 119 - r" by simp
    then show ?thesis using that False by simp
  qed
  then have "(length m mod 64 + (1 + (119 - length m mod 64) mod 64 + 8)) mod 64 = 0"
    by (simp only: add.assoc [symmetric] mod_less_divisor zero_less_numeral)
  then have "(length m + (1 + (119 - length m mod 64) mod 64 + 8)) mod 64 = 0"
    by (simp only: mod_add_left_eq)
  moreover have "length (sha256_pad m) = length m + (1 + (119 - length m mod 64) mod 64 + 8)"
    by (simp only: sha256_pad_def length_append length_replicate length_be_bytes list.size)
  ultimately show ?thesis by (simp only: dvd_eq_mod_eq_0)
qed

lemma length_sha256_round [simp]: "length (sha256_round s kw) = length s"
  by (cases "(s, kw)" rule: sha256_round.cases) (simp_all add: Let_def)

lemma length_sha256_block: "length s = 8 \<Longrightarrow> length (sha256_block s b) = 8"
proof -
  assume "length s = 8"
  moreover have "length (foldl sha256_round s kws) = length s" for kws
    by (rule foldl_invariant) simp_all
  ultimately show ?thesis by (simp add: sha256_block_def)
qed

lemma length_sha256_blocks: "length s = 8 \<Longrightarrow> length (sha256_blocks n s m) = 8"
  by (induction n arbitrary: s m) (simp_all add: length_sha256_block)

lemma length_Sum256 [simp]: "length (Sum256 m) = 32"
proof -
  have "sum_list (map (length \<circ> PutUint32) ws) = 4 * length ws" for ws by (induction ws) simp_all
  moreover have "length (sha256_blocks n sha256_H0 p) = 8" for n p
    by (rule length_sha256_blocks) (simp add: sha256_H0_def length_first_primes)
  ultimately show ?thesis by (simp add: Sum256_def Let_def length_concat del: comp_apply)
qed

end
