(* ===== verification/Server.thy ===== *)
theory Server
  imports Quic_Relay PacketConn Go_Sha256
begin

text \<open>
  The server of the parasite transport (\<open>transport/call/vk-parasite/server.go\<close>): validation of
  its options, authentication of workers, and the table of sessions shared by the connection
  handlers, the reaper and \<open>Close\<close>. A session is an object: the table maps a session id to its
  address in \<open>objects\<close>, so that \<open>s.sessions[id] == session\<close> compares addresses. Every section the
  code runs under \<open>sessionsMu\<close> is one function; \<open>server_step\<close> interleaves them. Deferred relay
  closings (the goroutines of \<open>closeServerSessions\<close> and the calls after the unlock) are the set
  \<open>closing\<close>; the order in which Go iterates over the table is the parameter \<open>order\<close>.
\<close>

section \<open>Options\<close>

definition HardMaxSessions :: int where "HardMaxSessions = 4096"
definition HardMaxUsers :: int where "HardMaxUsers = 4096"
definition HardMaxPendingHandshakes :: int where "HardMaxPendingHandshakes = 4096"
definition defaultMaxWorkers :: int where "defaultMaxWorkers = int DefaultWorkerCount"
definition defaultMaxPendingHandshakes :: int where "defaultMaxPendingHandshakes = 256"
definition defaultHandshakeTimeout :: duration where "defaultHandshakeTimeout = 15 * Second"
definition defaultSessionIdleTimeout :: duration where "defaultSessionIdleTimeout = 5 * Minute"
definition defaultUDPReceiveBufferBytes :: int where "defaultUDPReceiveBufferBytes = 4 * 1024 * 1024"
definition defaultUDPSendBufferBytes :: int where "defaultUDPSendBufferBytes = 4 * 1024 * 1024"

lemmas server_consts = HardMaxSessions_def HardMaxUsers_def HardMaxPendingHandshakes_def
  defaultMaxWorkers_def defaultMaxPendingHandshakes_def defaultHandshakeTimeout_def
  defaultSessionIdleTimeout_def defaultUDPReceiveBufferBytes_def defaultUDPSendBufferBytes_def

record ServerUser =
  su_Name :: gostring
  su_Password :: gostring
  su_MaxSessions :: int

record ServerOptions =
  ObfsPassword :: gostring
  Users :: "ServerUser list"
  MaxSessions :: int
  MaxWorkersPerSession :: int
  MaxPendingHandshakes :: int
  HandshakeTimeout :: duration
  SessionIdleTimeout :: duration
  UDPReceiveBufferBytes :: int
  UDPSendBufferBytes :: int
  has_SessionHandler :: bool

record serverUser =
  passwordHash :: bytes
  maxSessions :: int

text \<open>The loop over \<open>options.Users\<close>; \<open>limit\<close> is the normalized \<open>MaxSessions\<close>.\<close>

fun add_users :: "int \<Rightarrow> ServerUser list \<Rightarrow> (gostring \<rightharpoonup> serverUser) \<Rightarrow> go_error + (gostring \<rightharpoonup> serverUser)" where
  "add_users limit [] us = Inr us"
| "add_users limit (user # rest) us =
     (case validateAuthStrings (su_Name user) (su_Password user) of Some e \<Rightarrow> Inl e
      | None \<Rightarrow>
          if us (su_Name user) \<noteq> None then Inl (New ''call vk_parasite: duplicate user name'')
          else
            let n = (if su_MaxSessions user = 0 then 1 else su_MaxSessions user) in
            if n < 1 \<or> limit < n then Inl (New ''call vk_parasite: user max_sessions outside global bounds'')
            else add_users limit rest
              (us(su_Name user \<mapsto> \<lparr>passwordHash = Sum256 (su_Password user), maxSessions = n\<rparr>)))"

definition validateServerOptions ::
  "ServerOptions \<Rightarrow> go_error + ServerOptions \<times> (gostring \<rightharpoonup> serverUser)" where
  "validateServerOptions options =
     (if \<not> has_SessionHandler options then Inl (New ''call vk_parasite: missing session handler'')
      else if length (ObfsPassword options) = 0 \<or> maximumPasswordLen < length (ObfsPassword options) then
        Inl (New ''call vk_parasite: invalid obfs_password length'')
      else if length (Users options) = 0 \<or> HardMaxUsers < int (length (Users options)) then
        Inl (New ''call vk_parasite: users must contain between 1 and 4096 entries'')
      else
      let options = (if MaxSessions options = 0 then options\<lparr>MaxSessions := int (length (Users options))\<rparr> else options) in
      if MaxSessions options < 1 \<or> HardMaxSessions < MaxSessions options then
        Inl (New ''call vk_parasite: max_sessions outside hard bounds'')
      else
      let options = (if MaxWorkersPerSession options = 0 then options\<lparr>MaxWorkersPerSession := defaultMaxWorkers\<rparr> else options) in
      if MaxWorkersPerSession options < int DefaultWorkerCount \<or> int MaximumWorkerCount < MaxWorkersPerSession options \<or>
         MaxWorkersPerSession options mod int CallCount \<noteq> 0 then
        Inl (New ''call vk_parasite: max_workers_per_session must be 4, 8, 12, 16, or 20'')
      else
      let options = (if MaxPendingHandshakes options = 0 then options\<lparr>MaxPendingHandshakes := defaultMaxPendingHandshakes\<rparr> else options) in
      if MaxPendingHandshakes options < 1 \<or> HardMaxPendingHandshakes < MaxPendingHandshakes options then
        Inl (New ''call vk_parasite: max_pending_handshakes outside hard bounds'')
      else
      let options = (if HandshakeTimeout options = 0 then options\<lparr>HandshakeTimeout := defaultHandshakeTimeout\<rparr> else options) in
      if HandshakeTimeout options < 1 * Second \<or> 1 * Minute < HandshakeTimeout options then
        Inl (New ''call vk_parasite: handshake_timeout must be between 1s and 1m'')
      else
      let options = (if SessionIdleTimeout options = 0 then options\<lparr>SessionIdleTimeout := defaultSessionIdleTimeout\<rparr> else options) in
      if SessionIdleTimeout options < 30 * Second \<or> 24 * Hour < SessionIdleTimeout options then
        Inl (New ''call vk_parasite: session_idle_timeout must be between 30s and 24h'')
      else
      let options = (if UDPReceiveBufferBytes options = 0 then options\<lparr>UDPReceiveBufferBytes := defaultUDPReceiveBufferBytes\<rparr> else options);
          options = (if UDPSendBufferBytes options = 0 then options\<lparr>UDPSendBufferBytes := defaultUDPSendBufferBytes\<rparr> else options) in
      if UDPReceiveBufferBytes options < 256 * 1024 \<or> 64 * 1024 * 1024 < UDPReceiveBufferBytes options \<or>
         UDPSendBufferBytes options < 256 * 1024 \<or> 64 * 1024 * 1024 < UDPSendBufferBytes options then
        Inl (New ''call vk_parasite: UDP socket buffers must be between 256 KiB and 64 MiB'')
      else
        (case add_users (MaxSessions options) (Users options) Map.empty of
           Inl e \<Rightarrow> Inl e
         | Inr us \<Rightarrow> Inr (options, us)))"

section \<open>Sessions and the server\<close>

record 'd serverSession =
  ss_id :: bytes
  ss_user :: gostring
  ss_conv :: u32
  ss_expected :: u16
  ss_relay :: "'d relay"
  ss_ready :: bool
  setupErr :: "go_error option"
  ss_generation :: u64
  createdAt :: time
  pendingAttaches :: int

text \<open>
  Where the handler of a connection stands: waiting for the request (\<open>HAuth\<close>), about to look up
  its session (\<open>HFind\<close>), waiting for another handler to set the session up (\<open>HWait\<close>), running the
  session handler (\<open>HSetup\<close>), holding an attach of the session before and after the connection is
  attached (\<open>HAcked\<close>, \<open>HAttached\<close>), between the two clean-up calls after a failed write
  (\<open>HDrop\<close>), serving (\<open>HServing\<close>), lingering after a refusal with its acknowledgement (\<open>HLinger\<close>) or
  gone. The flag tells whether this handler created the session.
\<close>

datatype handler =
    HAuth
  | HFind authRequest
  | HWait authRequest nat
  | HSetup authRequest nat
  | HAcked authRequest nat bool
  | HAttached authRequest nat bool
  | HDrop authRequest nat bool
  | HServing authRequest nat bool
  | HLinger bytes
  | HClosed

record 'd server =
  options :: ServerOptions
  users :: "gostring \<rightharpoonup> serverUser"
  srv_key :: bytes
  srv_done :: bool
  closed_once :: bool
  packetConn :: bool
  obfsConn :: "serverObfsConn option"
  objects :: "'d serverSession list"
  sessions :: "bytes \<rightharpoonup> nat"
  userSessions :: "gostring \<rightharpoonup> int"
  slots :: nat
  handlers :: "handler list"
  closing :: "nat set"
  reaping :: "nat list"

definition NewServer ::
  "(gostring \<Rightarrow> string \<Rightarrow> string \<Rightarrow> go_error + bytes) \<Rightarrow> go_error option \<Rightarrow> ServerOptions \<Rightarrow> go_error + 'd server" where
  "NewServer hkdf cert opts =
     (case validateServerOptions opts of Inl e \<Rightarrow> Inl e
      | Inr (normalized, us) \<Rightarrow>
          (case deriveWrapKey hkdf (ObfsPassword normalized) of Inl e \<Rightarrow> Inl e
           | Inr key \<Rightarrow>
               (case cert of Some e \<Rightarrow> Inl e
                | None \<Rightarrow> Inr \<lparr>options = normalized, users = us, srv_key = key, srv_done = False,
                    closed_once = False, packetConn = False, obfsConn = None, objects = [],
                    sessions = Map.empty, userSessions = Map.empty, slots = 0, handlers = [],
                    closing = {}, reaping = []\<rparr>)))"

text \<open>\<open>Server.Start\<close>; \<open>given\<close> tells whether a listener was passed, \<open>listen\<close> is the error of \<open>listenQUIC\<close>.\<close>

definition server_Start ::
  "(bytes \<Rightarrow> go_error + aead) \<Rightarrow> codec_seed \<Rightarrow> time \<Rightarrow> bool \<Rightarrow> go_error option \<Rightarrow> 'd server \<Rightarrow> go_error option \<times> 'd server" where
  "server_Start chacha rnd now given listen s =
     (if \<not> given then (Some (New ''call vk_parasite: missing UDP listener''), s)
      else if packetConn s then (Some (New ''call vk_parasite: server already started''), s)
      else case newServerObfsConn chacha (srv_key s) rnd now of Inl e \<Rightarrow> (Some e, s)
           | Inr conn \<Rightarrow>
               (case listen of Some e \<Rightarrow> (Some e, s)
                | None \<Rightarrow> (None, s\<lparr>packetConn := True, obfsConn := Some conn\<rparr>)))"

section \<open>Authentication\<close>

definition authorize :: "'d server \<Rightarrow> gostring \<Rightarrow> gostring \<Rightarrow> bool" where
  "authorize s name password =
     (let expected = (case users s name of None \<Rightarrow> replicate 32 0 | Some rec \<Rightarrow> passwordHash rec);
          actual = Sum256 password;
          matched = (actual = expected) in
      users s name \<noteq> None \<and> matched)"

definition refuseAuth :: "'d server \<Rightarrow> go_error + authRequest \<Rightarrow> byte \<times> bool" where
  "refuseAuth s decoded =
     (case decoded of Inl _ \<Rightarrow> (AuthRejectMalformed, True)
      | Inr request \<Rightarrow>
          if \<not> supportedWorkerCount (WorkerTotal request) then (AuthRejectWorkerCount, True)
          else if MaxWorkersPerSession (options s) < int (unat (WorkerTotal request)) then (AuthRejectWorkerCount, True)
          else if \<not> authorize s (User request) (Password request) then (AuthRejectCredentials, True)
          else (AuthRejectUnspecified, False))"

section \<open>The table of sessions\<close>

text \<open>\<open>s.userSessions[u]\<close> and \<open>s.users[u].maxSessions\<close>: a missing key reads as zero.\<close>

definition user_count :: "'d server \<Rightarrow> gostring \<Rightarrow> int" where
  "user_count s u = (case userSessions s u of None \<Rightarrow> 0 | Some n \<Rightarrow> n)"

definition user_limit :: "'d server \<Rightarrow> gostring \<Rightarrow> int" where
  "user_limit s u = (case users s u of None \<Rightarrow> 0 | Some rec \<Rightarrow> maxSessions rec)"

definition session_count :: "'d server \<Rightarrow> int" where
  "session_count s = int (card (dom (sessions s)))"

fun evict_loop ::
  "'d serverSession list \<Rightarrow> gostring \<Rightarrow> int \<Rightarrow> bytes list \<Rightarrow> (bytes \<rightharpoonup> nat) \<Rightarrow> nat list \<Rightarrow> (bytes \<rightharpoonup> nat) \<times> nat list" where
  "evict_loop objs user needed [] ss evicted = (ss, evicted)"
| "evict_loop objs user needed (sid # sids) ss evicted =
     (case ss sid of None \<Rightarrow> evict_loop objs user needed sids ss evicted
      | Some a \<Rightarrow>
          let session = objs ! a in
          if needed \<le> int (length evicted) \<or> ss_user session \<noteq> user \<or> pendingAttaches session \<noteq> 0 \<or>
             \<not> ss_ready session
          then evict_loop objs user needed sids ss evicted
          else evict_loop objs user needed sids (ss(sid := None)) (evicted @ [a]))"

definition evictSupersededUserSessionsLocked ::
  "bytes list \<Rightarrow> gostring \<Rightarrow> int \<Rightarrow> 'd server \<Rightarrow> nat list \<times> 'd server" where
  "evictSupersededUserSessionsLocked order user limit s =
     (let needed = user_count s user - limit + 1;
          needed = (if needed < 1 then 1 else needed);
          (ss, evicted) = evict_loop (objects s) user needed order (sessions s) [];
          s = s\<lparr>sessions := ss\<rparr> in
      if evicted \<noteq> [] then
        let remaining = user_count s user - int (length evicted) in
        (evicted, if remaining \<le> 0 then s\<lparr>userSessions := (userSessions s)(user := None)\<rparr>
                  else s\<lparr>userSessions := (userSessions s)(user \<mapsto> remaining)\<rparr>)
      else (evicted, s))"

definition closeServerSessions :: "nat list \<Rightarrow> 'd server \<Rightarrow> 'd server" where
  "closeServerSessions stale s = s\<lparr>closing := closing s \<union> set stale\<rparr>"

text \<open>\<open>randomSessionGeneration\<close> on the outcomes of its calls of \<open>rand.Read\<close>; \<open>None\<close> while it still loops.\<close>

fun randomSessionGeneration :: "(go_error + bytes) list \<Rightarrow> (go_error + u64) option" where
  "randomSessionGeneration [] = None"
| "randomSessionGeneration (Inl e # rs) = Some (Inl e)"
| "randomSessionGeneration (Inr buffer # rs) =
     (let generation = Uint64 buffer :: u64 in
      if generation \<noteq> 0 then Some (Inr generation) else randomSessionGeneration rs)"

text \<open>
  \<open>getOrCreateSession\<close> in its three locked sections. \<open>openSession\<close> runs up to the first unlock: it
  finds a session to wait for, or makes room and inserts a new one, or refuses.
\<close>

datatype lookup = Refused go_error | Existing nat | Created nat

definition openSession ::
  "bytes list \<Rightarrow> go_error + u64 \<Rightarrow> time \<Rightarrow> authRequest \<Rightarrow> 'd server \<Rightarrow> lookup \<times> 'd server" where
  "openSession order rnd now request s =
     (case sessions s (SessionID request) of
        Some a \<Rightarrow>
          let session = objects s ! a in
          if ss_user session \<noteq> User request \<or> ss_conv session \<noteq> Conv request \<or>
             ss_expected session \<noteq> WorkerTotal request
          then (Refused (New ''call vk_parasite: session identity mismatch''), s)
          else (Existing a, s)
      | None \<Rightarrow>
          let user = User request; limit = user_limit s user;
              (evicted, s) =
                (if MaxSessions (options s) \<le> session_count s \<or> limit \<le> user_count s user
                 then evictSupersededUserSessionsLocked order user limit s else ([], s)) in
          if MaxSessions (options s) \<le> session_count s then
            (Refused (New ''call vk_parasite: global session limit reached''), closeServerSessions evicted s)
          else if limit \<le> user_count s user then
            (Refused (New ''call vk_parasite: user session limit reached''), closeServerSessions evicted s)
          else
            (case rnd of Inl e \<Rightarrow> (Refused e, closeServerSessions evicted s)
             | Inr generation \<Rightarrow>
                 let a = length (objects s);
                     session = \<lparr>ss_id = SessionID request, ss_user = user, ss_conv = Conv request,
                       ss_expected = WorkerTotal request,
                       ss_relay = NewQUICRelay (int (unat (WorkerTotal request))) False, ss_ready = False,
                       setupErr = None, ss_generation = generation, createdAt = now, pendingAttaches = 0\<rparr>;
                     s = s\<lparr>objects := objects s @ [session],
                           sessions := (sessions s)(SessionID request \<mapsto> a),
                           userSessions := (userSessions s)(user \<mapsto> user_count s user + 1)\<rparr> in
                 (Created a, closeServerSessions evicted s)))"

definition map_session :: "nat \<Rightarrow> ('d serverSession \<Rightarrow> 'd serverSession) \<Rightarrow> 'd server \<Rightarrow> 'd server" where
  "map_session a f s = s\<lparr>objects := (objects s)[a := f (objects s ! a)]\<rparr>"

text \<open>The second section, once the session of another handler is ready.\<close>

definition joinSession :: "authRequest \<Rightarrow> nat \<Rightarrow> 'd server \<Rightarrow> go_error option \<times> 'd server" where
  "joinSession request a s =
     (if sessions s (SessionID request) \<noteq> Some a then (Some (New ''call vk_parasite: session was replaced''), s)
      else case setupErr (objects s ! a) of Some e \<Rightarrow> (Some e, s)
           | None \<Rightarrow> (None, map_session a (\<lambda>x. x\<lparr>pendingAttaches := pendingAttaches x + 1\<rparr>) s))"

text \<open>The decrement of a user's counter that several sections share.\<close>

definition drop_user :: "gostring \<Rightarrow> 'd server \<Rightarrow> 'd server" where
  "drop_user u s =
     (if user_count s u \<le> 1 then s\<lparr>userSessions := (userSessions s)(u := None)\<rparr>
      else s\<lparr>userSessions := (userSessions s)(u \<mapsto> user_count s u - 1)\<rparr>)"

text \<open>The third section, after the session handler returned \<open>err\<close>.\<close>

definition finishSession :: "authRequest \<Rightarrow> nat \<Rightarrow> go_error option \<Rightarrow> 'd server \<Rightarrow> go_error option \<times> 'd server" where
  "finishSession request a err s =
     (let s = map_session a (\<lambda>x. x\<lparr>setupErr := err, ss_ready := True\<rparr>) s;
          s = (if err \<noteq> None \<and> sessions s (SessionID request) = Some a then
                 drop_user (User request) (s\<lparr>sessions := (sessions s)(SessionID request := None)\<rparr>)
               else if sessions s (SessionID request) = Some a then
                 map_session a (\<lambda>x. x\<lparr>pendingAttaches := pendingAttaches x + 1\<rparr>) s
               else s) in
      case err of Some e \<Rightarrow> (Some e, closeServerSessions [a] s) | None \<Rightarrow> (None, s))"

definition releaseSessionAttach :: "nat \<Rightarrow> 'd server \<Rightarrow> 'd server" where
  "releaseSessionAttach a s =
     (if 0 < pendingAttaches (objects s ! a)
      then map_session a (\<lambda>x. x\<lparr>pendingAttaches := pendingAttaches x - 1\<rparr>) s else s)"

definition deleteSessionIfUnattached :: "bytes \<Rightarrow> nat \<Rightarrow> 'd server \<Rightarrow> 'd server" where
  "deleteSessionIfUnattached sid expected s =
     (case sessions s sid of None \<Rightarrow> s
      | Some a \<Rightarrow>
          let session = objects s ! a in
          if a \<noteq> expected \<or> pendingAttaches session \<noteq> 0 \<or> ActivePaths (ss_relay session) \<noteq> 0 then s
          else closeServerSessions [a] (drop_user (ss_user session) (s\<lparr>sessions := (sessions s)(sid := None)\<rparr>)))"

text \<open>The code's \<open>deleteIdleSession\<close> does not look at its cut-off argument.\<close>

definition deleteIdleSession :: "bytes \<Rightarrow> nat \<Rightarrow> time \<Rightarrow> 'd server \<Rightarrow> 'd server" where
  "deleteIdleSession sid expected idleCutoff s =
     (case sessions s sid of None \<Rightarrow> s
      | Some a \<Rightarrow>
          let session = objects s ! a in
          if a \<noteq> expected \<or> pendingAttaches session \<noteq> 0 \<or> ActivePaths (ss_relay session) \<noteq> 0 then s
          else closeServerSessions [a] (drop_user (ss_user session) (s\<lparr>sessions := (sessions s)(sid := None)\<rparr>)))"

text \<open>One tick of \<open>reapLoop\<close>: the stale sessions are collected under the lock and deleted one by one afterwards.\<close>

definition reap_collect :: "time \<Rightarrow> bytes list \<Rightarrow> 'd server \<Rightarrow> 'd server" where
  "reap_collect now order s =
     (let idleCutoff = now - SessionIdleTimeout (options s);
          stale = filter (\<lambda>a. let session = objects s ! a in
                    pendingAttaches session = 0 \<and> ActivePaths (ss_relay session) = 0 \<and> createdAt session < idleCutoff)
                  (map (\<lambda>sid. the (sessions s sid)) order) in
      s\<lparr>reaping := stale\<rparr>)"

definition reap_codecs :: "time \<Rightarrow> 'd server \<Rightarrow> 'd server" where
  "reap_codecs now s = s\<lparr>obfsConn := map_option (reapCodecs now (SessionIdleTimeout (options s))) (obfsConn s)\<rparr>"

definition server_Close :: "'d server \<Rightarrow> 'd server" where
  "server_Close s =
     (if closed_once s then s
      else s\<lparr>closed_once := True, srv_done := True, sessions := Map.empty, userSessions := Map.empty,
             closing := closing s \<union> ran (sessions s)\<rparr>)"

section \<open>Connection handlers\<close>

definition go_on :: "nat \<Rightarrow> handler \<Rightarrow> 'd server \<Rightarrow> 'd server" where
  "go_on i h s = s\<lparr>handlers := (handlers s)[i := h]\<rparr>"

definition releasePending :: "'d server \<Rightarrow> 'd server" where
  "releasePending s = s\<lparr>slots := slots s - 1\<rparr>"

text \<open>\<open>handleQUICConn\<close> up to the handshake slot: a connection beyond the capacity is closed at once.\<close>

definition admitConn :: "'d server \<Rightarrow> 'd server" where
  "admitConn s =
     (if int (slots s) < MaxPendingHandshakes (options s)
      then s\<lparr>slots := slots s + 1, handlers := handlers s @ [HAuth]\<rparr>
      else s\<lparr>handlers := handlers s @ [HClosed]\<rparr>)"

text \<open>\<open>refuseConnection\<close>: the acknowledgement is written and the slot freed before the linger.\<close>

definition refuseConnection :: "nat \<Rightarrow> bytes \<Rightarrow> 'd server \<Rightarrow> 'd server" where
  "refuseConnection i ack s = releasePending (go_on i (HLinger ack) s)"

definition authenticateConn :: "nat \<Rightarrow> bytes \<Rightarrow> 'd server \<Rightarrow> 'd server" where
  "authenticateConn i stream s =
     (let decoded = map_sum (\<lambda>e. e) fst (readAuthRequest stream) in
      case refuseAuth s decoded of
        (reason, True) \<Rightarrow> refuseConnection i (encodeAuthAck False 0 reason) s
      | (reason, False) \<Rightarrow>
          (case decoded of Inl e \<Rightarrow> s | Inr request \<Rightarrow> go_on i (HFind request) s))"

definition findSession :: "nat \<Rightarrow> authRequest \<Rightarrow> lookup \<times> 'd server \<Rightarrow> 'd server" where
  "findSession i request res =
     (case res of
        (Refused e, s) \<Rightarrow> refuseConnection i (encodeAuthAck False 0 AuthRejectSession) s
      | (Existing a, s) \<Rightarrow> go_on i (HWait request a) s
      | (Created a, s) \<Rightarrow> go_on i (HSetup request a) s)"

definition gotSession :: "nat \<Rightarrow> authRequest \<Rightarrow> nat \<Rightarrow> bool \<Rightarrow> go_error option \<times> 'd server \<Rightarrow> 'd server" where
  "gotSession i request a own res =
     (case res of
        (Some e, s) \<Rightarrow> refuseConnection i (encodeAuthAck False 0 AuthRejectSession) s
      | (None, s) \<Rightarrow> go_on i (HAcked request a own) s)"

text \<open>Clean-up of the handler that created the session, once its connection is gone.\<close>

definition dropSession :: "nat \<Rightarrow> authRequest \<Rightarrow> nat \<Rightarrow> bool \<Rightarrow> 'd server \<Rightarrow> 'd server" where
  "dropSession i request a own s =
     go_on i HClosed (if own then deleteSessionIfUnattached (SessionID request) a s else s)"

text \<open>What the relay of a session does by itself: it has no dialler, so its paths only come from the server.\<close>

inductive served_step :: "'d relay \<Rightarrow> 'd relay \<Rightarrow> bool" where
  served_lost: "served_step r (r\<lparr>dead := insert c (dead r)\<rparr>)"
| served_watch: "c \<in> dead r \<Longrightarrow> served_step r (snd (watchPath c r))"
| served_pick: "served_step r (snd (pickPath quality r))"
| served_listen: "served_step r (snd (ListenPacket quality r dest))"
| served_datagram: "served_step r (r\<lparr>dgramRouter := routeReceivedDatagram ser (dgramRouter r) now raw conn\<rparr>)"

abbreviation handler_at :: "'d server \<Rightarrow> nat \<Rightarrow> handler \<Rightarrow> bool" where
  "handler_at s i h \<equiv> i < length (handlers s) \<and> handlers s ! i = h"

abbreviation iteration :: "bytes list \<Rightarrow> 'd server \<Rightarrow> bool" where
  "iteration order s \<equiv> distinct order \<and> set order = dom (sessions s)"

inductive server_step :: "'d server \<Rightarrow> 'd server \<Rightarrow> bool" where
  accept: "server_step s (admitConn s)"
| no_stream: "handler_at s i HAuth \<Longrightarrow> server_step s (releasePending (go_on i HClosed s))"
| auth: "handler_at s i HAuth \<Longrightarrow> server_step s (authenticateConn i stream s)"
| find_session: "handler_at s i (HFind request) \<Longrightarrow> iteration order s \<Longrightarrow>
    server_step s (findSession i request (openSession order rnd now request s))"
| join: "handler_at s i (HWait request a) \<Longrightarrow> ss_ready (objects s ! a) \<Longrightarrow>
    server_step s (gotSession i request a False (joinSession request a s))"
| wait_cancelled: "handler_at s i (HWait request a) \<Longrightarrow> srv_done s \<Longrightarrow>
    server_step s (refuseConnection i (encodeAuthAck False 0 AuthRejectSession) s)"
| setup_done: "handler_at s i (HSetup request a) \<Longrightarrow>
    server_step s (gotSession i request a True (finishSession request a err s))"
| ack_failed: "handler_at s i (HAcked request a own) \<Longrightarrow>
    server_step s (go_on i (HDrop request a own) (releaseSessionAttach a s))"
| ack_dropped: "handler_at s i (HDrop request a own) \<Longrightarrow>
    server_step s (releasePending (dropSession i request a own s))"
| attach: "handler_at s i (HAcked request a own) \<Longrightarrow>
    server_step s (go_on i (HAttached request a own)
      (map_session a (\<lambda>x. x\<lparr>ss_relay := snd (AttachServerConn (ss_relay x))\<rparr>) s))"
| attached: "handler_at s i (HAttached request a own) \<Longrightarrow>
    server_step s (releasePending (go_on i (HServing request a own) (releaseSessionAttach a s)))"
| serve_end: "handler_at s i (HServing request a own) \<Longrightarrow> server_step s (dropSession i request a own s)"
| linger_end: "handler_at s i (HLinger ack) \<Longrightarrow> server_step s (go_on i HClosed s)"
| reap: "reaping s = [] \<Longrightarrow> iteration order s \<Longrightarrow> server_step s (reap_collect now order s)"
| reap_one: "reaping s = a # rest \<Longrightarrow>
    server_step s (deleteIdleSession (ss_id (objects s ! a)) a idleCutoff (s\<lparr>reaping := rest\<rparr>))"
| reap_idle_codecs: "server_step s (reap_codecs now s)"
| relay_event: "a < length (objects s) \<Longrightarrow> served_step (ss_relay (objects s ! a)) r \<Longrightarrow>
    server_step s (map_session a (\<lambda>x. x\<lparr>ss_relay := r\<rparr>) s)"
| close_relay: "a \<in> closing s \<Longrightarrow>
    server_step s (map_session a (\<lambda>x. x\<lparr>ss_relay := relay_Close (ss_relay x)\<rparr>) (s\<lparr>closing := closing s - {a}\<rparr>))"
| start_listener: "server_step s (snd (server_Start chacha rnd' now given listen s))"
| cancel: "server_step s (s\<lparr>srv_done := True\<rparr>)"
| shut: "server_step s (server_Close s)"

inductive_cases server_stepE: "server_step s s'"

section \<open>The accounting of sessions\<close>

text \<open>
  The sessions of a user, and what the two tables promise: every entry points to the object with
  that id, and the counter of a user is the number of its sessions, with no entry at zero.
\<close>

definition owned :: "'d serverSession list \<Rightarrow> (bytes \<rightharpoonup> nat) \<Rightarrow> gostring \<Rightarrow> bytes set" where
  "owned objs ss u = {sid. \<exists>a. ss sid = Some a \<and> ss_user (objs ! a) = u}"

definition table_ok :: "'d server \<Rightarrow> bool" where
  "table_ok s \<longleftrightarrow>
     finite (dom (sessions s)) \<and>
     (\<forall>sid a. sessions s sid = Some a \<longrightarrow> a < length (objects s) \<and> ss_id (objects s ! a) = sid) \<and>
     (\<forall>u. user_count s u = int (card (owned (objects s) (sessions s) u))) \<and>
     (\<forall>u n. userSessions s u = Some n \<longrightarrow> 0 < n)"

definition limits_ok :: "'d server \<Rightarrow> bool" where
  "limits_ok s \<longleftrightarrow> session_count s \<le> max 0 (MaxSessions (options s)) \<and>
     (\<forall>u. user_count s u \<le> max 0 (user_limit s u))"

lemma table_okD:
  assumes "table_ok s"
  shows "finite (dom (sessions s))"
    "sessions s sid = Some a \<Longrightarrow> a < length (objects s)"
    "sessions s sid = Some a \<Longrightarrow> ss_id (objects s ! a) = sid"
    "user_count s u = int (card (owned (objects s) (sessions s) u))"
    "userSessions s u = Some n \<Longrightarrow> 0 < n"
  using assms unfolding table_ok_def by blast+

lemma owned_dom: "owned objs ss u \<subseteq> dom ss"
  by (auto simp: owned_def)

text \<open>Operations that change neither table nor the owner of an object.\<close>

lemma table_frame:
  assumes "table_ok s" "sessions s' = sessions s" "userSessions s' = userSessions s"
    and "length (objects s') = length (objects s)"
    and "\<And>a. ss_id (objects s' ! a) = ss_id (objects s ! a)" "\<And>a. ss_user (objects s' ! a) = ss_user (objects s ! a)"
  shows "table_ok s'"
  using assms unfolding table_ok_def user_count_def owned_def by simp

lemma limits_frame:
  assumes "limits_ok s" "sessions s' = sessions s" "userSessions s' = userSessions s"
    and "options s' = options s" "users s' = users s"
  shows "limits_ok s'"
  using assms unfolding limits_ok_def user_count_def user_limit_def session_count_def by simp

text \<open>Removing one entry together with its count.\<close>

lemma user_count_drop:
  assumes "table_ok s"
  shows "user_count (drop_user u s) v = (if v = u then max 0 (user_count s u - 1) else user_count s v)"
  using table_okD(4) [OF assms, of u] by (auto simp: drop_user_def user_count_def split: option.splits)

lemma owned_remove:
  "owned objs (ss(sid := None)) u = owned objs ss u - {sid}"
  by (auto simp: owned_def)

lemma table_remove:
  assumes ok: "table_ok s" and entry: "sessions s sid = Some a" and u: "ss_user (objects s ! a) = u"
  defines "s' \<equiv> drop_user u (s\<lparr>sessions := (sessions s)(sid := None)\<rparr>)"
  shows "table_ok s'" "limits_ok s \<Longrightarrow> limits_ok s'"
proof -
  let ?m = "(sessions s)(sid := None)"
  have f: "sessions s' = ?m" "objects s' = objects s" "options s' = options s" "users s' = users s"
    by (simp_all add: s'_def drop_user_def)
  have mem: "sid \<in> owned (objects s) (sessions s) v \<longleftrightarrow> v = u" for v
    using entry u by (auto simp: owned_def)
  have fin: "finite (owned (objects s) (sessions s) v)" for v
    using finite_subset [OF owned_dom table_okD(1) [OF ok]] .
  have pos: "0 < card (owned (objects s) (sessions s) u)"
    using mem fin by (auto simp: card_gt_0_iff)
  have count: "user_count s' v = (if v = u then user_count s u - 1 else user_count s v)" for v
    using table_okD(4) [OF ok, of u] pos
    by (auto simp: s'_def drop_user_def user_count_def split: option.splits)
  then have "user_count s' v = int (card (owned (objects s) ?m v))" for v
    using table_okD(4) [OF ok, of v] mem fin pos by (auto simp: owned_remove card_Diff_singleton_if of_nat_diff)
  moreover have "0 < n" if "userSessions s' v = Some n" for v n
    using that table_okD(5) [OF ok, of v] by (auto simp: s'_def drop_user_def user_count_def split: if_splits)
  ultimately show "table_ok s'"
    using table_okD(1,2,3) [OF ok] unfolding table_ok_def f by auto
  show "limits_ok s'" if "limits_ok s"
  proof -
    have "session_count s' \<le> session_count s"
      using table_okD(1) [OF ok] by (simp add: session_count_def f card_mono)
    moreover have "user_limit s' = user_limit s" by (simp add: fun_eq_iff user_limit_def f)
    moreover have "user_count s' v \<le> user_count s v" for v by (simp add: count)
    ultimately show ?thesis using that unfolding limits_ok_def f by (metis order_trans)
  qed
qed

text \<open>Inserting a new session below both limits.\<close>

lemma table_insert:
  assumes ok: "table_ok s" and new: "sessions s (ss_id x) = None"
  defines "s' \<equiv> s\<lparr>objects := objects s @ [x], sessions := (sessions s)(ss_id x \<mapsto> length (objects s)),
    userSessions := (userSessions s)(ss_user x \<mapsto> user_count s (ss_user x) + 1)\<rparr>"
  shows "table_ok s'"
    "limits_ok s \<Longrightarrow> session_count s < MaxSessions (options s) \<Longrightarrow> user_count s (ss_user x) < user_limit s (ss_user x) \<Longrightarrow> limits_ok s'"
proof -
  let ?m = "(sessions s)(ss_id x \<mapsto> length (objects s))"
  have f: "sessions s' = ?m" "objects s' = objects s @ [x]" "options s' = options s" "users s' = users s"
    by (simp_all add: s'_def)
  have own: "owned (objects s @ [x]) ?m v =
      (if v = ss_user x then insert (ss_id x) (owned (objects s) (sessions s) v) else owned (objects s) (sessions s) v)" for v
    using new by (auto simp: owned_def nth_append dest: table_okD(2) [OF ok] split: if_splits)
  have fin: "finite (owned (objects s) (sessions s) v)" for v
    using finite_subset [OF owned_dom table_okD(1) [OF ok]] .
  have fresh: "ss_id x \<notin> owned (objects s) (sessions s) v" for v using new by (simp add: owned_def)
  have count: "user_count s' v = (if v = ss_user x then user_count s v + 1 else user_count s v)" for v
    by (auto simp: s'_def user_count_def)
  have "user_count s' v = int (card (owned (objects s @ [x]) ?m v))" for v
    using table_okD(4) [OF ok, of v] fin fresh by (auto simp: count own)
  moreover have "0 < n" if "userSessions s' v = Some n" for v n
    using that table_okD(4) [OF ok, of v] table_okD(5) [OF ok, of v] by (auto simp: s'_def split: if_splits)
  ultimately show "table_ok s'"
    using table_okD(1,2,3) [OF ok] unfolding table_ok_def f by (auto simp: nth_append less_Suc_eq)
  show "limits_ok s'" if "limits_ok s" "session_count s < MaxSessions (options s)"
    "user_count s (ss_user x) < user_limit s (ss_user x)"
  proof -
    have "session_count s' = session_count s + 1"
      using table_okD(1) [OF ok] new by (simp add: session_count_def f card_insert_if domIff)
    moreover have "user_limit s' = user_limit s" by (simp add: fun_eq_iff user_limit_def f)
    ultimately show ?thesis using that unfolding limits_ok_def f by (auto simp: count)
  qed
qed

text \<open>What the eviction loop removes: some ready sessions of the user that nobody is attaching to.\<close>

definition evictable :: "'d serverSession list \<Rightarrow> gostring \<Rightarrow> nat \<Rightarrow> bool" where
  "evictable objs u a \<longleftrightarrow> ss_user (objs ! a) = u \<and> pendingAttaches (objs ! a) = 0 \<and> ss_ready (objs ! a)"

lemma evict_loop_removes:
  assumes "distinct order" "set order \<subseteq> dom ss" "evict_loop objs u needed order ss ev = (ss', ev')"
  shows "\<exists>sids. distinct sids \<and> set sids \<subseteq> set order \<and> ss' = ss |` (- set sids) \<and> ev' = ev @ map (\<lambda>sid. the (ss sid)) sids \<and>
    (\<forall>sid \<in> set sids. evictable objs u (the (ss sid))) \<and> int (length ev') \<le> max needed (int (length ev)) \<and>
    (int (length ev') < needed \<longrightarrow> (\<forall>sid \<in> set order - set sids. \<not> evictable objs u (the (ss sid))))"
  using assms
proof (induction order arbitrary: ss ev)
  case Nil
  then show ?case by (auto intro: exI [of _ "[]"])
next
  case (Cons sid order)
  obtain a where a: "ss sid = Some a" using Cons.prems(2) by auto
  show ?case
  proof (cases "needed \<le> int (length ev) \<or> \<not> evictable objs u a")
    case True
    then have "evict_loop objs u needed order ss ev = (ss', ev')"
      using Cons.prems(3) a by (auto simp: evictable_def Let_def split: if_splits)
    from Cons.IH [OF _ _ this] Cons.prems(1,2) obtain sids where *: "distinct sids" "set sids \<subseteq> set order"
      "ss' = ss |` (- set sids)" "ev' = ev @ map (\<lambda>sid. the (ss sid)) sids"
      "\<forall>sid \<in> set sids. evictable objs u (the (ss sid))" "int (length ev') \<le> max needed (int (length ev))"
      "int (length ev') < needed \<longrightarrow> (\<forall>sid \<in> set order - set sids. \<not> evictable objs u (the (ss sid)))"
      by auto
    have "\<not> evictable objs u a" if "int (length ev') < needed" using True that *(4) by auto
    then show ?thesis using * a by (intro exI [of _ sids]) auto
  next
    case False
    let ?ss = "ss(sid := None)"
    have run: "evict_loop objs u needed order ?ss (ev @ [a]) = (ss', ev')"
      using Cons.prems(3) a False by (auto simp: evictable_def Let_def split: if_splits)
    have "set order \<subseteq> dom ?ss" using Cons.prems(1,2) by auto
    from Cons.IH [OF _ this run] Cons.prems(1)
    obtain sids where *: "distinct sids" "set sids \<subseteq> set order"
      "ss' = ?ss |` (- set sids)" "ev' = (ev @ [a]) @ map (\<lambda>sid. the (?ss sid)) sids"
      "\<forall>sid \<in> set sids. evictable objs u (the (?ss sid))" "int (length ev') \<le> max needed (int (length (ev @ [a])))"
      "int (length ev') < needed \<longrightarrow> (\<forall>sid \<in> set order - set sids. \<not> evictable objs u (the (?ss sid)))"
      unfolding distinct.simps by blast
    have same: "?ss x = ss x" if "x \<in> set order" for x using that Cons.prems(1) by auto
    have "ss' = ss |` (- set (sid # sids))" using *(3) by (auto simp: restrict_map_def fun_eq_iff)
    moreover have "ev' = ev @ map (\<lambda>sid. the (ss sid)) (sid # sids)"
      using *(2,4) a same by (auto simp: subset_iff)
    moreover have "\<forall>x \<in> set (sid # sids). evictable objs u (the (ss x))"
      using *(2,5) a same False by (auto simp: subset_iff)
    moreover have "int (length ev') < needed \<longrightarrow> (\<forall>x \<in> set (sid # order) - set (sid # sids). \<not> evictable objs u (the (ss x)))"
      using *(7) same by auto
    ultimately show ?thesis using *(1,2,6) Cons.prems(1) False by (intro exI [of _ "sid # sids"]) auto
  qed
qed

lemma owned_restrict: "owned objs (ss |` (- I)) u = owned objs ss u - I"
  by (auto simp: owned_def restrict_map_def split: if_splits)

lemma evict_effect:
  assumes ok: "table_ok s" and order: "iteration order s"
    and run: "evictSupersededUserSessionsLocked order u limit s = (ev, s')"
  obtains sids where "distinct sids" "set sids \<subseteq> owned (objects s) (sessions s) u"
    "sessions s' = sessions s |` (- set sids)" "ev = map (\<lambda>sid. the (sessions s sid)) sids"
    "\<forall>sid \<in> set sids. evictable (objects s) u (the (sessions s sid))"
    "s' = s\<lparr>sessions := sessions s', userSessions := userSessions s'\<rparr>"
    "\<forall>v. user_count s' v = user_count s v - (if v = u then int (length sids) else 0)"
    "\<forall>v n. userSessions s' v = Some n \<longrightarrow> 0 < n"
    "int (length sids) \<le> max 1 (user_count s u - limit + 1)"
    "sids = [] \<longrightarrow> (\<forall>sid \<in> dom (sessions s). \<not> evictable (objects s) u (the (sessions s sid)))"
proof -
  let ?needed = "max 1 (user_count s u - limit + 1)"
  obtain ss ev1 where loop: "evict_loop (objects s) u ?needed order (sessions s) [] = (ss, ev1)" by fastforce
  have run': "(ev, s') = (if ev1 \<noteq> [] then (ev1, if user_count s u - int (length ev1) \<le> 0
        then s\<lparr>sessions := ss, userSessions := (userSessions s)(u := None)\<rparr>
        else s\<lparr>sessions := ss, userSessions := (userSessions s)(u \<mapsto> user_count s u - int (length ev1))\<rparr>)
      else (ev1, s\<lparr>sessions := ss\<rparr>))"
    using run loop by (auto simp: evictSupersededUserSessionsLocked_def Let_def max_def user_count_def split: if_splits)
  have d: "distinct order" "set order \<subseteq> dom (sessions s)" using order by simp_all
  from evict_loop_removes [OF d loop] obtain sids where *: "distinct sids" "set sids \<subseteq> set order"
    "ss = sessions s |` (- set sids)" "ev1 = [] @ map (\<lambda>sid. the (sessions s sid)) sids"
    "\<forall>sid \<in> set sids. evictable (objects s) u (the (sessions s sid))" "int (length ev1) \<le> max ?needed (int (length ([] :: nat list)))"
    "int (length ev1) < ?needed \<longrightarrow> (\<forall>sid \<in> set order - set sids. \<not> evictable (objects s) u (the (sessions s sid)))"
    by (elim exE conjE) (rule that)
  have sub: "set sids \<subseteq> owned (objects s) (sessions s) u"
    using *(2,5) order by (fastforce simp: owned_def evictable_def)
  have "finite (owned (objects s) (sessions s) u)" by (rule finite_subset [OF owned_dom table_okD(1) [OF ok]])
  then have "int (length sids) \<le> user_count s u"
    using card_mono [OF _ sub] distinct_card [OF *(1)] table_okD(4) [OF ok, of u] by simp
  then have count: "user_count s' v = user_count s v - (if v = u then int (length sids) else 0)" for v
    using run' *(4) by (auto simp: user_count_def split: if_splits option.splits)
  have pos: "0 < n" if "userSessions s' v = Some n" for v n
    using that run' table_okD(5) [OF ok, of v n] by (auto split: if_splits)
  have "s' = s\<lparr>sessions := sessions s', userSessions := userSessions s'\<rparr>" "sessions s' = ss" "ev = ev1"
    using run' by (auto split: if_splits)
  then show thesis
    using that [of sids] * sub count pos order by simp
qed

lemma table_evict:
  assumes ok: "table_ok s" and order: "iteration order s"
    and run: "evictSupersededUserSessionsLocked order u limit s = (ev, s')"
  shows "table_ok s'" "limits_ok s \<Longrightarrow> limits_ok s'"
proof -
  from ok order run obtain sids where *: "distinct sids" "set sids \<subseteq> owned (objects s) (sessions s) u"
    "sessions s' = sessions s |` (- set sids)"
    "s' = s\<lparr>sessions := sessions s', userSessions := userSessions s'\<rparr>"
    "\<forall>v. user_count s' v = user_count s v - (if v = u then int (length sids) else 0)"
    "\<forall>v n. userSessions s' v = Some n \<longrightarrow> 0 < n"
    by (rule evict_effect)
  have f: "objects s' = objects s" "options s' = options s" "users s' = users s"
    using arg_cong [OF *(4), of objects] arg_cong [OF *(4), of options] arg_cong [OF *(4), of users] by simp_all
  have fin: "finite (owned (objects s) (sessions s) v)" for v
    using finite_subset [OF owned_dom table_okD(1) [OF ok]] .
  have disj: "owned (objects s) (sessions s) v - set sids = owned (objects s) (sessions s) v" if "v \<noteq> u" for v
    using *(2) that by (auto simp: owned_def)
  have "card (owned (objects s) (sessions s) u - set sids) = card (owned (objects s) (sessions s) u) - length sids"
    using *(1,2) fin by (simp add: card_Diff_subset distinct_card)
  moreover have "length sids \<le> card (owned (objects s) (sessions s) u)"
    using card_mono [OF fin *(2)] *(1) by (simp add: distinct_card)
  ultimately have "user_count s' v = int (card (owned (objects s) (sessions s) v - set sids))" for v
    using *(5) table_okD(4) [OF ok, of v] disj [of v] by (cases "v = u") (simp_all add: of_nat_diff)
  moreover have "finite (dom (sessions s'))" using *(3) table_okD(1) [OF ok] by simp
  moreover have "a < length (objects s) \<and> ss_id (objects s ! a) = sid" if "sessions s' sid = Some a" for sid a
    using that table_okD(2,3) [OF ok] by (auto simp: *(3) restrict_map_def split: if_splits)
  ultimately show "table_ok s'" using *(6) unfolding table_ok_def f by (simp add: *(3) owned_restrict)
  have "session_count s' \<le> session_count s"
    using table_okD(1) [OF ok] by (simp add: session_count_def *(3) card_mono)
  moreover have "user_limit s' = user_limit s" by (simp add: fun_eq_iff user_limit_def f)
  moreover have "user_count s' v \<le> user_count s v" for v using *(5) by simp
  ultimately show "limits_ok s'" if "limits_ok s" using that unfolding limits_ok_def f by (metis order_trans)
qed

lemma make_room:
  assumes ok: "table_ok s" and order: "iteration order s"
    and run: "(if full then evictSupersededUserSessionsLocked order u limit s else ([], s)) = (ev, s1)"
  shows "table_ok s1" "limits_ok s \<Longrightarrow> limits_ok s1" "objects s1 = objects s" "sessions s1 \<subseteq>\<^sub>m sessions s"
    "user_limit s1 = user_limit s"
proof -
  consider "s1 = s" | "evictSupersededUserSessionsLocked order u limit s = (ev, s1)"
    using run by (cases full) simp_all
  then have "table_ok s1 \<and> (limits_ok s \<longrightarrow> limits_ok s1) \<and> objects s1 = objects s \<and> sessions s1 \<subseteq>\<^sub>m sessions s \<and>
    users s1 = users s"
  proof cases
    case 1
    then show ?thesis using ok by simp
  next
    case 2
    from evict_effect [OF ok order 2] obtain sids where *: "sessions s1 = sessions s |` (- set sids)"
      "s1 = s\<lparr>sessions := sessions s1, userSessions := userSessions s1\<rparr>" by metis
    have "objects s1 = objects s" "users s1 = users s"
      using arg_cong [OF *(2), of objects] arg_cong [OF *(2), of users] by simp_all
    moreover have "sessions s1 \<subseteq>\<^sub>m sessions s" using *(1) by (auto simp: map_le_def restrict_map_def)
    ultimately show ?thesis using table_evict [OF ok order 2] by simp
  qed
  then show "table_ok s1" "limits_ok s \<Longrightarrow> limits_ok s1" "objects s1 = objects s" "sessions s1 \<subseteq>\<^sub>m sessions s"
    "user_limit s1 = user_limit s" by (simp_all add: user_limit_def fun_eq_iff)
qed

text \<open>The first section of \<open>getOrCreateSession\<close>: its outcome and what it leaves of the state.\<close>

definition new_session :: "go_error + u64 \<Rightarrow> time \<Rightarrow> authRequest \<Rightarrow> 'd serverSession \<Rightarrow> bool" where
  "new_session rnd now request x \<longleftrightarrow> ss_id x = SessionID request \<and> ss_user x = User request \<and> ss_conv x = Conv request \<and>
     ss_expected x = WorkerTotal request \<and> \<not> ss_ready x \<and> pendingAttaches x = 0 \<and> setupErr x = None \<and>
     rnd = Inr (ss_generation x) \<and> createdAt x = now"

lemma openSession_cases:
  assumes ok: "table_ok s" and order: "iteration order s" and run: "openSession order rnd now request s = (res, s')"
  obtains
    (refused) e where "res = Refused e" "objects s' = objects s" "sessions s' \<subseteq>\<^sub>m sessions s"
      "table_ok s'" "limits_ok s \<Longrightarrow> limits_ok s'"
  | (existing) a where "res = Existing a" "s' = s" "sessions s (SessionID request) = Some a"
      "ss_user (objects s ! a) = User request"
  | (created) x where "res = Created (length (objects s))" "objects s' = objects s @ [x]" "new_session rnd now request x"
      "sessions s (SessionID request) = None"
      "sessions s' (SessionID request) = Some (length (objects s))"
      "\<forall>sid. sid \<noteq> SessionID request \<longrightarrow> sessions s' sid \<in> {None, sessions s sid}"
      "table_ok s'" "limits_ok s \<Longrightarrow> limits_ok s'"
proof (cases "sessions s (SessionID request)")
  case (Some a)
  show thesis
  proof (cases "ss_user (objects s ! a) \<noteq> User request \<or> ss_conv (objects s ! a) \<noteq> Conv request \<or>
      ss_expected (objects s ! a) \<noteq> WorkerTotal request")
    case True
    then have "res = Refused (New ''call vk_parasite: session identity mismatch'')" "s' = s"
      using run Some by (simp_all add: openSession_def Let_def)
    then show thesis using refused ok by simp
  next
    case False
    then have "res = Existing a" "s' = s" using run Some by (simp_all add: openSession_def Let_def)
    then show thesis using existing Some False by simp
  qed
next
  case None
  let ?u = "User request" and ?limit = "user_limit s (User request)"
  obtain ev s1 where ev: "(if MaxSessions (options s) \<le> session_count s \<or> ?limit \<le> user_count s ?u
      then evictSupersededUserSessionsLocked order ?u ?limit s else ([], s)) = (ev, s1)" by fastforce
  note s1 = make_room [OF ok order ev]
  let ?x = "\<lparr>ss_id = SessionID request, ss_user = ?u, ss_conv = Conv request, ss_expected = WorkerTotal request,
    ss_relay = NewQUICRelay (int (unat (WorkerTotal request))) False, ss_ready = False, setupErr = None,
    ss_generation = projr rnd, createdAt = now, pendingAttaches = 0\<rparr>"
  have close: "table_ok (closeServerSessions ev t) = table_ok t" "limits_ok (closeServerSessions ev t) = limits_ok t"
    "objects (closeServerSessions ev t) = objects t" "sessions (closeServerSessions ev t) = sessions t" for t
    by (simp_all add: closeServerSessions_def table_ok_def limits_ok_def user_count_def user_limit_def session_count_def)
  show thesis
  proof (cases "MaxSessions (options s1) \<le> session_count s1 \<or> ?limit \<le> user_count s1 ?u \<or> (\<exists>e. rnd = Inl e)")
    case True
    then obtain e where "(res, s') = (Refused e, closeServerSessions ev s1)"
      using run None ev by (auto simp: openSession_def Let_def split: if_splits)
    then show thesis using refused [of e] s1 by (simp add: close)
  next
    case False
    let ?s = "s1\<lparr>objects := objects s1 @ [?x], sessions := (sessions s1)(SessionID request \<mapsto> length (objects s1)),
      userSessions := (userSessions s1)(?u \<mapsto> user_count s1 ?u + 1)\<rparr>"
    have r: "res = Created (length (objects s1))" "s' = closeServerSessions ev ?s"
      using run None ev False by (cases rnd; force simp: openSession_def Let_def split: if_splits)+
    have old: "sessions s1 sid \<in> {None, sessions s sid}" for sid
      using s1(4) by (cases "sessions s1 sid") (auto simp: map_le_def dom_def)
    have new: "sessions s1 (ss_id ?x) = None" using None old [of "SessionID request"] by simp
    show thesis
    proof (rule created [of ?x])
      show "table_ok s'" using table_insert(1) [OF s1(1) new] by (simp add: r close)
      show "limits_ok s'" if "limits_ok s"
        using table_insert(2) [OF s1(1) new s1(2) [OF that]] False s1(5) by (simp add: r close)
      show "new_session rnd now request ?x" using False by (cases rnd) (simp_all add: new_session_def)
    qed (use None old in \<open>simp_all add: r close s1(3)\<close>)
  qed
qed

section \<open>The invariant of the handlers\<close>

fun holds :: "handler \<Rightarrow> bool" where
  "holds (HServing _ _ _) \<longleftrightarrow> False"
| "holds (HLinger _) \<longleftrightarrow> False"
| "holds HClosed \<longleftrightarrow> False"
| "holds _ \<longleftrightarrow> True"

fun attaching :: "nat \<Rightarrow> handler \<Rightarrow> bool" where
  "attaching a (HAcked _ b _) \<longleftrightarrow> b = a"
| "attaching a (HAttached _ b _) \<longleftrightarrow> b = a"
| "attaching a _ \<longleftrightarrow> False"

fun setting :: "nat \<Rightarrow> handler \<Rightarrow> bool" where
  "setting a (HSetup _ b) \<longleftrightarrow> b = a"
| "setting a _ \<longleftrightarrow> False"

fun handler_ok :: "'d serverSession list \<Rightarrow> handler \<Rightarrow> bool" where
  "handler_ok objs (HSetup request a) \<longleftrightarrow>
     a < length objs \<and> ss_id (objs ! a) = SessionID request \<and> ss_user (objs ! a) = User request"
| "handler_ok objs (HWait _ a) \<longleftrightarrow> a < length objs"
| "handler_ok objs (HAcked _ a _) \<longleftrightarrow> a < length objs"
| "handler_ok objs (HAttached _ a _) \<longleftrightarrow> a < length objs"
| "handler_ok objs _ \<longleftrightarrow> True"

abbreviation tally :: "('a \<Rightarrow> bool) \<Rightarrow> 'a list \<Rightarrow> nat" where
  "tally P xs \<equiv> length (filter P xs)"

text \<open>
  Handshake slots are counted exactly; a session that is not ready is being set up by exactly one
  handler; a listed session counts exactly the handlers between acknowledgement and attachment,
  and a listed session that is ready was set up without an error.
\<close>

definition handlers_ok :: "'d server \<Rightarrow> bool" where
  "handlers_ok s \<longleftrightarrow>
     slots s = tally holds (handlers s) \<and> int (slots s) \<le> max 0 (MaxPendingHandshakes (options s)) \<and>
     (\<forall>h \<in> set (handlers s). handler_ok (objects s) h) \<and>
     (\<forall>a < length (objects s). tally (setting a) (handlers s) = of_bool (\<not> ss_ready (objects s ! a))) \<and>
     (\<forall>sid a. sessions s sid = Some a \<longrightarrow>
        pendingAttaches (objects s ! a) = int (tally (attaching a) (handlers s)) \<and>
        (ss_ready (objects s ! a) \<longrightarrow> setupErr (objects s ! a) = None))"

lemma handlers_okD:
  assumes "handlers_ok s"
  shows "slots s = tally holds (handlers s)" "int (slots s) \<le> max 0 (MaxPendingHandshakes (options s))"
    "h \<in> set (handlers s) \<Longrightarrow> handler_ok (objects s) h"
    "a < length (objects s) \<Longrightarrow> tally (setting a) (handlers s) = of_bool (\<not> ss_ready (objects s ! a))"
    "sessions s sid = Some a \<Longrightarrow> pendingAttaches (objects s ! a) = int (tally (attaching a) (handlers s))"
    "sessions s sid = Some a \<Longrightarrow> ss_ready (objects s ! a) \<Longrightarrow> setupErr (objects s ! a) = None"
  using assms unfolding handlers_ok_def by blast+

lemma tally_update:
  "i < length xs \<Longrightarrow> tally P (xs[i := x]) + of_bool (P (xs ! i)) = tally P xs + of_bool (P x)"
proof (induction xs arbitrary: i)
  case (Cons y xs)
  then show ?case by (cases i) auto
qed simp

lemma handler_ok_mono:
  assumes "handler_ok objs h" "length objs \<le> length objs'"
    "\<And>a. a < length objs \<Longrightarrow> ss_id (objs' ! a) = ss_id (objs ! a) \<and> ss_user (objs' ! a) = ss_user (objs ! a)"
  shows "handler_ok objs' h"
  using assms by (cases h) auto

text \<open>One handler moves on; the hypotheses say what has to be checked of the move.\<close>

lemma handlers_move:
  assumes ok: "handlers_ok s" and at: "handler_at s i h" and hs: "handlers s' = (handlers s)[i := h']"
    and opt: "options s' = options s"
    and slots: "slots s' + of_bool (holds h) = slots s + of_bool (holds h')" "holds h' \<longrightarrow> holds h"
    and objs: "length (objects s) \<le> length (objects s')"
      "\<And>a. a < length (objects s) \<Longrightarrow> ss_id (objects s' ! a) = ss_id (objects s ! a) \<and> ss_user (objects s' ! a) = ss_user (objects s ! a)"
    and ok': "handler_ok (objects s') h'"
    and setups: "\<And>a. a < length (objects s') \<Longrightarrow>
      tally (setting a) (handlers s) + of_bool (setting a h') = of_bool (\<not> ss_ready (objects s' ! a)) + of_bool (setting a h)"
    and table: "\<And>sid a. sessions s' sid = Some a \<Longrightarrow>
      pendingAttaches (objects s' ! a) + of_bool (attaching a h) = int (tally (attaching a) (handlers s)) + of_bool (attaching a h') \<and>
      (ss_ready (objects s' ! a) \<longrightarrow> setupErr (objects s' ! a) = None)"
  shows "handlers_ok s'"
proof -
  have len: "i < length (handlers s)" and h: "handlers s ! i = h" using at by simp_all
  note upd = tally_update [OF len, of _ h', unfolded h, folded hs]
  have "slots s' = tally holds (handlers s')" using upd [of holds] slots handlers_okD(1) [OF ok] by linarith
  moreover have "int (slots s') \<le> max 0 (MaxPendingHandshakes (options s'))"
    using slots handlers_okD(2) [OF ok] opt by (auto simp: of_bool_def split: if_splits)
  moreover have "handler_ok (objects s') x" if "x \<in> set (handlers s')" for x
  proof -
    have "x = h' \<or> x \<in> set (handlers s)" using that set_update_subset_insert unfolding hs by fastforce
    then show ?thesis using ok' handler_ok_mono [OF handlers_okD(3) [OF ok] objs] by blast
  qed
  moreover have "tally (setting a) (handlers s') = of_bool (\<not> ss_ready (objects s' ! a))" if "a < length (objects s')" for a
    using upd [of "setting a"] setups [OF that] by linarith
  moreover have "pendingAttaches (objects s' ! a) = int (tally (attaching a) (handlers s')) \<and>
      (ss_ready (objects s' ! a) \<longrightarrow> setupErr (objects s' ! a) = None)" if "sessions s' sid = Some a" for sid a
    using upd [of "attaching a"] table [OF that] by (auto simp: of_bool_def split: if_splits)
  ultimately show ?thesis unfolding handlers_ok_def by blast
qed

text \<open>Moves that leave the sessions as they are, or only shorten the table.\<close>

lemma handlers_shift:
  assumes ok: "handlers_ok s" and at: "handler_at s i h" and hs: "handlers s' = (handlers s)[i := h']"
    and opt: "options s' = options s" and objs: "objects s' = objects s" and table: "sessions s' \<subseteq>\<^sub>m sessions s"
    and slots: "slots s' + of_bool (holds h) = slots s + of_bool (holds h')" "holds h' \<longrightarrow> holds h"
    and ok': "handler_ok (objects s) h'"
    and kinds: "\<And>a. setting a h' = setting a h" "\<And>a. attaching a h' = attaching a h"
  shows "handlers_ok s'"
proof (rule handlers_move [OF ok at hs opt slots])
  show "handler_ok (objects s') h'" using ok' objs by simp
  show "tally (setting a) (handlers s) + of_bool (setting a h') = of_bool (\<not> ss_ready (objects s' ! a)) + of_bool (setting a h)"
    if "a < length (objects s')" for a using that handlers_okD(4) [OF ok] by (simp add: objs kinds)
  fix sid a assume "sessions s' sid = Some a"
  then have "sessions s sid = Some a" using table by (metis domI map_le_def)
  from handlers_okD(5,6) [OF ok this]
  show "pendingAttaches (objects s' ! a) + of_bool (attaching a h) = int (tally (attaching a) (handlers s)) + of_bool (attaching a h') \<and>
      (ss_ready (objects s' ! a) \<longrightarrow> setupErr (objects s' ! a) = None)" by (simp add: objs kinds)
qed (simp_all add: objs)

text \<open>Steps that move no handler.\<close>

lemma handlers_frame:
  assumes ok: "handlers_ok s" and same: "handlers s' = handlers s" "slots s' = slots s" "options s' = options s"
    and table: "sessions s' \<subseteq>\<^sub>m sessions s" and objs: "length (objects s') = length (objects s)"
      "\<And>a. ss_id (objects s' ! a) = ss_id (objects s ! a)" "\<And>a. ss_user (objects s' ! a) = ss_user (objects s ! a)"
      "\<And>a. ss_ready (objects s' ! a) = ss_ready (objects s ! a)" "\<And>a. setupErr (objects s' ! a) = setupErr (objects s ! a)"
      "\<And>a. pendingAttaches (objects s' ! a) = pendingAttaches (objects s ! a)"
  shows "handlers_ok s'"
proof -
  have sub: "sessions s sid = Some a" if "sessions s' sid = Some a" for sid a
    using that table by (metis domI map_le_def)
  have "handler_ok (objects s') h" if "h \<in> set (handlers s)" for h
    by (rule handler_ok_mono [OF handlers_okD(3) [OF ok that]]) (simp_all add: objs)
  then show ?thesis
    using ok sub unfolding handlers_ok_def same objs by blast
qed

section \<open>Every step keeps the invariant\<close>

lemma server_simps [simp]:
  "handlers (go_on i h s) = (handlers s)[i := h]" "objects (go_on i h s) = objects s"
  "sessions (go_on i h s) = sessions s" "userSessions (go_on i h s) = userSessions s"
  "slots (go_on i h s) = slots s" "options (go_on i h s) = options s" "users (go_on i h s) = users s"
  "srv_done (go_on i h s) = srv_done s"
  "handlers (releasePending s) = handlers s" "objects (releasePending s) = objects s"
  "sessions (releasePending s) = sessions s" "userSessions (releasePending s) = userSessions s"
  "slots (releasePending s) = slots s - 1" "options (releasePending s) = options s" "users (releasePending s) = users s"
  "srv_done (releasePending s) = srv_done s"
  "handlers (map_session a f s) = handlers s" "objects (map_session a f s) = (objects s)[a := f (objects s ! a)]"
  "sessions (map_session a f s) = sessions s" "userSessions (map_session a f s) = userSessions s"
  "slots (map_session a f s) = slots s" "options (map_session a f s) = options s" "users (map_session a f s) = users s"
  "srv_done (map_session a f s) = srv_done s"
  "handlers (closeServerSessions ev s) = handlers s" "objects (closeServerSessions ev s) = objects s"
  "sessions (closeServerSessions ev s) = sessions s" "userSessions (closeServerSessions ev s) = userSessions s"
  "slots (closeServerSessions ev s) = slots s" "options (closeServerSessions ev s) = options s"
  "users (closeServerSessions ev s) = users s" "srv_done (closeServerSessions ev s) = srv_done s"
  "handlers (drop_user u s) = handlers s" "objects (drop_user u s) = objects s" "sessions (drop_user u s) = sessions s"
  "slots (drop_user u s) = slots s" "options (drop_user u s) = options s" "users (drop_user u s) = users s"
  "srv_done (drop_user u s) = srv_done s"
  by (simp_all add: go_on_def releasePending_def map_session_def closeServerSessions_def drop_user_def)

lemma evict_simps [simp]:
  "handlers (snd (evictSupersededUserSessionsLocked order u n s)) = handlers s"
  "slots (snd (evictSupersededUserSessionsLocked order u n s)) = slots s"
  "options (snd (evictSupersededUserSessionsLocked order u n s)) = options s"
  "users (snd (evictSupersededUserSessionsLocked order u n s)) = users s"
  "srv_done (snd (evictSupersededUserSessionsLocked order u n s)) = srv_done s"
  by (simp_all add: evictSupersededUserSessionsLocked_def Let_def split: prod.splits)

lemma openSession_frame:
  assumes "openSession order rnd now request s = (res, s')"
  shows "handlers s' = handlers s" "slots s' = slots s" "options s' = options s" "users s' = users s" "srv_done s' = srv_done s"
proof -
  obtain ev s1 where ev: "evictSupersededUserSessionsLocked order (User request) (user_limit s (User request)) s = (ev, s1)"
    by fastforce
  have s1: "handlers s1 = handlers s" "slots s1 = slots s" "options s1 = options s" "users s1 = users s" "srv_done s1 = srv_done s"
    using evict_simps [of order "User request" "user_limit s (User request)" s] by (simp_all add: ev)
  show "handlers s' = handlers s" "slots s' = slots s" "options s' = options s" "users s' = users s" "srv_done s' = srv_done s"
    using assms s1 by (auto simp: openSession_def ev Let_def split: option.splits if_splits sum.splits)
qed

lemma nth_map_session:
  "P (f (objects s ! a)) = P (objects s ! a) \<Longrightarrow> P (objects (map_session a f s) ! b) = P (objects s ! b)"
  by (simp add: nth_update_same)

definition server_inv :: "'d server \<Rightarrow> bool" where
  "server_inv s \<longleftrightarrow> table_ok s \<and> limits_ok s \<and> handlers_ok s"

lemma server_invD: "server_inv s \<Longrightarrow> table_ok s" "server_inv s \<Longrightarrow> limits_ok s" "server_inv s \<Longrightarrow> handlers_ok s"
  by (simp_all add: server_inv_def)

text \<open>The tables and limits see only the tables, the owners and the options.\<close>

lemma tables_frame:
  assumes "table_ok s" "limits_ok s" "sessions s' = sessions s" "userSessions s' = userSessions s"
    "options s' = options s" "users s' = users s"
    "length (objects s') = length (objects s)"
    "\<And>a. ss_id (objects s' ! a) = ss_id (objects s ! a)" "\<And>a. ss_user (objects s' ! a) = ss_user (objects s ! a)"
  shows "table_ok s'" "limits_ok s'"
  using table_frame [OF assms(1,3,4,7,8,9)] limits_frame [OF assms(2,3,4,5,6)] by simp_all

lemma admitConn_inv: "server_inv s \<Longrightarrow> server_inv (admitConn s)"
proof -
  assume inv: "server_inv s"
  note h = server_invD(3) [OF inv]
  have "handlers_ok (admitConn s)"
    using h unfolding admitConn_def handlers_ok_def by (auto split: if_splits)
  moreover have "table_ok (admitConn s)" "limits_ok (admitConn s)"
    by (rule tables_frame [OF server_invD(1,2) [OF inv]]; simp add: admitConn_def)+
  ultimately show ?thesis by (simp add: server_inv_def)
qed

text \<open>A handler that moves without touching sessions.\<close>

lemma go_on_inv:
  assumes inv: "server_inv s" and at: "handler_at s i h" and s': "s' \<in> {go_on i h' s, releasePending (go_on i h' s)}"
    and slots: "slots s' + of_bool (holds h) = slots s + of_bool (holds h')" "holds h' \<longrightarrow> holds h"
    and ok': "handler_ok (objects s) h'" and kinds: "\<And>a. setting a h' = setting a h" "\<And>a. attaching a h' = attaching a h"
  shows "server_inv s'"
proof -
  have "handlers_ok s'"
    by (rule handlers_shift [OF server_invD(3) [OF inv] at _ _ _ _ slots ok' kinds]) (use s' in auto)
  moreover have "table_ok s'" "limits_ok s'"
    by (rule tables_frame [OF server_invD(1,2) [OF inv]]; use s' in auto)+
  ultimately show ?thesis by (simp add: server_inv_def)
qed

lemma tally_pos: "i < length xs \<Longrightarrow> P (xs ! i) \<Longrightarrow> 0 < tally P xs"
  using nth_mem [of i xs] by (auto simp: filter_empty_conv)

lemma held_slot: "handlers_ok s \<Longrightarrow> handler_at s i h \<Longrightarrow> holds h \<Longrightarrow> 0 < slots s"
  using handlers_okD(1) [of s] tally_pos [of i "handlers s" holds] by simp

lemma refuse_inv:
  assumes "server_inv s" "handler_at s i h" "holds h" "\<And>a. \<not> setting a h" "\<And>a. \<not> attaching a h"
  shows "server_inv (refuseConnection i ack s)"
  unfolding refuseConnection_def
  by (rule go_on_inv [OF assms(1,2)]) (use assms(3-5) held_slot [OF server_invD(3) [OF assms(1)] assms(2,3)] in auto)

lemma authenticateConn_inv:
  assumes "server_inv s" "handler_at s i HAuth"
  shows "server_inv (authenticateConn i stream s)"
proof -
  have "server_inv (go_on i (HFind request) s)" for request
    by (rule go_on_inv [OF assms]) auto
  then show ?thesis
    using refuse_inv [OF assms] assms(1)
    by (auto simp: authenticateConn_def Let_def split: prod.splits bool.splits sum.splits)
qed

lemma findSession_inv:
  assumes inv: "server_inv s" and at: "handler_at s i (HFind request)" and order: "iteration order s"
  shows "server_inv (findSession i request (openSession order rnd now request s))"
proof -
  obtain res s' where run: "openSession order rnd now request s = (res, s')" by fastforce
  note fr = openSession_frame [OF run]
  note h = server_invD(3) [OF inv]
  have at': "handler_at s' i (HFind request)" using at fr(1) by simp
  from server_invD(1) [OF inv] order run show ?thesis
  proof (cases rule: openSession_cases)
    case (refused e)
    have "handlers_ok s'" by (rule handlers_frame [OF h fr(1,2,3) refused(3)]) (simp_all add: refused(2))
    then have "server_inv s'" using refused server_invD(2) [OF inv] by (simp add: server_inv_def)
    then show ?thesis using refuse_inv [OF _ at'] by (simp add: run findSession_def refused(1))
  next
    case (existing a)
    have "a < length (objects s)" by (rule table_okD(2) [OF server_invD(1) [OF inv] existing(3)])
    then have "server_inv (go_on i (HWait request a) s)" by (intro go_on_inv [OF inv at]) auto
    then show ?thesis by (simp add: run findSession_def existing(1,2))
  next
    case (created x)
    let ?n = "length (objects s)"
    have free: "tally (setting ?n) (handlers s) = 0" "tally (attaching ?n) (handlers s) = 0"
      using handlers_okD(3) [OF h] by (fastforce simp: filter_empty_conv elim!: setting.elims attaching.elims)+
    have "handlers_ok (go_on i (HSetup request ?n) s')"
    proof (rule handlers_move [OF h at])
      show "tally (setting a) (handlers s) + of_bool (setting a (HSetup request ?n)) =
          of_bool (\<not> ss_ready (objects (go_on i (HSetup request ?n) s') ! a)) + of_bool (setting a (HFind request))"
        if "a < length (objects (go_on i (HSetup request ?n) s'))" for a
        using that free handlers_okD(4) [OF h, of a] created(3)
        by (cases "a = ?n") (auto simp: created(2) nth_append new_session_def less_Suc_eq)
    next
      fix sid a assume a: "sessions (go_on i (HSetup request ?n) s') sid = Some a"
      show "pendingAttaches (objects (go_on i (HSetup request ?n) s') ! a) + of_bool (attaching a (HFind request)) =
          int (tally (attaching a) (handlers s)) + of_bool (attaching a (HSetup request ?n)) \<and>
        (ss_ready (objects (go_on i (HSetup request ?n) s') ! a) \<longrightarrow> setupErr (objects (go_on i (HSetup request ?n) s') ! a) = None)"
      proof (cases "sid = SessionID request")
        case True
        with a created(5) have "a = ?n" by simp
        then show ?thesis using free created(3) by (simp add: created(2) nth_append new_session_def)
      next
        case False
        with a created(6) have "sessions s sid = Some a" by (metis empty_iff insert_iff option.distinct(1) server_simps(3))
        then show ?thesis
          using handlers_okD(5,6) [OF h, of sid a] table_okD(2) [OF server_invD(1) [OF inv], of sid a]
          by (simp add: created(2) nth_append)
      qed
    qed (use created(3) fr in \<open>simp_all add: created(2) nth_append new_session_def\<close>)
    moreover have "table_ok (go_on i (HSetup request ?n) s')" "limits_ok (go_on i (HSetup request ?n) s')"
      by (rule tables_frame [OF created(7) created(8) [OF server_invD(2) [OF inv]]]; simp)+
    ultimately show ?thesis by (simp add: run findSession_def created(1) server_inv_def)
  qed
qed

lemma joinSession_inv:
  assumes inv: "server_inv s" and at: "handler_at s i (HWait request a)"
  shows "server_inv (gotSession i request a False (joinSession request a s))"
proof (cases "sessions s (SessionID request) = Some a \<and> setupErr (objects s ! a) = None")
  case False
  then have "\<exists>e. joinSession request a s = (Some e, s)"
    by (auto simp: joinSession_def split: option.splits)
  then obtain e where "joinSession request a s = (Some e, s)" ..
  then show ?thesis using refuse_inv [OF inv at] by (simp add: gotSession_def)
next
  case True
  note h = server_invD(3) [OF inv]
  let ?f = "\<lambda>x. x\<lparr>pendingAttaches := pendingAttaches x + 1\<rparr>"
  let ?s = "go_on i (HAcked request a False) (map_session a ?f s)"
  have a: "a < length (objects s)" by (rule table_okD(2) [OF server_invD(1) [OF inv]]) (use True in blast)
  have "handlers_ok ?s"
  proof (rule handlers_move [OF h at])
    fix sid b assume "sessions ?s sid = Some b"
    then have "sessions s sid = Some b" by simp
    then show "pendingAttaches (objects ?s ! b) + of_bool (attaching b (HWait request a)) =
        int (tally (attaching b) (handlers s)) + of_bool (attaching b (HAcked request a False)) \<and>
      (ss_ready (objects ?s ! b) \<longrightarrow> setupErr (objects ?s ! b) = None)"
      using handlers_okD(5,6) [OF h, of sid b] a by (auto simp: nth_list_update)
  qed (use a handlers_okD(4) [OF h] in \<open>auto simp: nth_list_update\<close>)
  moreover have "table_ok ?s" "limits_ok ?s"
    by (rule tables_frame [OF server_invD(1,2) [OF inv]]; simp add: nth_update_same)+
  ultimately show ?thesis using True by (simp add: joinSession_def gotSession_def server_inv_def)
qed

lemma attach_inv:
  assumes inv: "server_inv s" and at: "handler_at s i (HAcked request a own)"
  shows "server_inv (go_on i (HAttached request a own) (map_session a (\<lambda>x. x\<lparr>ss_relay := g x\<rparr>) s))" (is "server_inv ?s")
proof -
  note h = server_invD(3) [OF inv]
  have keep: "P (objects ?s ! b) = P (objects s ! b)" if "\<And>x. P (x\<lparr>ss_relay := g x\<rparr>) = P x" for P b
    using that by (simp add: nth_update_same)
  have a: "a < length (objects s)" using handlers_okD(3) [OF h, of "HAcked request a own"] at by (metis handler_ok.simps(3) nth_mem)
  have "handlers_ok ?s"
  proof (rule handlers_move [OF h at])
    fix sid b assume "sessions ?s sid = Some b"
    then have "sessions s sid = Some b" by simp
    from handlers_okD(5,6) [OF h this]
    show "pendingAttaches (objects ?s ! b) + of_bool (attaching b (HAcked request a own)) =
        int (tally (attaching b) (handlers s)) + of_bool (attaching b (HAttached request a own)) \<and>
      (ss_ready (objects ?s ! b) \<longrightarrow> setupErr (objects ?s ! b) = None)"
      using keep [of pendingAttaches b] keep [of ss_ready b] keep [of setupErr b] by simp
  qed (use a handlers_okD(4) [OF h] in \<open>auto simp: nth_list_update\<close>)
  moreover have "table_ok ?s" "limits_ok ?s"
    by (rule tables_frame [OF server_invD(1,2) [OF inv]]; simp add: nth_update_same)+
  ultimately show ?thesis by (simp add: server_inv_def)
qed

lemma release_inv:
  fixes s :: "'d server"
  assumes inv: "server_inv s" and at: "handler_at s i h" and a: "attaching a h" "\<And>b. attaching b h \<Longrightarrow> b = a" "\<And>b. \<not> setting b h"
    and h': "\<And>b. \<not> attaching b h'" "\<And>b. \<not> setting b h'" "\<And>objs :: 'd serverSession list. handler_ok objs h'"
    and s': "s' \<in> {go_on i h' (releaseSessionAttach a s), releasePending (go_on i h' (releaseSessionAttach a s))}"
    and slots: "slots s' + of_bool (holds h) = slots s + of_bool (holds h')" "holds h' \<longrightarrow> holds h"
  shows "server_inv s'"
proof -
  note hs = server_invD(3) [OF inv]
  have al: "a < length (objects s)" using handlers_okD(3) [OF hs, of h] at a(1) by (cases h) (auto dest: nth_mem)
  have objs: "objects s' = (if 0 < pendingAttaches (objects s ! a)
      then (objects s)[a := (objects s ! a)\<lparr>pendingAttaches := pendingAttaches (objects s ! a) - 1\<rparr>] else objects s)"
    using s' by (auto simp: releaseSessionAttach_def)
  have f: "sessions s' = sessions s" "userSessions s' = userSessions s" "options s' = options s" "users s' = users s"
    "handlers s' = (handlers s)[i := h']"
    using s' by (auto simp: releaseSessionAttach_def)
  have keep: "ss_id (objects s' ! b) = ss_id (objects s ! b)" "ss_user (objects s' ! b) = ss_user (objects s ! b)"
    "ss_ready (objects s' ! b) = ss_ready (objects s ! b)" "setupErr (objects s' ! b) = setupErr (objects s ! b)" for b
    by (simp_all add: objs nth_update_same)
  have pos: "0 < tally (attaching a) (handlers s)" using at a(1) by (intro tally_pos [of i]) simp_all
  have k: "attaching b h \<longleftrightarrow> b = a" for b using a(1,2) by blast
  have pend: "pendingAttaches (objects s' ! b) = pendingAttaches (objects s ! b) - of_bool (b = a \<and> 0 < pendingAttaches (objects s ! a))" for b
    by (simp add: objs al nth_list_update)
  have "handlers_ok s'"
  proof (rule handlers_move [OF hs at f(5,3) slots])
    fix sid b assume "sessions s' sid = Some b"
    then have "sessions s sid = Some b" by (simp add: f)
    from handlers_okD(5,6) [OF hs this]
    show "pendingAttaches (objects s' ! b) + of_bool (attaching b h) =
        int (tally (attaching b) (handlers s)) + of_bool (attaching b h') \<and>
      (ss_ready (objects s' ! b) \<longrightarrow> setupErr (objects s' ! b) = None)"
      unfolding k keep pend using pos by (auto simp: h'(1))
  next
    show "length (objects s) \<le> length (objects s')" by (simp add: objs)
    show "tally (setting b) (handlers s) + of_bool (setting b h') = of_bool (\<not> ss_ready (objects s' ! b)) + of_bool (setting b h)"
      if "b < length (objects s')" for b
      using that handlers_okD(4) [OF hs, of b] by (simp add: keep a(3) h'(2)) (auto simp: objs split: if_splits)
  qed (simp_all add: keep h'(3))
  moreover have "table_ok s'" "limits_ok s'"
    using tables_frame [OF server_invD(1,2) [OF inv] f(1-4) _ keep(1,2)] objs by simp_all
  ultimately show ?thesis by (simp add: server_inv_def)
qed

lemma finishSession_inv:
  assumes inv: "server_inv s" and at: "handler_at s i (HSetup request a)"
  shows "server_inv (gotSession i request a True (finishSession request a err s))"
proof -
  note h = server_invD(3) [OF inv]
  have hok: "handler_ok (objects s) (HSetup request a)" using handlers_okD(3) [OF h] at by (metis nth_mem)
  then have a: "a < length (objects s)" "ss_id (objects s ! a) = SessionID request" "ss_user (objects s ! a) = User request"
    by simp_all
  have one: "tally (setting a) (handlers s) = 1"
  proof -
    have "0 < tally (setting a) (handlers s)" using at by (intro tally_pos [of i]) simp_all
    then show ?thesis using handlers_okD(4) [OF h a(1)] by (auto simp: of_bool_def split: if_splits)
  qed
  let ?s1 = "map_session a (\<lambda>x. x\<lparr>setupErr := err, ss_ready := True\<rparr>) s"
  let ?listed = "sessions s (SessionID request) = Some a"
  let ?s2 = "if err \<noteq> None \<and> ?listed then drop_user (User request) (?s1\<lparr>sessions := (sessions s)(SessionID request := None)\<rparr>)
    else if ?listed then map_session a (\<lambda>x. x\<lparr>pendingAttaches := pendingAttaches x + 1\<rparr>) ?s1 else ?s1"
  let ?h' = "if err = None then HAcked request a True else HLinger (encodeAuthAck False 0 AuthRejectSession)"
  define s' where "s' = gotSession i request a True (finishSession request a err s)"
  have f: "handlers s' = (handlers s)[i := ?h']" "objects s' = objects ?s2" "sessions s' = sessions ?s2"
    "userSessions s' = userSessions ?s2" "options s' = options s" "users s' = users s"
    "slots s' = (if err = None then slots s else slots s - 1)"
    by (auto simp: s'_def finishSession_def gotSession_def refuseConnection_def Let_def split: option.splits)
  have objs: "objects s' ! b = (if b = a then (objects s ! a)\<lparr>setupErr := err, ss_ready := True,
      pendingAttaches := pendingAttaches (objects s ! a) + of_bool (err = None \<and> ?listed)\<rparr> else objects s ! b)"
    "length (objects s') = length (objects s)" for b
    using a(1) by (simp_all add: f nth_list_update)
  have "handlers_ok s'"
  proof (rule handlers_move [OF h at f(1,5)])
    show "slots s' + of_bool (holds (HSetup request a)) = slots s + of_bool (holds ?h')"
      using held_slot [OF h at] by (simp add: f(7))
    show "tally (setting b) (handlers s) + of_bool (setting b ?h') =
        of_bool (\<not> ss_ready (objects s' ! b)) + of_bool (setting b (HSetup request a))" if "b < length (objects s')" for b
      using that one handlers_okD(4) [OF h, of b] by (auto simp: objs)
  next
    fix sid b assume "sessions s' sid = Some b"
    then have b: "sessions s sid = Some b" "b = a \<Longrightarrow> err = None"
      using table_okD(3) [OF server_invD(1) [OF inv]] a(2) by (auto simp: f split: if_splits)
    have l: ?listed if "b = a" using b that table_okD(3) [OF server_invD(1) [OF inv] b(1)] a(2) by simp
    show "pendingAttaches (objects s' ! b) + of_bool (attaching b (HSetup request a)) =
        int (tally (attaching b) (handlers s)) + of_bool (attaching b ?h') \<and>
      (ss_ready (objects s' ! b) \<longrightarrow> setupErr (objects s' ! b) = None)"
      using handlers_okD(5,6) [OF h b(1)] b(2) l by (auto simp: objs)
  qed (use a in \<open>auto simp: objs\<close>)
  moreover have "table_ok ?s1" "limits_ok ?s1"
    by (rule tables_frame [OF server_invD(1,2) [OF inv]]; simp add: nth_update_same)+
  then have "table_ok ?s2 \<and> limits_ok ?s2"
    using table_remove [of ?s1 "SessionID request" a "User request"] a
      tables_frame [of ?s1 "map_session a (\<lambda>x. x\<lparr>pendingAttaches := pendingAttaches x + 1\<rparr>) ?s1"]
    by (auto simp: nth_update_same)
  then have "table_ok s'" "limits_ok s'"
    using tables_frame [of ?s2 s'] by (simp_all add: f del: server_simps(18))
  ultimately show ?thesis unfolding server_inv_def s'_def by simp
qed

lemma delete_inv:
  assumes inv: "server_inv s" and d: "s' = deleteSessionIfUnattached sid a s \<or> s' = deleteIdleSession sid a cutoff s"
  shows "server_inv s'" "handlers s' = handlers s" "slots s' = slots s" "objects s' = objects s"
proof -
  have s': "s' = s \<or> (sessions s sid = Some a \<and>
      s' = closeServerSessions [a] (drop_user (ss_user (objects s ! a)) (s\<lparr>sessions := (sessions s)(sid := None)\<rparr>)))"
    using d by (auto simp: deleteSessionIfUnattached_def deleteIdleSession_def Let_def split: option.splits if_splits)
  then show f: "handlers s' = handlers s" "slots s' = slots s" "objects s' = objects s" by auto
  show "server_inv s'"
  proof (cases "s' = s")
    case False
    let ?s = "drop_user (ss_user (objects s ! a)) (s\<lparr>sessions := (sessions s)(sid := None)\<rparr>)"
    from False s' have e: "sessions s sid = Some a" "s' = closeServerSessions [a] ?s" by blast+
    have "table_ok s'" "limits_ok s'"
      using tables_frame [of ?s s'] table_remove [OF server_invD(1) [OF inv] e(1) refl] server_invD(2) [OF inv]
      by (simp_all add: e(2))
    moreover have "handlers_ok s'"
      by (rule handlers_frame [OF server_invD(3) [OF inv]]) (simp_all add: e(2) map_le_def)
    ultimately show ?thesis by (simp add: server_inv_def)
  qed (use inv in simp)
qed

text \<open>Steps that only touch relays, codecs, contexts or the reaper's list.\<close>

lemma quiet_inv:
  assumes inv: "server_inv s" and "sessions s' = sessions s" "userSessions s' = userSessions s" "handlers s' = handlers s"
    "slots s' = slots s" "options s' = options s" "users s' = users s"
    and objs: "objects s' = objects s \<or> (\<exists>a r. objects s' = (objects s)[a := (objects s ! a)\<lparr>ss_relay := r\<rparr>])"
  shows "server_inv s'"
proof -
  have keep: "P (objects s' ! b) = P (objects s ! b)" if "\<And>x r. P (x\<lparr>ss_relay := r\<rparr>) = P x" for P b
    using objs that by (auto simp: nth_update_same)
  have len: "length (objects s') = length (objects s)" using objs by auto
  have k: "ss_id (objects s' ! b) = ss_id (objects s ! b)" "ss_user (objects s' ! b) = ss_user (objects s ! b)"
    "ss_ready (objects s' ! b) = ss_ready (objects s ! b)" "setupErr (objects s' ! b) = setupErr (objects s ! b)"
    "pendingAttaches (objects s' ! b) = pendingAttaches (objects s ! b)" for b
    by (rule keep, simp)+
  have "table_ok s'" "limits_ok s'"
    using tables_frame [OF server_invD(1,2) [OF inv] assms(2,3,6,7) len k(1,2)] .
  moreover have "handlers_ok s'"
    using handlers_frame [OF server_invD(3) [OF inv] assms(4,5,6) _ len k] assms(2) by simp
  ultimately show ?thesis by (simp add: server_inv_def)
qed

lemma server_Close_inv:
  assumes inv: "server_inv s"
  shows "server_inv (server_Close s)"
proof (cases "closed_once s")
  case False
  have "table_ok (server_Close s)" "limits_ok (server_Close s)"
    using False by (simp_all add: server_Close_def table_ok_def limits_ok_def user_count_def owned_def session_count_def)
  moreover have "handlers_ok (server_Close s)"
    by (rule handlers_frame [OF server_invD(3) [OF inv]]) (simp_all add: server_Close_def)
  ultimately show ?thesis by (simp add: server_inv_def)
qed (use inv in \<open>simp add: server_Close_def\<close>)

lemma dropSession_inv:
  assumes inv: "server_inv s" and at: "handler_at s i h" and h: "h \<in> {HDrop request a own, HServing request a own}"
  shows "server_inv (if holds h then releasePending (dropSession i request a own s) else dropSession i request a own s)"
proof -
  define t where "t = (if own then deleteSessionIfUnattached (SessionID request) a s else s)"
  have t: "server_inv t" "handlers t = handlers s"
    using delete_inv(1,2) [OF inv, of t "SessionID request" a] inv by (cases own; simp add: t_def)+
  have at': "handler_at t i h" using at t(2) by simp
  have d: "dropSession i request a own s = go_on i HClosed t" by (simp add: dropSession_def t_def)
  show ?thesis
  proof (cases "holds h")
    case True
    have "server_inv (releasePending (go_on i HClosed t))"
      by (rule go_on_inv [OF t(1) at', of _ HClosed])
        (use h True held_slot [OF server_invD(3) [OF t(1)] at' True] in \<open>elim insertE emptyE; simp\<close>)+
    then show ?thesis using True by (simp add: d)
  next
    case False
    have "server_inv (go_on i HClosed t)"
      by (rule go_on_inv [OF t(1) at', of _ HClosed]) (use h False in \<open>elim insertE emptyE; simp\<close>)+
    then show ?thesis using False by (simp add: d)
  qed
qed

lemma server_step_inv:
  assumes "server_step s s'" "server_inv s"
  shows "server_inv s'"
  using assms
proof (cases rule: server_step.cases)
  case accept then show ?thesis using admitConn_inv assms(2) by simp
next
  case (no_stream i)
  then show ?thesis
    using held_slot [OF server_invD(3) [OF assms(2)], of i HAuth]
    by (auto intro!: go_on_inv [OF assms(2), of i HAuth _ HClosed])
next
  case (auth i stream) then show ?thesis using authenticateConn_inv assms(2) by simp
next
  case (find_session i request order rnd now) then show ?thesis using findSession_inv assms(2) by simp
next
  case (join i request a) then show ?thesis using joinSession_inv assms(2) by simp
next
  case (wait_cancelled i request a)
  then show ?thesis using refuse_inv [OF assms(2), of i "HWait request a"] by simp
next
  case (setup_done i request a err) then show ?thesis using finishSession_inv assms(2) by simp
next
  case (ack_failed i request a own)
  have "slots (releaseSessionAttach a s) = slots s" by (simp add: releaseSessionAttach_def)
  then show ?thesis unfolding ack_failed(1)
    by (intro release_inv [OF assms(2) ack_failed(2), of a "HDrop request a own"]) auto
next
  case (ack_dropped i request a own)
  then show ?thesis using dropSession_inv [OF assms(2) ack_dropped(2)] by simp
next
  case (attach i request a own) then show ?thesis using attach_inv [OF assms(2)] by simp
next
  case (attached i request a own)
  have "slots (releaseSessionAttach a s) = slots s" by (simp add: releaseSessionAttach_def)
  then show ?thesis unfolding attached(1)
    using held_slot [OF server_invD(3) [OF assms(2)] attached(2)]
    by (intro release_inv [OF assms(2) attached(2), of a "HServing request a own"]) auto
next
  case (serve_end i request a own)
  then show ?thesis using dropSession_inv [OF assms(2) serve_end(2)] by simp
next
  case (linger_end i ack)
  then show ?thesis by (auto intro!: go_on_inv [OF assms(2) linger_end(2), of _ HClosed])
next
  case (reap order now)
  then show ?thesis by (intro quiet_inv [OF assms(2)]) (simp_all add: reap_collect_def Let_def)
next
  case (reap_one a rest cutoff)
  have "server_inv (s\<lparr>reaping := rest\<rparr>)" by (rule quiet_inv [OF assms(2)]) simp_all
  then show ?thesis using reap_one(1) delete_inv(1) by blast
next
  case (reap_idle_codecs now)
  then show ?thesis by (intro quiet_inv [OF assms(2)]) (simp_all add: reap_codecs_def)
next
  case (relay_event a r)
  then show ?thesis by (intro quiet_inv [OF assms(2)]) auto
next
  case (close_relay a)
  then show ?thesis by (intro quiet_inv [OF assms(2)]) auto
next
  case (start_listener chacha rnd now given listen)
  then show ?thesis
    by (intro quiet_inv [OF assms(2)]) (auto simp: server_Start_def split: sum.splits option.splits)
next
  case cancel then show ?thesis by (intro quiet_inv [OF assms(2)]) simp_all
next
  case shut then show ?thesis using server_Close_inv assms(2) by simp
qed

lemma delete_frame [simp]:
  "options (deleteSessionIfUnattached sid a s) = options s" "users (deleteSessionIfUnattached sid a s) = users s"
  "options (deleteIdleSession sid a c s) = options s" "users (deleteIdleSession sid a c s) = users s"
  "srv_done (deleteSessionIfUnattached sid a s) = srv_done s" "srv_done (deleteIdleSession sid a c s) = srv_done s"
  by (simp_all add: deleteSessionIfUnattached_def deleteIdleSession_def Let_def split: option.splits)

lemma server_step_frame:
  assumes "server_step s s'"
  shows "options s' = options s \<and> users s' = users s"
  using assms
proof (cases rule: server_step.cases)
  case (find_session i request order rnd now)
  obtain res t where run: "openSession order rnd now request s = (res, t)" by fastforce
  show ?thesis using openSession_frame(3,4) [OF run]
    by (simp add: find_session(1) findSession_def run refuseConnection_def split: lookup.splits)
qed (auto simp: admitConn_def authenticateConn_def refuseConnection_def gotSession_def joinSession_def finishSession_def
    dropSession_def releaseSessionAttach_def reap_collect_def reap_codecs_def server_Start_def server_Close_def Let_def
    split: option.splits prod.splits bool.splits sum.splits)

section \<open>Validated options\<close>

text \<open>The defaults one by one, and what the checks leave.\<close>

definition set_MaxSessions :: "ServerOptions \<Rightarrow> ServerOptions" where
  "set_MaxSessions o1 = (if MaxSessions o1 = 0 then o1\<lparr>MaxSessions := int (length (Users o1))\<rparr> else o1)"
definition set_MaxWorkers :: "ServerOptions \<Rightarrow> ServerOptions" where
  "set_MaxWorkers o1 = (if MaxWorkersPerSession o1 = 0 then o1\<lparr>MaxWorkersPerSession := defaultMaxWorkers\<rparr> else o1)"
definition set_MaxPending :: "ServerOptions \<Rightarrow> ServerOptions" where
  "set_MaxPending o1 = (if MaxPendingHandshakes o1 = 0 then o1\<lparr>MaxPendingHandshakes := defaultMaxPendingHandshakes\<rparr> else o1)"
definition set_HandshakeTimeout :: "ServerOptions \<Rightarrow> ServerOptions" where
  "set_HandshakeTimeout o1 = (if HandshakeTimeout o1 = 0 then o1\<lparr>HandshakeTimeout := defaultHandshakeTimeout\<rparr> else o1)"
definition set_IdleTimeout :: "ServerOptions \<Rightarrow> ServerOptions" where
  "set_IdleTimeout o1 = (if SessionIdleTimeout o1 = 0 then o1\<lparr>SessionIdleTimeout := defaultSessionIdleTimeout\<rparr> else o1)"
definition set_Receive :: "ServerOptions \<Rightarrow> ServerOptions" where
  "set_Receive o1 = (if UDPReceiveBufferBytes o1 = 0 then o1\<lparr>UDPReceiveBufferBytes := defaultUDPReceiveBufferBytes\<rparr> else o1)"
definition set_Send :: "ServerOptions \<Rightarrow> ServerOptions" where
  "set_Send o1 = (if UDPSendBufferBytes o1 = 0 then o1\<lparr>UDPSendBufferBytes := defaultUDPSendBufferBytes\<rparr> else o1)"

lemmas default_defs = set_MaxSessions_def set_MaxWorkers_def set_MaxPending_def set_HandshakeTimeout_def
  set_IdleTimeout_def set_Receive_def set_Send_def

definition normalizedOptions :: "ServerOptions \<Rightarrow> ServerOptions" where
  "normalizedOptions o1 = set_Send (set_Receive (set_IdleTimeout (set_HandshakeTimeout (set_MaxPending (set_MaxWorkers (set_MaxSessions o1))))))"

definition options_valid :: "ServerOptions \<Rightarrow> bool" where
  "options_valid o1 \<longleftrightarrow> has_SessionHandler o1 \<and>
     1 \<le> length (ObfsPassword o1) \<and> length (ObfsPassword o1) \<le> 256 \<and>
     1 \<le> length (Users o1) \<and> length (Users o1) \<le> 4096 \<and>
     1 \<le> MaxSessions o1 \<and> MaxSessions o1 \<le> 4096 \<and> MaxWorkersPerSession o1 \<in> {4, 8, 12, 16, 20} \<and>
     1 \<le> MaxPendingHandshakes o1 \<and> MaxPendingHandshakes o1 \<le> 4096 \<and>
     1 * Second \<le> HandshakeTimeout o1 \<and> HandshakeTimeout o1 \<le> 1 * Minute \<and>
     30 * Second \<le> SessionIdleTimeout o1 \<and> SessionIdleTimeout o1 \<le> 24 * Hour \<and>
     262144 \<le> UDPReceiveBufferBytes o1 \<and> UDPReceiveBufferBytes o1 \<le> 67108864 \<and>
     262144 \<le> UDPSendBufferBytes o1 \<and> UDPSendBufferBytes o1 \<le> 67108864"

lemma workers_option: "4 \<le> n \<Longrightarrow> n \<le> 20 \<Longrightarrow> n mod 4 = 0 \<longleftrightarrow> n \<in> {4, 8, 12, 16, 20}" for n :: int
  by (simp, presburger)

lemma default_keeps:
  "ObfsPassword (set_MaxSessions o1) = ObfsPassword o1" "Users (set_MaxSessions o1) = Users o1" "MaxWorkersPerSession (set_MaxSessions o1) = MaxWorkersPerSession o1" "MaxPendingHandshakes (set_MaxSessions o1) = MaxPendingHandshakes o1"
  "HandshakeTimeout (set_MaxSessions o1) = HandshakeTimeout o1" "SessionIdleTimeout (set_MaxSessions o1) = SessionIdleTimeout o1" "UDPReceiveBufferBytes (set_MaxSessions o1) = UDPReceiveBufferBytes o1" "UDPSendBufferBytes (set_MaxSessions o1) = UDPSendBufferBytes o1" "has_SessionHandler (set_MaxSessions o1) = has_SessionHandler o1"
  "ObfsPassword (set_MaxWorkers o1) = ObfsPassword o1" "Users (set_MaxWorkers o1) = Users o1" "MaxSessions (set_MaxWorkers o1) = MaxSessions o1" "MaxPendingHandshakes (set_MaxWorkers o1) = MaxPendingHandshakes o1"
  "HandshakeTimeout (set_MaxWorkers o1) = HandshakeTimeout o1" "SessionIdleTimeout (set_MaxWorkers o1) = SessionIdleTimeout o1" "UDPReceiveBufferBytes (set_MaxWorkers o1) = UDPReceiveBufferBytes o1" "UDPSendBufferBytes (set_MaxWorkers o1) = UDPSendBufferBytes o1" "has_SessionHandler (set_MaxWorkers o1) = has_SessionHandler o1"
  "ObfsPassword (set_MaxPending o1) = ObfsPassword o1" "Users (set_MaxPending o1) = Users o1" "MaxSessions (set_MaxPending o1) = MaxSessions o1" "MaxWorkersPerSession (set_MaxPending o1) = MaxWorkersPerSession o1"
  "HandshakeTimeout (set_MaxPending o1) = HandshakeTimeout o1" "SessionIdleTimeout (set_MaxPending o1) = SessionIdleTimeout o1" "UDPReceiveBufferBytes (set_MaxPending o1) = UDPReceiveBufferBytes o1" "UDPSendBufferBytes (set_MaxPending o1) = UDPSendBufferBytes o1" "has_SessionHandler (set_MaxPending o1) = has_SessionHandler o1"
  "ObfsPassword (set_HandshakeTimeout o1) = ObfsPassword o1" "Users (set_HandshakeTimeout o1) = Users o1" "MaxSessions (set_HandshakeTimeout o1) = MaxSessions o1" "MaxWorkersPerSession (set_HandshakeTimeout o1) = MaxWorkersPerSession o1"
  "MaxPendingHandshakes (set_HandshakeTimeout o1) = MaxPendingHandshakes o1" "SessionIdleTimeout (set_HandshakeTimeout o1) = SessionIdleTimeout o1" "UDPReceiveBufferBytes (set_HandshakeTimeout o1) = UDPReceiveBufferBytes o1" "UDPSendBufferBytes (set_HandshakeTimeout o1) = UDPSendBufferBytes o1" "has_SessionHandler (set_HandshakeTimeout o1) = has_SessionHandler o1"
  "ObfsPassword (set_IdleTimeout o1) = ObfsPassword o1" "Users (set_IdleTimeout o1) = Users o1" "MaxSessions (set_IdleTimeout o1) = MaxSessions o1" "MaxWorkersPerSession (set_IdleTimeout o1) = MaxWorkersPerSession o1"
  "MaxPendingHandshakes (set_IdleTimeout o1) = MaxPendingHandshakes o1" "HandshakeTimeout (set_IdleTimeout o1) = HandshakeTimeout o1" "UDPReceiveBufferBytes (set_IdleTimeout o1) = UDPReceiveBufferBytes o1" "UDPSendBufferBytes (set_IdleTimeout o1) = UDPSendBufferBytes o1" "has_SessionHandler (set_IdleTimeout o1) = has_SessionHandler o1"
  "ObfsPassword (set_Receive o1) = ObfsPassword o1" "Users (set_Receive o1) = Users o1" "MaxSessions (set_Receive o1) = MaxSessions o1" "MaxWorkersPerSession (set_Receive o1) = MaxWorkersPerSession o1"
  "MaxPendingHandshakes (set_Receive o1) = MaxPendingHandshakes o1" "HandshakeTimeout (set_Receive o1) = HandshakeTimeout o1" "SessionIdleTimeout (set_Receive o1) = SessionIdleTimeout o1" "UDPSendBufferBytes (set_Receive o1) = UDPSendBufferBytes o1" "has_SessionHandler (set_Receive o1) = has_SessionHandler o1"
  "ObfsPassword (set_Send o1) = ObfsPassword o1" "Users (set_Send o1) = Users o1" "MaxSessions (set_Send o1) = MaxSessions o1" "MaxWorkersPerSession (set_Send o1) = MaxWorkersPerSession o1"
  "MaxPendingHandshakes (set_Send o1) = MaxPendingHandshakes o1" "HandshakeTimeout (set_Send o1) = HandshakeTimeout o1" "SessionIdleTimeout (set_Send o1) = SessionIdleTimeout o1" "UDPReceiveBufferBytes (set_Send o1) = UDPReceiveBufferBytes o1" "has_SessionHandler (set_Send o1) = has_SessionHandler o1"
  by (simp_all add: default_defs)

lemma if_Inl_eq_Inr: "(if c then Inl e else x) = Inr y \<longleftrightarrow> \<not> c \<and> x = Inr y"
  by simp

lemma validateServerOptions_eq:
  "validateServerOptions o1 = Inr (o', us) \<longleftrightarrow>
     o' = normalizedOptions o1 \<and> options_valid o' \<and> add_users (MaxSessions o') (Users o') Map.empty = Inr us"
proof -
  have w: "(n < 4 \<or> 20 < n \<or> n mod 4 \<noteq> 0) \<longleftrightarrow> n \<notin> {4, 8, 12, 16, 20}" for n :: int
    using workers_option [of n] by auto
  show ?thesis
    unfolding validateServerOptions_def Let_def
    unfolding set_MaxSessions_def [symmetric]
    unfolding set_MaxWorkers_def [symmetric]
    unfolding set_MaxPending_def [symmetric]
    unfolding set_HandshakeTimeout_def [symmetric]
    unfolding set_IdleTimeout_def [symmetric]
    unfolding set_Receive_def [symmetric]
    unfolding set_Send_def [symmetric]
    unfolding normalizedOptions_def [symmetric] if_Inl_eq_Inr
    by (auto simp: default_keeps normalizedOptions_def options_valid_def auth_consts server_consts w not_less Suc_le_eq
        split: sum.splits)
qed

lemma options_validD:
  assumes "options_valid o1"
  shows "1 \<le> MaxSessions o1" "MaxSessions o1 \<le> 4096" "MaxWorkersPerSession o1 \<in> {4, 8, 12, 16, 20}"
    "1 \<le> MaxPendingHandshakes o1" "MaxPendingHandshakes o1 \<le> 4096" "1 * Second \<le> HandshakeTimeout o1"
    "30 * Second \<le> SessionIdleTimeout o1" "262144 \<le> UDPReceiveBufferBytes o1" "262144 \<le> UDPSendBufferBytes o1"
  using assms unfolding options_valid_def by blast+

lemma normalize_valid: "options_valid o1 \<Longrightarrow> normalizedOptions o1 = o1"
proof -
  assume "options_valid o1"
  note v = options_validD [OF this]
  have "MaxSessions o1 \<noteq> 0" "MaxWorkersPerSession o1 \<noteq> 0" "MaxPendingHandshakes o1 \<noteq> 0" "HandshakeTimeout o1 \<noteq> 0"
    "SessionIdleTimeout o1 \<noteq> 0" "UDPReceiveBufferBytes o1 \<noteq> 0" "UDPSendBufferBytes o1 \<noteq> 0"
    using v(1) v(3) v(4) v(6) v(7) v(8) v(9) by auto
  then show ?thesis by (simp only: normalizedOptions_def default_defs if_False)
qed

definition user_record :: "ServerUser \<Rightarrow> serverUser" where
  "user_record x = \<lparr>passwordHash = Sum256 (su_Password x), maxSessions = (if su_MaxSessions x = 0 then 1 else su_MaxSessions x)\<rparr>"

lemma add_users_spec:
  "add_users limit xs us = Inr us' \<Longrightarrow>
     distinct (map su_Name xs) \<and> (\<forall>x \<in> set xs. us (su_Name x) = None) \<and>
     (\<forall>u rec. us' u = Some rec \<longleftrightarrow> us u = Some rec \<or> (\<exists>x \<in> set xs. su_Name x = u \<and> rec = user_record x)) \<and>
     (\<forall>x \<in> set xs. 1 \<le> maxSessions (user_record x) \<and> maxSessions (user_record x) \<le> limit)"
proof (induction xs arbitrary: us)
  case (Cons x xs)
  let ?us = "us(su_Name x \<mapsto> user_record x)"
  have fresh: "us (su_Name x) = None" and rest: "add_users limit xs ?us = Inr us'"
    and lim: "1 \<le> maxSessions (user_record x)" "maxSessions (user_record x) \<le> limit"
    using Cons.prems by (auto simp: user_record_def Let_def split: option.splits if_splits)
  from Cons.IH [OF rest] fresh lim show ?case by (auto split: if_splits)
qed simp

text \<open>The servers a successful \<open>NewServer\<close> returns, and the invariant of all that they become.\<close>

definition server_init :: "'d server \<Rightarrow> bool" where
  "server_init s \<longleftrightarrow> (\<exists>hkdf cert opts. NewServer hkdf cert opts = Inr s)"

definition users_ok :: "'d server \<Rightarrow> bool" where
  "users_ok s \<longleftrightarrow> add_users (MaxSessions (options s)) (Users (options s)) Map.empty = Inr (users s)"

definition served_inv :: "'d server \<Rightarrow> bool" where
  "served_inv s \<longleftrightarrow> server_inv s \<and> options_valid (options s) \<and> users_ok s"

lemma NewServer_inv:
  assumes "NewServer hkdf cert opts = Inr s"
  shows "served_inv s"
proof -
  obtain o' us key where v: "validateServerOptions opts = Inr (o', us)"
    and s: "s = \<lparr>options = o', users = us, srv_key = key, srv_done = False, closed_once = False, packetConn = False,
      obfsConn = None, objects = [], sessions = Map.empty, userSessions = Map.empty, slots = 0, handlers = [],
      closing = {}, reaping = []\<rparr>"
    using assms by (auto simp: NewServer_def split: sum.splits prod.splits option.splits)
  from v have "options_valid o'" "add_users (MaxSessions o') (Users o') Map.empty = Inr us"
    unfolding validateServerOptions_eq by blast+
  moreover have "server_inv s"
    by (simp add: s server_inv_def table_ok_def limits_ok_def handlers_ok_def user_count_def owned_def session_count_def)
  ultimately show ?thesis by (simp add: s served_inv_def users_ok_def)
qed

interpretation session_table: invariant_system server_init server_step served_inv
proof
  show "served_inv s" if "server_init s" for s :: "'a server" using that NewServer_inv by (auto simp: server_init_def)
  show "served_inv t" if "served_inv s" "server_step s t" for s t :: "'a server"
    using that server_step_inv [OF that(2)] server_step_frame [OF that(2)] by (simp add: served_inv_def users_ok_def)
qed

lemma served_invD:
  assumes "reach server_init server_step s"
  shows "table_ok s" "limits_ok s" "handlers_ok s" "options_valid (options s)" "users_ok s" "server_inv s"
  using session_table.reach_inv [OF assms] by (simp_all add: served_inv_def server_inv_def)

lemma user_limit_bounds:
  assumes "users_ok s"
  shows "0 \<le> user_limit s u" "users s u \<noteq> None \<Longrightarrow> 1 \<le> user_limit s u"
proof -
  note a = add_users_spec [OF assms [unfolded users_ok_def]]
  show "0 \<le> user_limit s u" "users s u \<noteq> None \<Longrightarrow> 1 \<le> user_limit s u"
    using a by (fastforce simp: user_limit_def split: option.splits)+
qed

section \<open>Who is let in, and at whose expense\<close>

lemma authorize_iff:
  assumes "users_ok s"
  shows "authorize s u p \<longleftrightarrow> (\<exists>x \<in> set (Users (options s)). su_Name x = u \<and> Sum256 (su_Password x) = Sum256 p)"
proof -
  have a: "users s u = Some rec \<longleftrightarrow> (\<exists>x \<in> set (Users (options s)). su_Name x = u \<and> rec = user_record x)" for rec
    using add_users_spec [OF assms [unfolded users_ok_def]] by simp
  show ?thesis
  proof (cases "users s u")
    case None
    then show ?thesis using a by (auto simp: authorize_def)
  next
    case (Some rec)
    have h: "passwordHash rec = Sum256 (su_Password x)" if "x \<in> set (Users (options s))" "su_Name x = u" for x
      using that Some a [of "user_record x"] by (auto simp: user_record_def)
    from Some a obtain x0 where x0: "x0 \<in> set (Users (options s))" "su_Name x0 = u" by blast
    have "authorize s u p \<longleftrightarrow> Sum256 p = passwordHash rec" using Some by (simp add: authorize_def)
    then show ?thesis using h x0 by metis
  qed
qed

lemma authenticateConn_read:
  assumes "wf_authRequest r" "encodeAuthRequest r = Inr f"
  shows "authenticateConn i (f @ rest) s =
    (let r' = r\<lparr>ProtocolVersion := authProtocolVersion\<rparr> in
     if MaxWorkersPerSession (options s) < int (unat (WorkerTotal r))
     then refuseConnection i (encodeAuthAck False 0 AuthRejectWorkerCount) s
     else if \<not> authorize s (User r) (Password r)
     then refuseConnection i (encodeAuthAck False 0 AuthRejectCredentials) s
     else go_on i (HFind r') s)"
proof -
  have "supportedWorkerCount (WorkerTotal r)"
    using assms encodeAuthRequest_layout [OF assms(1)] by (simp add: authRequest_ok_def validWorkerMetadata_def)
  then show ?thesis
    using read_encode [OF assms, of rest] by (simp add: authenticateConn_def refuseAuth_def Let_def)
qed

text \<open>Admission when the table of sessions has no entry yet for the request.\<close>

lemma room_made:
  assumes inv: "table_ok s" and order: "iteration order s" and lim: "user_count s u \<le> limit"
    and ev: "(if full then evictSupersededUserSessionsLocked order u limit s else ([], s)) = (ev, s1)"
  shows "\<exists>sids. distinct sids \<and> set sids \<subseteq> dom (sessions s) \<and> sessions s1 = sessions s |` (- set sids) \<and> options s1 = options s \<and>
      (\<forall>sid \<in> set sids. evictable (objects s) u (the (sessions s sid))) \<and>
      user_count s1 u = user_count s u - int (length sids) \<and> length sids \<le> 1 \<and> (sids \<noteq> [] \<longrightarrow> full) \<and>
      (sids = [] \<and> full \<longrightarrow> (\<forall>sid \<in> dom (sessions s). \<not> evictable (objects s) u (the (sessions s sid))))"
proof (cases full)
  case True
  with ev have e: "evictSupersededUserSessionsLocked order u limit s = (ev, s1)" by simp
  have o1: "options s1 = options s" using evict_simps(3) [of order u limit s] e by simp
  from inv order e obtain sids where *: "distinct sids" "set sids \<subseteq> owned (objects s) (sessions s) u"
    "sessions s1 = sessions s |` (- set sids)" "\<forall>sid \<in> set sids. evictable (objects s) u (the (sessions s sid))"
    "\<forall>v. user_count s1 v = user_count s v - (if v = u then int (length sids) else 0)"
    "int (length sids) \<le> max 1 (user_count s u - limit + 1)"
    "sids = [] \<longrightarrow> (\<forall>sid \<in> dom (sessions s). \<not> evictable (objects s) u (the (sessions s sid)))"
    by (rule evict_effect)
  have "set sids \<subseteq> dom (sessions s)" using *(2) owned_dom by blast
  moreover have "length sids \<le> 1" using *(6) lim by simp
  ultimately show ?thesis using * o1 True by (intro exI [of _ sids]) simp
next
  case False
  with ev have "s1 = s" by auto
  then show ?thesis using False by (intro exI [of _ "[]"]) auto
qed

lemma openSession_room:
  assumes inv: "table_ok s" "limits_ok s" "users_ok s" and order: "iteration order s"
    and new: "sessions s (SessionID request) = None" and user: "users s (User request) \<noteq> None"
    and valid: "options_valid (options s)"
    and run: "openSession order (Inr g) now request s = (res, s')"
  shows "res \<in> range Created \<longleftrightarrow>
      (session_count s < MaxSessions (options s) \<and> user_count s (User request) < user_limit s (User request)) \<or>
      (\<exists>sid a. sessions s sid = Some a \<and> evictable (objects s) (User request) a)"
    "card {sid \<in> dom (sessions s). sessions s' sid \<noteq> sessions s sid} \<le> 1"
    "sessions s sid = Some a \<Longrightarrow> \<not> evictable (objects s) (User request) a \<Longrightarrow> sessions s' sid = Some a"
proof -
  let ?u = "User request" and ?limit = "user_limit s (User request)"
  let ?full = "MaxSessions (options s) \<le> session_count s \<or> ?limit \<le> user_count s ?u"
  have lim: "user_count s ?u \<le> ?limit" "session_count s \<le> MaxSessions (options s)" "1 \<le> ?limit"
    using inv(2) user_limit_bounds [OF inv(3)] user options_validD(1) [OF valid] unfolding limits_ok_def
    by (force simp: max_def split: if_splits)+
  obtain ev s1 where ev: "(if ?full then evictSupersededUserSessionsLocked order ?u ?limit s else ([], s)) = (ev, s1)" by fastforce
  from room_made [OF inv(1) order lim(1) ev] obtain sids where *: "distinct sids" "set sids \<subseteq> dom (sessions s)" "sessions s1 = sessions s |` (- set sids)"
    "options s1 = options s" "\<And>sid. sid \<in> set sids \<Longrightarrow> evictable (objects s) ?u (the (sessions s sid))"
    "user_count s1 ?u = user_count s ?u - int (length sids)" "length sids \<le> 1"
    "sids = [] \<Longrightarrow> ?full \<Longrightarrow> sid \<in> dom (sessions s) \<Longrightarrow> \<not> evictable (objects s) ?u (the (sessions s sid))" for sid
    by blast
  have count: "session_count s1 = session_count s - int (length sids)"
  proof -
    have "dom (sessions s1) = dom (sessions s) - set sids" using *(3) by (auto simp: restrict_map_def split: if_splits)
    moreover have "length sids \<le> card (dom (sessions s))"
      using card_mono [OF table_okD(1) [OF inv(1)] *(2)] distinct_card [OF *(1)] by simp
    ultimately show ?thesis using *(1,2) by (simp add: session_count_def card_Diff_subset distinct_card of_nat_diff)
  qed
  have res: "(res, sessions s') = (if MaxSessions (options s) \<le> session_count s1 \<or> ?limit \<le> user_count s1 ?u
      then (res, sessions s1) else (Created (length (objects s1)), (sessions s1)(SessionID request \<mapsto> length (objects s1))))"
    "res \<in> range Created \<longleftrightarrow> \<not> (MaxSessions (options s) \<le> session_count s1 \<or> ?limit \<le> user_count s1 ?u)"
    using run new ev *(4) by (auto simp: openSession_def Let_def split: if_splits)
  have "\<not> (MaxSessions (options s) \<le> session_count s1 \<or> ?limit \<le> user_count s1 ?u) \<longleftrightarrow> \<not> ?full \<or> sids \<noteq> []"
    using count *(6,7) lim by (cases sids) auto
  moreover have "sids \<noteq> [] \<Longrightarrow> \<exists>sid a. sessions s sid = Some a \<and> evictable (objects s) ?u a"
    using *(2,5) by (cases sids) force+
  moreover have "\<not> (\<exists>sid a. sessions s sid = Some a \<and> evictable (objects s) ?u a)" if "sids = []" ?full
    using *(8) [OF that] by (metis domI option.sel)
  ultimately show "res \<in> range Created \<longleftrightarrow> (session_count s < MaxSessions (options s) \<and> user_count s ?u < ?limit) \<or>
      (\<exists>sid a. sessions s sid = Some a \<and> evictable (objects s) ?u a)"
    unfolding res(2) by (metis not_le)
  have s': "sessions s' x = (if x \<in> set sids then None else sessions s x)" if "x \<in> dom (sessions s)" for x
    using res(1) that new *(3) by (auto simp: restrict_map_def split: if_splits)
  then have "{x \<in> dom (sessions s). sessions s' x \<noteq> sessions s x} \<subseteq> set sids" by (metis (mono_tags, lifting) mem_Collect_eq subsetI)
  then have "card {x \<in> dom (sessions s). sessions s' x \<noteq> sessions s x} \<le> card (set sids)" by (intro card_mono) simp_all
  also have "\<dots> \<le> 1" using *(1,7) by (simp add: distinct_card)
  finally show "card {sid \<in> dom (sessions s). sessions s' sid \<noteq> sessions s sid} \<le> 1" .
  show "sessions s' sid = Some a" if "sessions s sid = Some a" "\<not> evictable (objects s) ?u a"
    using s' [OF domI [of "sessions s", OF that(1)]] that *(5) [of sid] by auto
qed

text \<open>Which steps take an entry out of the table.\<close>

lemma delete_entry:
  assumes "sessions s sid = Some a" "s' = deleteSessionIfUnattached sid' b s \<or> s' = deleteIdleSession sid' b c s"
    "sessions s' sid \<noteq> Some a"
  shows "pendingAttaches (objects s ! a) = 0" "ActivePaths (ss_relay (objects s ! a)) = 0" "b = a"
  using assms
  by (auto simp: deleteSessionIfUnattached_def deleteIdleSession_def Let_def split: option.splits if_splits)

text \<open>
  Why: the server is closed; the set-up of the session failed; it has no path and either the reaper took it or the
  handler that created it ended; or it was superseded.
\<close>

definition setup_failed :: "'d server \<Rightarrow> 'd server \<Rightarrow> nat \<Rightarrow> bool" where
  "setup_failed s s' a \<longleftrightarrow> (\<exists>i request. handler_at s i (HSetup request a)) \<and> setupErr (objects s' ! a) \<noteq> None"

definition abandoned :: "'d server \<Rightarrow> 'd server \<Rightarrow> nat \<Rightarrow> bool" where
  "abandoned s s' a \<longleftrightarrow> ActivePaths (ss_relay (objects s ! a)) = 0 \<and>
     (reaping s = a # reaping s' \<or>
      (\<exists>i request. (handler_at s i (HServing request a True) \<or> handler_at s i (HDrop request a True)) \<and> handler_at s' i HClosed))"

definition superseded :: "'d server \<Rightarrow> nat \<Rightarrow> bool" where
  "superseded s a \<longleftrightarrow> ss_ready (objects s ! a) \<and>
     (\<exists>i request. handler_at s i (HFind request) \<and> User request = ss_user (objects s ! a))"

lemmas loss_defs = setup_failed_def abandoned_def superseded_def

definition may_lose :: "'d server \<Rightarrow> 'd server \<Rightarrow> nat \<Rightarrow> bool" where
  "may_lose s s' a \<longleftrightarrow> closed_once s' \<or> setup_failed s s' a \<or>
     (pendingAttaches (objects s ! a) = 0 \<and> (abandoned s s' a \<or> superseded s a))"

lemma dropped_entry:
  assumes "sessions s sid = Some a" "sessions (dropSession i request b own s) sid \<noteq> Some a" "i < length (handlers s)"
  shows "pendingAttaches (objects s ! a) = 0" "ActivePaths (ss_relay (objects s ! a)) = 0" "b = a" own
    "handler_at (dropSession i request b own s) i HClosed"
proof -
  have "own \<and> sessions (deleteSessionIfUnattached (SessionID request) b s) sid \<noteq> Some a"
    using assms(1,2) by (auto simp: dropSession_def split: if_splits)
  with delete_entry [OF assms(1) disjI1 [OF refl], of "SessionID request" b]
  show "pendingAttaches (objects s ! a) = 0" "ActivePaths (ss_relay (objects s ! a)) = 0" "b = a" own by blast+
  show "handler_at (dropSession i request b own s) i HClosed"
    using assms(3) by (auto simp: dropSession_def go_on_def deleteSessionIfUnattached_def closeServerSessions_def drop_user_def Let_def
        split: option.splits if_splits)
qed

lemma entry_lost:
  assumes step: "server_step s s'" and inv: "served_inv s" and entry: "sessions s sid = Some a" and gone: "sessions s' sid \<noteq> Some a"
  shows "may_lose s s' a"
  using step
proof (cases rule: server_step.cases)
  case (find_session i request order rnd now)
  obtain res t where run: "openSession order rnd now request s = (res, t)" by fastforce
  have "sessions t = sessions s'"
    by (simp add: find_session(1) findSession_def run refuseConnection_def split: lookup.splits)
  then have "sessions t sid \<noteq> Some a" using gone by simp
  moreover obtain ev s1 where ev: "(if MaxSessions (options s) \<le> session_count s \<or> user_limit s (User request) \<le> user_count s (User request)
      then evictSupersededUserSessionsLocked order (User request) (user_limit s (User request)) s else ([], s)) = (ev, s1)" by fastforce
  ultimately have "sessions s1 sid \<noteq> Some a"
    using run entry by (auto simp: openSession_def Let_def split: option.splits if_splits sum.splits)
  then have e: "evictSupersededUserSessionsLocked order (User request) (user_limit s (User request)) s = (ev, s1)"
    using ev entry by (auto split: if_splits)
  have t: "table_ok s" using inv by (simp add: served_inv_def server_inv_def)
  from evict_effect [OF t find_session(3) e] obtain sids where
    "sessions s1 = sessions s |` (- set sids)" "\<forall>sid \<in> set sids. evictable (objects s) (User request) (the (sessions s sid))"
    by metis
  then have "evictable (objects s) (User request) a"
    using \<open>sessions s1 sid \<noteq> Some a\<close> entry by (auto simp: restrict_map_def split: if_splits)
  then show ?thesis using find_session(2) unfolding may_lose_def superseded_def evictable_def by metis
next
  case (setup_done i request b err)
  let ?f = "finishSession request b err s"
  have hok: "handlers_ok s" using inv by (simp add: served_inv_def server_inv_def)
  have "b = a" and err: "err \<noteq> None"
    using setup_done(1) gone entry
    by (auto simp: finishSession_def gotSession_def refuseConnection_def Let_def split: if_splits option.splits)
  moreover have "b < length (objects s)" using handlers_okD(3) [OF hok, of "HSetup request b"] setup_done(2) by (metis handler_ok.simps(1) nth_mem)
  ultimately have "setupErr (objects s' ! a) = err"
    by (auto simp: setup_done(1) finishSession_def gotSession_def refuseConnection_def Let_def go_on_def map_session_def
        releasePending_def closeServerSessions_def drop_user_def)
  with err \<open>b = a\<close> setup_done(2) show ?thesis unfolding may_lose_def setup_failed_def by metis
next
  case (ack_dropped i request b own)
  have "sessions (dropSession i request b own s) sid \<noteq> Some a" using gone ack_dropped(1) by (simp add: releasePending_def)
  note d = dropped_entry [OF entry this]
  have "handler_at s' i HClosed" using d(5) ack_dropped by (simp add: releasePending_def)
  with d(1-4) ack_dropped(2) show ?thesis unfolding may_lose_def abandoned_def by metis
next
  case (serve_end i request b own)
  note d = dropped_entry [OF entry gone [unfolded serve_end(1)]]
  have "handler_at s' i HClosed" using d(5) serve_end by simp
  with d(1-4) serve_end(2) show ?thesis unfolding may_lose_def abandoned_def by metis
next
  case (reap_one b rest cutoff)
  have "sessions (s\<lparr>reaping := rest\<rparr>) sid = Some a" using entry by simp
  note d = delete_entry [OF this disjI2 [OF reap_one(1)] gone]
  have "reaping s' = rest"
    by (auto simp: reap_one(1) deleteIdleSession_def closeServerSessions_def drop_user_def Let_def split: option.splits)
  with d reap_one(2) show ?thesis by (simp add: may_lose_def abandoned_def)
next
  case shut
  then show ?thesis using gone entry by (auto simp: may_lose_def server_Close_def split: if_splits)
qed (use gone entry in \<open>auto simp: admitConn_def authenticateConn_def refuseConnection_def gotSession_def joinSession_def
    releaseSessionAttach_def reap_collect_def reap_codecs_def server_Start_def Let_def
    split: option.splits prod.splits bool.splits sum.splits if_splits\<close>)

section \<open>Properties\<close>

text \<open>A server with one user, and its first worker up to the start of the session handler, for the witnesses.\<close>

definition demo_options :: ServerOptions where
  "demo_options = \<lparr>ObfsPassword = [1], Users = [\<lparr>su_Name = [97], su_Password = [98], su_MaxSessions = 0\<rparr>], MaxSessions = 0,
     MaxWorkersPerSession = 0, MaxPendingHandshakes = 0, HandshakeTimeout = 0, SessionIdleTimeout = 0,
     UDPReceiveBufferBytes = 0, UDPSendBufferBytes = 0, has_SessionHandler = True\<rparr>"

definition demo_request :: authRequest where
  "demo_request = \<lparr>ProtocolVersion = authProtocolVersion, SessionID = replicate 16 1, Conv = 1, WorkerID = 0, WorkerTotal = 4,
     WorkerEpoch = 1, LaneGeneration = 1, User = [97], Password = [98]\<rparr>"

definition demo_server :: "u16 server" where
  "demo_server = projr (NewServer (\<lambda>_ _ _. Inr (replicate 32 7)) None demo_options)"

definition demo_found :: "u16 server" where
  "demo_found = authenticateConn 0 (projr (encodeAuthRequest demo_request)) (admitConn demo_server)"

definition demo_setup :: "u16 server" where
  "demo_setup = findSession 0 demo_request (openSession [] (Inr 5) 0 demo_request demo_found)"

lemma demo_server_new:
  "NewServer (\<lambda>_ _ _. Inr (replicate 32 7)) None demo_options = Inr demo_server"
  "users demo_server = [[97] \<mapsto> \<lparr>passwordHash = Sum256 [98], maxSessions = 1\<rparr>]"
  "MaxSessions (options demo_server) = 1" "MaxWorkersPerSession (options demo_server) = 4"
  "MaxPendingHandshakes (options demo_server) = 256" "sessions demo_server = Map.empty" "handlers demo_server = []"
  "slots demo_server = 0" "objects demo_server = []" "userSessions demo_server = Map.empty" "closed_once demo_server = False"
  "reaping demo_server = []"
proof -
  have "utf8_valid [97]" "utf8_valid [98]" by code_simp+
  then have "validateAuthStrings [97] [98] = None" by (simp add: validateAuthStrings_None)
  then have "\<exists>o' us. validateServerOptions demo_options = Inr (o', us) \<and> us = [[97] \<mapsto> \<lparr>passwordHash = Sum256 [98], maxSessions = 1\<rparr>] \<and>
      MaxSessions o' = 1 \<and> MaxWorkersPerSession o' = 4 \<and> MaxPendingHandshakes o' = 256 \<and> ObfsPassword o' = [1]"
    by (simp add: validateServerOptions_def demo_options_def auth_consts server_consts)
  then show "NewServer (\<lambda>_ _ _. Inr (replicate 32 7)) None demo_options = Inr demo_server"
    "users demo_server = [[97] \<mapsto> \<lparr>passwordHash = Sum256 [98], maxSessions = 1\<rparr>]"
    "MaxSessions (options demo_server) = 1" "MaxWorkersPerSession (options demo_server) = 4"
    "MaxPendingHandshakes (options demo_server) = 256" "sessions demo_server = Map.empty" "handlers demo_server = []"
    "slots demo_server = 0" "objects demo_server = []" "userSessions demo_server = Map.empty" "closed_once demo_server = False"
    "reaping demo_server = []"
    by (auto simp: demo_server_def NewServer_def deriveWrapKey_def)
qed

lemma demo_request_encoded:
  "wf_authRequest demo_request" "\<exists>f. encodeAuthRequest demo_request = Inr f"
  "demo_request\<lparr>ProtocolVersion := authProtocolVersion\<rparr> = demo_request"
proof -
  have u: "utf8_valid [97]" "utf8_valid [98]" by code_simp+
  show wf: "wf_authRequest demo_request" by (simp add: wf_authRequest_def demo_request_def)
  have "authRequest_ok demo_request"
    using u by (simp add: authRequest_ok_def demo_request_def validateAuthStrings_None validWorkerMetadata_def
        supportedWorkerCount_def auth_consts zeroSessionID_def)
  then show "\<exists>f. encodeAuthRequest demo_request = Inr f" by (simp add: encodeAuthRequest_layout [OF wf])
  show "demo_request\<lparr>ProtocolVersion := authProtocolVersion\<rparr> = demo_request" by (simp add: demo_request_def)
qed

lemma demo_found_fields:
  "demo_found = go_on 0 (HFind demo_request) (admitConn demo_server)"
  "reach server_init server_step demo_found"
proof -
  let ?s1 = "admitConn demo_server"
  from demo_request_encoded obtain f where f: "encodeAuthRequest demo_request = Inr f" by blast
  have "reach server_init server_step demo_server"
    using demo_server_new(1) by (intro reach_init) (auto simp: server_init_def)
  then have r1: "reach server_init server_step ?s1" by (rule reach_step) (rule server_step.accept)
  have "server_step ?s1 (authenticateConn 0 f ?s1)"
    by (rule server_step.auth) (simp add: admitConn_def demo_server_new)
  then show "reach server_init server_step demo_found"
    using reach_step [OF r1] by (simp add: demo_found_def f)
  have "authorize ?s1 (User demo_request) (Password demo_request)"
    by (simp add: authorize_def admitConn_def demo_server_new demo_request_def)
  moreover have "\<not> MaxWorkersPerSession (options ?s1) < int (unat (WorkerTotal demo_request))"
    by (simp add: admitConn_def demo_server_new demo_request_def)
  ultimately show "demo_found = go_on 0 (HFind demo_request) ?s1"
    using authenticateConn_read [OF demo_request_encoded(1) f, of 0 "[]" ?s1] demo_request_encoded(3)
    by (simp add: demo_found_def f)
qed

lemma demo_setup_fields:
  "reach server_init server_step demo_setup" "handlers demo_setup = [HSetup demo_request 0]"
  "sessions demo_setup = [replicate 16 1 \<mapsto> 0]" "\<not> closed_once demo_setup"
proof -
  have "server_step demo_found demo_setup" unfolding demo_setup_def
    by (rule server_step.find_session) (simp_all add: demo_found_fields(1) admitConn_def demo_server_new)
  then show "reach server_init server_step demo_setup" by (rule reach_step [OF demo_found_fields(2)])
  show "handlers demo_setup = [HSetup demo_request 0]" "sessions demo_setup = [replicate 16 1 \<mapsto> 0]" "\<not> closed_once demo_setup"
    by (simp_all add: demo_setup_def demo_found_fields(1) admitConn_def demo_server_new openSession_def demo_request_def
        user_limit_def user_count_def session_count_def go_on_def findSession_def closeServerSessions_def Let_def)
qed

text \<open>
  C11. However connections, session handlers, the reaper, evictions and \<open>Close\<close> interleave, the
  session accounting is exact and within its limits: at most the configured number of sessions
  in total and per user, a user's counter is the number of listed sessions it owns, no more than the
  configured number of handshakes hold a slot and none is leaked, and a listed session counts
  exactly the workers that were acknowledged but are not attached yet.
\<close>

theorem session_accounting_exact:
  assumes "reach server_init server_step s"
  shows "int (card (dom (sessions s))) \<le> MaxSessions (options s) \<and> MaxSessions (options s) \<le> 4096 \<and>
    (\<forall>u. user_count s u = int (card {sid. \<exists>a. sessions s sid = Some a \<and> ss_user (objects s ! a) = u}) \<and>
         user_count s u \<le> user_limit s u) \<and>
    slots s = length (filter holds (handlers s)) \<and> int (slots s) \<le> MaxPendingHandshakes (options s) \<and>
    (\<forall>sid a. sessions s sid = Some a \<longrightarrow>
       pendingAttaches (objects s ! a) = int (length (filter (attaching a) (handlers s))))"
proof -
  note inv = served_invD [OF assms]
  note opt = options_validD [OF inv(4)]
  have "user_count s u \<le> user_limit s u" for u
    using inv(2) user_limit_bounds(1) [OF inv(5), of u] by (auto simp: limits_ok_def max_def split: if_splits)
  moreover have "int (card (dom (sessions s))) \<le> MaxSessions (options s)"
    using inv(2) opt(1) by (simp add: limits_ok_def session_count_def)
  moreover have "int (slots s) \<le> MaxPendingHandshakes (options s)" using handlers_okD(2) [OF inv(3)] opt(4) by simp
  ultimately show ?thesis
    using table_okD(4) [OF inv(1)] opt(2) handlers_okD(1,5) [OF inv(3)] by (simp add: owned_def)
qed

theorem session_accounting_exact_witness:
  "int (card (dom (sessions demo_setup))) \<le> MaxSessions (options demo_setup) \<and> dom (sessions demo_setup) = {replicate 16 1}"
  using session_accounting_exact [OF demo_setup_fields(1)] by (simp add: demo_setup_fields)

text \<open>
  C12. A session leaves the table for four reasons only: the server is closed; its own set-up ended with an error;
  it has no path and no worker on the way, and the reaper had collected it or the handler that created it
  is the one that ends; or it is set up and superseded by another session of the same user, and then too only if no
  worker is between its acknowledgement and its attachment. So no user can push out a session of another user,
  and a session whose set-up succeeds stays.
\<close>

theorem session_loss_justified:
  assumes "reach server_init server_step s" "server_step s s'"
    and "sessions s sid = Some a" "sessions s' sid \<noteq> Some a"
  shows "closed_once s' \<or>
    ((\<exists>i request. handler_at s i (HSetup request a)) \<and> setupErr (objects s' ! a) \<noteq> None) \<or>
    ((\<forall>h \<in> set (handlers s). \<not> attaching a h) \<and>
      (ActivePaths (ss_relay (objects s ! a)) = 0 \<and>
         (reaping s = a # reaping s' \<or>
          (\<exists>i request. (handler_at s i (HServing request a True) \<or> handler_at s i (HDrop request a True)) \<and> handler_at s' i HClosed)) \<or>
       ss_ready (objects s ! a) \<and>
         (\<exists>i request. handler_at s i (HFind request) \<and> User request = ss_user (objects s ! a))))"
proof -
  have "may_lose s s' a" by (rule entry_lost [OF assms(2) session_table.reach_inv [OF assms(1)] assms(3,4)])
  moreover have "\<forall>h \<in> set (handlers s). \<not> attaching a h" if "pendingAttaches (objects s ! a) = 0"
    using handlers_okD(5) [OF served_invD(3) [OF assms(1)] assms(3)] that by (simp add: filter_empty_conv)
  ultimately show ?thesis unfolding may_lose_def loss_defs by blast
qed

theorem session_loss_justified_witness:
  "\<exists>s'. server_step demo_setup s' \<and> sessions demo_setup (replicate 16 1) = Some 0 \<and> sessions s' (replicate 16 1) = None \<and>
     \<not> closed_once s' \<and> setupErr (objects s' ! 0) \<noteq> None"
proof -
  let ?s' = "gotSession 0 demo_request 0 True (finishSession demo_request 0 (Some EOF) demo_setup)"
  have step: "server_step demo_setup ?s'" by (rule server_step.setup_done) (simp add: demo_setup_fields)
  have s': "sessions ?s' (replicate 16 1) = None" "\<not> closed_once ?s'"
    using demo_setup_fields(3,4)
    by (simp_all add: gotSession_def finishSession_def refuseConnection_def demo_request_def Let_def go_on_def
        releasePending_def closeServerSessions_def drop_user_def map_session_def)
  from session_loss_justified [OF demo_setup_fields(1) step, of "replicate 16 1" 0] s' demo_setup_fields(2,3)
  have "setupErr (objects ?s' ! 0) \<noteq> None \<or> reaping demo_setup \<noteq> [] \<or>
    (\<exists>i request. handler_at demo_setup i (HServing request 0 True) \<or> handler_at demo_setup i (HDrop request 0 True) \<or>
        handler_at demo_setup i (HFind request))" by auto
  moreover have "reaping demo_setup = []"
    by (simp add: demo_setup_def demo_found_fields(1) admitConn_def demo_server_new openSession_def demo_request_def
        user_limit_def user_count_def session_count_def go_on_def findSession_def closeServerSessions_def Let_def)
  ultimately have "setupErr (objects ?s' ! 0) \<noteq> None" by (auto simp: demo_setup_fields(2))
  with s' step demo_setup_fields(3) show ?thesis by (intro exI [of _ ?s']) simp
qed

text \<open>
  C13. A worker of a configured user that asks for a new session gets one exactly if there is room
  under both limits or the user has a ready session without a worker on the way, which is then
  superseded; at most one session is superseded, and every session that may not be superseded,
  those of other users among them, stays in the table.
\<close>

theorem session_admission_exact:
  assumes "reach server_init server_step s" "distinct order" "set order = dom (sessions s)"
    and "sessions s (SessionID request) = None" "users s (User request) \<noteq> None"
    and "openSession order (Inr g) now request s = (res, s')"
  shows "((\<exists>a. res = Created a) \<longleftrightarrow>
      (session_count s < MaxSessions (options s) \<and> user_count s (User request) < user_limit s (User request)) \<or>
      (\<exists>sid a. sessions s sid = Some a \<and> evictable (objects s) (User request) a)) \<and>
    card {sid \<in> dom (sessions s). sessions s' sid \<noteq> sessions s sid} \<le> 1 \<and>
    (\<forall>sid a. sessions s sid = Some a \<and> \<not> evictable (objects s) (User request) a \<longrightarrow> sessions s' sid = Some a)"
proof -
  note inv = served_invD [OF assms(1)]
  have order: "iteration order s" using assms(2,3) by simp
  note room = openSession_room [OF inv(1,2,5) order assms(4,5) inv(4) assms(6)]
  show ?thesis using room(1,2) room(3) by (simp add: image_iff)
qed

theorem session_admission_exact_witness:
  "\<exists>a s'. openSession [] (Inr 5) 0 demo_request demo_found = (Created a, s')"
proof -
  obtain res s' where run: "openSession [] (Inr 5) 0 demo_request demo_found = (res, s')" by fastforce
  have f: "sessions demo_found = Map.empty" "users demo_found (User demo_request) \<noteq> None" "userSessions demo_found = Map.empty"
    "MaxSessions (options demo_found) = 1" "user_limit demo_found (User demo_request) = 1"
    by (simp_all add: demo_found_fields(1) admitConn_def demo_server_new demo_request_def user_limit_def)
  have "\<exists>a. res = Created a"
    using session_admission_exact [OF demo_found_fields(2) _ _ _ f(2) run] f
    by (simp add: session_count_def user_count_def)
  then show ?thesis using run by blast
qed

text \<open>
  The log-in of a worker, from the client's encoder over the server's decision to the client's
  decoder: the handler goes on to the session exactly if the worker count fits the server and some
  configured user has that name and a password with the same SHA-256 digest; otherwise the client
  decodes a refusal that names which of the two it was.
\<close>

lemma worker_login_exact:
  assumes "reach server_init server_step s" "handler_at s i HAuth"
    and "wf_authRequest r" "encodeAuthRequest r = Inr f"
  shows "handlers (authenticateConn i (f @ rest) s) ! i =
    (if MaxWorkersPerSession (options s) < int (unat (WorkerTotal r)) then HLinger (encodeAuthAck False 0 AuthRejectWorkerCount)
     else if \<exists>x \<in> set (Users (options s)). su_Name x = User r \<and> Sum256 (su_Password x) = Sum256 (Password r)
     then HFind (r\<lparr>ProtocolVersion := authProtocolVersion\<rparr>)
     else HLinger (encodeAuthAck False 0 AuthRejectCredentials)) \<and>
    decodeAuthAck (encodeAuthAck False 0 AuthRejectWorkerCount) = Inl (Errorf ''worker count refused by the server'' errAuthRejected) \<and>
    decodeAuthAck (encodeAuthAck False 0 AuthRejectCredentials) = Inl (Errorf ''user or password rejected'' errAuthRejected)"
  using assms(2) unfolding authorize_iff [OF served_invD(5) [OF assms(1)], symmetric]
  by (simp add: authenticateConn_read [OF assms(3,4)] Let_def refuseConnection_def decode_ack_reject
      authRejectReasonName_def auth_reject_defs)

lemma worker_login_exact_witness:
  "\<exists>f. encodeAuthRequest demo_request = Inr f \<and>
     handlers (authenticateConn 0 (f @ []) (admitConn demo_server)) ! 0 = HFind demo_request"
proof -
  from demo_request_encoded obtain f where f: "encodeAuthRequest demo_request = Inr f" by blast
  have "reach server_init server_step demo_server"
    using demo_server_new(1) by (intro reach_init) (auto simp: server_init_def)
  then have r: "reach server_init server_step (admitConn demo_server)" by (rule reach_step) (rule server_step.accept)
  have at: "handler_at (admitConn demo_server) 0 HAuth" by (simp add: admitConn_def demo_server_new)
  have "authorize (admitConn demo_server) (User demo_request) (Password demo_request)"
    by (simp add: authorize_def admitConn_def demo_server_new demo_request_def)
  then have "\<exists>x \<in> set (Users (options (admitConn demo_server))). su_Name x = User demo_request \<and>
      Sum256 (su_Password x) = Sum256 (Password demo_request)"
    unfolding authorize_iff [OF served_invD(5) [OF r]] .
  moreover have "\<not> MaxWorkersPerSession (options (admitConn demo_server)) < int (unat (WorkerTotal demo_request))"
    by (simp add: admitConn_def demo_server_new demo_request_def)
  ultimately have "handlers (authenticateConn 0 (f @ []) (admitConn demo_server)) ! 0 = HFind demo_request"
    using worker_login_exact [OF r at demo_request_encoded(1) f, of "[]"] unfolding demo_request_encoded(3) by presburger
  then show ?thesis using f by blast
qed

text \<open>A second worker of the same session, waiting for the first one's set-up.\<close>

lemma demo_waiting_worker:
  "\<exists>s. reach server_init server_step s \<and> handler_at (s :: u16 server) 1 (HWait demo_request 0)"
proof -
  let ?s1 = "admitConn demo_setup"
  from demo_request_encoded obtain f where f: "encodeAuthRequest demo_request = Inr f" by blast
  have keep: "options demo_setup = options demo_server" "users demo_setup = users demo_server" "slots demo_setup = 1"
    "ss_user (objects demo_setup ! 0) = [97]"
    "ss_conv (objects demo_setup ! 0) = 1" "ss_expected (objects demo_setup ! 0) = 4"
    by (simp_all add: demo_setup_def demo_found_fields(1) admitConn_def demo_server_new openSession_def demo_request_def
        user_limit_def user_count_def session_count_def go_on_def findSession_def closeServerSessions_def Let_def)
  have r1: "reach server_init server_step ?s1" by (rule reach_step [OF demo_setup_fields(1) server_step.accept])
  have h1: "handlers ?s1 = [HSetup demo_request 0, HAuth]" by (simp add: admitConn_def keep demo_server_new demo_setup_fields(2))
  have "authorize ?s1 (User demo_request) (Password demo_request)"
    by (simp add: authorize_def admitConn_def keep demo_server_new demo_request_def)
  moreover have "\<not> MaxWorkersPerSession (options ?s1) < int (unat (WorkerTotal demo_request))"
    by (simp add: admitConn_def keep demo_server_new demo_request_def)
  ultimately have a: "authenticateConn 1 f ?s1 = go_on 1 (HFind demo_request) ?s1"
    using authenticateConn_read [OF demo_request_encoded(1) f, of 1 "[]" ?s1] demo_request_encoded(3) by simp
  have r2: "reach server_init server_step (go_on 1 (HFind demo_request) ?s1)"
    using reach_step [OF r1 server_step.auth [of 1 ?s1 f]] h1 a by simp
  let ?s2 = "go_on 1 (HFind demo_request) ?s1"
  have o2: "openSession [replicate 16 1] (Inr 5) 0 demo_request ?s2 = (Existing 0, ?s2)"
    by (simp add: openSession_def demo_request_def admitConn_def demo_setup_fields(3) keep)
  have "server_step ?s2 (findSession 1 demo_request (openSession [replicate 16 1] (Inr 5) 0 demo_request ?s2))"
    by (rule server_step.find_session) (simp_all add: h1, simp add: admitConn_def demo_setup_fields(3))
  then have "reach server_init server_step (go_on 1 (HWait demo_request 0) ?s2)"
    using reach_step [OF r2] unfolding o2 findSession_def by simp
  moreover have "handler_at (go_on 1 (HWait demo_request 0) ?s2) 1 (HWait demo_request 0)" by (simp add: h1)
  ultimately show ?thesis by blast
qed

text \<open>
  C14. No handler is ever stuck behind another: one that waits for a session can go on, or another
  handler is still setting that very session up and its return will let the waiting one go on.
\<close>

theorem waiting_worker_progress:
  assumes "reach server_init server_step s" "handler_at s i (HWait request a)"
  shows "(\<exists>s'. server_step s s' \<and> handlers s' ! i \<noteq> HWait request a) \<or>
    (\<exists>j request'. handler_at s j (HSetup request' a) \<and>
       (\<forall>err. ss_ready (objects (gotSession j request' a True (finishSession request' a err s)) ! a)))"
proof -
  note h = served_invD(3) [OF assms(1)]
  have a: "a < length (objects s)" using handlers_okD(3) [OF h, of "HWait request a"] assms(2) by (metis handler_ok.simps(2) nth_mem)
  show ?thesis
  proof (cases "ss_ready (objects s ! a)")
    case True
    have "handlers (gotSession i request a False (joinSession request a s)) ! i \<noteq> HWait request a"
      using assms(2) by (auto simp: gotSession_def joinSession_def refuseConnection_def split: option.splits)
    then show ?thesis using server_step.join [OF assms(2) True] by blast
  next
    case False
    then have "filter (setting a) (handlers s) \<noteq> []" using handlers_okD(4) [OF h a] by auto
    then obtain x where "x \<in> set (handlers s)" "setting a x" by (auto simp: filter_empty_conv)
    then obtain request' where "HSetup request' a \<in> set (handlers s)"
      by (cases "(a, x)" rule: setting.cases) simp_all
    then obtain j where "handler_at s j (HSetup request' a)" by (auto simp: in_set_conv_nth)
    moreover have "ss_ready (objects (gotSession j request' a True (finishSession request' a err s)) ! a)" for err
      using a by (auto simp: gotSession_def finishSession_def refuseConnection_def Let_def split: option.splits)
    ultimately show ?thesis by blast
  qed
qed

theorem waiting_worker_progress_witness:
  "\<exists>s :: u16 server. handler_at s 1 (HWait demo_request 0) \<and>
    ((\<exists>s'. server_step s s' \<and> handlers s' ! 1 \<noteq> HWait demo_request 0) \<or>
     (\<exists>j request'. handler_at s j (HSetup request' 0)))"
proof -
  from demo_waiting_worker obtain s :: "u16 server" where s: "reach server_init server_step s" "handler_at s 1 (HWait demo_request 0)"
    by blast
  then show ?thesis using waiting_worker_progress [OF s] by blast
qed

end
