(* ===== verification/Runtime_Transport.thy ===== *)
theory Runtime_Transport
  imports Prelude
begin

text \<open>
  The process-wide state of \<open>common/hydracore\<close>: the transport health that the platform reads and
  waits on (\<open>runtime_transport.go\<close>), the last TURN edge with its file (\<open>turn_edge.go\<close>), and the
  product contract with its older form (\<open>contract.go\<close>, \<open>legacy_capabilities.go\<close>). Every operation
  on the health state is one critical section; \<open>exec_op\<close> runs one, and a run is a list of them in
  the order in which they took the lock.
\<close>

section \<open>Transport health\<close>

definition TransportStateStarting :: string where "TransportStateStarting = ''starting''"
definition TransportStateWaitingUser :: string where "TransportStateWaitingUser = ''waiting_user''"
definition TransportStateHealthy :: string where "TransportStateHealthy = ''healthy''"
definition TransportStateDegraded :: string where "TransportStateDegraded = ''degraded''"
definition TransportStateRecovering :: string where "TransportStateRecovering = ''recovering''"
definition TransportStateFailed :: string where "TransportStateFailed = ''failed''"

lemmas transport_states = TransportStateStarting_def TransportStateWaitingUser_def TransportStateHealthy_def
  TransportStateDegraded_def TransportStateRecovering_def TransportStateFailed_def

text \<open>A failure is shared by pointer in the code and never written after it is made, so it is a value here.\<close>

record TransportFailure =
  tf_Stage :: string
  tf_Kind :: string
  tf_Code :: string
  tf_RetryAfterMS :: int
  tf_ChallengeID :: string
  tf_Domain :: string
  tf_Terminal :: bool

record TransportHealthSnapshot =
  TransportTag :: string
  State :: string
  ActiveLanes :: int
  TotalLanes :: int
  Demand :: bool
  LastProgressAt :: int
  LastAggregateProgressAt :: int
  LastInboundAt :: int
  ObservedAt :: int
  Applicable :: bool
  RuntimeGeneration :: u64
  NetworkGeneration :: u64
  QuicRttMillis :: int
  Failure :: "TransportFailure option"

definition zeroHealth :: TransportHealthSnapshot where
  "zeroHealth =
     \<lparr>TransportTag = [], State = [], ActiveLanes = 0, TotalLanes = 0, Demand = False, LastProgressAt = 0,
      LastAggregateProgressAt = 0, LastInboundAt = 0, ObservedAt = 0, Applicable = False,
      RuntimeGeneration = 0, NetworkGeneration = 0, QuicRttMillis = 0, Failure = None\<rparr>"

record RuntimeChallenge =
  rc_ID :: string
  rc_Kind :: string
  rc_URL :: string
  rc_CreatedAt :: int
  rc_ExpiresAt :: int

text \<open>
  \<open>healthChanged\<close> numbers the current channel, \<open>closes\<close> logs the calls of \<open>close\<close> on such channels and
  \<open>called\<close> the cancel callbacks that were run, which are numbers too.
\<close>

record runtimeTransportState =
  rt_generation :: u64
  health :: TransportHealthSnapshot
  challenge :: "RuntimeChallenge option"
  cancelChallenge :: "nat option"
  healthChanged :: nat
  closes :: "nat list"
  called :: "nat list"

definition initialState :: runtimeTransportState where
  "initialState =
     \<lparr>rt_generation = 0, health = zeroHealth, challenge = None, cancelChallenge = None, healthChanged = 0,
      closes = [], called = []\<rparr>"

definition notifyTransportHealthChangedLocked :: "runtimeTransportState \<Rightarrow> runtimeTransportState" where
  "notifyTransportHealthChangedLocked s =
     s\<lparr>closes := closes s @ [healthChanged s], healthChanged := healthChanged s + 1\<rparr>"

definition without_times :: "TransportHealthSnapshot \<Rightarrow> TransportHealthSnapshot" where
  "without_times h = h\<lparr>ObservedAt := 0, LastProgressAt := 0, LastAggregateProgressAt := 0, LastInboundAt := 0\<rparr>"

definition equalMaterialTransportHealth :: "TransportHealthSnapshot \<Rightarrow> TransportHealthSnapshot \<Rightarrow> bool" where
  "equalMaterialTransportHealth left right \<longleftrightarrow> without_times left = without_times right"

definition SetRuntimeGeneration :: "u64 \<Rightarrow> runtimeTransportState \<Rightarrow> runtimeTransportState" where
  "SetRuntimeGeneration generation s = s\<lparr>rt_generation := generation\<rparr>"

definition CurrentRuntimeGeneration :: "runtimeTransportState \<Rightarrow> u64" where
  "CurrentRuntimeGeneration s = rt_generation s"

text \<open>\<open>now\<close> is \<open>time.Now().UnixMilli()\<close> where the code reads the clock.\<close>

definition PublishTransportHealth ::
  "int \<Rightarrow> u64 \<Rightarrow> TransportHealthSnapshot \<Rightarrow> runtimeTransportState \<Rightarrow> runtimeTransportState" where
  "PublishTransportHealth now generation snapshot s =
     (let snapshot = (if State snapshot = [] then snapshot\<lparr>State := TransportStateStarting\<rparr> else snapshot);
          snapshot = (if ObservedAt snapshot = 0 then snapshot\<lparr>ObservedAt := now\<rparr> else snapshot) in
      if generation < rt_generation s then s
      else
        let s = s\<lparr>rt_generation := generation\<rparr>;
            snapshot = snapshot\<lparr>RuntimeGeneration := generation\<rparr>;
            changed = (\<not> equalMaterialTransportHealth (health s) snapshot);
            s = s\<lparr>health := snapshot\<rparr> in
        if changed then notifyTransportHealthChangedLocked s else s)"

definition TransportHealthChanged :: "runtimeTransportState \<Rightarrow> nat" where
  "TransportHealthChanged s = healthChanged s"

definition CurrentRuntimeChallenge :: "runtimeTransportState \<Rightarrow> RuntimeChallenge option" where
  "CurrentRuntimeChallenge s = challenge s"

text \<open>The health is read under one lock and the challenge under a later one: \<open>s\<close> and \<open>s'\<close> are the states then.\<close>

definition CurrentTransportHealth ::
  "int \<Rightarrow> runtimeTransportState \<Rightarrow> runtimeTransportState \<Rightarrow> TransportHealthSnapshot" where
  "CurrentTransportHealth now s s' =
     (let snapshot = (health s)\<lparr>RuntimeGeneration := rt_generation s\<rparr>;
          snapshot = (if State snapshot = [] then snapshot\<lparr>State := TransportStateStarting, ObservedAt := now\<rparr> else snapshot) in
      if CurrentRuntimeChallenge s' \<noteq> None then snapshot\<lparr>State := TransportStateWaitingUser\<rparr> else snapshot)"

definition PublishRuntimeChallenge ::
  "RuntimeChallenge \<Rightarrow> nat option \<Rightarrow> runtimeTransportState \<Rightarrow> runtimeTransportState" where
  "PublishRuntimeChallenge c cancel s =
     (let changed = (challenge s \<noteq> Some c);
          s = s\<lparr>challenge := Some c, cancelChallenge := cancel\<rparr> in
      if changed then notifyTransportHealthChangedLocked s else s)"

definition ClearRuntimeChallenge :: "string \<Rightarrow> runtimeTransportState \<Rightarrow> runtimeTransportState" where
  "ClearRuntimeChallenge cid s =
     (case challenge s of
        Some c \<Rightarrow>
          if cid = [] \<or> rc_ID c = cid
          then notifyTransportHealthChangedLocked (s\<lparr>challenge := None, cancelChallenge := None\<rparr>) else s
      | None \<Rightarrow> s)"

definition CancelRuntimeChallenge :: "string \<Rightarrow> runtimeTransportState \<Rightarrow> bool \<times> runtimeTransportState" where
  "CancelRuntimeChallenge cid s =
     (case challenge s of
        None \<Rightarrow> (False, s)
      | Some c \<Rightarrow>
          if cid \<noteq> [] \<and> rc_ID c \<noteq> cid then (False, s)
          else
            let cancel = cancelChallenge s;
                s = notifyTransportHealthChangedLocked (s\<lparr>challenge := None, cancelChallenge := None\<rparr>) in
            (True, case cancel of Some f \<Rightarrow> s\<lparr>called := called s @ [f]\<rparr> | None \<Rightarrow> s))"

text \<open>\<open>ResetRuntimeTransportState\<close> is two critical sections; \<open>resetHealth\<close> is the second.\<close>

definition resetHealth :: "int \<Rightarrow> runtimeTransportState \<Rightarrow> runtimeTransportState" where
  "resetHealth now s =
     notifyTransportHealthChangedLocked
       (s\<lparr>rt_generation := 0, health := zeroHealth\<lparr>State := TransportStateStarting, ObservedAt := now\<rparr>\<rparr>)"

definition ResetRuntimeTransportState :: "int \<Rightarrow> runtimeTransportState \<Rightarrow> runtimeTransportState" where
  "ResetRuntimeTransportState now s = resetHealth now (snd (CancelRuntimeChallenge [] s))"

section \<open>Runs\<close>

datatype runtime_op =
    SetGeneration u64
  | Publish int u64 TransportHealthSnapshot
  | PublishChallenge RuntimeChallenge "nat option"
  | ClearChallenge string
  | CancelChallenge string
  | ResetHealth int

fun exec_op :: "runtime_op \<Rightarrow> runtimeTransportState \<Rightarrow> runtimeTransportState" where
  "exec_op (SetGeneration g) s = SetRuntimeGeneration g s"
| "exec_op (Publish now g h) s = PublishTransportHealth now g h s"
| "exec_op (PublishChallenge c f) s = PublishRuntimeChallenge c f s"
| "exec_op (ClearChallenge cid) s = ClearRuntimeChallenge cid s"
| "exec_op (CancelChallenge cid) s = snd (CancelRuntimeChallenge cid s)"
| "exec_op (ResetHealth now) s = resetHealth now s"

definition run :: "runtime_op list \<Rightarrow> runtimeTransportState \<Rightarrow> runtimeTransportState" where
  "run ops s = fold exec_op ops s"

lemma run_simps [simp]: "run [] s = s" "run (op # ops) s = run ops (exec_op op s)" "run (ops @ ops') s = run ops' (run ops s)"
  by (simp_all add: run_def)

lemma run_Reset: "run [CancelChallenge [], ResetHealth now] s = ResetRuntimeTransportState now s"
  by (simp add: ResetRuntimeTransportState_def)

text \<open>No channel is closed twice, which would panic.\<close>

definition channels_ok :: "runtimeTransportState \<Rightarrow> bool" where
  "channels_ok s \<longleftrightarrow> distinct (closes s) \<and> (\<forall>c \<in> set (closes s). c < healthChanged s)"

text \<open>What a reader can see of a health snapshot apart from times and the runtime generation.\<close>

definition material :: "TransportHealthSnapshot \<Rightarrow> TransportHealthSnapshot" where
  "material h = (without_times h)\<lparr>RuntimeGeneration := 0\<rparr>"

definition quiet :: "runtimeTransportState \<Rightarrow> runtimeTransportState \<Rightarrow> bool" where
  "quiet s t \<longleftrightarrow> healthChanged t = healthChanged s \<and> closes t = closes s \<and> material (health t) = material (health s) \<and>
     challenge t = challenge s"

definition signals :: "runtimeTransportState \<Rightarrow> runtimeTransportState \<Rightarrow> bool" where
  "signals s t \<longleftrightarrow> healthChanged t = healthChanged s + 1 \<and> closes t = closes s @ [healthChanged s]"

lemma signals_notify: "healthChanged t = healthChanged s \<Longrightarrow> closes t = closes s \<Longrightarrow> signals s (notifyTransportHealthChangedLocked t)"
  by (simp add: signals_def notifyTransportHealthChangedLocked_def)

text \<open>Every operation either signals the change or changes nothing that a reader sees.\<close>

lemma exec_op_signals: "signals s (exec_op op s) \<or> quiet s (exec_op op s)"
proof (cases op)
  case (SetGeneration g)
  then show ?thesis by (simp add: SetRuntimeGeneration_def quiet_def)
next
  case (Publish now g h)
  define x where "x = (if State h = [] then h\<lparr>State := TransportStateStarting\<rparr> else h)"
  define y where "y = (if ObservedAt x = 0 then x\<lparr>ObservedAt := now\<rparr> else x)\<lparr>RuntimeGeneration := g\<rparr>"
  have e: "exec_op op s = (if g < rt_generation s then s
      else if without_times (health s) = without_times y then s\<lparr>rt_generation := g, health := y\<rparr>
      else notifyTransportHealthChangedLocked (s\<lparr>rt_generation := g, health := y\<rparr>))"
    using Publish by (simp add: PublishTransportHealth_def Let_def equalMaterialTransportHealth_def x_def y_def)
  have "quiet s (s\<lparr>rt_generation := g, health := y\<rparr>)" if "without_times (health s) = without_times y"
    using that by (simp add: quiet_def material_def)
  then show ?thesis by (simp add: e signals_notify quiet_def)
next
  case (ClearChallenge cid)
  then show ?thesis by (simp add: ClearRuntimeChallenge_def signals_notify quiet_def split: option.split)
next
  case (CancelChallenge cid)
  have "signals s (t\<lparr>called := x\<rparr>)" if "signals s t" for t x using that by (simp add: signals_def)
  then show ?thesis using CancelChallenge
    by (simp add: CancelRuntimeChallenge_def signals_notify quiet_def Let_def split: option.split)
qed (simp_all add: PublishRuntimeChallenge_def resetHealth_def signals_notify quiet_def Let_def)

lemma run_closes: "channels_ok s \<Longrightarrow> channels_ok (run ops s) \<and> set (closes s) \<subseteq> set (closes (run ops s))"
proof (induction ops arbitrary: s)
  case (Cons op ops)
  from exec_op_signals [of s op] Cons.prems have "channels_ok (exec_op op s) \<and> set (closes s) \<subseteq> set (closes (exec_op op s))"
    by (auto simp: signals_def quiet_def channels_ok_def less_Suc_eq)
  then show ?case using Cons.IH [of "exec_op op s"] by auto
qed simp

lemma run_quiet: "channels_ok s \<Longrightarrow> healthChanged s \<notin> set (closes (run ops s)) \<Longrightarrow> quiet s (run ops s)"
proof (induction ops arbitrary: s)
  case (Cons op ops)
  have ok: "channels_ok (exec_op op s)" using run_closes [of s "[op]"] Cons.prems(1) by simp
  have "\<not> signals s (exec_op op s)"
    using run_closes [OF ok, of ops] Cons.prems(2) by (auto simp: signals_def)
  then have "quiet s (exec_op op s)" using exec_op_signals by blast
  then show ?case using Cons.IH [OF ok] Cons.prems(2) by (auto simp: quiet_def)
qed (simp add: quiet_def)

lemma material_current:
  assumes "material (health s) = material (health t)" "challenge s' = challenge t'"
  shows "material (CurrentTransportHealth now s s') = material (CurrentTransportHealth now' t t')"
proof -
  have "State (health s) = State (health t)"
    using arg_cong [OF assms(1), of State] by (simp add: material_def without_times_def)
  moreover have "material (h\<lparr>RuntimeGeneration := g\<rparr>) = material h" "material (h\<lparr>State := x, ObservedAt := n\<rparr>) = (material h)\<lparr>State := x\<rparr>"
    "material (h\<lparr>State := x\<rparr>) = (material h)\<lparr>State := x\<rparr>" "material (h\<lparr>RuntimeGeneration := g, State := x, ObservedAt := n\<rparr>) = (material h)\<lparr>State := x\<rparr>"
    "material (h\<lparr>RuntimeGeneration := g, State := x\<rparr>) = (material h)\<lparr>State := x\<rparr>"
    for h :: TransportHealthSnapshot and g x n
    by (simp_all add: material_def without_times_def)
  ultimately show ?thesis
    using assms by (simp add: CurrentTransportHealth_def CurrentRuntimeChallenge_def Let_def)
qed

text \<open>While no reset and no other generation is set, publishing for an older generation changes nothing.\<close>

fun same_runtime :: "runtime_op \<Rightarrow> bool" where
  "same_runtime (SetGeneration g) = False"
| "same_runtime (ResetHealth now) = False"
| "same_runtime _ = True"

fun published_before :: "u64 \<Rightarrow> runtime_op \<Rightarrow> bool" where
  "published_before g (Publish now g' h) \<longleftrightarrow> g' < g"
| "published_before g _ \<longleftrightarrow> False"

lemma exec_op_generation:
  "same_runtime op \<Longrightarrow> rt_generation s \<le> rt_generation (exec_op op s)"
  by (cases op) (simp_all add: PublishTransportHealth_def PublishRuntimeChallenge_def ClearRuntimeChallenge_def
      CancelRuntimeChallenge_def notifyTransportHealthChangedLocked_def Let_def not_less split: option.split)

lemma run_drops_stale:
  "\<forall>op \<in> set ops. same_runtime op \<Longrightarrow> g \<le> rt_generation s \<Longrightarrow>
     run ops s = run (filter (\<lambda>op. \<not> published_before g op) ops) s"
proof (induction ops arbitrary: s)
  case (Cons op ops)
  have "g \<le> rt_generation (exec_op op s)" using exec_op_generation [of op s] Cons.prems by simp
  moreover have "exec_op op s = s" if "published_before g op"
    using that Cons.prems(2) by (cases op) (simp_all add: PublishTransportHealth_def Let_def)
  ultimately show ?case using Cons.IH Cons.prems by auto
qed simp

section \<open>The TURN edge record\<close>

record TurnEdgeRecord =
  te_Endpoint :: string
  te_TransportTag :: string
  te_RuntimeGeneration :: u64
  te_UpdatedAt :: int

definition zeroEdge :: TurnEdgeRecord where
  "zeroEdge = \<lparr>te_Endpoint = [], te_TransportTag = [], te_RuntimeGeneration = 0, te_UpdatedAt = 0\<rparr>"

text \<open>
  A file holds a JSON object of strings and numbers, or bytes that are not one. \<open>json.Marshal\<close> leaves
  out the empty fields; \<open>json.Unmarshal\<close> sets the fields it finds and fails on one of the wrong type.
  Keys are compared exactly, as for every file that this store writes.
\<close>

datatype json = JString string | JNumber int
datatype file_content = Object "(string \<times> json) list" | Other bytes

definition omit :: "bool \<Rightarrow> string \<Rightarrow> json \<Rightarrow> (string \<times> json) list" where
  "omit absent key v = (if absent then [] else [(key, v)])"

definition Marshal :: "TurnEdgeRecord \<Rightarrow> file_content" where
  "Marshal r = Object
     (omit (te_Endpoint r = []) ''endpoint'' (JString (te_Endpoint r)) @
      omit (te_TransportTag r = []) ''transport_tag'' (JString (te_TransportTag r)) @
      omit (te_RuntimeGeneration r = 0) ''runtime_generation'' (JNumber (uint (te_RuntimeGeneration r))) @
      omit (te_UpdatedAt r = 0) ''updated_at'' (JNumber (te_UpdatedAt r)))"

definition set_field :: "string \<times> json \<Rightarrow> TurnEdgeRecord \<Rightarrow> TurnEdgeRecord option" where
  "set_field f r =
     (case f of
        (key, JString x) \<Rightarrow>
          if key = ''endpoint'' then Some (r\<lparr>te_Endpoint := x\<rparr>)
          else if key = ''transport_tag'' then Some (r\<lparr>te_TransportTag := x\<rparr>)
          else if key = ''runtime_generation'' \<or> key = ''updated_at'' then None
          else Some r
      | (key, JNumber n) \<Rightarrow>
          if key = ''runtime_generation'' then (if 0 \<le> n \<and> n < 2 ^ 64 then Some (r\<lparr>te_RuntimeGeneration := word_of_int n\<rparr>) else None)
          else if key = ''updated_at'' then (if - (2 ^ 63) \<le> n \<and> n < 2 ^ 63 then Some (r\<lparr>te_UpdatedAt := n\<rparr>) else None)
          else if key = ''endpoint'' \<or> key = ''transport_tag'' then None
          else Some r)"

fun set_fields :: "(string \<times> json) list \<Rightarrow> TurnEdgeRecord \<Rightarrow> TurnEdgeRecord option" where
  "set_fields [] r = Some r"
| "set_fields (f # fs) r = (case set_field f r of None \<Rightarrow> None | Some r \<Rightarrow> set_fields fs r)"

definition Unmarshal :: "file_content \<Rightarrow> TurnEdgeRecord option" where
  "Unmarshal content = (case content of Object fs \<Rightarrow> set_fields fs zeroEdge | Other _ \<Rightarrow> None)"

text \<open>The store with the file system it writes to; \<open>io\<close> tells which of the file operations succeed.\<close>

record turnEdgeStore =
  te_record :: TurnEdgeRecord
  te_path :: string
  te_files :: "string \<rightharpoonup> file_content"

record file_io =
  mkdir_ok :: bool
  write_ok :: bool
  rename_ok :: bool

definition SetTurnEdgeStorePath :: "string \<Rightarrow> turnEdgeStore \<Rightarrow> turnEdgeStore" where
  "SetTurnEdgeStorePath p store = store\<lparr>te_path := p\<rparr>"

definition RecordTurnEdgeEndpoint ::
  "file_io \<Rightarrow> int \<Rightarrow> runtimeTransportState \<Rightarrow> string \<Rightarrow> string \<Rightarrow> u64 \<Rightarrow> turnEdgeStore \<Rightarrow> turnEdgeStore" where
  "RecordTurnEdgeEndpoint io now s endpoint transportTag runtimeGeneration store =
     (if endpoint = [] then store
      else if runtimeGeneration \<noteq> CurrentRuntimeGeneration s then store
      else
        let store = store\<lparr>te_record := \<lparr>te_Endpoint = endpoint, te_TransportTag = transportTag,
                                        te_RuntimeGeneration = runtimeGeneration, te_UpdatedAt = now\<rparr>\<rparr> in
        if te_path store = [] then store
        else
          let content = Marshal (te_record store) in
          if \<not> mkdir_ok io then store
          else
            let temporary = te_path store @ ''.tmp'' in
            if \<not> write_ok io then store\<lparr>te_files := (te_files store)(temporary \<mapsto> Other [])\<rparr>
            else
              let store = store\<lparr>te_files := (te_files store)(temporary \<mapsto> content)\<rparr> in
              if \<not> rename_ok io then store
              else store\<lparr>te_files := (te_files store)(temporary := None, te_path store \<mapsto> content)\<rparr>)"

text \<open>\<open>read_ok\<close> is whether reading an existing file succeeds.\<close>

definition TurnEdgeAttribution :: "bool \<Rightarrow> turnEdgeStore \<Rightarrow> TurnEdgeRecord" where
  "TurnEdgeAttribution read_ok store =
     (if te_path store = [] then te_record store
      else case te_files store (te_path store) of
        Some content \<Rightarrow>
          if read_ok then
            (case Unmarshal content of
               Some r \<Rightarrow> if te_Endpoint r \<noteq> [] then r else zeroEdge
             | None \<Rightarrow> zeroEdge)
          else zeroEdge
      | None \<Rightarrow> zeroEdge)"

definition TurnEdgeEndpoint :: "bool \<Rightarrow> turnEdgeStore \<Rightarrow> string" where
  "TurnEdgeEndpoint read_ok store = te_Endpoint (TurnEdgeAttribution read_ok store)"

definition resetTurnEdgeStore :: "turnEdgeStore \<Rightarrow> turnEdgeStore" where
  "resetTurnEdgeStore store = store\<lparr>te_record := zeroEdge\<rparr>"

lemma Unmarshal_Marshal:
  assumes "- (2 ^ 63) \<le> te_UpdatedAt r" "te_UpdatedAt r < 2 ^ 63"
  shows "Unmarshal (Marshal r) = Some r"
proof -
  have g: "uint (te_RuntimeGeneration r) < 18446744073709551616" using uint_lt2p [of "te_RuntimeGeneration r"] by simp
  have one: "set_fields (omit e k v @ fs) x = (if e then set_fields fs x else case set_field (k, v) x of None \<Rightarrow> None | Some x \<Rightarrow> set_fields fs x)"
    for e k v fs x by (simp add: omit_def)
  note last = one [of _ _ _ "[]", simplified]
  show ?thesis
    using assms g by (cases r) (simp add: Unmarshal_def Marshal_def one last set_field_def zeroEdge_def)
qed

section \<open>The product contract\<close>

text \<open>
  The four files \<open>call_client.go\<close>, \<open>call_disabled.go\<close>, \<open>call_enabled.go\<close> and \<open>call_server.go\<close> give the
  constants of a build; their build constraints decide which of them are compiled in.
\<close>

record distribution =
  callEnabled :: bool
  callClientEnabled :: bool
  callServerEnabled :: bool
  distributionRole :: string
  callPlatforms :: "string list"
  callModes :: "string list"

definition call_client :: distribution where
  "call_client = \<lparr>callEnabled = True, callClientEnabled = True, callServerEnabled = False, distributionRole = ''client'',
     callPlatforms = [''vk''], callModes = [''vk_parasite'']\<rparr>"

definition call_disabled :: distribution where
  "call_disabled = \<lparr>callEnabled = False, callClientEnabled = False, callServerEnabled = False, distributionRole = ''base'',
     callPlatforms = [], callModes = []\<rparr>"

definition call_enabled :: distribution where
  "call_enabled = \<lparr>callEnabled = True, callClientEnabled = True, callServerEnabled = True, distributionRole = ''combined'',
     callPlatforms = [''dion'', ''telemost'', ''vk'', ''wbstream''], callModes = [''p2p'', ''vk_parasite'']\<rparr>"

definition call_server :: distribution where
  "call_server = \<lparr>callEnabled = True, callClientEnabled = False, callServerEnabled = True, distributionRole = ''vps'',
     callPlatforms = [''vk''], callModes = [''vk_parasite'']\<rparr>"

definition compiled :: "bool \<Rightarrow> bool \<Rightarrow> bool \<Rightarrow> distribution list" where
  "compiled with_call with_call_client with_call_server =
     (if with_call_client \<and> \<not> with_call_server then [call_client] else []) @
     (if \<not> with_call \<and> \<not> with_call_client \<and> \<not> with_call_server then [call_disabled] else []) @
     (if (with_call \<and> \<not> with_call_client \<and> \<not> with_call_server) \<or> (with_call_client \<and> with_call_server) then [call_enabled] else []) @
     (if with_call_server \<and> \<not> with_call_client then [call_server] else [])"

definition APIVersion :: int where "APIVersion = 2"
definition ContractVersion :: int where "ContractVersion = 1"
definition CoreID :: string where "CoreID = ''io.hydrabox.hydracore''"

definition SupportsCallMode :: "distribution \<Rightarrow> string \<Rightarrow> bool" where
  "SupportsCallMode d mode =
     (let mode = (if mode \<noteq> ''vk_parasite'' then ''p2p'' else mode) in list_ex (\<lambda>m. m = mode) (callModes d))"

record ProductContract =
  pc_Version :: int
  pc_CoreID :: string
  pc_Role :: string
  pc_CallsMode :: string

definition Contract :: "distribution \<Rightarrow> ProductContract" where
  "Contract d =
     (let contract = \<lparr>pc_Version = ContractVersion, pc_CoreID = CoreID, pc_Role = distributionRole d, pc_CallsMode = []\<rparr> in
      if SupportsCallMode d ''vk_parasite'' then contract\<lparr>pc_CallsMode := ''vk_parasite''\<rparr> else contract)"

record LegacyCapabilities =
  lc_APIVersion :: int
  lc_CoreID :: string
  lc_CoreName :: string
  lc_Role :: string
  lc_Call :: bool
  lc_CallVKParasite :: bool
  lc_CallPlatforms :: "string list"
  lc_CallModes :: "string list"

definition LegacyCapabilitiesDocument :: "distribution \<Rightarrow> LegacyCapabilities" where
  "LegacyCapabilitiesDocument d =
     (let callCapable = 0 < length (callModes d);
          platforms = (if callCapable then [''vk''] else []) in
      \<lparr>lc_APIVersion = APIVersion, lc_CoreID = CoreID, lc_CoreName = ''HydraCore'', lc_Role = distributionRole d,
       lc_Call = callCapable, lc_CallVKParasite = SupportsCallMode d ''vk_parasite'',
       lc_CallPlatforms = platforms, lc_CallModes = callModes d\<rparr>)"

section \<open>Properties\<close>

text \<open>
  C20. No lost wake-up: a reader takes the change channel, then reads the health and the challenge at
  any later points; as long as that channel is still open, reading again would show nothing new, apart
  from time stamps and the generation number. No channel is ever closed twice.
\<close>

theorem health_watch_no_lost_wakeup:
  assumes "s0 = run before initialState" "s1 = run a s0" "s2 = run b s1" "t = run c s2"
    and "TransportHealthChanged s0 \<notin> set (closes t)"
  shows "material (CurrentTransportHealth now s1 s2) = material (CurrentTransportHealth now' t t) \<and> distinct (closes t)"
proof -
  have ok: "channels_ok (run ops initialState)" for ops
    using run_closes [of initialState ops] by (simp add: initialState_def channels_ok_def)
  have open_: "healthChanged s0 \<notin> set (closes s1)" "healthChanged s0 \<notin> set (closes s2)" "healthChanged s0 \<notin> set (closes t)"
    using assms(5) run_closes [of s1 b] run_closes [of s2 c] ok [of "before @ a"] ok [of "before @ a @ b"]
    by (auto simp: assms(1-4) TransportHealthChanged_def)
  have "quiet s0 s1" "quiet s0 s2" "quiet s0 t"
    using run_quiet [OF ok, of before a] run_quiet [OF ok, of before "a @ b"] run_quiet [OF ok, of before "a @ b @ c"] open_
    by (simp_all add: assms(1-4))
  then show ?thesis
    using material_current [of s1 t s2 t] ok [of "before @ a @ b @ c"] by (simp add: quiet_def channels_ok_def assms(1-4))
qed

theorem health_watch_no_lost_wakeup_witness:
  "let h = zeroHealth\<lparr>State := ''healthy'', ObservedAt := 7\<rparr>;
       s0 = run [SetGeneration 3, Publish 7 3 h] initialState;
       t = run [Publish 9 3 (h\<lparr>ObservedAt := 9\<rparr>)] s0 in
     TransportHealthChanged s0 \<notin> set (closes t) \<and> material (CurrentTransportHealth 1 s0 s0) = material (CurrentTransportHealth 2 t t)"
proof -
  let ?h = "zeroHealth\<lparr>State := ''healthy'', ObservedAt := 7\<rparr>"
  let ?s = "run [SetGeneration 3, Publish 7 3 ?h] initialState"
  let ?t = "run [Publish 9 3 (?h\<lparr>ObservedAt := 9\<rparr>)] ?s"
  have "TransportHealthChanged ?s \<notin> set (closes ?t)"
    by (simp add: zeroHealth_def initialState_def SetRuntimeGeneration_def PublishTransportHealth_def Let_def
        equalMaterialTransportHealth_def without_times_def notifyTransportHealthChangedLocked_def TransportHealthChanged_def)
  then show ?thesis
    using health_watch_no_lost_wakeup [of ?s "[SetGeneration 3, Publish 7 3 ?h]" ?s "[]" ?s "[]" ?t _ 1 2] by (simp add: Let_def del: run_simps(2))
qed

text \<open>
  A client left over from an older runtime cannot show its health under a newer one: once a
  generation is set, and until it is set again or reset, a run has the same effect without the
  snapshots that were published for older generations.
\<close>

lemma stale_health_ignored:
  assumes "\<forall>op \<in> set ops. same_runtime op"
  shows "run ops (SetRuntimeGeneration g s) = run (filter (\<lambda>op. \<not> published_before g op) ops) (SetRuntimeGeneration g s)"
  using run_drops_stale [OF assms, of g "SetRuntimeGeneration g s"] by (simp add: SetRuntimeGeneration_def)

lemma stale_health_ignored_witness:
  "run [Publish 1 4 (zeroHealth\<lparr>State := ''failed''\<rparr>), ClearChallenge []] (SetRuntimeGeneration 5 initialState) =
   run [ClearChallenge []] (SetRuntimeGeneration 5 initialState)"
  using stale_health_ignored [of "[Publish 1 4 (zeroHealth\<lparr>State := ''failed''\<rparr>), ClearChallenge []]" 5 initialState] by simp

text \<open>
  The edge record: an allocation of the current runtime is what a later process reads back, one of
  another runtime changes nothing, and when a file operation fails the file still gives the previous
  record.
\<close>

lemma turn_edge_recorded:
  assumes "endpoint \<noteq> []" "- (2 ^ 63) \<le> now" "now < 2 ^ 63"
  shows "let store' = RecordTurnEdgeEndpoint io now s endpoint tag g store in
    (g \<noteq> CurrentRuntimeGeneration s \<longrightarrow> store' = store) \<and>
    (g = CurrentRuntimeGeneration s \<longrightarrow> te_path store = [] \<or> mkdir_ok io \<and> write_ok io \<and> rename_ok io \<longrightarrow>
       TurnEdgeAttribution True store' = \<lparr>te_Endpoint = endpoint, te_TransportTag = tag, te_RuntimeGeneration = g, te_UpdatedAt = now\<rparr>) \<and>
    (te_path store \<noteq> [] \<longrightarrow> \<not> (mkdir_ok io \<and> write_ok io \<and> rename_ok io) \<longrightarrow>
       TurnEdgeAttribution r store' = TurnEdgeAttribution r store)"
proof -
  have "p \<noteq> p @ ''.tmp''" for p :: string by simp
  then show ?thesis
    using assms by (auto simp: RecordTurnEdgeEndpoint_def TurnEdgeAttribution_def Unmarshal_Marshal Let_def)
qed

lemma turn_edge_recorded_witness:
  "TurnEdgeAttribution True
     (RecordTurnEdgeEndpoint \<lparr>mkdir_ok = True, write_ok = True, rename_ok = True\<rparr> 5 initialState ''udp://1.2.3.4:3478'' ''vk'' 0
        \<lparr>te_record = zeroEdge, te_path = ''turn_edge.json'', te_files = Map.empty\<rparr>) =
   \<lparr>te_Endpoint = ''udp://1.2.3.4:3478'', te_TransportTag = ''vk'', te_RuntimeGeneration = 0, te_UpdatedAt = 5\<rparr>"
  using turn_edge_recorded [of "''udp://1.2.3.4:3478''" 5 "\<lparr>mkdir_ok = True, write_ok = True, rename_ok = True\<rparr>" initialState "''vk''" 0
      "\<lparr>te_record = zeroEdge, te_path = ''turn_edge.json'', te_files = Map.empty\<rparr>"]
  by (simp add: Let_def CurrentRuntimeGeneration_def initialState_def)

text \<open>
  Every combination of build tags compiles exactly one set of call constants, and the contract and
  the older capability document of that build agree.
\<close>

lemma build_contract_consistent:
  "\<exists>d. compiled with_call with_call_client with_call_server = [d] \<and>
     pc_Role (Contract d) = lc_Role (LegacyCapabilitiesDocument d) \<and> pc_CoreID (Contract d) = lc_CoreID (LegacyCapabilitiesDocument d) \<and>
     (pc_CallsMode (Contract d) = ''vk_parasite'') = lc_CallVKParasite (LegacyCapabilitiesDocument d) \<and>
     lc_CallVKParasite (LegacyCapabilitiesDocument d) = (with_call \<or> with_call_client \<or> with_call_server) \<and>
     callClientEnabled d = (with_call_client \<or> with_call \<and> \<not> with_call_server) \<and>
     set (lc_CallPlatforms (LegacyCapabilitiesDocument d)) \<subseteq> set (callPlatforms d)"
  by (cases with_call; cases with_call_client; cases with_call_server)
    (simp_all add: compiled_def call_client_def call_server_def call_enabled_def call_disabled_def Contract_def
      LegacyCapabilitiesDocument_def SupportsCallMode_def Let_def)

section \<open>Where code and comments part\<close>

text \<open>
  A start of the service resets the state and then sets the generation. A health snapshot of the old
  runtime that arrives in between is accepted and afterwards shown under the new generation.
\<close>

lemma reset_window_admits_stale:
  assumes "State h \<noteq> []" "challenge s = None"
  shows "let t = run [CancelChallenge [], ResetHealth now, Publish now' old h, SetGeneration new] s in
    State (CurrentTransportHealth n t t) = State h \<and> RuntimeGeneration (CurrentTransportHealth n t t) = new"
  using assms
  by (simp add: CancelRuntimeChallenge_def resetHealth_def PublishTransportHealth_def SetRuntimeGeneration_def CurrentTransportHealth_def
      CurrentRuntimeChallenge_def notifyTransportHealthChangedLocked_def Let_def)

text \<open>With a path set, a record that could not be written is not served to the process that made it.\<close>

lemma unwritable_edge_lost:
  assumes "te_path store \<noteq> []" "te_files store (te_path store) = None" "\<not> mkdir_ok io"
  shows "TurnEdgeEndpoint r (RecordTurnEdgeEndpoint io now s endpoint tag g store) = []"
  using assms by (simp add: TurnEdgeEndpoint_def TurnEdgeAttribution_def RecordTurnEdgeEndpoint_def zeroEdge_def Let_def)

end
