(* ===== verification/Vk_Credentials.thy ===== *)
theory Vk_Credentials
  imports Go_Net
begin

text \<open>
  The provider of TURN credentials of \<open>transport/call/vk\<close> (\<open>turn_credentials.go\<close>,
  \<open>control_plane_error.go\<close>, and the end of a captcha in \<open>vk_auth.go\<close>): the cache, the invalidation
  after repeated failures, and the limiter that all providers of the process share. Every call of
  \<open>Fetch\<close> that misses the cache starts a flight; a flight is a sequence of critical sections, and
  the step relation interleaves them with time and with \<open>Invalidate\<close>. The single-flight group of
  \<open>golang.org/x/sync\<close> may merge flights for one link, which only leaves steps out.
\<close>

section \<open>Control-plane errors\<close>

definition ErrVKFloodControl :: go_error where "ErrVKFloodControl = New ''VK API flood control''"
definition ErrVKCaptchaRequired :: go_error where "ErrVKCaptchaRequired = New ''VK captcha required''"

definition newControlPlaneError :: "string \<Rightarrow> string \<Rightarrow> string \<Rightarrow> go_error \<Rightarrow> go_error" where
  "newControlPlaneError stage kind code cause =
     ControlPlane (ControlPlaneError stage kind code 0 [] False (Some cause))"

text \<open>\<open>errors.As\<close> for the control-plane error: the first one along the chain of wrapped errors.\<close>

fun AsControlPlaneError :: "go_error \<Rightarrow> go_error ControlPlaneError option" where
  "AsControlPlaneError (Errorf m e) = AsControlPlaneError e"
| "AsControlPlaneError (ControlPlane c) = Some c"
| "AsControlPlaneError _ = None"

datatype CaptchaResult = CaptchaSolved string | CaptchaCancelled | CaptchaTimedOut | CaptchaContextCancelled | CaptchaProxyFailed

text \<open>The end of \<open>solveVKCaptcha\<close>: what an outcome becomes; \<open>ctx_done\<close> is \<open>ctx.Err() != nil\<close>.\<close>

definition captchaResult :: "string \<Rightarrow> bool \<Rightarrow> CaptchaResult \<Rightarrow> go_error + string" where
  "captchaResult challengeID ctx_done outcome =
     (case outcome of CaptchaSolved token \<Rightarrow> Inr token
      | _ \<Rightarrow>
        let (code, terminal) =
              (case outcome of
                 CaptchaTimedOut \<Rightarrow> (''vk.captcha.timeout'', False)
               | CaptchaProxyFailed \<Rightarrow> (''vk.captcha.proxy_failed'', False)
               | CaptchaCancelled \<Rightarrow> (''vk.captcha.proxy_gone'', False)
               | _ \<Rightarrow> (''vk.captcha.cancelled'', \<not> ctx_done)) in
        Inl (ControlPlane (ControlPlaneError ''vk_legacy'' ''captcha'' code 0 challengeID terminal (Some ErrVKCaptchaRequired))))"

section \<open>The provider\<close>

definition turnCredentialCacheTTL :: duration where "turnCredentialCacheTTL = 9 * Minute"
definition turnCredentialMinimumReuse :: duration where "turnCredentialMinimumReuse = 15 * Second"
definition vkControlPlaneMinSpacing :: duration where "vkControlPlaneMinSpacing = 3 * Second"
definition vkControlPlaneMaxSpacing :: duration where "vkControlPlaneMaxSpacing = 6 * Second"
definition vkFloodControlCooldown :: duration where "vkFloodControlCooldown = 2 * Minute"
definition authFailureWindow :: duration where "authFailureWindow = 10 * Second"
definition authFailureThreshold :: nat where "authFailureThreshold = 3"

record TurnServer =
  ts_URLs :: "gostring list"
  ts_Username :: gostring
  ts_Credential :: gostring

record cachedTURNCredentials =
  cc_server :: TurnServer
  cc_expires :: time
  cc_refreshAfter :: time

record TURNCredentialProvider =
  cache :: "gostring \<rightharpoonup> cachedTURNCredentials"
  authFailures :: "gostring \<rightharpoonup> time list"

definition NewTURNCredentialProvider :: TURNCredentialProvider where
  "NewTURNCredentialProvider = \<lparr>cache = Map.empty, authFailures = Map.empty\<rparr>"

text \<open>\<open>gate\<close> counts the tokens in the channel \<open>fetchGate\<close>. The zero \<open>time.Time\<close> lies in the year 1.\<close>

definition zeroTime :: time where "zeroTime = - 62135596800 * Second"

record vkControlPlaneLimiter =
  fetchGate :: nat
  floodUntil :: time
  lastFetch :: time

definition newVKControlPlaneLimiter :: vkControlPlaneLimiter where
  "newVKControlPlaneLimiter = \<lparr>fetchGate = 1, floodUntil = zeroTime, lastFetch = zeroTime\<rparr>"

definition cached :: "time \<Rightarrow> gostring \<Rightarrow> TURNCredentialProvider \<Rightarrow> TurnServer option \<times> TURNCredentialProvider" where
  "cached now joinLink p =
     (case cache p joinLink of
        Some entry \<Rightarrow>
          if cc_expires entry < now then (None, p\<lparr>cache := (cache p)(joinLink := None)\<rparr>)
          else (Some (cc_server entry), p)
      | None \<Rightarrow> (None, p\<lparr>cache := (cache p)(joinLink := None)\<rparr>))"

definition store :: "time \<Rightarrow> gostring \<Rightarrow> TurnServer \<Rightarrow> TURNCredentialProvider \<Rightarrow> TURNCredentialProvider" where
  "store now joinLink srv p =
     p\<lparr>cache := (cache p)(joinLink \<mapsto> \<lparr>cc_server = srv, cc_expires = now + turnCredentialCacheTTL,
                                       cc_refreshAfter = now + turnCredentialMinimumReuse\<rparr>)\<rparr>"

definition Invalidate :: "time \<Rightarrow> gostring \<Rightarrow> TURNCredentialProvider \<Rightarrow> TURNCredentialProvider" where
  "Invalidate now joinLink p =
     (let old = (case authFailures p joinLink of None \<Rightarrow> [] | Some ts \<Rightarrow> ts);
          failures = filter (\<lambda>observed. now - observed \<le> authFailureWindow) old @ [now];
          p = p\<lparr>authFailures := (authFailures p)(joinLink \<mapsto> failures)\<rparr> in
      if length failures < authFailureThreshold then p
      else
        let p = p\<lparr>authFailures := (authFailures p)(joinLink := None)\<rparr> in
        case cache p joinLink of
          Some entry \<Rightarrow> if now < cc_refreshAfter entry then p else p\<lparr>cache := (cache p)(joinLink := None)\<rparr>
        | None \<Rightarrow> p\<lparr>cache := (cache p)(joinLink := None)\<rparr>)"

text \<open>\<open>hash/fnv\<close>, 32-bit FNV-1a.\<close>

definition fnv32a :: "bytes \<Rightarrow> u32" where
  "fnv32a bs = foldl (\<lambda>h b. (h XOR ucast b) * 16777619) 2166136261 bs"

definition vkControlPlaneSpacing :: "gostring \<Rightarrow> duration" where
  "vkControlPlaneSpacing joinLink =
     (let span = vkControlPlaneMaxSpacing - vkControlPlaneMinSpacing in
      if span \<le> 0 then vkControlPlaneMinSpacing
      else vkControlPlaneMinSpacing + uint (fnv32a joinLink mod word_of_int (span div Millisecond + 1)) * Millisecond)"

definition activateFloodControl :: "time \<Rightarrow> vkControlPlaneLimiter \<Rightarrow> vkControlPlaneLimiter" where
  "activateFloodControl now l =
     (let until = now + vkFloodControlCooldown in
      if floodUntil l < until then l\<lparr>floodUntil := until\<rparr> else l)"

text \<open>\<open>Duration.Round\<close> of a non-negative duration, half away from zero.\<close>

definition Round :: "duration \<Rightarrow> duration \<Rightarrow> duration" where
  "Round d m = (let r = d mod m in if r + r < m then d - r else d - r + m)"

definition floodControlError :: "time \<Rightarrow> vkControlPlaneLimiter \<Rightarrow> go_error option" where
  "floodControlError now l =
     (if \<not> now < floodUntil l then None
      else
        let remaining = Round (floodUntil l - now) Second in
        Some (ControlPlane (ControlPlaneError ''vk_auth'' ''rate_limit'' ''9'' remaining [] False (Some ErrVKFloodControl))))"

text \<open>The two critical sections of \<open>waitForFetchSpacing\<close>: how long to wait, and noting the fetch.\<close>

definition fetchWait :: "time \<Rightarrow> gostring \<Rightarrow> vkControlPlaneLimiter \<Rightarrow> duration" where
  "fetchWait now joinLink l = lastFetch l + vkControlPlaneSpacing joinLink - now"

definition noteFetch :: "time \<Rightarrow> vkControlPlaneLimiter \<Rightarrow> vkControlPlaneLimiter" where
  "noteFetch now l = l\<lparr>lastFetch := now\<rparr>"

section \<open>Asking VK\<close>

record VKAuthParams =
  ap_SessionKey :: gostring
  ap_ApplicationKey :: gostring
  ap_APIBaseURL :: gostring
  ap_JoinLink :: gostring

text \<open>
  The outcome of the HTTP exchange: the request could not be built, the exchange failed, or a status
  with the outcome of reading the body and of decoding it.
\<close>

datatype http_outcome = BadRequest go_error | NoResponse go_error | Response int "go_error + TurnServer option"

text \<open>
  \<open>FetchTURNCredentials\<close>; \<open>auth\<close> is the result of \<open>RunVKAuthContext\<close> with its JSON decoded, and \<open>post\<close>
  the exchange with the given API base.
\<close>

definition FetchTURNCredentials ::
  "go_error + VKAuthParams option \<Rightarrow> (VKAuthParams \<Rightarrow> http_outcome) \<Rightarrow> go_error + TurnServer" where
  "FetchTURNCredentials auth post =
     (case auth of
        Inl err \<Rightarrow>
          (case AsControlPlaneError err of Some _ \<Rightarrow> Inl err
           | None \<Rightarrow> Inl (newControlPlaneError ''vk_auth'' ''request'' ''auth_failed'' err))
      | Inr None \<Rightarrow>
          Inl (newControlPlaneError ''vk_auth'' ''response'' ''invalid_parameters'' (New ''VK TURN auth returned invalid parameters''))
      | Inr (Some params) \<Rightarrow>
          if ap_APIBaseURL params = [] \<or> ap_SessionKey params = [] \<or> ap_ApplicationKey params = [] \<or> ap_JoinLink params = [] then
            Inl (newControlPlaneError ''vk_auth'' ''response'' ''incomplete_parameters'' (New ''VK TURN auth returned incomplete parameters''))
          else case post params of
            BadRequest err \<Rightarrow> Inl err
          | NoResponse err \<Rightarrow> Inl (newControlPlaneError ''vk_join_conversation'' ''transport'' ''request_failed'' err)
          | Response status body \<Rightarrow>
              if status < 200 \<or> 300 \<le> status then
                Inl (newControlPlaneError ''vk_join_conversation'' ''http'' (Itoa status) (New (''VK TURN join returned HTTP '' @ Itoa status)))
              else case body of
                Inl err \<Rightarrow> Inl err
              | Inr None \<Rightarrow>
                  Inl (newControlPlaneError ''vk_join_conversation'' ''response'' ''invalid_json'' (New ''VK TURN join returned invalid JSON''))
              | Inr (Some srv) \<Rightarrow>
                  if ts_URLs srv = [] \<or> ts_Username srv = [] \<or> ts_Credential srv = [] then
                    Inl (newControlPlaneError ''vk_join_conversation'' ''response'' ''incomplete_credentials''
                      (New ''VK TURN join returned incomplete credentials''))
                  else Inr srv)"

section \<open>Flights\<close>

text \<open>Where a flight stands. \<open>Releasing\<close> still holds the gate.\<close>

datatype flight =
    Queued
  | AtGate
  | Holding
  | Guarded
  | Spacing
  | Sleeping time
  | Noting
  | Fetching
  | Releasing "go_error + TurnServer"
  | Finished "go_error + TurnServer"

datatype event = Started time gostring | Flooded time

record vk_system =
  clock :: time
  limiter :: vkControlPlaneLimiter
  providers :: "nat \<Rightarrow> TURNCredentialProvider"
  flights :: "(nat \<times> gostring \<times> flight) list"
  events :: "event list"
  fetched :: "(nat \<times> gostring \<times> TurnServer \<times> time) set"

definition vk_init :: "vk_system \<Rightarrow> bool" where
  "vk_init s \<longleftrightarrow> limiter s = newVKControlPlaneLimiter \<and> providers s = (\<lambda>_. NewTURNCredentialProvider) \<and>
     flights s = [] \<and> events s = [] \<and> fetched s = {} \<and> 0 \<le> clock s"

definition set_provider :: "nat \<Rightarrow> TURNCredentialProvider \<Rightarrow> vk_system \<Rightarrow> vk_system" where
  "set_provider i p s = s\<lparr>providers := (providers s)(i := p)\<rparr>"

definition go_flight :: "nat \<Rightarrow> flight \<Rightarrow> vk_system \<Rightarrow> vk_system" where
  "go_flight f st s = (case flights s ! f of (i, link, _) \<Rightarrow> s\<lparr>flights := (flights s)[f := (i, link, st)]\<rparr>)"

abbreviation flight_at :: "vk_system \<Rightarrow> nat \<Rightarrow> nat \<Rightarrow> gostring \<Rightarrow> flight \<Rightarrow> bool" where
  "flight_at s f i link st \<equiv> f < length (flights s) \<and> flights s ! f = (i, link, st)"

text \<open>The part of \<open>Fetch\<close> before the flight: an answer at once, or a flight to wait for.\<close>

definition Fetch :: "nat \<Rightarrow> gostring \<Rightarrow> vk_system \<Rightarrow> (go_error + TurnServer) option \<times> vk_system" where
  "Fetch i link s =
     (case cached (clock s) link (providers s i) of
        (Some srv, p) \<Rightarrow> (Some (Inr srv), set_provider i p s)
      | (None, p) \<Rightarrow>
          let s = set_provider i p s in
          (case floodControlError (clock s) (limiter s) of
             Some e \<Rightarrow> (Some (Inl e), s)
           | None \<Rightarrow> (None, s\<lparr>flights := flights s @ [(i, link, Queued)]\<rparr>)))"

text \<open>A look into the cache by a flight: \<open>hit\<close> and \<open>miss\<close> say where it goes.\<close>

definition look :: "nat \<Rightarrow> (TurnServer \<Rightarrow> flight) \<Rightarrow> flight \<Rightarrow> vk_system \<Rightarrow> vk_system" where
  "look f hit miss s =
     (case flights s ! f of (i, link, _) \<Rightarrow>
        case cached (clock s) link (providers s i) of
          (Some srv, p) \<Rightarrow> go_flight f (hit srv) (set_provider i p s)
        | (None, p) \<Rightarrow> go_flight f miss (set_provider i p s))"

definition fetch_ended :: "nat \<Rightarrow> go_error + TurnServer \<Rightarrow> vk_system \<Rightarrow> vk_system" where
  "fetch_ended f result s =
     (case flights s ! f of (i, link, _) \<Rightarrow>
        case result of
          Inl err \<Rightarrow>
            let s = (if errors_Is err ErrVKFloodControl
                     then s\<lparr>limiter := activateFloodControl (clock s) (limiter s), events := events s @ [Flooded (clock s)]\<rparr> else s) in
            go_flight f (Releasing (Inl err)) s
        | Inr srv \<Rightarrow>
            go_flight f (Releasing (Inr srv))
              (set_provider i (store (clock s) link srv (providers s i)) (s\<lparr>fetched := insert (i, link, srv, clock s) (fetched s)\<rparr>)))"

inductive vk_step :: "vk_system \<Rightarrow> vk_system \<Rightarrow> bool" where
  tick: "0 \<le> d \<Longrightarrow> vk_step s (s\<lparr>clock := clock s + d\<rparr>)"
| call: "vk_step s (snd (Fetch i link s))"
| queued: "flight_at s f i link Queued \<Longrightarrow> vk_step s (look f (\<lambda>srv. Finished (Inr srv)) AtGate s)"
| gate: "flight_at s f i link AtGate \<Longrightarrow> 0 < fetchGate (limiter s) \<Longrightarrow>
    vk_step s (go_flight f Holding (s\<lparr>limiter := (limiter s)\<lparr>fetchGate := fetchGate (limiter s) - 1\<rparr>\<rparr>))"
| gate_cancelled: "flight_at s f i link AtGate \<Longrightarrow> vk_step s (go_flight f (Finished (Inl ContextDone)) s)"
| held: "flight_at s f i link Holding \<Longrightarrow> vk_step s (look f (\<lambda>srv. Releasing (Inr srv)) Guarded s)"
| guarded: "flight_at s f i link Guarded \<Longrightarrow>
    vk_step s (case floodControlError (clock s) (limiter s) of
                 Some e \<Rightarrow> go_flight f (Releasing (Inl e)) s
               | None \<Rightarrow> go_flight f Spacing s)"
| spacing: "flight_at s f i link Spacing \<Longrightarrow>
    vk_step s (let wait = fetchWait (clock s) link (limiter s) in
               if 0 < wait then go_flight f (Sleeping (clock s + wait)) s else go_flight f Noting s)"
| slept: "flight_at s f i link (Sleeping until) \<Longrightarrow> until \<le> clock s \<Longrightarrow> vk_step s (go_flight f Noting s)"
| sleep_cancelled: "flight_at s f i link (Sleeping until) \<Longrightarrow> vk_step s (go_flight f (Releasing (Inl ContextDone)) s)"
| noting: "flight_at s f i link Noting \<Longrightarrow>
    vk_step s (go_flight f Fetching (s\<lparr>limiter := noteFetch (clock s) (limiter s), events := events s @ [Started (clock s) link]\<rparr>))"
| ended: "flight_at s f i link Fetching \<Longrightarrow> vk_step s (fetch_ended f (FetchTURNCredentials auth post) s)"
| release: "flight_at s f i link (Releasing result) \<Longrightarrow>
    vk_step s (go_flight f (Finished result) (s\<lparr>limiter := (limiter s)\<lparr>fetchGate := fetchGate (limiter s) + 1\<rparr>\<rparr>))"
| invalidate: "vk_step s (set_provider i (Invalidate (clock s) link (providers s i)) s)"

section \<open>The discipline of fetches\<close>

lemma spacing_bounds: "vkControlPlaneMinSpacing \<le> vkControlPlaneSpacing link" "vkControlPlaneSpacing link \<le> vkControlPlaneMaxSpacing"
proof -
  have "uint (fnv32a link mod 3001) = uint (fnv32a link) mod 3001" by (simp add: uint_mod)
  then have "0 \<le> uint (fnv32a link mod 3001)" "uint (fnv32a link mod 3001) \<le> 3000"
    using pos_mod_bound [of 3001 "uint (fnv32a link)"] by simp_all
  then show "vkControlPlaneMinSpacing \<le> vkControlPlaneSpacing link" "vkControlPlaneSpacing link \<le> vkControlPlaneMaxSpacing"
    by (simp_all add: vkControlPlaneSpacing_def vkControlPlaneMinSpacing_def vkControlPlaneMaxSpacing_def Let_def)
qed

text \<open>What two events in this order must satisfy.\<close>

fun apart :: "event \<Rightarrow> event \<Rightarrow> bool" where
  "apart (Started t link) (Started t' link') \<longleftrightarrow> t + vkControlPlaneSpacing link' \<le> t'"
| "apart (Flooded t) (Started t' link') \<longleftrightarrow> t + vkFloodControlCooldown \<le> t'"
| "apart e (Flooded t) \<longleftrightarrow> True"

fun noted :: "vkControlPlaneLimiter \<Rightarrow> event \<Rightarrow> bool" where
  "noted l (Started t link) \<longleftrightarrow> t \<le> lastFetch l"
| "noted l (Flooded t) \<longleftrightarrow> t + vkFloodControlCooldown \<le> floodUntil l"

lemma noted_gate [simp]: "noted (l\<lparr>fetchGate := n\<rparr>) e = noted l e"
  by (cases e) simp_all

fun holds_gate :: "flight \<Rightarrow> bool" where
  "holds_gate Queued = False"
| "holds_gate AtGate = False"
| "holds_gate (Finished r) = False"
| "holds_gate _ = True"

text \<open>What a flight past a check knows of the limiter while it holds the gate.\<close>

fun passed :: "vk_system \<Rightarrow> gostring \<Rightarrow> flight \<Rightarrow> bool" where
  "passed s link Spacing \<longleftrightarrow> floodUntil (limiter s) \<le> clock s"
| "passed s link (Sleeping until) \<longleftrightarrow> floodUntil (limiter s) \<le> clock s \<and> lastFetch (limiter s) + vkControlPlaneSpacing link \<le> until"
| "passed s link Noting \<longleftrightarrow> floodUntil (limiter s) \<le> clock s \<and> lastFetch (limiter s) + vkControlPlaneSpacing link \<le> clock s"
| "passed s link _ \<longleftrightarrow> True"

definition holders :: "(nat \<times> gostring \<times> flight) list \<Rightarrow> nat" where
  "holders fs = length (filter (\<lambda>(i, link, st). holds_gate st) fs)"

definition fetches_ok :: "vk_system \<Rightarrow> bool" where
  "fetches_ok s \<longleftrightarrow> fetchGate (limiter s) + holders (flights s) = 1 \<and> sorted_wrt apart (events s) \<and>
     (\<forall>e \<in> set (events s). noted (limiter s) e) \<and> (\<forall>(i, link, st) \<in> set (flights s). passed s link st)"

text \<open>Every cached answer was fetched for its link, and every answer of a flight too.\<close>

definition entry_ok :: "vk_system \<Rightarrow> nat \<Rightarrow> gostring \<Rightarrow> cachedTURNCredentials \<Rightarrow> bool" where
  "entry_ok s i link e \<longleftrightarrow> (\<exists>t. (i, link, cc_server e, t) \<in> fetched s \<and> cc_expires e = t + turnCredentialCacheTTL \<and>
     cc_refreshAfter e = t + turnCredentialMinimumReuse)"

fun answer_ok :: "vk_system \<Rightarrow> nat \<Rightarrow> gostring \<Rightarrow> flight \<Rightarrow> bool" where
  "answer_ok s i link (Releasing (Inr srv)) \<longleftrightarrow> (\<exists>t. (i, link, srv, t) \<in> fetched s)"
| "answer_ok s i link (Finished (Inr srv)) \<longleftrightarrow> (\<exists>t. (i, link, srv, t) \<in> fetched s)"
| "answer_ok s i link _ \<longleftrightarrow> True"

definition answers_ok :: "vk_system \<Rightarrow> bool" where
  "answers_ok s \<longleftrightarrow> (\<forall>i link e. cache (providers s i) link = Some e \<longrightarrow> entry_ok s i link e) \<and>
     (\<forall>(i, link, st) \<in> set (flights s). answer_ok s i link st)"

lemma holders_update:
  assumes "f < length fs" "fs ! f = (i, link, st)"
  shows "holders (fs[f := (i, link, st')]) + (if holds_gate st then 1 else 0) = holders fs + (if holds_gate st' then 1 else 0)"
  using filter_update_nat [OF assms(1), of "\<lambda>(i, link, st). holds_gate st" "(i, link, st')"] assms(2) by (simp add: holders_def)

text \<open>Frames: a step that moves one flight and keeps what the invariant reads.\<close>

lemma fetches_okD:
  assumes "fetches_ok s"
  shows "fetchGate (limiter s) + holders (flights s) = 1" "sorted_wrt apart (events s)" "\<And>e. e \<in> set (events s) \<Longrightarrow> noted (limiter s) e"
    "\<And>f i link st. flight_at s f i link st \<Longrightarrow> passed s link st"
proof -
  show "passed s link st" if "flight_at s f i link st" for f i link st
    using assms that nth_mem [of f "flights s"] by (fastforce simp: fetches_ok_def)
qed (use assms in \<open>simp_all add: fetches_ok_def\<close>)

text \<open>Only one flight can hold the gate.\<close>

lemma holder_unique:
  assumes "fetches_ok s" "flight_at s f i link st" "holds_gate st" "flight_at s f' i' link' st'" "holds_gate st'"
  shows "f' = f"
proof (rule ccontr)
  assume "f' \<noteq> f"
  then have "card {f, f'} = 2" by simp
  moreover have "{f, f'} \<subseteq> {k. k < length (flights s) \<and> holds_gate (snd (snd (flights s ! k)))}" using assms by auto
  ultimately have "2 \<le> card {k. k < length (flights s) \<and> holds_gate (snd (snd (flights s ! k)))}"
    using card_mono [of "{k. k < length (flights s) \<and> holds_gate (snd (snd (flights s ! k)))}" "{f, f'}"] by simp
  then have "2 \<le> holders (flights s)"
    by (simp add: holders_def length_filter_conv_card case_prod_beta)
  then show False using fetches_okD(1) [OF assms(1)] by simp
qed

text \<open>The flight \<open>f\<close> moves to \<open>st'\<close>; a limiter that changes is one whose gate \<open>f\<close> holds.\<close>

lemma fetches_move:
  assumes ok: "fetches_ok s" and f: "flight_at s f i link st"
    and t: "flights t = (flights s)[f := (i, link, st')]" "clock t = clock s"
      "fetchGate (limiter t) + (if holds_gate st' then 1 else 0) = fetchGate (limiter s) + (if holds_gate st then 1 else 0)"
    and l: "floodUntil (limiter t) = floodUntil (limiter s) \<and> lastFetch (limiter t) = lastFetch (limiter s) \<or> holds_gate st"
    and e: "sorted_wrt apart (events t)" "\<And>x. x \<in> set (events t) \<Longrightarrow> noted (limiter t) x"
    and st': "passed t link st'"
  shows "fetches_ok t"
proof -
  have "passed t link'' st''" if "flight_at t g j link'' st''" for g j link'' st''
  proof (cases "g = f")
    case True
    then show ?thesis using that st' t(1) f by simp
  next
    case False
    then have g: "flight_at s g j link'' st''" using that t(1) by simp
    note p = fetches_okD(4) [OF ok g]
    show ?thesis
    proof (cases "holds_gate st''")
      case True
      then have "\<not> holds_gate st" using holder_unique [OF ok f _ g] False by blast
      then show ?thesis using p l t(2) by (cases st'') auto
    next
      case False
      then show ?thesis by (cases st'') simp_all
    qed
  qed
  moreover have "fetchGate (limiter t) + holders (flights t) = 1"
    using holders_update [of f "flights s" i link st st'] f t(1,3) fetches_okD(1) [OF ok] by (simp split: if_splits)
  ultimately show ?thesis using e by (auto simp: fetches_ok_def in_set_conv_nth)
qed

lemma fetches_frame:
  assumes "fetches_ok s" "flights t = flights s" "clock s \<le> clock t" "limiter t = limiter s" "events t = events s"
  shows "fetches_ok t"
proof -
  have "passed t link st" if "passed s link st" for link st using that assms(3,4) by (cases st) auto
  then show ?thesis using assms(1,2,4,5) by (auto simp: fetches_ok_def)
qed

lemma set_provider_simps [simp]:
  "clock (set_provider i p s) = clock s" "limiter (set_provider i p s) = limiter s" "flights (set_provider i p s) = flights s"
  "events (set_provider i p s) = events s" "fetched (set_provider i p s) = fetched s" "providers (set_provider i p s) = (providers s)(i := p)"
  by (simp_all add: set_provider_def)

lemma go_flight_simps [simp]:
  "clock (go_flight f st s) = clock s" "limiter (go_flight f st s) = limiter s" "events (go_flight f st s) = events s"
  "fetched (go_flight f st s) = fetched s" "providers (go_flight f st s) = providers s"
  by (simp_all add: go_flight_def split: prod.splits)

lemma flights_go_flight: "flights s ! f = (i, link, st) \<Longrightarrow> flights (go_flight f st' s) = (flights s)[f := (i, link, st')]"
  by (simp add: go_flight_def)

lemma look_fetches:
  assumes "fetches_ok s" "flight_at s f i link st"
    and "\<And>srv. holds_gate (hit srv) = holds_gate st \<and> passed s link (hit srv)" "holds_gate miss = holds_gate st \<and> passed s link miss"
  shows "fetches_ok (look f hit miss s)"
proof -
  have "fetches_ok (go_flight f st' (set_provider i p s))" if st': "holds_gate st' = holds_gate st" "passed s link st'" for st' p
  proof (rule fetches_move [OF assms(1,2)])
    show "passed (go_flight f st' (set_provider i p s)) link st'" using st'(2) by (cases st') simp_all
  qed (use assms(2) st'(1) fetches_okD(2,3) [OF assms(1)] in \<open>simp_all add: flights_go_flight\<close>)
  then show ?thesis using assms(2-4) by (simp add: look_def split: prod.split option.split)
qed

lemma ended_fetches:
  assumes ok: "fetches_ok s" and f: "flight_at s f i link Fetching"
  shows "fetches_ok (fetch_ended f result s)"
proof (cases result)
  case (Inr srv)
  show ?thesis
    by (rule fetches_move [OF ok f, where st' = "Releasing (Inr srv)"])
      (use f Inr fetches_okD(2,3) [OF ok] in \<open>simp_all add: fetch_ended_def flights_go_flight\<close>)
next
  case (Inl err)
  define l where "l = activateFloodControl (clock s) (limiter s)"
  have l: "lastFetch l = lastFetch (limiter s)" "floodUntil (limiter s) \<le> floodUntil l" "fetchGate l = fetchGate (limiter s)"
    "clock s + vkFloodControlCooldown \<le> floodUntil l"
    by (simp_all add: l_def activateFloodControl_def Let_def)
  have n: "noted l e" if "e \<in> set (events s)" for e using fetches_okD(3) [OF ok that] l by (cases e) simp_all
  have "apart e (Flooded t)" for e t by (cases e) simp_all
  then show ?thesis
    by (intro fetches_move [OF ok f, where st' = "Releasing (Inl err)"])
      (use f Inl fetches_okD(2,3) [OF ok] l n in
        \<open>auto simp: fetch_ended_def flights_go_flight sorted_wrt_append Let_def simp flip: l_def\<close>)
qed

lemma vk_step_fetches:
  assumes "vk_step s t" "fetches_ok s"
  shows "fetches_ok t"
  using assms(1)
proof (cases rule: vk_step.cases)
  case (tick d)
  then show ?thesis by (intro fetches_frame [OF assms(2)]) simp_all
next
  case (call i link)
  have q: "fetches_ok (x\<lparr>flights := flights x @ [(i, link, Queued)]\<rparr>)" if "fetches_ok x" for x
  proof -
    have "passed (x\<lparr>flights := y\<rparr>) l st = passed x l st" for l st y by (cases st) simp_all
    then show ?thesis using that by (auto simp: fetches_ok_def holders_def)
  qed
  have p: "fetches_ok (set_provider i p s)" for p by (rule fetches_frame [OF assms(2)]) simp_all
  have "fetches_ok ((set_provider i p s)\<lparr>flights := flights s @ [(i, link, Queued)]\<rparr>)" for p
    using q [OF p] by simp
  with p show ?thesis by (simp add: call(1) Fetch_def Let_def split: prod.split option.split)
next
  case (queued f i link)
  show ?thesis unfolding queued(1) by (rule look_fetches [OF assms(2) queued(2)]) simp_all
next
  case (gate f i link)
  show ?thesis unfolding gate(1)
    by (rule fetches_move [OF assms(2) gate(2)])
      (use gate(2,3) fetches_okD(2,3) [OF assms(2)] in \<open>auto simp: flights_go_flight\<close>)
next
  case (gate_cancelled f i link)
  show ?thesis unfolding gate_cancelled(1)
    by (rule fetches_move [OF assms(2) gate_cancelled(2)])
      (use gate_cancelled(2) fetches_okD(2,3) [OF assms(2)] in \<open>auto simp: flights_go_flight\<close>)
next
  case (held f i link)
  show ?thesis unfolding held(1) by (rule look_fetches [OF assms(2) held(2)]) simp_all
next
  case (guarded f i link)
  have "fetches_ok (go_flight f st s)" if "holds_gate st" "passed s link st" for st
  proof (rule fetches_move [OF assms(2) guarded(2)])
    show "passed (go_flight f st s) link st" using that(2) by (cases st) simp_all
  qed (use guarded(2) that(1) fetches_okD(2,3) [OF assms(2)] in \<open>auto simp: flights_go_flight\<close>)
  then show ?thesis by (simp add: guarded(1) floodControlError_def Let_def)
next
  case (spacing f i link)
  have p: "passed s link Spacing" by (rule fetches_okD(4) [OF assms(2) spacing(2)])
  have "fetches_ok (go_flight f st s)" if "holds_gate st" "passed s link st" for st
  proof (rule fetches_move [OF assms(2) spacing(2)])
    show "passed (go_flight f st s) link st" using that(2) by (cases st) simp_all
  qed (use spacing(2) that(1) fetches_okD(2,3) [OF assms(2)] in \<open>auto simp: flights_go_flight\<close>)
  then show ?thesis using p by (simp add: spacing(1) fetchWait_def Let_def)
next
  case (slept f i link until)
  have "passed s link (Sleeping until)" by (rule fetches_okD(4) [OF assms(2) slept(2)])
  then show ?thesis unfolding slept(1)
    by (intro fetches_move [OF assms(2) slept(2)])
      (use slept(2,3) fetches_okD(2,3) [OF assms(2)] in \<open>auto simp: flights_go_flight\<close>)
next
  case (sleep_cancelled f i link until)
  show ?thesis unfolding sleep_cancelled(1)
    by (rule fetches_move [OF assms(2) sleep_cancelled(2)])
      (use sleep_cancelled(2) fetches_okD(2,3) [OF assms(2)] in \<open>auto simp: flights_go_flight\<close>)
next
  case (noting f i link)
  have p: "passed s link Noting" by (rule fetches_okD(4) [OF assms(2) noting(2)])
  have "apart e (Started (clock s) link)" "noted (noteFetch (clock s) (limiter s)) e" if "e \<in> set (events s)" for e
    using fetches_okD(3) [OF assms(2) that] p spacing_bounds(1) [of link]
    by (cases e; simp add: noteFetch_def vkControlPlaneMinSpacing_def)+
  then show ?thesis unfolding noting(1)
    by (intro fetches_move [OF assms(2) noting(2)])
      (use noting(2) fetches_okD(2) [OF assms(2)] in \<open>auto simp: flights_go_flight sorted_wrt_append noteFetch_def\<close>)
next
  case (ended f i link auth post)
  show ?thesis unfolding ended(1) by (rule ended_fetches [OF assms(2) ended(2)])
next
  case (release f i link result)
  show ?thesis unfolding release(1)
    by (rule fetches_move [OF assms(2) release(2)])
      (use release(2) fetches_okD(2,3) [OF assms(2)] in \<open>auto simp: flights_go_flight\<close>)
next
  case (invalidate i link)
  then show ?thesis by (intro fetches_frame [OF assms(2)]) simp_all
qed

section \<open>The answers\<close>

lemma cached_cases:
  assumes "cached now link p = (r, p')"
  shows "cache p' \<subseteq>\<^sub>m cache p" "authFailures p' = authFailures p"
    "r = Some srv \<Longrightarrow> \<exists>e. cache p link = Some e \<and> cc_server e = srv \<and> now \<le> cc_expires e"
  using assms by (auto simp: cached_def map_le_def split: option.splits if_splits)

lemma Invalidate_cache: "cache (Invalidate now link p) \<subseteq>\<^sub>m cache p"
  by (auto simp: Invalidate_def Let_def map_le_def split: option.splits)

lemma answers_okD:
  assumes "answers_ok s"
  shows "\<And>i link e. cache (providers s i) link = Some e \<Longrightarrow> entry_ok s i link e"
    "\<And>f i link st. flight_at s f i link st \<Longrightarrow> answer_ok s i link st"
proof -
  show "answer_ok s i link st" if "flight_at s f i link st" for f i link st
    using assms that nth_mem [of f "flights s"] by (fastforce simp: answers_ok_def)
qed (use assms in \<open>simp add: answers_ok_def\<close>)

lemma answer_ok_mono: "fetched s \<subseteq> fetched t \<Longrightarrow> answer_ok s i link st \<Longrightarrow> answer_ok t i link st"
  by (cases "(s, i, link, st)" rule: answer_ok.cases) auto

lemma answers_frame:
  assumes "answers_ok s" "fetched s \<subseteq> fetched t"
    and "\<And>i link e. cache (providers t i) link = Some e \<Longrightarrow> cache (providers s i) link = Some e \<or> entry_ok t i link e"
    and "\<And>x. x \<in> set (flights t) \<Longrightarrow> x \<in> set (flights s) \<or> (case x of (i, link, st) \<Rightarrow> answer_ok t i link st)"
  shows "answers_ok t"
proof -
  have "entry_ok t i link e" if "entry_ok s i link e" for i link e using that assms(2) by (auto simp: entry_ok_def)
  moreover have "answer_ok t i link st" if "(i, link, st) \<in> set (flights s)" for i link st
    using that assms(1,2) answer_ok_mono by (fastforce simp: answers_ok_def)
  ultimately show ?thesis using assms(1,3,4) unfolding answers_ok_def by fastforce
qed

lemma answers_move:
  assumes "answers_ok s" "flight_at s f i link st" "flights t = (flights s)[f := (i, link, st')]" "fetched s \<subseteq> fetched t"
    and "\<And>i link e. cache (providers t i) link = Some e \<Longrightarrow> cache (providers s i) link = Some e \<or> entry_ok t i link e"
    and "answer_ok t i link st'"
  shows "answers_ok t"
proof (rule answers_frame [OF assms(1,4,5)])
  fix x assume "x \<in> set (flights t)"
  then have "x = (i, link, st') \<or> x \<in> set (flights s)" using assms(3) set_update_subset_insert by fastforce
  then show "x \<in> set (flights s) \<or> (case x of (i, link, st) \<Rightarrow> answer_ok t i link st)" using assms(6) by auto
qed

lemma look_answers:
  assumes "answers_ok s" "flight_at s f i link st"
    and "\<And>srv t. (\<exists>u. (i, link, srv, u) \<in> fetched t) \<Longrightarrow> answer_ok t i link (hit srv)" "\<And>t. answer_ok t i link miss"
  shows "answers_ok (look f hit miss s)"
proof (cases "cached (clock s) link (providers s i)")
  case (Pair r p)
  note c = cached_cases [OF Pair]
  have "answers_ok (go_flight f st' (set_provider i p s))" if "answer_ok (go_flight f st' (set_provider i p s)) i link st'" for st'
    by (rule answers_move [OF assms(1,2), of _ st'])
      (use assms(2) that c(1) in \<open>auto simp: flights_go_flight map_le_def dom_def split: if_splits\<close>)
  moreover have "\<exists>u. (i, link, srv, u) \<in> fetched s" if "r = Some srv" for srv
    using c(3) [OF that] answers_okD(1) [OF assms(1), of i link] by (auto simp: entry_ok_def)
  ultimately show ?thesis using Pair assms(2-4) by (simp add: look_def split: option.split)
qed

lemma FetchTURNCredentials_complete:
  "FetchTURNCredentials auth post = Inr srv \<Longrightarrow> ts_URLs srv \<noteq> [] \<and> ts_Username srv \<noteq> [] \<and> ts_Credential srv \<noteq> []"
  by (auto simp: FetchTURNCredentials_def split: sum.splits option.splits if_splits http_outcome.splits)

lemma ended_answers:
  assumes ok: "answers_ok s" and f: "flight_at s f i link Fetching"
  shows "answers_ok (fetch_ended f result s)"
proof (cases result)
  case (Inr srv)
  show ?thesis
    by (rule answers_move [OF ok f, where st' = "Releasing (Inr srv)"])
      (use f Inr in \<open>auto simp: fetch_ended_def flights_go_flight store_def entry_ok_def split: if_splits\<close>)
next
  case (Inl err)
  show ?thesis
    by (rule answers_move [OF ok f, where st' = "Releasing (Inl err)"])
      (use f Inl in \<open>auto simp: fetch_ended_def flights_go_flight Let_def\<close>)
qed

lemma answers_go:
  assumes "answers_ok s" "flight_at s f i link st" "answer_ok s i link st'"
    and "flights t = flights s" "providers t = providers s" "fetched t = fetched s"
  shows "answers_ok (go_flight f st' t)"
  by (rule answers_move [OF assms(1,2), of _ st'])
    (use assms(2,4-6) answer_ok_mono [OF _ assms(3)] in \<open>simp_all add: flights_go_flight\<close>)

lemma vk_step_answers:
  assumes "vk_step s t" "answers_ok s"
  shows "answers_ok t"
  using assms(1)
proof (cases rule: vk_step.cases)
  case (tick d)
  then show ?thesis by (intro answers_frame [OF assms(2)]) simp_all
next
  case (call i link)
  obtain r p where "cached (clock s) link (providers s i) = (r, p)" by fastforce
  note c = this cached_cases(1) [OF this]
  have "answers_ok (set_provider i p s)" "answers_ok ((set_provider i p s)\<lparr>flights := flights s @ [(i, link, Queued)]\<rparr>)"
    by (rule answers_frame [OF assms(2)]; use c(2) in \<open>auto simp: map_le_def dom_def split: if_splits\<close>)+
  then show ?thesis using c(1) by (simp add: call(1) Fetch_def Let_def split: option.split)
next
  case (queued f i link)
  show ?thesis unfolding queued(1) by (rule look_answers [OF assms(2) queued(2)]) simp_all
next
  case (gate f i link)
  show ?thesis unfolding gate(1) by (rule answers_go [OF assms(2) gate(2)]) simp_all
next
  case (gate_cancelled f i link)
  show ?thesis unfolding gate_cancelled(1) by (rule answers_go [OF assms(2) gate_cancelled(2)]) simp_all
next
  case (held f i link)
  show ?thesis unfolding held(1) by (rule look_answers [OF assms(2) held(2)]) simp_all
next
  case (guarded f i link)
  show ?thesis using answers_go [OF assms(2) guarded(2) _ refl refl refl] by (simp add: guarded(1) split: option.split)
next
  case (spacing f i link)
  show ?thesis using answers_go [OF assms(2) spacing(2) _ refl refl refl] by (simp add: spacing(1) Let_def)
next
  case (slept f i link until)
  show ?thesis unfolding slept(1) by (rule answers_go [OF assms(2) slept(2)]) simp_all
next
  case (sleep_cancelled f i link until)
  show ?thesis unfolding sleep_cancelled(1) by (rule answers_go [OF assms(2) sleep_cancelled(2)]) simp_all
next
  case (noting f i link)
  show ?thesis unfolding noting(1) by (rule answers_go [OF assms(2) noting(2)]) simp_all
next
  case (ended f i link auth post)
  show ?thesis unfolding ended(1) by (rule ended_answers [OF assms(2) ended(2)])
next
  case (release f i link result)
  have "answer_ok s i link (Releasing result)" by (rule answers_okD(2) [OF assms(2) release(2)])
  then have "answer_ok s i link (Finished result)" by (cases result) simp_all
  then show ?thesis unfolding release(1) by (rule answers_go [OF assms(2) release(2)]) simp_all
next
  case (invalidate i link)
  then show ?thesis using Invalidate_cache [of "clock s" link "providers s i"]
    by (intro answers_frame [OF assms(2)]) (auto simp: map_le_def dom_def split: if_splits)
qed

text \<open>What was fetched is complete and not from the future.\<close>

definition fetched_ok :: "vk_system \<Rightarrow> bool" where
  "fetched_ok s \<longleftrightarrow> (\<forall>(i, link, srv, t) \<in> fetched s. ts_URLs srv \<noteq> [] \<and> ts_Username srv \<noteq> [] \<and> ts_Credential srv \<noteq> [] \<and> t \<le> clock s)"

lemma vk_step_fetched:
  assumes "vk_step s t" "fetched_ok s"
  shows "fetched_ok t"
proof -
  have frame: "fetched_ok t" if "fetched t = fetched s" "clock s \<le> clock t" for t
    using assms(2) that by (fastforce simp: fetched_ok_def)
  have look: "fetched (look f hit miss s) = fetched s" "clock (look f hit miss s) = clock s" for f hit miss
    by (simp_all add: look_def split: prod.splits option.splits)
  show ?thesis using assms(1)
  proof (cases rule: vk_step.cases)
    case (ended f i link auth post)
    show ?thesis
    proof (cases "FetchTURNCredentials auth post")
      case (Inl err)
      then show ?thesis using ended(2) by (intro frame) (auto simp: ended(1) fetch_ended_def Let_def)
    next
      case (Inr srv)
      then show ?thesis using assms(2) ended(2) FetchTURNCredentials_complete [OF Inr]
        by (auto simp: ended(1) fetch_ended_def fetched_ok_def)
    qed
  qed (rule frame; auto simp: look Fetch_def Let_def split: option.splits prod.splits)+
qed

interpretation vk: invariant_system vk_init vk_step "\<lambda>s. fetches_ok s \<and> answers_ok s \<and> fetched_ok s"
proof
  show "fetches_ok s \<and> answers_ok s \<and> fetched_ok s" if "vk_init s" for s
    using that by (simp add: vk_init_def fetches_ok_def answers_ok_def fetched_ok_def holders_def newVKControlPlaneLimiter_def
        NewTURNCredentialProvider_def)
  show "fetches_ok t \<and> answers_ok t \<and> fetched_ok t" if "fetches_ok s \<and> answers_ok s \<and> fetched_ok s" "vk_step s t" for s t
    using that vk_step_fetches vk_step_answers vk_step_fetched by blast
qed

section \<open>Invalidation\<close>

definition invalidate_all :: "gostring \<Rightarrow> time list \<Rightarrow> TURNCredentialProvider \<Rightarrow> TURNCredentialProvider" where
  "invalidate_all link ts p = foldl (\<lambda>p t. Invalidate t link p) p ts"

definition reported :: "gostring \<Rightarrow> TURNCredentialProvider \<Rightarrow> time list" where
  "reported link p = (case authFailures p link of None \<Rightarrow> [] | Some ts \<Rightarrow> ts)"

text \<open>Any three reports in a row span more than the window.\<close>

fun spread :: "time list \<Rightarrow> bool" where
  "spread (a # b # c # ts) \<longleftrightarrow> authFailureWindow < c - a \<and> spread (b # c # ts)"
| "spread _ \<longleftrightarrow> True"

lemma spread_Cons: "spread (a # ts) \<Longrightarrow> spread ts"
  by (cases "a # ts" rule: spread.cases) auto

lemma Invalidate_below:
  assumes "length (filter (\<lambda>u. now - u \<le> authFailureWindow) (reported link p)) < 2"
  shows "cache (Invalidate now link p) = cache p"
    "reported link (Invalidate now link p) = filter (\<lambda>u. now - u \<le> authFailureWindow) (reported link p) @ [now]"
  using assms by (simp_all add: Invalidate_def reported_def authFailureThreshold_def Let_def)

lemma spread_keeps:
  "length (reported link p) \<le> 2 \<Longrightarrow> spread (reported link p @ ts) \<Longrightarrow> cache (invalidate_all link ts p) = cache p"
proof (induction ts arbitrary: p)
  case (Cons t ts)
  define kept where "kept = filter (\<lambda>u. t - u \<le> authFailureWindow) (reported link p)"
  have k: "length kept < 2 \<and> spread (kept @ t # ts)"
  proof (cases "reported link p")
    case (Cons a as)
    then show ?thesis using Cons.prems spread_Cons [of a "as @ t # ts"] spread_Cons [of "hd as" "t # ts"]
      by (cases as) (auto simp: kept_def)
  qed (use Cons.prems in \<open>simp add: kept_def\<close>)
  have "cache (Invalidate t link p) = cache p" "reported link (Invalidate t link p) = kept @ [t]"
    using Invalidate_below [of t link p] k by (simp_all add: kept_def)
  then show ?case using Cons.IH [of "Invalidate t link p"] k by (simp add: invalidate_all_def)
qed (simp add: invalidate_all_def)

section \<open>Properties\<close>

text \<open>
  C21. However many workers ask, VK is asked by one flight at a time, two questions are at least the
  spacing of the second one apart, which is between three and six seconds, and none is asked within the
  two minutes after an answer that reported flood control.
\<close>

theorem vk_fetch_disciplined:
  assumes "reach vk_init vk_step s"
  shows "sorted_wrt apart (events s) \<and>
    (\<forall>link. 3 * Second \<le> vkControlPlaneSpacing link \<and> vkControlPlaneSpacing link \<le> 6 * Second) \<and>
    length (filter (\<lambda>(i, link, st). st = Fetching) (flights s)) \<le> 1"
proof -
  have ok: "fetches_ok s" using vk.reach_inv [OF assms] by simp
  have h: "length (filter (\<lambda>(i, link, st). st = Fetching) fs) \<le> holders fs" for fs
    by (induction fs) (auto simp: holders_def)
  have "length (filter (\<lambda>(i, link, st). st = Fetching) (flights s)) \<le> 1"
    using h [of "flights s"] fetches_okD(1) [OF ok] by linarith
  then show ?thesis
    using fetches_okD(2) [OF ok] spacing_bounds by (simp add: vkControlPlaneMinSpacing_def vkControlPlaneMaxSpacing_def)
qed

definition demo_start :: vk_system where
  "demo_start = \<lparr>clock = 0, limiter = newVKControlPlaneLimiter, providers = \<lambda>_. NewTURNCredentialProvider, flights = [], events = [], fetched = {}\<rparr>"

definition demo_params :: VKAuthParams where
  "demo_params = \<lparr>ap_SessionKey = [1], ap_ApplicationKey = [2], ap_APIBaseURL = [3], ap_JoinLink = [4]\<rparr>"

definition demo_turn :: TurnServer where
  "demo_turn = \<lparr>ts_URLs = [[5]], ts_Username = [6], ts_Credential = [7]\<rparr>"

definition demo_fetching :: vk_system where
  "demo_fetching = demo_start\<lparr>limiter := \<lparr>fetchGate = 0, floodUntil = zeroTime, lastFetch = 0\<rparr>, flights := [(0, [9], Fetching)], events := [Started 0 [9]]\<rparr>"

definition demo_fetched :: vk_system where
  "demo_fetched = fetch_ended 0 (Inr demo_turn) demo_fetching"

lemma demo_fetching_reach: "reach vk_init vk_step demo_fetching"
proof -
  define a where "a st = demo_start\<lparr>flights := [(0, [9], st)]\<rparr>" for st
  define b where "b st = demo_start\<lparr>limiter := \<lparr>fetchGate = 0, floodUntil = zeroTime, lastFetch = zeroTime\<rparr>, flights := [(0, [9], st)]\<rparr>" for st
  note defs = demo_start_def newVKControlPlaneLimiter_def NewTURNCredentialProvider_def cached_def set_provider_def floodControlError_def
    zeroTime_def look_def go_flight_def fetchWait_def noteFetch_def a_def b_def fun_upd_def
  have "reach vk_init vk_step demo_start" by (rule reach_init) (simp add: vk_init_def demo_start_def)
  moreover have "snd (Fetch 0 [9] demo_start) = a Queued" by (simp add: Fetch_def defs)
  ultimately have "reach vk_init vk_step (a Queued)" by (metis reach_step vk_step.call)
  moreover have "vk_step (a Queued) (a AtGate)" using vk_step.queued [where s = "a Queued" and f = 0 and i = 0 and link = "[9]"] by (simp add: defs)
  ultimately have "reach vk_init vk_step (a AtGate)" by (rule reach_step)
  moreover have "vk_step (a AtGate) (b Holding)" using vk_step.gate [where s = "a AtGate" and f = 0 and i = 0 and link = "[9]"] by (simp add: defs)
  ultimately have "reach vk_init vk_step (b Holding)" by (rule reach_step)
  moreover have "vk_step (b Holding) (b Guarded)" using vk_step.held [where s = "b Holding" and f = 0 and i = 0 and link = "[9]"] by (simp add: defs)
  ultimately have "reach vk_init vk_step (b Guarded)" by (rule reach_step)
  moreover have "vk_step (b Guarded) (b Spacing)" using vk_step.guarded [where s = "b Guarded" and f = 0 and i = 0 and link = "[9]"] by (simp add: defs)
  ultimately have "reach vk_init vk_step (b Spacing)" by (rule reach_step)
  moreover have "vk_step (b Spacing) (b Noting)"
    using vk_step.spacing [where s = "b Spacing" and f = 0 and i = 0 and link = "[9]"] spacing_bounds(2) [of "[9]"] by (simp add: defs vkControlPlaneMaxSpacing_def Let_def)
  ultimately have "reach vk_init vk_step (b Noting)" by (rule reach_step)
  moreover have "vk_step (b Noting) demo_fetching"
    using vk_step.noting [where s = "b Noting" and f = 0 and i = 0 and link = "[9]"] by (simp add: defs demo_fetching_def)
  ultimately show ?thesis by (rule reach_step)
qed

lemma demo_fetched_reach: "reach vk_init vk_step demo_fetched"
proof -
  have "FetchTURNCredentials (Inr (Some demo_params)) (\<lambda>_. Response 200 (Inr (Some demo_turn))) = Inr demo_turn"
    by (simp add: FetchTURNCredentials_def demo_params_def demo_turn_def)
  then have "vk_step demo_fetching demo_fetched"
    using vk_step.ended [where s = demo_fetching and f = 0 and i = 0 and link = "[9]" and auth = "Inr (Some demo_params)" and
        post = "\<lambda>_. Response 200 (Inr (Some demo_turn))"]
    by (simp add: demo_fetched_def demo_fetching_def)
  with demo_fetching_reach show ?thesis by (rule reach_step)
qed

theorem vk_fetch_disciplined_witness:
  "\<exists>s :: vk_system. events s = [Started 0 [9]] \<and> sorted_wrt apart (events s) \<and> length (filter (\<lambda>(i, link, st). st = Fetching) (flights s)) \<le> 1"
  using vk_fetch_disciplined [OF demo_fetching_reach] by (intro exI [of _ demo_fetching]) (simp add: demo_fetching_def)

text \<open>
  Credentials that \<open>Fetch\<close> answers at once were fetched from VK for the same link by the same
  provider, at most nine minutes ago, and are complete. A flight that ends with credentials ends with
  ones that were fetched for its link.
\<close>

lemma credentials_fresh:
  assumes "reach vk_init vk_step s"
  shows "(fst (Fetch i link s) = Some (Inr srv) \<longrightarrow>
      (\<exists>t. (i, link, srv, t) \<in> fetched s \<and> t \<le> clock s \<and> clock s \<le> t + 9 * Minute \<and>
           ts_URLs srv \<noteq> [] \<and> ts_Username srv \<noteq> [] \<and> ts_Credential srv \<noteq> [])) \<and>
    ((i, link, Finished (Inr srv)) \<in> set (flights s) \<longrightarrow> (\<exists>t. (i, link, srv, t) \<in> fetched s))"
proof -
  have ok: "answers_ok s" "fetched_ok s" using vk.reach_inv [OF assms] by simp_all
  obtain r p where c: "cached (clock s) link (providers s i) = (r, p)" by fastforce
  have "\<exists>t. (i, link, srv, t) \<in> fetched s \<and> clock s \<le> t + 9 * Minute" if "fst (Fetch i link s) = Some (Inr srv)"
  proof -
    have "r = Some srv" using that c by (auto simp: Fetch_def Let_def split: option.splits)
    then show ?thesis using cached_cases(3) [OF c] answers_okD(1) [OF ok(1), of i link]
      by (fastforce simp: entry_ok_def turnCredentialCacheTTL_def)
  qed
  moreover have "\<exists>t. (i, link, srv, t) \<in> fetched s" if "(i, link, Finished (Inr srv)) \<in> set (flights s)"
    using ok(1) that by (fastforce simp: answers_ok_def)
  ultimately show ?thesis using ok(2) by (fastforce simp: fetched_ok_def)
qed

lemma credentials_fresh_witness:
  "\<exists>t. (0, [9], demo_turn, t) \<in> fetched demo_fetched \<and> clock demo_fetched \<le> t + 9 * Minute"
proof -
  have "fst (Fetch 0 [9] demo_fetched) = Some (Inr demo_turn)"
    by (simp add: demo_fetched_def demo_fetching_def demo_start_def fetch_ended_def Fetch_def cached_def store_def go_flight_def
        set_provider_def turnCredentialCacheTTL_def)
  then show ?thesis using credentials_fresh [OF demo_fetched_reach, of 0 "[9]" demo_turn] by blast
qed

text \<open>
  Invalidation: failures of which no three fall into ten seconds never drop credentials; three
  within ten seconds drop them once they are fifteen seconds old, and never earlier.
\<close>

lemma invalidation_exact:
  assumes "authFailures p link = None" "cache p link = Some e"
  shows "(spread ts \<longrightarrow> cache (invalidate_all link ts p) = cache p) \<and>
    (t1 \<le> t2 \<and> t2 \<le> t3 \<and> t3 - t1 \<le> 10 * Second \<longrightarrow>
       cache (invalidate_all link [t1, t2, t3] p) link = (if t3 < cc_refreshAfter e then Some e else None))"
proof -
  have "cache (invalidate_all link ts p) = cache p" if "spread ts"
    using that assms(1) by (intro spread_keeps) (simp_all add: reported_def)
  moreover have "cache (invalidate_all link [t1, t2, t3] p) link = (if t3 < cc_refreshAfter e then Some e else None)"
    if "t1 \<le> t2" "t2 \<le> t3" "t3 - t1 \<le> 10 * Second"
    using that assms by (simp add: invalidate_all_def Invalidate_def authFailureThreshold_def authFailureWindow_def Let_def)
  ultimately show ?thesis by blast
qed

lemma invalidation_exact_witness:
  "let p = store 0 [9] demo_turn NewTURNCredentialProvider in
     cache (invalidate_all [9] [20 * Second, 21 * Second, 22 * Second] p) [9] = None"
proof -
  let ?p = "store 0 [9] demo_turn NewTURNCredentialProvider"
  have "authFailures ?p [9] = None" "cache ?p [9] = Some \<lparr>cc_server = demo_turn, cc_expires = 9 * Minute, cc_refreshAfter = 15 * Second\<rparr>"
    by (simp_all add: store_def NewTURNCredentialProvider_def turnCredentialCacheTTL_def turnCredentialMinimumReuse_def)
  from invalidation_exact [OF this, of "[]" "20 * Second" "21 * Second" "22 * Second"] show ?thesis by simp
qed

end
