(* ===== verification/Supervisor.thy ===== *)
theory Supervisor
  imports Quic_Relay Runtime_Transport Vk_Credentials
begin

text \<open>
  \<open>transport/call/vk-parasite/supervisor.go\<close>: the permits that limit how many workers allocate on
  TURN at a time and how fast, the classification of failures, and the health that a client reports.
  The permits are a step relation over the critical sections of \<open>acquireTURN\<close>; the health loop runs
  beside the path pool of Quic\_Relay and the process state of Runtime\_Transport.
\<close>

section \<open>Permits\<close>

definition turnConcurrencyLimit :: nat where "turnConcurrencyLimit = 2"
definition dtlsConcurrencyLimit :: nat where "dtlsConcurrencyLimit = 4"
definition turnAllocationSpacing :: duration where "turnAllocationSpacing = 250 * Millisecond"

text \<open>A gate is a buffered channel; only the number of its elements matters.\<close>

record transportSupervisor =
  turnGate :: nat
  dtlsGate :: nat
  lastTURN :: time

definition newTransportSupervisor :: transportSupervisor where
  "newTransportSupervisor = \<lparr>turnGate = 0, dtlsGate = 0, lastTURN = zeroTime\<rparr>"

definition sup_reset :: "transportSupervisor \<Rightarrow> transportSupervisor" where
  "sup_reset s = s\<lparr>turnGate := 0, dtlsGate := 0, lastTURN := zeroTime\<rparr>"

text \<open>\<open>acquireSupervisorPermit\<close> on a gate of the given capacity: the gate afterwards, or \<open>None\<close> while it blocks.\<close>

definition acquireSupervisorPermit :: "nat \<Rightarrow> nat \<Rightarrow> nat option" where
  "acquireSupervisorPermit capacity gate = (if gate < capacity then Some (gate + 1) else None)"

definition acquireDTLS :: "transportSupervisor \<Rightarrow> transportSupervisor option" where
  "acquireDTLS s = map_option (\<lambda>n. s\<lparr>dtlsGate := n\<rparr>) (acquireSupervisorPermit dtlsConcurrencyLimit (dtlsGate s))"

text \<open>
  A worker in \<open>acquireTURN\<close>: outside, with a permit, sleeping on the timer, about to note the time, or
  allocating with the permit that the call returned.
\<close>

datatype turn_worker = Outside | Permitted | Timer time | Stamping | Allocating

record turn_system =
  t_clock :: time
  t_sup :: transportSupervisor
  t_workers :: "turn_worker list"
  t_stamps :: "time list"

definition set_turn :: "nat \<Rightarrow> turn_worker \<Rightarrow> turn_system \<Rightarrow> turn_system" where
  "set_turn w x s = s\<lparr>t_workers := (t_workers s)[w := x]\<rparr>"

definition release_turn :: "turn_system \<Rightarrow> turn_system" where
  "release_turn s = s\<lparr>t_sup := (t_sup s)\<lparr>turnGate := turnGate (t_sup s) - 1\<rparr>\<rparr>"

definition stamp_turn :: "turn_system \<Rightarrow> turn_system" where
  "stamp_turn s = s\<lparr>t_sup := (t_sup s)\<lparr>lastTURN := t_clock s\<rparr>, t_stamps := t_stamps s @ [t_clock s]\<rparr>"

abbreviation turn_at :: "turn_system \<Rightarrow> nat \<Rightarrow> turn_worker \<Rightarrow> bool" where
  "turn_at s w x \<equiv> w < length (t_workers s) \<and> t_workers s ! w = x"

inductive turn_step :: "turn_system \<Rightarrow> turn_system \<Rightarrow> bool" where
  turn_tick: "0 \<le> d \<Longrightarrow> turn_step s (s\<lparr>t_clock := t_clock s + d\<rparr>)"
| turn_permit: "turn_at s w Outside \<Longrightarrow> acquireSupervisorPermit turnConcurrencyLimit (turnGate (t_sup s)) = Some n \<Longrightarrow>
    turn_step s (set_turn w Permitted (s\<lparr>t_sup := (t_sup s)\<lparr>turnGate := n\<rparr>\<rparr>))"
| turn_wait: "turn_at s w Permitted \<Longrightarrow>
    turn_step s (let wait = lastTURN (t_sup s) + turnAllocationSpacing - t_clock s in
                 set_turn w (if 0 < wait then Timer (t_clock s + wait) else Stamping) s)"
| turn_fired: "turn_at s w (Timer u) \<Longrightarrow> u \<le> t_clock s \<Longrightarrow> turn_step s (set_turn w Stamping s)"
| turn_cancelled: "turn_at s w (Timer u) \<Longrightarrow> turn_step s (set_turn w Outside (release_turn s))"
| turn_stamp: "turn_at s w Stamping \<Longrightarrow> turn_step s (set_turn w Allocating (stamp_turn s))"
| turn_done: "turn_at s w Allocating \<Longrightarrow> turn_step s (set_turn w Outside (release_turn s))"

definition turn_init :: "turn_system \<Rightarrow> bool" where
  "turn_init s \<longleftrightarrow> t_sup s = newTransportSupervisor \<and> set (t_workers s) \<subseteq> {Outside} \<and> t_stamps s = []"

section \<open>Permits are never exceeded\<close>

definition permits :: "turn_worker list \<Rightarrow> nat" where
  "permits ws = length (filter (\<lambda>x. x \<noteq> Outside) ws)"

text \<open>When the worker may note the time at the earliest; only waiting workers have such a time.\<close>

fun due :: "turn_system \<Rightarrow> turn_worker \<Rightarrow> time option" where
  "due s (Timer u) = Some (max u (t_clock s))"
| "due s Stamping = Some (t_clock s)"
| "due s _ = None"

definition fresh :: "turn_system \<Rightarrow> time \<Rightarrow> bool" where
  "fresh s u \<longleftrightarrow> lastTURN (t_sup s) + turnAllocationSpacing \<le> u"

definition rate_ok :: "time list \<Rightarrow> bool" where
  "rate_ok ts \<longleftrightarrow> (\<forall>k. k + 2 < length ts \<longrightarrow> ts ! k + turnAllocationSpacing \<le> ts ! (k + 2))"

definition turn_inv :: "turn_system \<Rightarrow> bool" where
  "turn_inv s \<longleftrightarrow>
     turnGate (t_sup s) = permits (t_workers s) \<and> turnGate (t_sup s) \<le> turnConcurrencyLimit \<and>
     rate_ok (t_stamps s) \<and> sorted (t_stamps s) \<and> (t_stamps s \<noteq> [] \<longrightarrow> lastTURN (t_sup s) = last (t_stamps s) \<and> last (t_stamps s) \<le> t_clock s) \<and>
     (\<forall>w u. w < length (t_workers s) \<longrightarrow> due s (t_workers s ! w) = Some u \<longrightarrow>
        (2 \<le> length (t_stamps s) \<longrightarrow> t_stamps s ! (length (t_stamps s) - 2) + turnAllocationSpacing \<le> u)) \<and>
     (\<forall>w w' u u'. w < length (t_workers s) \<longrightarrow> w' < length (t_workers s) \<longrightarrow> w \<noteq> w' \<longrightarrow>
        due s (t_workers s ! w) = Some u \<longrightarrow> due s (t_workers s ! w') = Some u' \<longrightarrow> fresh s u \<or> fresh s u')"

lemma turn_invD:
  assumes "turn_inv s"
  shows "turnGate (t_sup s) = permits (t_workers s)" "turnGate (t_sup s) \<le> turnConcurrencyLimit" "rate_ok (t_stamps s)" "sorted (t_stamps s)"
    "t_stamps s \<noteq> [] \<Longrightarrow> lastTURN (t_sup s) = last (t_stamps s)" "t_stamps s \<noteq> [] \<Longrightarrow> last (t_stamps s) \<le> t_clock s"
    "w < length (t_workers s) \<Longrightarrow> due s (t_workers s ! w) = Some u \<Longrightarrow> 2 \<le> length (t_stamps s) \<Longrightarrow>
       t_stamps s ! (length (t_stamps s) - 2) + turnAllocationSpacing \<le> u"
    "w < length (t_workers s) \<Longrightarrow> w' < length (t_workers s) \<Longrightarrow> w \<noteq> w' \<Longrightarrow>
       due s (t_workers s ! w) = Some u \<Longrightarrow> due s (t_workers s ! w') = Some u' \<Longrightarrow> fresh s u \<or> fresh s u'"
  using assms unfolding turn_inv_def by blast+

text \<open>A fresh worker also keeps its distance from the last time but one.\<close>

lemma fresh_second:
  assumes "turn_inv s" "2 \<le> length (t_stamps s)" "fresh s u"
  shows "t_stamps s ! (length (t_stamps s) - 2) + turnAllocationSpacing \<le> u"
proof -
  have "t_stamps s ! (length (t_stamps s) - 2) \<le> last (t_stamps s)"
    using sorted_nth_mono [OF turn_invD(4) [OF assms(1)], of "length (t_stamps s) - 2" "length (t_stamps s) - 1"] assms(2)
    by (cases "t_stamps s = []") (simp_all add: last_conv_nth)
  then show ?thesis using assms turn_invD(5) [OF assms(1)] by (fastforce simp: fresh_def)
qed

lemma turn_move:
  assumes inv: "turn_inv s" and w: "w < length (t_workers s)"
    and g: "g + (if t_workers s ! w \<noteq> Outside then 1 else 0) = turnGate (t_sup s) + (if x \<noteq> Outside then 1 else 0)" "g \<le> turnConcurrencyLimit"
    and x: "\<And>u. due s x = Some u \<Longrightarrow> due s (t_workers s ! w) = Some u \<or> fresh s u"
  shows "turn_inv (set_turn w x (s\<lparr>t_sup := (t_sup s)\<lparr>turnGate := g\<rparr>\<rparr>))" (is "turn_inv ?t")
proof -
  have d: "due ?t y = due s y" for y by (cases y) (simp_all add: set_turn_def)
  have f: "fresh ?t = fresh s" by (simp add: fun_eq_iff fresh_def set_turn_def)
  have due: "due s (t_workers s ! v) = Some u \<or> v = w \<and> fresh s u" if "v < length (t_workers s)" "due ?t (t_workers ?t ! v) = Some u" for v u
    using that x unfolding d by (cases "v = w") (auto simp: set_turn_def w)
  have n: "permits (t_workers ?t) = g"
    using filter_update_nat [OF w, of "\<lambda>x. x \<noteq> Outside" x] g(1) turn_invD(1) [OF inv] by (simp add: permits_def set_turn_def split: if_splits)
  show ?thesis unfolding turn_inv_def
  proof (intro conjI allI impI)
    fix v u assume "v < length (t_workers ?t)" "due ?t (t_workers ?t ! v) = Some u" "2 \<le> length (t_stamps ?t)"
    then show "t_stamps ?t ! (length (t_stamps ?t) - 2) + turnAllocationSpacing \<le> u"
      using due [of v u] turn_invD(7) [OF inv, of v u] fresh_second [OF inv, of u] by (auto simp: set_turn_def)
  next
    fix v v' u u' assume "v < length (t_workers ?t)" "v' < length (t_workers ?t)" "v \<noteq> v'"
      "due ?t (t_workers ?t ! v) = Some u" "due ?t (t_workers ?t ! v') = Some u'"
    then show "fresh ?t u \<or> fresh ?t u'"
      using due [of v u] due [of v' u'] turn_invD(8) [OF inv, of v v' u u'] unfolding f by (auto simp: set_turn_def)
  qed (use n g(2) turn_invD(3-6) [OF inv] in \<open>auto simp: set_turn_def\<close>)
qed

lemma release_turn_move:
  assumes "turn_inv s" "turn_at s w x" "x \<noteq> Outside"
  shows "turn_inv (set_turn w Outside (release_turn s))"
proof -
  have "t_workers s ! w \<in> set (t_workers s)" using assms(2) by (intro nth_mem) simp
  then have "0 < permits (t_workers s)" using assms(2,3) by (auto simp: permits_def filter_empty_conv)
  then show ?thesis unfolding release_turn_def
    using assms turn_invD(1,2) [OF assms(1)] by (intro turn_move [OF assms(1)]) auto
qed

text \<open>While one worker notes the time, at most one other is waiting.\<close>

lemma one_other:
  assumes "turn_inv s" "turn_at s w Stamping" "v < length (t_workers s)" "v' < length (t_workers s)" "v \<noteq> w" "v' \<noteq> w"
    "t_workers s ! v \<noteq> Outside" "t_workers s ! v' \<noteq> Outside"
  shows "v = v'"
proof (rule ccontr)
  assume "v \<noteq> v'"
  then have "card {w, v, v'} = 3" using assms(5,6) by simp
  moreover have "{w, v, v'} \<subseteq> {k. k < length (t_workers s) \<and> t_workers s ! k \<noteq> Outside}" using assms by auto
  ultimately have "3 \<le> card {k. k < length (t_workers s) \<and> t_workers s ! k \<noteq> Outside}"
    using card_mono [of "{k. k < length (t_workers s) \<and> t_workers s ! k \<noteq> Outside}" "{w, v, v'}"] by simp
  then show False
    using turn_invD(1,2) [OF assms(1)] by (simp add: permits_def length_filter_conv_card turnConcurrencyLimit_def)
qed

lemma sorted_le_last: "sorted xs \<Longrightarrow> x \<in> set xs \<Longrightarrow> x \<le> last xs" for x :: int
  by (induction xs) auto

lemma stamp_turn_inv:
  assumes inv: "turn_inv s" and w: "turn_at s w Stamping"
  shows "turn_inv (set_turn w Allocating (stamp_turn s))" (is "turn_inv ?t")
proof -
  let ?n = "length (t_stamps s)"
  have t: "t_workers ?t = (t_workers s)[w := Allocating]" "t_stamps ?t = t_stamps s @ [t_clock s]" "t_clock ?t = t_clock s"
    "lastTURN (t_sup ?t) = t_clock s" "turnGate (t_sup ?t) = turnGate (t_sup s)"
    by (simp_all add: set_turn_def stamp_turn_def)
  have others: "v \<noteq> w \<and> due s (t_workers s ! v) = Some u \<and> t_workers s ! v \<noteq> Outside \<and> t_clock s \<le> u"
    if "v < length (t_workers s)" "due ?t (t_workers ?t ! v) = Some u" for v u
    using that w unfolding t by (cases "v = w"; cases "t_workers s ! v") (auto simp: t(3))
  have "t_stamps s ! k + turnAllocationSpacing \<le> t_clock s" if "Suc (Suc k) = ?n" for k
  proof -
    from that have "?n - 2 = k" by simp
    then show ?thesis using turn_invD(7) [OF inv, of w "t_clock s"] w that by simp
  qed
  then have "rate_ok (t_stamps ?t)"
    using turn_invD(3) [OF inv] by (auto simp: rate_ok_def t nth_append less_Suc_eq)
  moreover have "sorted (t_stamps ?t)"
    using turn_invD(4,6) [OF inv] sorted_le_last [OF turn_invD(4) [OF inv]] by (fastforce simp: t sorted_append)
  moreover have "t_stamps ?t ! (length (t_stamps ?t) - 2) + turnAllocationSpacing \<le> u"
    if "v < length (t_workers s)" "due ?t (t_workers ?t ! v) = Some u" "2 \<le> length (t_stamps ?t)" for v u
  proof -
    note o = others [OF that(1,2)]
    have "fresh s (t_clock s) \<or> fresh s u" using turn_invD(8) [OF inv, of w v "t_clock s" u] w o that(1) by auto
    moreover have ne: "t_stamps s \<noteq> []" using that(3) by (auto simp: t)
    ultimately have "last (t_stamps s) + turnAllocationSpacing \<le> u"
      using o turn_invD(5) [OF inv ne] by (auto simp: fresh_def)
    then show ?thesis using ne by (simp add: t nth_append last_conv_nth)
  qed
  moreover have "fresh ?t u \<or> fresh ?t u'"
    if "v < length (t_workers s)" "v' < length (t_workers s)" "v \<noteq> v'" "due ?t (t_workers ?t ! v) = Some u" "due ?t (t_workers ?t ! v') = Some u'"
    for v v' u u'
    using one_other [OF inv w that(1,2)] others [OF that(1,4)] others [OF that(2,5)] that(3) by blast
  moreover have "permits (t_workers ?t) = permits (t_workers s)"
    using filter_update_nat [of w "t_workers s" "\<lambda>x. x \<noteq> Outside" Allocating] w by (simp add: permits_def t)
  ultimately show ?thesis unfolding turn_inv_def using turn_invD(1,2) [OF inv] by (simp add: t)
qed

lemma turn_step_inv:
  assumes "turn_step s t" "turn_inv s"
  shows "turn_inv t"
proof -
  show ?thesis using assms(1)
  proof (cases rule: turn_step.cases)
    case (turn_tick d)
    let ?t = "s\<lparr>t_clock := t_clock s + d\<rparr>"
    have d: "\<exists>u'. due s x = Some u' \<and> u' \<le> u" if "due ?t x = Some u" for x u
      using that turn_tick(2) by (cases x) auto
    have f: "fresh ?t u" if "fresh s u'" "u' \<le> u" for u u' using that by (simp add: fresh_def)
    show ?thesis unfolding turn_tick(1) turn_inv_def
    proof (intro conjI allI impI)
      fix v u assume "v < length (t_workers ?t)" "due ?t (t_workers ?t ! v) = Some u" "2 \<le> length (t_stamps ?t)"
      then show "t_stamps ?t ! (length (t_stamps ?t) - 2) + turnAllocationSpacing \<le> u"
        using d [of "t_workers s ! v" u] turn_invD(7) [OF assms(2), of v] by fastforce
    next
      fix v v' u u' assume "v < length (t_workers ?t)" "v' < length (t_workers ?t)" "v \<noteq> v'"
        "due ?t (t_workers ?t ! v) = Some u" "due ?t (t_workers ?t ! v') = Some u'"
      then show "fresh ?t u \<or> fresh ?t u'"
        using d [of "t_workers s ! v" u] d [of "t_workers s ! v'" u'] turn_invD(8) [OF assms(2), of v v'] f by fastforce
    qed (use turn_invD(1-6) [OF assms(2)] turn_tick(2) in auto)
  next
    case (turn_permit w n)
    then show ?thesis unfolding turn_permit(1)
      by (intro turn_move [OF assms(2)]) (auto simp: acquireSupervisorPermit_def split: if_splits)
  next
    case (turn_wait w)
    define x where "x = (if 0 < lastTURN (t_sup s) + turnAllocationSpacing - t_clock s
      then Timer (lastTURN (t_sup s) + turnAllocationSpacing) else Stamping)"
    have "turn_inv (set_turn w x (s\<lparr>t_sup := (t_sup s)\<lparr>turnGate := turnGate (t_sup s)\<rparr>\<rparr>))"
      by (rule turn_move [OF assms(2)]) (use turn_wait(2) turn_invD(2) [OF assms(2)] in \<open>auto simp: x_def fresh_def split: if_splits\<close>)
    then show ?thesis by (simp add: turn_wait(1) x_def Let_def split: if_splits)
  next
    case (turn_fired w u)
    have "turn_inv (set_turn w Stamping (s\<lparr>t_sup := (t_sup s)\<lparr>turnGate := turnGate (t_sup s)\<rparr>\<rparr>))"
      by (rule turn_move [OF assms(2)]) (use turn_fired(2,3) turn_invD(2) [OF assms(2)] in \<open>auto simp: max_def\<close>)
    then show ?thesis by (simp add: turn_fired(1))
  next
    case (turn_cancelled w u)
    show ?thesis unfolding turn_cancelled(1) by (rule release_turn_move [OF assms(2) turn_cancelled(2)]) simp
  next
    case (turn_stamp w)
    show ?thesis unfolding turn_stamp(1) by (rule stamp_turn_inv [OF assms(2) turn_stamp(2)])
  next
    case (turn_done w)
    show ?thesis unfolding turn_done(1) by (rule release_turn_move [OF assms(2) turn_done(2)]) simp
  qed
qed

interpretation turns: invariant_system turn_init turn_step turn_inv
proof
  show "turn_inv s" if "turn_init s" for s
  proof -
    have w: "t_workers s ! w = Outside" if "w < length (t_workers s)" for w
      using \<open>turn_init s\<close> nth_mem [OF that] by (auto simp: turn_init_def)
    have "permits (t_workers s) = 0" using \<open>turn_init s\<close> by (auto simp: turn_init_def permits_def filter_empty_conv)
    then show ?thesis using \<open>turn_init s\<close> w
      by (auto simp: turn_init_def turn_inv_def newTransportSupervisor_def rate_ok_def)
  qed
  show "turn_inv t" if "turn_inv s" "turn_step s t" for s t using turn_step_inv that by blast
qed

section \<open>Failures\<close>

definition transportFailureDomain :: "string \<Rightarrow> string" where
  "transportFailureDomain kind =
     (if kind = ''captcha'' then ''AUTH''
      else if kind = ''credentials'' then ''CREDENTIALS''
      else if kind = ''turn'' then ''TURN''
      else if kind = ''dtls'' then ''DTLS''
      else if kind = ''quic'' then ''QUIC''
      else if kind = ''network'' then ''NETWORK''
      else ''INTERNAL'')"

definition transportFailure :: "go_error \<Rightarrow> TransportFailure" where
  "transportFailure err =
     (case AsControlPlaneError err of
        Some c \<Rightarrow>
          \<lparr>tf_Stage = cp_Stage c, tf_Kind = cp_Kind c, tf_Code = cp_Code c, tf_RetryAfterMS = cp_RetryAfter c sdiv Millisecond,
           tf_ChallengeID = cp_ChallengeID c, tf_Domain = transportFailureDomain (cp_Kind c), tf_Terminal = cp_Terminal c\<rparr>
      | None \<Rightarrow>
          \<lparr>tf_Stage = ''transport'', tf_Kind = ''network'', tf_Code = ''worker_failed'', tf_RetryAfterMS = 0, tf_ChallengeID = [],
           tf_Domain = ''NETWORK'', tf_Terminal = False\<rparr>)"

section \<open>Health of a client\<close>

text \<open>The part of \<open>Client\<close> that the health loop uses; \<open>healthWake\<close> counts the elements of the channel.\<close>

record 'd healthClient =
  hc_TransportTag :: string
  hc_Workers :: int
  hc_relay :: "'d relay"
  sawPath :: bool
  sawChallenge :: bool
  lastFailure :: "TransportFailure option"
  healthWake :: nat
  hc_runtimeGeneration :: u64

definition wakeHealth :: "'d healthClient \<Rightarrow> 'd healthClient" where
  "wakeHealth c = (if healthWake c < 1 then c\<lparr>healthWake := healthWake c + 1\<rparr> else c)"

definition recordPathFailure :: "go_error \<Rightarrow> 'd healthClient \<Rightarrow> TransportFailure \<times> 'd healthClient" where
  "recordPathFailure err c =
     (let failure = transportFailure err in (failure, wakeHealth (c\<lparr>lastFailure := Some failure\<rparr>)))"

text \<open>
  \<open>healthSnapshot\<close> in its parts; \<open>now\<close> is in nanoseconds, \<open>quality\<close> the statistics of the paths and \<open>rt\<close> the
  process state. The relay is set before the health loop starts, so the checks for nil do not show.
\<close>

definition notePath :: "'d healthClient \<Rightarrow> 'd healthClient" where
  "notePath c = (if 0 < ActivePaths (hc_relay c) then c\<lparr>sawPath := True\<rparr> else c)"

definition baseHealth :: "time \<Rightarrow> (quicPathConn \<Rightarrow> PathQuality) \<Rightarrow> 'd healthClient \<Rightarrow> TransportHealthSnapshot" where
  "baseHealth now quality c =
     zeroHealth\<lparr>TransportTag := hc_TransportTag c, ActiveLanes := int (ActivePaths (hc_relay c)), TotalLanes := hc_Workers c,
       ObservedAt := now div Millisecond, Applicable := True,
       QuicRttMillis := relay_SmoothedRTT quality (hc_relay c) sdiv Millisecond\<rparr>"

definition forgetChallenge :: "RuntimeChallenge option \<Rightarrow> 'd healthClient \<Rightarrow> 'd healthClient" where
  "forgetChallenge ch c = (if ch = None \<and> sawChallenge c then c\<lparr>lastFailure := None, sawChallenge := False\<rparr> else c)"

text \<open>The cases of the switch after the first.\<close>

definition decide :: "int \<Rightarrow> int \<Rightarrow> bool \<Rightarrow> bool \<Rightarrow> TransportFailure option \<Rightarrow> string" where
  "decide active wanted first saw failure =
     (if active = wanted then TransportStateHealthy
      else if 0 < active then TransportStateDegraded
      else if first then TransportStateStarting
      else if (case failure of Some f \<Rightarrow> \<not> saw \<or> tf_Terminal f | None \<Rightarrow> False) then TransportStateFailed
      else if \<not> saw then TransportStateStarting
      else TransportStateRecovering)"

definition healthSnapshot ::
  "time \<Rightarrow> (quicPathConn \<Rightarrow> PathQuality) \<Rightarrow> runtimeTransportState \<Rightarrow> 'd healthClient \<Rightarrow> TransportHealthSnapshot \<times> 'd healthClient" where
  "healthSnapshot now quality rt c =
     (let c = notePath c;
          h = baseHealth now quality c;
          ch = CurrentRuntimeChallenge rt;
          c = forgetChallenge ch c;
          failure = lastFailure c;
          (h, c) =
            (case ch of
               Some x \<Rightarrow>
                 (h\<lparr>State := TransportStateWaitingUser,
                    Failure := Some \<lparr>tf_Stage = ''vk_auth'', tf_Kind = ''captcha'', tf_Code = ''14'', tf_RetryAfterMS = 0,
                                    tf_ChallengeID = rc_ID x, tf_Domain = ''AUTH'', tf_Terminal = False\<rparr>\<rparr>,
                  c\<lparr>sawChallenge := True\<rparr>)
             | None \<Rightarrow>
                 (h\<lparr>State := decide (ActiveLanes h) (hc_Workers c) (initialPathsPending (hc_relay c)) (sawPath c) failure\<rparr>, c));
          h = (if Failure h = None \<and> ActiveLanes h = 0 \<and> State h \<noteq> TransportStateHealthy then h\<lparr>Failure := failure\<rparr> else h) in
      (h, c))"

definition publishObservedHealth ::
  "time \<Rightarrow> int \<Rightarrow> (quicPathConn \<Rightarrow> PathQuality) \<Rightarrow> runtimeTransportState \<Rightarrow> 'd healthClient \<Rightarrow> runtimeTransportState \<times> 'd healthClient" where
  "publishObservedHealth now millis quality rt c =
     (case healthSnapshot now quality rt c of (h, c) \<Rightarrow> (PublishTransportHealth millis (hc_runtimeGeneration c) h rt, c))"

text \<open>
  The health loop among the events it can meet: steps of the path pool, the end of a dial, other users
  of the process state, and an observation, which is logged together with the facts of its moment: the open
  challenge, the active paths, and whether first attempts are still being made.
\<close>

record facts =
  fa_challenge :: "RuntimeChallenge option"
  fa_paths :: nat
  fa_pending :: bool

record 'd health_system =
  hs_client :: "'d healthClient"
  hs_runtime :: runtimeTransportState
  hs_log :: "TransportHealthSnapshot list"
  hs_facts :: "facts list"

definition facts_now :: "'d health_system \<Rightarrow> facts" where
  "facts_now s = \<lparr>fa_challenge = challenge (hs_runtime s), fa_paths = ActivePaths (hc_relay (hs_client s)),
     fa_pending = initialPathsPending (hc_relay (hs_client s))\<rparr>"

inductive health_step :: "'d health_system \<Rightarrow> 'd health_system \<Rightarrow> bool" where
  pool_step: "relay_step (hc_relay (hs_client s)) r \<Longrightarrow> health_step s (s\<lparr>hs_client := (hs_client s)\<lparr>hc_relay := r\<rparr>\<rparr>)"
| paths_changed: "health_step s (s\<lparr>hs_client := wakeHealth (hs_client s)\<rparr>)"
| dial_failed: "health_step s (s\<lparr>hs_client := snd (recordPathFailure err (hs_client s))\<rparr>)"
| dial_ok: "health_step s (s\<lparr>hs_client := (hs_client s)\<lparr>lastFailure := None\<rparr>\<rparr>)"
| other: "health_step s (s\<lparr>hs_runtime := exec_op op (hs_runtime s)\<rparr>)"
| woken: "0 < healthWake (hs_client s) \<Longrightarrow> health_step s (s\<lparr>hs_client := (hs_client s)\<lparr>healthWake := healthWake (hs_client s) - 1\<rparr>\<rparr>)"
| observe: "publishObservedHealth now millis quality (hs_runtime s) (hs_client s) = (rt, c) \<Longrightarrow>
    health_step s (s\<lparr>hs_client := c, hs_runtime := rt,
                     hs_log := hs_log s @ [fst (healthSnapshot now quality (hs_runtime s) (hs_client s))],
                     hs_facts := hs_facts s @ [facts_now s]\<rparr>)"

definition health_init :: "'d health_system \<Rightarrow> bool" where
  "health_init s \<longleftrightarrow> (\<exists>tag w g. 0 < w \<and> w \<le> 65536 \<and> hs_log s = [] \<and> hs_facts s = [] \<and>
     hs_client s = \<lparr>hc_TransportTag = tag, hc_Workers = w, hc_relay = NewQUICRelay w True, sawPath = False, sawChallenge = False,
       lastFailure = None, healthWake = 0, hc_runtimeGeneration = g\<rparr>)"

text \<open>What a report says, given the reports before it and the facts of its moment.\<close>

definition report_ok :: "TransportHealthSnapshot list \<Rightarrow> facts \<Rightarrow> TransportHealthSnapshot \<Rightarrow> bool" where
  "report_ok before f h \<longleftrightarrow>
     ActiveLanes h = int (fa_paths f) \<and> ActiveLanes h \<le> TotalLanes h \<and> 0 < TotalLanes h \<and>
     (State h = TransportStateWaitingUser \<longleftrightarrow> fa_challenge f \<noteq> None) \<and>
     (\<forall>x. fa_challenge f = Some x \<longrightarrow> (\<exists>g. Failure h = Some g \<and> tf_ChallengeID g = rc_ID x \<and> tf_Kind g = ''captcha'' \<and> \<not> tf_Terminal g)) \<and>
     (State h = TransportStateHealthy \<longleftrightarrow> fa_challenge f = None \<and> ActiveLanes h = TotalLanes h) \<and>
     (State h = TransportStateHealthy \<longrightarrow> 0 < fa_paths f \<and> Failure h = None) \<and>
     (State h = TransportStateDegraded \<longleftrightarrow> fa_challenge f = None \<and> 0 < ActiveLanes h \<and> ActiveLanes h < TotalLanes h) \<and>
     (State h = TransportStateFailed \<longrightarrow> ActiveLanes h = 0 \<and> \<not> fa_pending f \<and>
        (\<exists>g. Failure h = Some g \<and> (tf_Terminal g \<or> (\<forall>x \<in> set before. ActiveLanes x = 0)))) \<and>
     (State h = TransportStateRecovering \<longrightarrow> ActiveLanes h = 0 \<and> \<not> fa_pending f \<and> (\<exists>x \<in> set before. 0 < ActiveLanes x) \<and>
        (\<forall>g. Failure h = Some g \<longrightarrow> \<not> tf_Terminal g)) \<and>
     (State h = TransportStateStarting \<longrightarrow> ActiveLanes h = 0 \<and>
        (fa_pending f \<or> Failure h = None \<and> (\<forall>x \<in> set before. ActiveLanes x = 0))) \<and>
     State h \<in> {TransportStateHealthy, TransportStateDegraded, TransportStateFailed, TransportStateRecovering,
       TransportStateStarting, TransportStateWaitingUser}"

definition health_inv :: "'d health_system \<Rightarrow> bool" where
  "health_inv s \<longleftrightarrow>
     relay_inv (hc_relay (hs_client s)) \<and> int (pathCount (hc_relay (hs_client s))) = hc_Workers (hs_client s) \<and> 0 < hc_Workers (hs_client s) \<and>
     sawPath (hs_client s) = (\<exists>x \<in> set (hs_log s). 0 < ActiveLanes x) \<and>
     (\<forall>x \<in> set (hs_log s). 0 \<le> ActiveLanes x) \<and>
     length (hs_facts s) = length (hs_log s) \<and>
     (\<forall>k < length (hs_log s). report_ok (take k (hs_log s)) (hs_facts s ! k) (hs_log s ! k))"

lemma relay_step_pathCount: "relay_step r r' \<Longrightarrow> pathCount r' = pathCount r"
proof (induction rule: relay_step.induct)
  case (pick r quality)
  then show ?case using pickPath_relay [of quality r] by auto
next
  case (listen r quality dest)
  then show ?case using pickPath_relay [of quality r]
    by (auto simp: ListenPacket_def count_stream_def Let_def split: prod.splits sum.splits)
qed (auto simp: Start_def init_done_def set_worker_def dialled_def addCurrentPath_def watchPath_def removePath_def RebindNetwork_def
    relay_Close_def Let_def split: prod.splits bool.splits if_splits)

lemma health_parts [simp]:
  "hc_relay (notePath c) = hc_relay c" "hc_Workers (notePath c) = hc_Workers c" "hc_runtimeGeneration (notePath c) = hc_runtimeGeneration c"
  "sawPath (notePath c) = (sawPath c \<or> 0 < ActivePaths (hc_relay c))"
  "hc_relay (forgetChallenge ch c) = hc_relay c" "hc_Workers (forgetChallenge ch c) = hc_Workers c"
  "hc_runtimeGeneration (forgetChallenge ch c) = hc_runtimeGeneration c" "sawPath (forgetChallenge ch c) = sawPath c"
  "ActiveLanes (baseHealth now quality c) = int (ActivePaths (hc_relay c))" "TotalLanes (baseHealth now quality c) = hc_Workers c"
  "Failure (baseHealth now quality c) = None"
  by (simp_all add: notePath_def forgetChallenge_def baseHealth_def zeroHealth_def)

lemma healthSnapshot_None:
  assumes "challenge rt = None" "c2 = forgetChallenge None (notePath c)" "h0 = baseHealth now quality (notePath c)"
    and "d = decide (int (ActivePaths (hc_relay c))) (hc_Workers c) (initialPathsPending (hc_relay c)) (sawPath c2) (lastFailure c2)"
  shows "healthSnapshot now quality rt c =
    (if ActivePaths (hc_relay c) = 0 \<and> d \<noteq> TransportStateHealthy then h0\<lparr>State := d, Failure := lastFailure c2\<rparr> else h0\<lparr>State := d\<rparr>, c2)"
  by (simp add: healthSnapshot_def CurrentRuntimeChallenge_def Let_def assms cong: if_cong)

lemma healthSnapshot_Some:
  assumes "challenge rt = Some x"
  shows "\<exists>f. tf_ChallengeID f = rc_ID x \<and> tf_Kind f = ''captcha'' \<and> \<not> tf_Terminal f \<and> healthSnapshot now quality rt c =
    ((baseHealth now quality (notePath c))\<lparr>State := TransportStateWaitingUser, Failure := Some f\<rparr>,
     (forgetChallenge (Some x) (notePath c))\<lparr>sawChallenge := True\<rparr>)"
  by (simp add: healthSnapshot_def CurrentRuntimeChallenge_def Let_def assms)
    (intro exI conjI, rule_tac [4] refl, simp_all)

lemma healthSnapshot_fields:
  assumes "healthSnapshot now quality rt c = (h, c')"
  shows "ActiveLanes h = int (ActivePaths (hc_relay c))" "TotalLanes h = hc_Workers c"
    "hc_relay c' = hc_relay c" "hc_Workers c' = hc_Workers c" "hc_runtimeGeneration c' = hc_runtimeGeneration c"
    "sawPath c' = (sawPath c \<or> 0 < ActivePaths (hc_relay c))"
    "challenge rt = Some x \<Longrightarrow> State h = TransportStateWaitingUser \<and>
       (\<exists>g. Failure h = Some g \<and> tf_ChallengeID g = rc_ID x \<and> tf_Kind g = ''captcha'' \<and> \<not> tf_Terminal g)"
    "challenge rt = None \<Longrightarrow> \<exists>failure. State h = decide (ActiveLanes h) (TotalLanes h) (initialPathsPending (hc_relay c)) (sawPath c') failure \<and>
       Failure h = (if ActiveLanes h = 0 \<and> State h \<noteq> TransportStateHealthy then failure else None)"
proof -
  show "ActiveLanes h = int (ActivePaths (hc_relay c))" "TotalLanes h = hc_Workers c" "hc_relay c' = hc_relay c"
    "hc_Workers c' = hc_Workers c" "hc_runtimeGeneration c' = hc_runtimeGeneration c"
    "sawPath c' = (sawPath c \<or> 0 < ActivePaths (hc_relay c))"
    using assms
    by (cases "challenge rt"; use healthSnapshot_None [where rt = rt and c = c and now = now and quality = quality, OF _ refl refl refl] healthSnapshot_Some [of rt _ now quality c] in force)+
  show "State h = TransportStateWaitingUser \<and>
       (\<exists>g. Failure h = Some g \<and> tf_ChallengeID g = rc_ID x \<and> tf_Kind g = ''captcha'' \<and> \<not> tf_Terminal g)" if "challenge rt = Some x"
    using assms healthSnapshot_Some [OF that, of now quality c] by auto
  show "\<exists>failure. State h = decide (ActiveLanes h) (TotalLanes h) (initialPathsPending (hc_relay c)) (sawPath c') failure \<and>
       Failure h = (if ActiveLanes h = 0 \<and> State h \<noteq> TransportStateHealthy then failure else None)" if "challenge rt = None"
    using assms healthSnapshot_None [where c = c and now = now and quality = quality, OF that refl refl refl]
    by (intro exI [of _ "lastFailure (forgetChallenge None (notePath c))"]) auto
qed

lemma snapshot_report:
  fixes s :: "'d health_system"
  assumes "health_inv s" "healthSnapshot now quality (hs_runtime s) (hs_client s) = (h, c)"
  shows "report_ok (hs_log s) (facts_now s) h"
proof -
  let ?c = "hs_client s"
  note f = healthSnapshot_fields [OF assms(2)]
  have n: "0 \<le> ActiveLanes h" "ActiveLanes h \<le> TotalLanes h" "0 < TotalLanes h"
    using assms(1) relay_ids_distinct(2) [of "hc_relay ?c"] f(1,2) by (auto simp: ActivePaths_def health_inv_def)
  have saw: "sawPath ?c = (\<exists>x \<in> set (hs_log s). 0 < ActiveLanes x)" and pos: "\<forall>x \<in> set (hs_log s). 0 \<le> ActiveLanes x"
    using assms(1) by (auto simp: health_inv_def)
  have zero: "(\<forall>x \<in> set (hs_log s). ActiveLanes x = 0) \<longleftrightarrow> \<not> sawPath ?c" using saw pos by fastforce
  have sc: "sawPath c = (sawPath ?c \<or> 0 < ActiveLanes h)" using f(1,6) by simp
  show ?thesis
  proof (cases "challenge (hs_runtime s)")
    case None
    obtain failure where "State h = decide (ActiveLanes h) (TotalLanes h) (initialPathsPending (hc_relay ?c)) (sawPath c) failure"
      "Failure h = (if ActiveLanes h = 0 \<and> State h \<noteq> TransportStateHealthy then failure else None)"
      using f(8) [OF None] by blast
    then show ?thesis using n f(1) None unfolding report_ok_def zero saw [symmetric] sc
      by (auto simp: facts_now_def decide_def transport_states split: if_splits option.splits)
  next
    case (Some x)
    then show ?thesis using f(1) f(7) [OF Some] n unfolding report_ok_def by (auto simp: facts_now_def transport_states)
  qed
qed

lemma health_frame:
  assumes "health_inv s" "hc_relay (hs_client t) = hc_relay (hs_client s)" "hc_Workers (hs_client t) = hc_Workers (hs_client s)"
    "sawPath (hs_client t) = sawPath (hs_client s)" "hs_log t = hs_log s" "hs_facts t = hs_facts s"
  shows "health_inv t"
  using assms by (simp add: health_inv_def)

lemma health_step_inv:
  assumes "health_step s t" "health_inv s"
  shows "health_inv t"
  using assms(1)
proof (cases rule: health_step.cases)
  case (pool_step r)
  then show ?thesis using assms(2) relay_step_inv [OF pool_step(2)] relay_step_pathCount [OF pool_step(2)] by (simp add: health_inv_def)
next
  case (observe now millis quality rt c)
  obtain h c' where h: "healthSnapshot now quality (hs_runtime s) (hs_client s) = (h, c')" by fastforce
  then have "c = c'" using observe(2) by (simp add: publishObservedHealth_def)
  then show ?thesis
    using assms(2) healthSnapshot_fields(1,3,4,6) [OF h] snapshot_report [OF assms(2) h]
    by (auto simp: observe(1) h health_inv_def nth_append less_Suc_eq)
qed (rule health_frame [OF assms(2)]; simp add: wakeHealth_def recordPathFailure_def Let_def)+

interpretation health: invariant_system health_init health_step health_inv
proof
  show "health_inv s" if "health_init s" for s
  proof -
    have "int (pathCount (NewQUICRelay w True)) = w" if "0 < w" for w using that by (simp add: NewQUICRelay_def Let_def)
    then show ?thesis using that by (auto simp: health_init_def health_inv_def NewQUICRelay_inv)
  qed
  show "health_inv t" if "health_inv s" "health_step s t" for s t using health_step_inv that by blast
qed

section \<open>Properties\<close>

text \<open>
  C22. At most two workers hold a TURN permit at any time, and of any three consecutive allocations the
  first and the third are at least the configured spacing apart.
\<close>

theorem turn_permits_and_rate:
  assumes "reach turn_init turn_step s"
  shows "permits (t_workers s) \<le> 2 \<and> turnGate (t_sup s) = permits (t_workers s) \<and>
    (\<forall>k. k + 2 < length (t_stamps s) \<longrightarrow> t_stamps s ! k + 250 * Millisecond \<le> t_stamps s ! (k + 2))"
  using turn_invD(1-3) [OF turns.reach_inv [OF assms]]
  by (simp add: rate_ok_def turnConcurrencyLimit_def turnAllocationSpacing_def)

text \<open>
  Two consecutive allocations may come without any spacing: both workers read the time of the last
  one before either notes its own.
\<close>

definition demo_turns :: turn_system where
  "demo_turns = \<lparr>t_clock = 0, t_sup = \<lparr>turnGate = 2, dtlsGate = 0, lastTURN = 0\<rparr>, t_workers = [Allocating, Allocating], t_stamps = [0, 0]\<rparr>"

lemma turn_spacing_race: "reach turn_init turn_step demo_turns \<and> t_stamps demo_turns = [0, 0]"
proof -
  define st where "st a b n l ts = \<lparr>t_clock = 0, t_sup = \<lparr>turnGate = n, dtlsGate = 0, lastTURN = l\<rparr>, t_workers = [a, b], t_stamps = ts\<rparr>"
    for a b n l ts
  note defs = st_def acquireSupervisorPermit_def turnConcurrencyLimit_def turnAllocationSpacing_def zeroTime_def set_turn_def stamp_turn_def
  have "reach turn_init turn_step (st Outside Outside 0 zeroTime [])"
    by (rule reach_init) (simp add: turn_init_def newTransportSupervisor_def st_def)
  then have "reach turn_init turn_step (st Permitted Outside 1 zeroTime [])"
    by (rule reach_step) (use turn_permit [where w = 0 and n = 1 and s = "st Outside Outside 0 zeroTime []"] in \<open>simp add: defs\<close>)
  then have "reach turn_init turn_step (st Permitted Permitted 2 zeroTime [])"
    by (rule reach_step) (use turn_permit [where w = 1 and n = 2 and s = "st Permitted Outside 1 zeroTime []"] in \<open>simp add: defs\<close>)
  then have "reach turn_init turn_step (st Stamping Permitted 2 zeroTime [])"
    by (rule reach_step) (use turn_wait [where w = 0 and s = "st Permitted Permitted 2 zeroTime []"] in \<open>simp add: defs\<close>)
  then have "reach turn_init turn_step (st Stamping Stamping 2 zeroTime [])"
    by (rule reach_step) (use turn_wait [where w = 1 and s = "st Stamping Permitted 2 zeroTime []"] in \<open>simp add: defs\<close>)
  then have "reach turn_init turn_step (st Allocating Stamping 2 0 [0])"
    by (rule reach_step) (use turn_stamp [where w = 0 and s = "st Stamping Stamping 2 zeroTime []"] in \<open>simp add: defs\<close>)
  then have "reach turn_init turn_step (st Allocating Allocating 2 0 [0, 0])"
    by (rule reach_step) (use turn_stamp [where w = 1 and s = "st Allocating Stamping 2 0 [0]"] in \<open>simp add: defs\<close>)
  then show ?thesis by (simp add: demo_turns_def st_def)
qed

theorem turn_permits_and_rate_witness: "permits (t_workers demo_turns) = 2 \<and> turnGate (t_sup demo_turns) = permits (t_workers demo_turns)"
  using turn_permits_and_rate [OF conjunct1 [OF turn_spacing_race]] by (simp add: permits_def demo_turns_def)


definition demo_health :: "nat health_system" where
  "demo_health = \<lparr>hs_client = \<lparr>hc_TransportTag = ''vk'', hc_Workers = 4, hc_relay = NewQUICRelay 4 True, sawPath = False, sawChallenge = False,
     lastFailure = None, healthWake = 0, hc_runtimeGeneration = 1\<rparr>, hs_runtime = initialState, hs_log = [], hs_facts = []\<rparr>"


end
