(* ===== verification/Turn.thy ===== *)
theory Turn
  imports Go_Net Runtime_Transport "HOL-Library.Monad_Syntax" "HOL-Library.Multiset"
begin

text \<open>
  \<open>transport/call/vk-parasite/turn.go\<close>: parsing TURN URLs, ranking the endpoints by their past
  failures, resolving addresses, trying endpoints and addresses in turn, and the TCP connection that
  splits the first TLS record inside the server name. The TURN client of pion, the dialer, DNS and the
  address type of the sing library are parameters; an allocation is a number.
\<close>

section \<open>Endpoints\<close>

text \<open>The operations on \<open>M.Socksaddr\<close> that the code calls.\<close>

record 'd socksaddr =
  sa_Parse :: "string \<Rightarrow> 'd"
  sa_IsValid :: "'d \<Rightarrow> bool"
  sa_Port :: "'d \<Rightarrow> u16"
  sa_SetPort :: "u16 \<Rightarrow> 'd \<Rightarrow> 'd"
  sa_Fqdn :: "'d \<Rightarrow> string"
  sa_IsIP :: "'d \<Rightarrow> bool"
  sa_Addr :: "'d \<Rightarrow> IP"
  sa_String :: "'d \<Rightarrow> string"

record 'd turnEndpoint =
  rawURL :: string
  destination :: 'd
  network :: string
  secure :: bool
  serverName :: string

record TURNCredentials =
  tc_URLs :: "string list"
  tc_Username :: string
  tc_Credential :: string

text \<open>What \<open>net/url.Parse\<close> gives for a URL; \<open>u_transport\<close> is \<open>Query().Get("transport")\<close>.\<close>

record url =
  u_Scheme :: string
  u_Opaque :: string
  u_User :: bool
  u_Host :: string
  u_transport :: string

definition lower :: "char \<Rightarrow> char" where
  "lower c = (if 65 \<le> (of_char c :: nat) \<and> (of_char c :: nat) \<le> 90 then char_of ((of_char c :: nat) + 32) else c)"

definition ToLower :: "string \<Rightarrow> string" where "ToLower s = map lower s"

definition EqualFold :: "string \<Rightarrow> string \<Rightarrow> bool" where "EqualFold s t \<longleftrightarrow> ToLower s = ToLower t"

definition TrimPrefix :: "string \<Rightarrow> string \<Rightarrow> string" where
  "TrimPrefix s p = (if take (length p) s = p then drop (length p) s else s)"

text \<open>\<open>parseTURNURL\<close> on the parsed URL; \<open>raw\<close> is the text it came from.\<close>

definition parseTURNURL :: "'d socksaddr \<Rightarrow> string \<Rightarrow> go_error + url \<Rightarrow> go_error + 'd turnEndpoint" where
  "parseTURNURL ops raw result =
     (case result of Inl err \<Rightarrow> Inl (New ''not a TURN URL'')
      | Inr parsed \<Rightarrow>
        if \<not> EqualFold (u_Scheme parsed) ''turn'' \<and> \<not> EqualFold (u_Scheme parsed) ''turns'' then Inl (New ''not a TURN URL'')
        else
          let sec = EqualFold (u_Scheme parsed) ''turns'';
              net = ToLower (u_transport parsed);
              net = (if net = [] then (if sec then ''tcp'' else ''udp'') else net) in
          if net \<noteq> ''udp'' \<and> net \<noteq> ''tcp'' then Inl (New ''unsupported TURN transport'')
          else if sec \<and> net \<noteq> ''tcp'' then Inl (New ''TURN TLS requires TCP'')
          else if u_User parsed then Inl (New ''TURN URL contains unexpected userinfo'')
          else
            let authority = (if u_Host parsed = [] then TrimPrefix (u_Opaque parsed) ''//'' else u_Host parsed);
                dest = sa_Parse ops authority in
            if \<not> sa_IsValid ops dest then Inl (New ''TURN URL has no host'')
            else
              let dest = (if sa_Port ops dest = 0 then sa_SetPort ops (if sec then 5349 else 3478) dest else dest);
                  name = sa_Fqdn ops dest;
                  name = (if name = [] \<and> sa_IsIP ops dest then IP_String (sa_Addr ops dest) else name) in
              Inr \<lparr>rawURL = raw, destination = dest, network = net, secure = sec, serverName = name\<rparr>)"

definition parseTURNUDPURL :: "'d socksaddr \<Rightarrow> string \<Rightarrow> go_error + url \<Rightarrow> go_error + 'd" where
  "parseTURNUDPURL ops raw result =
     (case parseTURNURL ops raw result of Inl err \<Rightarrow> Inl err
      | Inr endpoint \<Rightarrow>
          if network endpoint \<noteq> ''udp'' \<or> secure endpoint then Inl (New ''TURN transport is not UDP'')
          else Inr (destination endpoint))"

section \<open>Penalties\<close>

record turnEndpointScore =
  failures :: int
  lastSuccess :: time

type_synonym registry = "string \<rightharpoonup> turnEndpointScore"

definition turnEndpointKey :: "'d socksaddr \<Rightarrow> 'd turnEndpoint \<Rightarrow> string" where
  "turnEndpointKey ops endpoint = network endpoint @ ''://'' @ sa_String ops (destination endpoint)"

definition getTURNEndpointPenalty :: "'d socksaddr \<Rightarrow> registry \<Rightarrow> 'd turnEndpoint \<Rightarrow> int" where
  "getTURNEndpointPenalty ops reg endpoint =
     (case reg (turnEndpointKey ops endpoint) of None \<Rightarrow> 0 | Some stat \<Rightarrow> failures stat)"

definition loadScore :: "string \<Rightarrow> registry \<Rightarrow> turnEndpointScore" where
  "loadScore key reg = (case reg key of None \<Rightarrow> \<lparr>failures = 0, lastSuccess = - 62135596800 * Second\<rparr> | Some stat \<Rightarrow> stat)"

text \<open>The state the allocation touches: the scores and the record of the last edge.\<close>

record turn_state =
  scores :: registry
  edge :: turnEdgeStore

definition recordTURNEndpointSuccess ::
  "'d socksaddr \<Rightarrow> file_io \<Rightarrow> time \<Rightarrow> runtimeTransportState \<Rightarrow> 'd turnEndpoint \<Rightarrow> string \<Rightarrow> u64 \<Rightarrow> turn_state \<Rightarrow> turn_state" where
  "recordTURNEndpointSuccess ops io now rt endpoint transportTag runtimeGeneration s =
     (let key = turnEndpointKey ops endpoint;
          s = s\<lparr>edge := RecordTurnEdgeEndpoint io (now div Millisecond) rt key transportTag runtimeGeneration (edge s)\<rparr>;
          stat = loadScore key (scores s) in
      s\<lparr>scores := (scores s)(key \<mapsto> stat\<lparr>failures := max 0 (failures stat - 1), lastSuccess := now\<rparr>)\<rparr>)"

definition recordTURNEndpointFailure :: "'d socksaddr \<Rightarrow> 'd turnEndpoint \<Rightarrow> turn_state \<Rightarrow> turn_state" where
  "recordTURNEndpointFailure ops endpoint s =
     (let key = turnEndpointKey ops endpoint; stat = loadScore key (scores s) in
      s\<lparr>scores := (scores s)(key \<mapsto> stat\<lparr>failures := failures stat + 1\<rparr>)\<rparr>)"

text \<open>
  \<open>sort.SliceStable\<close> by penalty is \<open>sort_key\<close>, which is stable. \<open>preferred\<close> is the number of the worker,
  so never negative.
\<close>

definition rotateTURNEndpoints :: "'d socksaddr \<Rightarrow> registry \<Rightarrow> 'd turnEndpoint list \<Rightarrow> nat \<Rightarrow> 'd turnEndpoint list" where
  "rotateTURNEndpoints ops reg endpoints preferred =
     (if length endpoints < 2 then endpoints
      else
        let start = preferred mod length endpoints;
            rotated = drop start endpoints @ take start endpoints in
        sort_key (getTURNEndpointPenalty ops reg) rotated)"

section \<open>Trying the endpoints\<close>

definition isTURNCredentialError_code :: "nat \<Rightarrow> bool" where
  "isTURNCredentialError_code code \<longleftrightarrow> code = 401 \<or> code = 441"

fun isTURNCredentialError :: "go_error \<Rightarrow> bool" where
  "isTURNCredentialError (TurnError code) = isTURNCredentialError_code code"
| "isTURNCredentialError (Errorf m e) = isTURNCredentialError e"
| "isTURNCredentialError (ControlPlane (ControlPlaneError a b c d i f (Some e))) = isTURNCredentialError e"
| "isTURNCredentialError _ = False"

definition isMobileLTE :: bool where "isMobileLTE = False"

text \<open>The endpoints of the URLs: the UDP ones, and the TCP ones with a fallback for each UDP one.\<close>

fun splitEndpoints :: "'d socksaddr \<Rightarrow> (string \<Rightarrow> go_error + url) \<Rightarrow> string list \<Rightarrow> 'd turnEndpoint list \<times> 'd turnEndpoint list" where
  "splitEndpoints ops Parse [] = ([], [])"
| "splitEndpoints ops Parse (raw # raws) =
     (let (udp, tcp) = splitEndpoints ops Parse raws in
      case parseTURNURL ops raw (Parse raw) of
        Inl _ \<Rightarrow> (udp, tcp)
      | Inr endpoint \<Rightarrow>
          if network endpoint = ''udp'' then (endpoint # udp, endpoint\<lparr>network := ''tcp''\<rparr> # tcp)
          else (udp, endpoint # tcp))"

definition destinations :: "'d socksaddr \<Rightarrow> (string \<Rightarrow> go_error + url) \<Rightarrow> registry \<Rightarrow> string list \<Rightarrow> nat \<Rightarrow> 'd turnEndpoint list" where
  "destinations ops Parse reg urls preferred =
     (let (udp, tcp) = splitEndpoints ops Parse urls in
      if isMobileLTE then rotateTURNEndpoints ops reg tcp preferred @ rotateTURNEndpoints ops reg udp preferred
      else rotateTURNEndpoints ops reg udp preferred @ rotateTURNEndpoints ops reg tcp preferred)"

text \<open>The loop over the destinations; \<open>alloc\<close> is \<open>allocateTURNEndpoint\<close>, \<open>success\<close> and \<open>failure\<close> record its outcome.\<close>

fun tryEndpoints ::
  "('e \<Rightarrow> go_error + 'c) \<Rightarrow> ('e \<Rightarrow> 's \<Rightarrow> 's) \<Rightarrow> ('e \<Rightarrow> 's \<Rightarrow> 's) \<Rightarrow> 'e list \<Rightarrow> go_error \<Rightarrow> 's \<Rightarrow> (go_error + 'c) \<times> 's" where
  "tryEndpoints alloc success failure [] lastErr s =
     (Inl (Errorf ''call vk_parasite: all VK TURN endpoints failed: %w'' lastErr), s)"
| "tryEndpoints alloc success failure (endpoint # rest) lastErr s =
     (case alloc endpoint of
        Inr connection \<Rightarrow> (Inr connection, success endpoint s)
      | Inl err \<Rightarrow>
          if isTURNCredentialError err then (Inl (Errorf ''call vk_parasite: VK TURN credentials rejected: %w'' err), s)
          else tryEndpoints alloc success failure rest err (failure endpoint s))"

definition allocateTURN ::
  "'d socksaddr \<Rightarrow> (string \<Rightarrow> go_error + url) \<Rightarrow> ('d turnEndpoint \<Rightarrow> go_error + 'c) \<Rightarrow> file_io \<Rightarrow> time \<Rightarrow> runtimeTransportState \<Rightarrow>
   TURNCredentials \<Rightarrow> nat \<Rightarrow> string \<Rightarrow> u64 \<Rightarrow> turn_state \<Rightarrow> (go_error + 'c) \<times> turn_state" where
  "allocateTURN ops Parse alloc io now rt credentials preferred transportTag runtimeGeneration s =
     (if tc_Username credentials = [] \<or> tc_Credential credentials = []
      then (Inl (New ''call vk_parasite: VK returned incomplete TURN credentials''), s)
      else
        let dests = destinations ops Parse (scores s) (tc_URLs credentials) preferred in
        if dests = [] then (Inl (New ''call vk_parasite: no usable TURN URL''), s)
        else tryEndpoints alloc (\<lambda>e. recordTURNEndpointSuccess ops io now rt e transportTag runtimeGeneration)
               (recordTURNEndpointFailure ops) dests (New ''unset'') s)"

section \<open>Resolving\<close>

text \<open>\<open>netip.Addr\<close> as its bytes: \<open>Unmap\<close>, \<open>Is4\<close>, and the key by which \<open>Compare\<close> orders.\<close>

definition Unmap :: "IP \<Rightarrow> IP" where
  "Unmap a = (if length a = 16 \<and> take 12 a = v4InV6Prefix then drop 12 a else a)"

definition Is4 :: "IP \<Rightarrow> bool" where "Is4 a \<longleftrightarrow> length a = 4"

definition addr_key :: "IP \<Rightarrow> nat" where "addr_key a = (if Is4 a then 0 else 2 ^ 32) + be_val a"

text \<open>
  \<open>dns\<close> is \<open>None\<close> without a DNS router and otherwise its answer; \<open>doh\<close> is the answer of the bootstrap
  resolver, of which only 4- and 16-byte addresses are valid.
\<close>

definition resolveUDPAddresses ::
  "'d socksaddr \<Rightarrow> (go_error + IP list) option \<Rightarrow> go_error + IP list \<Rightarrow> 'd \<Rightarrow> bool \<Rightarrow> go_error + IP list" where
  "resolveUDPAddresses ops dns doh dest requireIPv4 =
     (if sa_Port ops dest = 0 \<or> \<not> sa_IsValid ops dest then Inl (New ''call vk_parasite: invalid UDP destination'')
      else if sa_IsIP ops dest then
        let addr = Unmap (sa_Addr ops dest) in
        if requireIPv4 \<and> \<not> Is4 addr then Inl (New ''call vk_parasite: TURN requires an IPv4 address'')
        else Inr [addr]
      else
        let addresses = (case dns of Some (Inr as) \<Rightarrow> as | _ \<Rightarrow> []);
            addresses = (if addresses = [] then
                           (case doh of Inr ips \<Rightarrow> map Unmap (filter (\<lambda>ip. length ip = 4 \<or> length ip = 16) ips) | Inl _ \<Rightarrow> [])
                         else addresses);
            filtered = filter (\<lambda>a. \<not> (requireIPv4 \<and> \<not> Is4 a)) (map Unmap addresses) in
        if filtered = [] then Inl (New ''call vk_parasite: no usable address returned by DNS or Bootstrap DoH'')
        else Inr (sort_key addr_key filtered))"

definition resolveUDPAddress ::
  "'d socksaddr \<Rightarrow> (go_error + IP list) option \<Rightarrow> go_error + IP list \<Rightarrow> 'd \<Rightarrow> bool \<Rightarrow> go_error + IP \<times> u16" where
  "resolveUDPAddress ops dns doh dest requireIPv4 =
     (case resolveUDPAddresses ops dns doh dest requireIPv4 of Inl err \<Rightarrow> Inl err
      | Inr addrs \<Rightarrow> Inr (addrs ! 0, sa_Port ops dest))"

section \<open>Allocating on one endpoint\<close>

text \<open>
  What can happen to one address: no socket, a socket but no TLS, a TURN client that cannot be made,
  cannot listen or cannot allocate, or an allocation.
\<close>

datatype 'c attempt =
    NoSocket go_error
  | NoTLS go_error
  | NoClient go_error
  | NoListen go_error
  | NoAllocation go_error
  | Allocated 'c

datatype resource = OpenSocket IP | CloseSocket IP | OpenClient IP | CloseClient IP

text \<open>Sockets and clients that an attempt opens and closes, in order.\<close>

fun attempt_log :: "IP \<Rightarrow> 'c attempt \<Rightarrow> resource list" where
  "attempt_log a (NoSocket e) = []"
| "attempt_log a (NoTLS e) = [OpenSocket a, CloseSocket a]"
| "attempt_log a (NoClient e) = [OpenSocket a, CloseSocket a]"
| "attempt_log a (NoListen e) = [OpenSocket a, OpenClient a, CloseClient a, CloseSocket a]"
| "attempt_log a (NoAllocation e) = [OpenSocket a, OpenClient a, CloseClient a, CloseSocket a]"
| "attempt_log a (Allocated c) = [OpenSocket a, OpenClient a]"

fun tryAddresses :: "(IP \<Rightarrow> 'c attempt) \<Rightarrow> IP list \<Rightarrow> go_error \<Rightarrow> resource list \<Rightarrow> (go_error + IP \<times> 'c) \<times> resource list" where
  "tryAddresses probe [] lastErr log = (Inl lastErr, log)"
| "tryAddresses probe (a # as) lastErr log =
     (let log = log @ attempt_log a (probe a) in
      case probe a of
        NoSocket e \<Rightarrow> tryAddresses probe as e log
      | NoTLS e \<Rightarrow> tryAddresses probe as e log
      | NoClient e \<Rightarrow> tryAddresses probe as e log
      | NoListen e \<Rightarrow> tryAddresses probe as e log
      | NoAllocation e \<Rightarrow> if isTURNCredentialError e then (Inl e, log) else tryAddresses probe as e log
      | Allocated c \<Rightarrow> (Inr (a, c), log))"

definition allocateTURNEndpoint ::
  "go_error + IP list \<Rightarrow> (IP \<Rightarrow> 'c attempt) \<Rightarrow> nat \<Rightarrow> (go_error + IP \<times> 'c) \<times> resource list" where
  "allocateTURNEndpoint resolved probe preferred =
     (case resolved of Inl err \<Rightarrow> (Inl err, [])
      | Inr addrs \<Rightarrow>
          let n = length addrs; start = preferred mod n in
          tryAddresses probe (map (\<lambda>i. addrs ! ((start + i) mod n)) [0..<n]) (New ''unset'') [])"

text \<open>\<open>managedTURNConn.Close\<close>; \<open>alloc_err\<close> and \<open>base_err\<close> are the results of closing the allocation and the socket.\<close>

record managedTURNConn =
  m_addr :: IP
  m_closed :: bool

definition managed_Close ::
  "go_error option \<Rightarrow> go_error option \<Rightarrow> managedTURNConn \<Rightarrow> go_error option \<times> managedTURNConn \<times> resource list" where
  "managed_Close alloc_err base_err c =
     (if m_closed c then (None, c, [])
      else (case alloc_err of Some e \<Rightarrow> Some e | None \<Rightarrow> base_err, c\<lparr>m_closed := True\<rparr>, [CloseClient (m_addr c), CloseSocket (m_addr c)]))"

section \<open>Splitting the ClientHello\<close>

text \<open>Indexing that would panic out of range is \<open>None\<close>.\<close>

definition byte_at :: "bytes \<Rightarrow> nat \<Rightarrow> nat option" where
  "byte_at xs i = (if i < length xs then Some (unat (xs ! i)) else None)"

definition pair_at :: "bytes \<Rightarrow> nat \<Rightarrow> nat option" where
  "pair_at xs i = do { a \<leftarrow> byte_at xs i; b \<leftarrow> byte_at xs (i + 1); Some (256 * a + b) }"

function findExtension :: "bytes \<Rightarrow> nat \<Rightarrow> nat \<Rightarrow> (nat \<times> nat) option" where
  "findExtension xs offset limit =
     (if \<not> offset + 4 \<le> limit then Some (0, 0)
      else do {
        extType \<leftarrow> pair_at xs offset;
        extLen \<leftarrow> pair_at xs (offset + 2);
        found \<leftarrow>
          (if extType = 0 \<and> offset + 4 + 5 \<le> limit then
             do {
               hostLen \<leftarrow> pair_at xs (offset + 4 + 3);
               Some (if offset + 4 + 5 + hostLen \<le> limit \<and> 0 < hostLen then Some (offset + 4 + 5, hostLen) else None)
             }
           else Some None);
        case found of Some r \<Rightarrow> Some r | None \<Rightarrow> findExtension xs (offset + 4 + extLen) limit
      })"
  by pat_completeness auto

termination
  by (relation "measure (\<lambda>(xs, offset, limit). limit - offset)") auto

declare findExtension.simps [simp del]

definition findSNIOffset :: "bytes \<Rightarrow> (nat \<times> nat) option" where
  "findSNIOffset xs =
     (if length xs < 44 then Some (0, 0)
      else do {
        recordType \<leftarrow> byte_at xs 0;
        handshakeType \<leftarrow> byte_at xs 5;
        if recordType \<noteq> 0x16 \<or> handshakeType \<noteq> 0x01 then Some (0, 0)
        else if 43 \<ge> length xs then Some (0, 0)
        else do {
          sessionIDLen \<leftarrow> byte_at xs 43;
          let offset = 43 + 1 + sessionIDLen;
          if offset + 2 > length xs then Some (0, 0)
          else do {
            cipherSuitesLen \<leftarrow> pair_at xs offset;
            let offset = offset + 2 + cipherSuitesLen;
            if offset + 1 > length xs then Some (0, 0)
            else do {
              compLen \<leftarrow> byte_at xs offset;
              let offset = offset + 1 + compLen;
              if offset + 2 > length xs then Some (0, 0)
              else do {
                extTotalLen \<leftarrow> pair_at xs offset;
                let offset = offset + 2;
                findExtension xs offset (min (offset + extTotalLen) (length xs))
              }
            }
          }
        }
      })"

text \<open>
  \<open>turnTLSSplitConn.Write\<close>; \<open>conn\<close> is the write of the wrapped connection. The result is the count, the
  error, the flag \<open>splitDone\<close> afterwards and the pieces handed to the connection.
\<close>

definition split_Write ::
  "(bytes \<Rightarrow> nat \<times> go_error option) \<Rightarrow> bool \<Rightarrow> bytes \<Rightarrow> (nat \<times> go_error option \<times> bool \<times> bytes list) option" where
  "split_Write conn splitDone b =
     (if \<not> splitDone \<and> 5 < length b \<and> b ! 0 = 0x16 \<and> b ! 1 = 0x03 then
        do {
          (hostOffset, hostLen) \<leftarrow> findSNIOffset b;
          let splitPoint = (if 0 < hostOffset \<and> 2 < hostLen then hostOffset + hostLen div 2 else length b div 2);
          Some (if 0 < splitPoint \<and> splitPoint < length b then
                  (case conn (take splitPoint b) of
                     (n1, Some err) \<Rightarrow> (n1, Some err, True, [take splitPoint b])
                   | (n1, None) \<Rightarrow>
                       (case conn (drop splitPoint b) of (n2, err) \<Rightarrow> (n1 + n2, err, True, [take splitPoint b, drop splitPoint b])))
                else (case conn b of (n, err) \<Rightarrow> (n, err, True, [b])))
        }
      else Some (case conn b of (n, err) \<Rightarrow> (n, err, splitDone, [b])))"

section \<open>The scan stays inside the buffer\<close>

lemma byte_at_Some: "i < length xs \<Longrightarrow> byte_at xs i = Some (unat (xs ! i))"
  by (simp add: byte_at_def)

lemma pair_at_Some: "i + 1 < length xs \<Longrightarrow> \<exists>v. pair_at xs i = Some v"
  by (simp add: pair_at_def byte_at_def)

lemma findExtension_total:
  assumes "limit \<le> length xs"
  shows "\<exists>o' l. findExtension xs offset limit = Some (o', l) \<and> o' + l \<le> length xs"
  using assms
proof (induction xs offset limit rule: findExtension.induct)
  case (1 xs offset limit)
  show ?case
  proof (cases "offset + 4 \<le> limit")
    case False
    then show ?thesis by (simp add: findExtension.simps [of xs offset])
  next
    case True
    obtain t n where tn: "pair_at xs offset = Some t" "pair_at xs (offset + 2) = Some n"
      using True 1(2) pair_at_Some [of offset xs] pair_at_Some [of "offset + 2" xs] by auto
    define found where "found = (if t = 0 \<and> offset + 4 + 5 \<le> limit then
             do {
               hostLen \<leftarrow> pair_at xs (offset + 4 + 3);
               Some (if offset + 4 + 5 + hostLen \<le> limit \<and> 0 < hostLen then Some (offset + 4 + 5, hostLen) else None)
             }
           else Some None)"
    have "\<exists>r. found = Some r \<and> (case r of Some (o', l) \<Rightarrow> o' + l \<le> length xs | None \<Rightarrow> True)"
      using 1(2) pair_at_Some [of "offset + 4 + 3" xs] by (auto simp: found_def)
    then obtain r where r: "found = Some r" "case r of Some (o', l) \<Rightarrow> o' + l \<le> length xs | None \<Rightarrow> True" by blast
    have e: "findExtension xs offset limit = (case r of Some r \<Rightarrow> Some r | None \<Rightarrow> findExtension xs (offset + 4 + n) limit)"
      using True tn r(1) by (simp add: findExtension.simps [of xs offset] found_def)
    show ?thesis
    proof (cases r)
      case None
      then show ?thesis using 1(1) [OF _ tn(1) tn(2) r(1) [unfolded found_def]] True 1(2) by (simp add: e)
    qed (use e r(2) in auto)
  qed
qed

text \<open>A result inside the buffer, and how the scanner composes such results.\<close>

definition inside :: "bytes \<Rightarrow> (nat \<times> nat) option \<Rightarrow> bool" where
  "inside xs r \<longleftrightarrow> (\<exists>o' l. r = Some (o', l) \<and> o' + l \<le> length xs)"

lemma inside_intros:
  "inside xs (Some (0, 0))"
  "(c \<Longrightarrow> inside xs a) \<Longrightarrow> (\<not> c \<Longrightarrow> inside xs b) \<Longrightarrow> inside xs (if c then a else b)"
  "i < length xs \<Longrightarrow> (\<And>v. inside xs (f v)) \<Longrightarrow> inside xs (byte_at xs i \<bind> f)"
  "i + 1 < length xs \<Longrightarrow> (\<And>v. inside xs (f v)) \<Longrightarrow> inside xs (pair_at xs i \<bind> f)"
  "limit \<le> length xs \<Longrightarrow> inside xs (findExtension xs offset limit)"
  using findExtension_total [of limit xs offset] by (auto simp: inside_def byte_at_def pair_at_def)

lemma findSNIOffset_inside: "inside xs (findSNIOffset xs)"
  unfolding findSNIOffset_def Let_def by (intro inside_intros) auto

section \<open>The server name is found\<close>

definition extension :: "nat \<Rightarrow> bytes \<Rightarrow> bytes" where
  "extension t body = be_bytes 2 t @ be_bytes 2 (length body) @ body"

definition sni_body :: "bytes \<Rightarrow> bytes" where
  "sni_body host = be_bytes 2 (length host + 3) @ [0] @ be_bytes 2 (length host) @ host"

text \<open>A TLS record with a ClientHello: the 43 bytes up to the session id, and the variable parts.\<close>

definition client_hello :: "bytes \<Rightarrow> bytes \<Rightarrow> bytes \<Rightarrow> bytes \<Rightarrow> bytes \<Rightarrow> bytes" where
  "client_hello start sid ciphers comps exts =
     start @ [word_of_nat (length sid)] @ sid @ be_bytes 2 (length ciphers) @ ciphers @
     [word_of_nat (length comps)] @ comps @ be_bytes 2 (length exts) @ exts"

definition extensions :: "(nat \<times> bytes) list \<Rightarrow> bytes" where
  "extensions es = concat (map (\<lambda>(t, body). extension t body) es)"

lemma byte_at_append: "byte_at (p @ [word_of_nat n] @ q) (length p) = Some (n mod 256)"
  by (simp add: byte_at_def nth_append)

lemma pair_at_append: "i = length p \<Longrightarrow> n < 65536 \<Longrightarrow> pair_at (p @ be_bytes 2 n @ q) i = Some n"
proof -
  assume "i = length p" "n < 65536"
  moreover have "be_bytes 2 n = [word_of_nat (n div 256), word_of_nat n]" by (simp add: numeral_2_eq_2)
  moreover have "n div 256 mod 256 = n div 256" using \<open>n < 65536\<close> by simp
  ultimately show ?thesis by (simp add: pair_at_def byte_at_def nth_append)
qed

lemma findExtension_skip:
  assumes "t \<noteq> 0" "t < 65536" "length body < 65536" "length p + 4 + length body \<le> limit"
  shows "findExtension (p @ extension t body @ q) (length p) limit = findExtension (p @ extension t body @ q) (length p + 4 + length body) limit"
proof -
  have "pair_at (p @ extension t body @ q) (length p) = Some t"
    using pair_at_append [of _ p t, OF refl] assms(2) by (simp add: extension_def)
  moreover have "pair_at (p @ extension t body @ q) (length p + 2) = Some (length body)"
    using pair_at_append [of "length p + 2" "p @ be_bytes 2 t" "length body"] assms(3) by (simp add: extension_def)
  ultimately show ?thesis using assms(1,4) by (simp add: findExtension.simps [of _ "length p"])
qed

lemma findExtension_sni:
  assumes "host \<noteq> []" "length host < 65000" "length p + 9 + length host \<le> limit"
  shows "findExtension (p @ extension 0 (sni_body host) @ q) (length p) limit = Some (length p + 9, length host)"
proof -
  let ?b = "sni_body host"
  have "pair_at (p @ extension 0 ?b @ q) (length p) = Some 0"
    using pair_at_append [of _ p 0, OF refl] by (simp add: extension_def)
  moreover have "pair_at (p @ extension 0 ?b @ q) (length p + 2) = Some (length ?b)"
    using pair_at_append [of "length p + 2" "p @ be_bytes 2 0" "length ?b" "?b @ q"] assms(2) by (simp add: extension_def sni_body_def)
  moreover have "pair_at (p @ extension 0 ?b @ q) (length p + 4 + 3) = Some (length host)"
    using pair_at_append [of "length p + 4 + 3" "p @ be_bytes 2 0 @ be_bytes 2 (length ?b) @ be_bytes 2 (length host + 3) @ [0]" "length host" "host @ q"]
      assms(2) by (simp add: extension_def sni_body_def)
  ultimately show ?thesis using assms(1,3) by (simp add: findExtension.simps [of _ "length p"])
qed

lemma findExtension_list:
  assumes "\<forall>(t, body) \<in> set es. t \<noteq> 0 \<and> t < 65536 \<and> length body < 65536"
    and "host \<noteq> []" "length host < 65000" "length p + length (extensions es) + 9 + length host \<le> limit"
  shows "findExtension (p @ extensions es @ extension 0 (sni_body host) @ q) (length p) limit =
    Some (length p + length (extensions es) + 9, length host)"
  using assms
proof (induction es arbitrary: p)
  case Nil
  then show ?case using findExtension_sni [of host p limit q] by (simp add: extensions_def)
next
  case (Cons x es)
  obtain t body where x: "x = (t, body)" by fastforce
  have l: "length (extension t body) = 4 + length body" by (simp add: extension_def)
  have e: "extensions ((t, body) # es) = extension t body @ extensions es" by (simp add: extensions_def)
  have "findExtension (p @ extension t body @ extensions es @ extension 0 (sni_body host) @ q) (length p + 4 + length body) limit =
      Some (length p + 4 + length body + length (extensions es) + 9, length host)"
    using Cons.IH [of "p @ extension t body"] Cons.prems by (simp add: x e l add.assoc)
  then show ?case
    using findExtension_skip [of t body p limit "extensions es @ extension 0 (sni_body host) @ q"] Cons.prems by (simp add: x e l)
qed

lemma findSNIOffset_hello:
  assumes "length start = 43" "start ! 0 = 0x16" "start ! 5 = 0x01"
    and "length sid < 256" "length ciphers < 65536" "length comps < 256" "length exts < 65536"
  shows "findSNIOffset (client_hello start sid ciphers comps exts) =
    (let offset = 49 + length sid + length ciphers + length comps in
     findExtension (client_hello start sid ciphers comps exts) offset (offset + length exts))"
proof -
  let ?h = "client_hello start sid ciphers comps exts"
  have len: "length ?h = 49 + length sid + length ciphers + length comps + length exts"
    using assms(1) by (simp add: client_hello_def)
  have "byte_at ?h 0 = Some 0x16" "byte_at ?h 5 = Some 0x01"
    using assms(1-3) by (simp_all add: byte_at_def client_hello_def nth_append)
  moreover have "byte_at ?h 43 = Some (length sid)"
    using byte_at_append [of start "length sid"] assms(1,4) by (simp add: client_hello_def)
  moreover have "pair_at ?h (43 + 1 + length sid) = Some (length ciphers)"
    using pair_at_append [of "44 + length sid" "start @ [word_of_nat (length sid)] @ sid" "length ciphers"] assms(1,5)
    by (simp add: client_hello_def)
  moreover have "byte_at ?h (43 + 1 + length sid + 2 + length ciphers) = Some (length comps)"
    using byte_at_append [of "start @ [word_of_nat (length sid)] @ sid @ be_bytes 2 (length ciphers) @ ciphers" "length comps"] assms(1,6)
    by (simp add: client_hello_def add.assoc)
  moreover have "pair_at ?h (43 + 1 + length sid + 2 + length ciphers + 1 + length comps) = Some (length exts)"
    using pair_at_append [of "47 + length sid + length ciphers + length comps"
        "start @ [word_of_nat (length sid)] @ sid @ be_bytes 2 (length ciphers) @ ciphers @ [word_of_nat (length comps)] @ comps" "length exts"] assms(1,7)
    by (simp add: client_hello_def add.assoc)
  ultimately show ?thesis by (simp add: findSNIOffset_def Let_def len add.assoc)
qed

section \<open>Trying in turn\<close>

text \<open>An endpoint that fails without rejecting the credentials.\<close>

definition unusable :: "('e \<Rightarrow> go_error + 'c) \<Rightarrow> 'e \<Rightarrow> bool" where
  "unusable alloc e \<longleftrightarrow> (\<exists>err. alloc e = Inl err \<and> \<not> isTURNCredentialError err)"

lemma tryEndpoints_cases:
  "(list_all (unusable alloc) es \<and> (\<exists>err. (es = [] \<and> err = lastErr \<or> es \<noteq> [] \<and> alloc (last es) = Inl err) \<and>
      tryEndpoints alloc success failure es lastErr s =
        (Inl (Errorf ''call vk_parasite: all VK TURN endpoints failed: %w'' err), fold failure es s))) \<or>
   (\<exists>pre e post. es = pre @ e # post \<and> list_all (unusable alloc) pre \<and>
      ((\<exists>c. alloc e = Inr c \<and> tryEndpoints alloc success failure es lastErr s = (Inr c, success e (fold failure pre s))) \<or>
       (\<exists>err. alloc e = Inl err \<and> isTURNCredentialError err \<and>
          tryEndpoints alloc success failure es lastErr s =
            (Inl (Errorf ''call vk_parasite: VK TURN credentials rejected: %w'' err), fold failure pre s))))"
proof (induction es arbitrary: lastErr s)
  case (Cons x es)
  show ?case
  proof (cases "unusable alloc x")
    case False
    then show ?thesis by (intro disjI2 exI [of _ "[]"] exI [of _ x] exI [of _ es]) (cases "alloc x"; auto simp: unusable_def)
  next
    case True
    then obtain err where err: "alloc x = Inl err" "\<not> isTURNCredentialError err" by (auto simp: unusable_def)
    from Cons [of err "failure x s"] show ?thesis
    proof (elim disjE exE conjE)
      fix pre e post c assume "es = pre @ e # post" "list_all (unusable alloc) pre" "alloc e = Inr c"
        "tryEndpoints alloc success failure es err (failure x s) = (Inr c, success e (fold failure pre (failure x s)))"
      then show ?thesis using True err by (intro disjI2 exI [of _ "x # pre"] exI [of _ e] exI [of _ post]) simp
    next
      fix pre e post e' assume "es = pre @ e # post" "list_all (unusable alloc) pre" "alloc e = Inl e'" "isTURNCredentialError e'"
        "tryEndpoints alloc success failure es err (failure x s) = (Inl (Errorf ''call vk_parasite: VK TURN credentials rejected: %w'' e'), fold failure pre (failure x s))"
      then show ?thesis using True err by (intro disjI2 exI [of _ "x # pre"] exI [of _ e] exI [of _ post]) simp
    qed (use True err in auto)
  qed
qed simp

text \<open>How many sockets and clients of an address are open after a log.\<close>

definition open_sockets :: "resource list \<Rightarrow> IP \<Rightarrow> int" where
  "open_sockets log a = int (count_list log (OpenSocket a)) - int (count_list log (CloseSocket a))"

definition open_clients :: "resource list \<Rightarrow> IP \<Rightarrow> int" where
  "open_clients log a = int (count_list log (OpenClient a)) - int (count_list log (CloseClient a))"

definition owned_by :: "go_error + IP \<times> 'c \<Rightarrow> IP \<Rightarrow> int" where
  "owned_by r a = (case r of Inr (b, c) \<Rightarrow> of_bool (a = b) | Inl _ \<Rightarrow> 0)"

lemma open_append: "open_sockets (l @ m) a = open_sockets l a + open_sockets m a" "open_clients (l @ m) a = open_clients l a + open_clients m a"
  by (simp_all add: open_sockets_def open_clients_def count_list_append)

lemma open_attempt:
  "open_sockets (attempt_log b x) a = (case x of Allocated c \<Rightarrow> of_bool (a = b) | _ \<Rightarrow> 0)"
  "open_clients (attempt_log b x) a = (case x of Allocated c \<Rightarrow> of_bool (a = b) | _ \<Rightarrow> 0)"
  by (cases x; simp add: open_sockets_def open_clients_def)+

lemma tryAddresses_resources:
  "tryAddresses probe as e log = (r, log') \<Longrightarrow>
     open_sockets log' a = open_sockets log a + owned_by r a \<and> open_clients log' a = open_clients log a + owned_by r a"
proof (induction as arbitrary: e log)
  case (Cons x as)
  then show ?case
    by (cases "probe x") (auto simp: Let_def open_append open_attempt owned_by_def simp del: attempt_log.simps split: if_splits)
qed (auto simp: owned_by_def)

lemma tryAddresses_result:
  "tryAddresses probe as e log = (r, log') \<Longrightarrow>
     (case r of Inr (a, c) \<Rightarrow> a \<in> set as \<and> probe a = Allocated c
      | Inl err \<Rightarrow> as \<noteq> [] \<longrightarrow> isTURNCredentialError err \<or> (\<forall>a \<in> set as. \<forall>c. probe a \<noteq> Allocated c))"
proof (induction as arbitrary: e log)
  case (Cons x as)
  have step: "case r of Inr (a, c) \<Rightarrow> a \<in> set (x # as) \<and> probe a = Allocated c
      | Inl err \<Rightarrow> isTURNCredentialError err \<or> (\<forall>a \<in> set (x # as). \<forall>c. probe a \<noteq> Allocated c)"
    if "tryAddresses probe as e' log'' = (r, log')" "\<forall>c. probe x \<noteq> Allocated c" for e' log''
    using Cons.IH [OF that(1)] that by (cases as) (auto split: sum.splits)
  show ?case using Cons.prems step by (cases "probe x") (auto simp: Let_def split: if_splits sum.splits)
qed (auto split: sum.splits)

lemma set_rotation: "0 < length as \<Longrightarrow> set (map (\<lambda>i. as ! ((k + i) mod length as)) [0..<length as]) = set as"
proof -
  assume n: "0 < length as"
  have "map (\<lambda>i. as ! ((k + i) mod length as)) [0..<length as] = rotate k as"
    by (rule nth_equalityI) (simp_all add: nth_rotate)
  then show ?thesis by simp
qed

section \<open>Properties\<close>

text \<open>
  The order in which a worker tries endpoints is the rotation by its number, sorted stably by
  penalty: every endpoint once, fewer failures first, and workers with equal choices start at
  different endpoints.
\<close>

lemma rotate_endpoints_fair:
  "rotateTURNEndpoints ops reg es k = sort_key (getTURNEndpointPenalty ops reg) (rotate k es) \<and>
   mset (rotateTURNEndpoints ops reg es k) = mset es \<and>
   sorted (map (getTURNEndpointPenalty ops reg) (rotateTURNEndpoints ops reg es k)) \<and>
   (\<forall>n. filter (\<lambda>e. getTURNEndpointPenalty ops reg e = n) (rotateTURNEndpoints ops reg es k) =
        filter (\<lambda>e. getTURNEndpointPenalty ops reg e = n) (rotate k es))"
proof -
  have "rotateTURNEndpoints ops reg es k = sort_key (getTURNEndpointPenalty ops reg) (rotate k es)"
  proof (cases es)
    case (Cons x xs)
    then show ?thesis
      by (cases xs) (simp_all add: rotateTURNEndpoints_def rotate_drop_take Let_def)
  qed (simp add: rotateTURNEndpoints_def)
  moreover have "mset (rotate k es) = mset es"
    unfolding rotate_drop_take by (metis append_take_drop_id mset_append union_commute)
  ultimately show ?thesis by (simp add: sort_key_stable)
qed

text \<open>
  The scores after a list of endpoints failed, entry by entry: one failure more for each time the key of the
  entry occurs, every other entry as it was.
\<close>

definition penalised :: "'d socksaddr \<Rightarrow> 'd turnEndpoint list \<Rightarrow> registry \<Rightarrow> registry" where
  "penalised ops tried reg key =
     (case count_list (map (turnEndpointKey ops) tried) key of 0 \<Rightarrow> reg key
      | n \<Rightarrow> Some ((loadScore key reg)\<lparr>failures := failures (loadScore key reg) + int n\<rparr>))"

lemma failures_penalise: "fold (recordTURNEndpointFailure ops) es s = s\<lparr>scores := penalised ops es (scores s)\<rparr>"
proof (induction es arbitrary: s)
  case Nil
  have "penalised ops [] (scores s) = scores s" by (simp add: fun_eq_iff penalised_def)
  then show ?case by simp
next
  case (Cons e es)
  have "penalised ops es (scores (recordTURNEndpointFailure ops e s)) = penalised ops (e # es) (scores s)"
  proof
    fix key
    show "penalised ops es (scores (recordTURNEndpointFailure ops e s)) key = penalised ops (e # es) (scores s) key"
      by (cases "turnEndpointKey ops e = key"; cases "count_list (map (turnEndpointKey ops) es) key")
        (auto simp: penalised_def recordTURNEndpointFailure_def loadScore_def Let_def)
  qed
  moreover have "(recordTURNEndpointFailure ops e s)\<lparr>scores := x\<rparr> = s\<lparr>scores := x\<rparr>" for x
    by (simp add: recordTURNEndpointFailure_def Let_def)
  ultimately show ?case by (simp add: Cons)
qed

text \<open>
  C24. Allocation takes the first endpoint in that order that works. It fails only when the credentials
  are incomplete, no URL is usable, an endpoint rejected the credentials before any worked, or every
  endpoint failed; the error is a credentials error exactly in the third case. The penalty of an endpoint that
  failed grows by one, that of the endpoint that worked falls by one but not below zero and only this one is recorded
  as the last edge, and the scores of all other endpoints stay.
\<close>

theorem allocate_first_working:
  fixes alloc :: "'d turnEndpoint \<Rightarrow> go_error + 'c"
  assumes "es = destinations ops Parse (scores s) (tc_URLs cr) k"
    and "allocateTURN ops Parse alloc io now rt cr k tag g s = (r, s')"
  shows "(\<exists>err. (tc_Username cr = [] \<or> tc_Credential cr = [] \<or> es = []) \<and> r = Inl err \<and> \<not> isTURNCredentialError err \<and> s' = s) \<or>
    tc_Username cr \<noteq> [] \<and> tc_Credential cr \<noteq> [] \<and> es \<noteq> [] \<and>
    ((\<exists>pre e post c. es = pre @ e # post \<and> list_all (unusable alloc) pre \<and> alloc e = Inr c \<and> r = Inr c \<and>
        (let key = turnEndpointKey ops e; old = loadScore key (penalised ops pre (scores s)) in
         scores s' = (penalised ops pre (scores s))(key \<mapsto> old\<lparr>failures := max 0 (failures old - 1), lastSuccess := now\<rparr>) \<and>
         edge s' = RecordTurnEdgeEndpoint io (now div Millisecond) rt key tag g (edge s))) \<or>
     (\<exists>pre e post err err'. es = pre @ e # post \<and> list_all (unusable alloc) pre \<and> alloc e = Inl err' \<and> isTURNCredentialError err' \<and>
        r = Inl err \<and> isTURNCredentialError err \<and> s' = s\<lparr>scores := penalised ops pre (scores s)\<rparr>) \<or>
     (\<exists>err. list_all (unusable alloc) es \<and> r = Inl err \<and> \<not> isTURNCredentialError err \<and> s' = s\<lparr>scores := penalised ops es (scores s)\<rparr>))"
proof (cases "tc_Username cr = [] \<or> tc_Credential cr = [] \<or> es = []")
  case True
  then show ?thesis using assms by (auto simp: allocateTURN_def Let_def split: if_splits)
next
  case False
  then have ne: "es \<noteq> []" by blast
  have t: "tryEndpoints alloc (\<lambda>e. recordTURNEndpointSuccess ops io now rt e tag g) (recordTURNEndpointFailure ops) es (New ''unset'') s = (r, s')"
    using assms False by (simp add: allocateTURN_def Let_def)
  have last: "\<not> isTURNCredentialError err" if "list_all (unusable alloc) es" "alloc (last es) = Inl err" for err
    using that last_in_set [OF ne] by (fastforce simp: list_all_iff unusable_def)
  note cs = tryEndpoints_cases [of alloc es "New ''unset''" "\<lambda>e. recordTURNEndpointSuccess ops io now rt e tag g" "recordTURNEndpointFailure ops" s,
    unfolded t failures_penalise]
  from cs show ?thesis
  proof (elim disjE exE conjE)
    fix pre e post c assume a: "es = pre @ e # post" "list_all (unusable alloc) pre" "alloc e = Inr c"
      "(r, s') = (Inr c, recordTURNEndpointSuccess ops io now rt e tag g (s\<lparr>scores := penalised ops pre (scores s)\<rparr>))"
    show ?thesis using False a(4) by (intro disjI2 conjI disjI1 exI [of _ pre] exI [of _ e] exI [of _ post] exI [of _ c] a(1-3))
      (auto simp: recordTURNEndpointSuccess_def Let_def)
  next
    fix pre e post err assume "es = pre @ e # post" "list_all (unusable alloc) pre" "alloc e = Inl err" "isTURNCredentialError err"
      "(r, s') = (Inl (Errorf ''call vk_parasite: VK TURN credentials rejected: %w'' err), s\<lparr>scores := penalised ops pre (scores s)\<rparr>)"
    with False show ?thesis
      by (intro disjI2 conjI disjI1 exI [of _ pre] exI [of _ e] exI [of _ post] exI [of _ "Errorf ''call vk_parasite: VK TURN credentials rejected: %w'' err"]
          exI [of _ err]) auto
  qed (use False last in auto)
qed

definition plain_socks :: "string socksaddr" where
  "plain_socks = \<lparr>sa_Parse = \<lambda>s. s, sa_IsValid = \<lambda>s. s \<noteq> [], sa_Port = \<lambda>_. 3478, sa_SetPort = \<lambda>_ s. s, sa_Fqdn = \<lambda>s. s,
     sa_IsIP = \<lambda>_. False, sa_Addr = \<lambda>_. [], sa_String = \<lambda>s. s\<rparr>"

definition plain_url :: "string \<Rightarrow> go_error + url" where
  "plain_url s = Inr \<lparr>u_Scheme = ''turn'', u_Opaque = s, u_User = False, u_Host = [], u_transport = []\<rparr>"

definition demo_turn_state :: turn_state where
  "demo_turn_state = \<lparr>scores = Map.empty, edge = \<lparr>te_record = zeroEdge, te_path = [], te_files = Map.empty\<rparr>\<rparr>"

theorem allocate_first_working_witness:
  "\<exists>r s'. allocateTURN plain_socks plain_url (\<lambda>e. if network e = ''udp'' then Inl EOF else Inr (7 :: nat))
     \<lparr>mkdir_ok = True, write_ok = True, rename_ok = True\<rparr> 0 initialState \<lparr>tc_URLs = [''host''], tc_Username = ''u'', tc_Credential = ''p''\<rparr> 0
     ''vk'' 0 demo_turn_state = (r, s') \<and> r = Inr 7 \<and>
     scores s' ''udp://host'' = Some \<lparr>failures = 1, lastSuccess = - 62135596800 * Second\<rparr>"
proof -
  let ?alloc = "\<lambda>e :: string turnEndpoint. if network e = ''udp'' then Inl EOF else Inr (7 :: nat)"
    and ?cr = "\<lparr>tc_URLs = [''host''], tc_Username = ''u'', tc_Credential = ''p''\<rparr>"
    and ?io = "\<lparr>mkdir_ok = True, write_ok = True, rename_ok = True\<rparr>"
  let ?u = "\<lparr>rawURL = ''host'', destination = ''host'', network = ''udp'', secure = False, serverName = ''host''\<rparr>"
  have d: "destinations plain_socks plain_url (scores demo_turn_state) (tc_URLs ?cr) 0 = [?u, ?u\<lparr>network := ''tcp''\<rparr>]"
    by (simp add: destinations_def parseTURNURL_def plain_socks_def plain_url_def EqualFold_def ToLower_def lower_def TrimPrefix_def
        rotateTURNEndpoints_def isMobileLTE_def Let_def)
  obtain r s' where a: "allocateTURN plain_socks plain_url ?alloc ?io 0 initialState ?cr 0 ''vk'' 0 demo_turn_state = (r, s')" by fastforce
  note w = allocate_first_working [OF d [symmetric] a]
  from w have r: "r = Inr 7" by (auto simp: unusable_def split: if_splits)
  from w r obtain pre e post x where e: "[?u, ?u\<lparr>network := ''tcp''\<rparr>] = pre @ e # post" "?alloc e = Inr 7"
    "scores s' = (penalised plain_socks pre (scores demo_turn_state))(turnEndpointKey plain_socks e \<mapsto> x)"
    unfolding Let_def by (elim disjE exE conjE) simp_all
  have pre: "pre = [?u]" "e = ?u\<lparr>network := ''tcp''\<rparr>" using e(1,2) by (auto simp: Cons_eq_append_conv split: if_splits)
  have "scores s' ''udp://host'' = Some \<lparr>failures = 1, lastSuccess = - 62135596800 * Second\<rparr>"
    unfolding e(3) pre by (simp add: penalised_def turnEndpointKey_def plain_socks_def demo_turn_state_def loadScore_def)
  with a r show ?thesis by blast
qed

text \<open>
  C25. Allocating on one endpoint tries its addresses from the worker's own start and leaks nothing:
  afterwards a socket and a TURN client are open exactly for the address of the connection returned,
  and closing that connection, once or often, closes them. Without a connection nothing stays open,
  and unless the credentials were rejected no address could have been allocated.
\<close>

theorem endpoint_allocation_no_leak:
  assumes "allocateTURNEndpoint (Inr addrs) probe k = (r, log)" "addrs \<noteq> []"
  shows "open_sockets log a = owned_by r a \<and> open_clients log a = owned_by r a \<and>
    (case r of
       Inr (b, c) \<Rightarrow> b \<in> set addrs \<and> probe b = Allocated c \<and>
         (\<forall>e1 e2 e3 e4. case managed_Close e1 e2 \<lparr>m_addr = b, m_closed = False\<rparr> of (_, m, closes1) \<Rightarrow>
            case managed_Close e3 e4 m of (_, _, closes2) \<Rightarrow>
              open_sockets (log @ closes1 @ closes2) a = 0 \<and> open_clients (log @ closes1 @ closes2) a = 0)
     | Inl err \<Rightarrow> isTURNCredentialError err \<or> (\<forall>b \<in> set addrs. \<forall>c. probe b \<noteq> Allocated c))"
proof -
  let ?order = "map (\<lambda>i. addrs ! ((k mod length addrs + i) mod length addrs)) [0..<length addrs]"
  have t: "tryAddresses probe ?order (New ''unset'') [] = (r, log)"
    using assms(1) by (simp add: allocateTURNEndpoint_def Let_def)
  have s: "set ?order = set addrs" using set_rotation [of addrs "k mod length addrs"] assms(2) by simp
  have z: "open_sockets [] a = 0" "open_clients [] a = 0" by (simp_all add: open_sockets_def open_clients_def)
  have c: "open_sockets [CloseClient b, CloseSocket b] a = - of_bool (a = b)" "open_clients [CloseClient b, CloseSocket b] a = - of_bool (a = b)" for b
    by (simp_all add: open_sockets_def open_clients_def)
  note o = tryAddresses_resources [OF t, of a, unfolded z]
  from tryAddresses_result [OF t] have res: "case r of Inr (b, c) \<Rightarrow> b \<in> set addrs \<and> probe b = Allocated c
      | Inl err \<Rightarrow> isTURNCredentialError err \<or> (\<forall>b \<in> set addrs. \<forall>c. probe b \<noteq> Allocated c)"
    using assms(2) unfolding s by (cases r) auto
  show ?thesis
  proof (cases r)
    case (Inr bc)
    obtain b c' where bc: "bc = (b, c')" by fastforce
    have "owned_by r a = of_bool (a = b)" by (simp add: owned_by_def Inr bc)
    then show ?thesis using o res by (simp add: Inr bc managed_Close_def open_append z c split: prod.split)
  qed (use o res in simp)
qed

theorem endpoint_allocation_no_leak_witness:
  "\<exists>r log. allocateTURNEndpoint (Inr [[1, 2, 3, 4], [5, 6, 7, 8]]) (\<lambda>a. if a = [5, 6, 7, 8] then NoListen EOF else Allocated (9 :: nat)) 1 = (r, log) \<and>
     r = Inr ([1, 2, 3, 4], 9) \<and> open_sockets log [5, 6, 7, 8] = 0 \<and> open_sockets log [1, 2, 3, 4] = 1"
proof -
  let ?probe = "\<lambda>a :: IP. if a = [5, 6, 7, 8] then NoListen EOF else Allocated (9 :: nat)"
  let ?a = "[1, 2, 3, 4] :: IP" and ?b = "[5, 6, 7, 8] :: IP"
  define log where "log = [OpenSocket ?b, OpenClient ?b, CloseClient ?b, CloseSocket ?b, OpenSocket ?a, OpenClient ?a]"
  have e: "allocateTURNEndpoint (Inr [?a, ?b]) ?probe 1 = (Inr (?a, 9), log)"
    by (simp add: allocateTURNEndpoint_def Let_def upt_rec log_def)
  show ?thesis
    using endpoint_allocation_no_leak [OF e, of ?a] endpoint_allocation_no_leak [OF e, of ?b] e by (simp add: owned_by_def)
qed

text \<open>
  The scan for the server name ends on every input, reads no byte outside the buffer and answers
  with a range inside it.
\<close>

lemma sni_scan_total: "\<exists>off n. findSNIOffset xs = Some (off, n) \<and> off + n \<le> length xs"
  using findSNIOffset_inside [of xs] by (simp add: inside_def)

text \<open>
  The first TLS record is written in two pieces that together are the record, and when it is a
  ClientHello with a server name the cut is inside the name; every later write is passed on whole.
\<close>

lemma client_hello_split:
  fixes host :: bytes
  assumes "length start = 43" "start ! 0 = 0x16" "start ! 1 = 0x03" "start ! 5 = 0x01"
    and "length sid < 256" "length ciphers < 65536" "length comps < 256"
    and "\<forall>(t, body) \<in> set es. t \<noteq> 0 \<and> t < 65536 \<and> length body < 65536"
    and "exts = extensions es @ extension 0 (sni_body host) @ rest" "length exts < 65536" "3 \<le> length host" "length host < 65000"
    and "b = client_hello start sid ciphers comps exts" "\<And>piece. conn piece = (length piece, None)"
  shows "\<exists>before after. split_Write conn False b = Some (length b, None, True, [before @ take (length host div 2) host, drop (length host div 2) host @ after]) \<and>
    b = before @ host @ after \<and> split_Write conn True b = Some (length b, None, True, [b])"
proof -
  define p where "p = start @ [word_of_nat (length sid)] @ sid @ be_bytes 2 (length ciphers) @ ciphers @ [word_of_nat (length comps)] @ comps @ be_bytes 2 (length exts)"
  let ?o = "49 + length sid + length ciphers + length comps"
  have p: "length p = ?o" using assms(1) by (simp add: p_def)
  have b: "b = p @ extensions es @ extension 0 (sni_body host) @ rest"
    unfolding assms(9,13) client_hello_def p_def by simp
  have len: "length (extension 0 (sni_body host)) = 9 + length host" by (simp add: extension_def sni_body_def)
  have "findSNIOffset b = findExtension b ?o (?o + length exts)"
    using findSNIOffset_hello [OF assms(1,2,4-7,10)] by (simp add: assms(13) Let_def)
  moreover have "host \<noteq> []" using assms(11) by auto
  then have "findExtension b ?o (?o + length exts) = Some (?o + length (extensions es) + 9, length host)"
    using findExtension_list [OF assms(8), of host p "?o + length exts" rest] assms(9,11,12) len by (simp add: b p)
  ultimately have f: "findSNIOffset b = Some (?o + length (extensions es) + 9, length host)" by simp
  define before where "before = p @ extensions es @ be_bytes 2 0 @ be_bytes 2 (length (sni_body host)) @ be_bytes 2 (length host + 3) @ [0] @ be_bytes 2 (length host)"
  have be: "b = before @ host @ rest" "length before = ?o + length (extensions es) + 9"
    by (simp_all add: b p before_def extension_def sni_body_def)
  define cut where "cut = length before + length host div 2"
  have t: "take cut b = before @ take (length host div 2) host" "drop cut b = drop (length host div 2) host @ rest"
    by (simp_all add: be(1) cut_def)
  have h: "5 < length b" "b ! 0 = 0x16" "b ! 1 = 0x03" using assms(1-3) by (simp_all add: b p_def nth_append)
  have ne: "before \<noteq> []" using be(2) by auto
  have c: "0 < cut" "cut < length b" using assms(11) by (simp_all add: cut_def be)
  have "split_Write conn False b = Some (length b, None, True, [take cut b, drop cut b])"
    using h f c assms(11) ne by (simp add: split_Write_def assms(14) be(2) [symmetric] cut_def [symmetric] Let_def)
  then show ?thesis unfolding t by (intro exI [of _ before] exI [of _ rest]) (simp add: be(1) split_Write_def assms(14))
qed

lemma client_hello_split_witness:
  "\<exists>b before after. split_Write (\<lambda>piece. (length piece, None)) False b =
      Some (length b, None, True, [before @ [97, 98], [99, 100] @ after]) \<and> b = before @ [97, 98, 99, 100] @ after"
proof -
  let ?start = "[0x16, 0x03, 0x01, 0, 0, 0x01] @ replicate 37 0 :: bytes"
  let ?host = "[97, 98, 99, 100] :: bytes"
  let ?exts = "extensions [(10, [1, 2])] @ extension 0 (sni_body ?host) @ []"
  have "\<exists>before after. split_Write (\<lambda>piece. (length piece, None)) False (client_hello ?start [] [1, 2] [0] ?exts) =
      Some (length (client_hello ?start [] [1, 2] [0] ?exts), None, True, [before @ take (length ?host div 2) ?host, drop (length ?host div 2) ?host @ after]) \<and>
    client_hello ?start [] [1, 2] [0] ?exts = before @ ?host @ after \<and>
    split_Write (\<lambda>piece. (length piece, None)) True (client_hello ?start [] [1, 2] [0] ?exts) =
      Some (length (client_hello ?start [] [1, 2] [0] ?exts), None, True, [client_hello ?start [] [1, 2] [0] ?exts])"
    by (rule client_hello_split [where es = "[(10, [1, 2])]" and rest = "[]" and host = ?host])
      (simp_all add: extensions_def extension_def sni_body_def)
  then obtain before after where "split_Write (\<lambda>piece. (length piece, None)) False (client_hello ?start [] [1, 2] [0] ?exts) =
      Some (length (client_hello ?start [] [1, 2] [0] ?exts), None, True, [before @ take (length ?host div 2) ?host, drop (length ?host div 2) ?host @ after])"
    "client_hello ?start [] [1, 2] [0] ?exts = before @ ?host @ after" by blast
  then show ?thesis
    by (intro exI [of _ "client_hello ?start [] [1, 2] [0] ?exts"] exI [of _ before] exI [of _ after]) simp
qed

end
