(* ===== verification/Go_Strings.thy ===== *)
theory Go_Strings
  imports Prelude
begin

text \<open>
  Functions of Go's package \<open>strings\<close> that the modelled code calls, on strings as byte lists.
\<close>

text \<open>\<open>strings.TrimSpace\<close>: the UTF-8 forms of the runes that \<open>unicode.IsSpace\<close> accepts, cut off at both ends.\<close>

definition space_runes :: "gostring list" where
  "space_runes = [[9], [10], [11], [12], [13], [32], [0xC2, 0x85], [0xC2, 0xA0], [0xE1, 0x9A, 0x80]] @
     map (\<lambda>i. [0xE2, 0x80, word_of_nat i]) ([0x80..<0x8B] @ [0xA8, 0xA9, 0xAF]) @ [[0xE2, 0x81, 0x9F], [0xE3, 0x80, 0x80]]"

function trim_by :: "gostring list \<Rightarrow> gostring \<Rightarrow> gostring" where
  "trim_by runes s =
     (case find (\<lambda>r. r \<noteq> [] \<and> take (length r) s = r) runes of
        None \<Rightarrow> s
      | Some r \<Rightarrow> trim_by runes (drop (length r) s))"
  by pat_completeness auto
termination
proof (relation "measure (\<lambda>(_, s). length s)")
  fix runes s r assume "find (\<lambda>r. r \<noteq> [] \<and> take (length r) s = r) runes = Some (r :: gostring)"
  then have "r \<noteq> []" "take (length r) s = r" by (auto simp: find_Some_iff)
  then have "0 < length r" "length r \<le> length s" by (simp, metis length_take min.cobounded1)
  then have "length (drop (length r) s) < length s" unfolding length_drop by linarith
  then show "((runes, drop (length r) s), runes, s) \<in> measure (\<lambda>(_, s). length s)" by simp
qed simp

declare trim_by.simps [simp del]

definition TrimSpace :: "gostring \<Rightarrow> gostring" where
  "TrimSpace s = rev (trim_by (map rev space_runes) (rev (trim_by space_runes s)))"

text \<open>\<open>strings.Split\<close> by a single byte.\<close>

fun split_by :: "byte \<Rightarrow> bytes \<Rightarrow> bytes list" where
  "split_by d [] = [[]]"
| "split_by d (x # xs) = (if x = d then [] # split_by d xs else case split_by d xs of [] \<Rightarrow> [[x]] | y # ys \<Rightarrow> (x # y) # ys)"

abbreviation dot :: byte where "dot \<equiv> 46"

abbreviation slash :: byte where "slash \<equiv> 47"
abbreviation question :: byte where "question \<equiv> 63"
abbreviation hash :: byte where "hash \<equiv> 35"

text \<open>\<open>strings.TrimRight\<close> with one byte as its cutset, and what follows the last occurrence of a byte.\<close>

definition TrimRightByte :: "byte \<Rightarrow> gostring \<Rightarrow> gostring" where
  "TrimRightByte d s = rev (dropWhile (\<lambda>c. c = d) (rev s))"

definition after_last :: "byte \<Rightarrow> gostring \<Rightarrow> gostring" where
  "after_last d s = rev (takeWhile (\<lambda>c. c \<noteq> d) (rev s))"

lemma split_by_nonempty [simp]: "split_by d xs \<noteq> []"
  by (induction xs) (auto split: list.splits)

lemma split_by_no_sep: "p \<in> set (split_by d xs) \<Longrightarrow> d \<notin> set p"
  by (induction xs arbitrary: p) (auto split: if_splits list.splits)

lemma split_by_count: "length (split_by d xs) = count_list xs d + 1"
  by (induction xs) (auto split: list.splits)

lemma after_last_append: "d \<notin> set tok \<Longrightarrow> after_last d (p @ d # tok) = tok"
  by (simp add: after_last_def takeWhile_tail) (subst takeWhile_eq_all_conv [THEN iffD2], auto)

lemma TrimRightByte_id: "s = [] \<or> last s \<noteq> d \<Longrightarrow> TrimRightByte d s = s"
  by (cases s rule: rev_cases) (simp_all add: TrimRightByte_def)

end
