(* ===== verification/Client.thy ===== *)
theory Client
  imports Server Supervisor Turn Go_Strings
begin

text \<open>
  \<open>transport/call/vk-parasite/client.go\<close>, with \<open>dialQUIC\<close> of \<open>quic_conn.go\<close>: the options of a
  client and their validation, connecting, and the dialling of one worker path, which strings together
  the credentials, the TURN allocation, the RTP codec, the QUIC connection and the authentication of
  the other theories.
\<close>

section \<open>Options\<close>

text \<open>
  The options; \<open>'d\<close> is \<open>M.Socksaddr\<close>. The dialer, the DNS router and the two callbacks are inputs of
  the operations that call them; here only whether the callbacks are set.
\<close>

record 'd ClientOptions =
  co_TransportTag :: string
  co_Server :: 'd
  co_JoinLinks :: "gostring list"
  co_User :: gostring
  co_Password :: gostring
  co_ObfsPassword :: gostring
  co_Workers :: int
  co_WorkerConnectTimeout :: duration
  has_Credentials :: bool
  has_InvalidateCredentials :: bool

fun normalizeLinks :: "gostring list \<Rightarrow> gostring list \<Rightarrow> go_error + gostring list" where
  "normalizeLinks seen [] = Inr []"
| "normalizeLinks seen (link # links) =
     (let link = TrimSpace link in
      if link = [] \<or> 2048 < length link then Inl (New ''call vk_parasite: invalid join_links entry'')
      else if link \<in> set seen then Inl (New ''call vk_parasite: duplicate join_links entry'')
      else case normalizeLinks (link # seen) links of Inl e \<Rightarrow> Inl e | Inr ls \<Rightarrow> Inr (link # ls))"

text \<open>The checks after the join links, on the options with the defaults filled in.\<close>

definition withDefaults :: "'d ClientOptions \<Rightarrow> 'd ClientOptions" where
  "withDefaults opts =
     (let opts = (if co_Workers opts = 0 then opts\<lparr>co_Workers := int DefaultWorkerCount\<rparr> else opts) in
      if co_WorkerConnectTimeout opts = 0 then opts\<lparr>co_WorkerConnectTimeout := 30 * Second\<rparr> else opts)"

definition validateTail :: "'d ClientOptions \<Rightarrow> go_error + 'd ClientOptions" where
  "validateTail opts =
     (case validateAuthStrings (co_User opts) (co_Password opts) of Some err \<Rightarrow> Inl err
      | None \<Rightarrow>
        if co_ObfsPassword opts = [] \<or> maximumPasswordLen < length (co_ObfsPassword opts)
        then Inl (New ''call vk_parasite: invalid obfs_password length'')
        else
          let opts = withDefaults opts in
          if co_Workers opts < int DefaultWorkerCount \<or> int MaximumWorkerCount < co_Workers opts \<or>
             co_Workers opts mod int CallCount \<noteq> 0
          then Inl (New ''call vk_parasite: workers must be 4, 8, 12, 16, or 20'')
          else if co_WorkerConnectTimeout opts < Second \<or> 2 * Minute < co_WorkerConnectTimeout opts
          then Inl (New ''call vk_parasite: worker_connect_timeout must be between 1s and 2m'')
          else if \<not> has_Credentials opts then Inl (New ''call vk_parasite: missing credentials provider'')
          else Inr opts)"

definition validateClientOptions :: "'d socksaddr \<Rightarrow> 'd ClientOptions \<Rightarrow> go_error + 'd ClientOptions" where
  "validateClientOptions ops opts =
     (if \<not> sa_IsValid ops (co_Server opts) \<or> sa_Port ops (co_Server opts) = 0
      then Inl (New ''call vk_parasite: missing server or server_port'')
      else if length (co_JoinLinks opts) \<noteq> CallCount
      then Inl (New ''call vk_parasite: join_links must contain exactly 4 links'')
      else case normalizeLinks [] (co_JoinLinks opts) of Inl err \<Rightarrow> Inl err
           | Inr links \<Rightarrow> validateTail (opts\<lparr>co_JoinLinks := links\<rparr>))"

definition joinLinkForWorker :: "gostring list \<Rightarrow> u16 \<Rightarrow> gostring" where
  "joinLinkForWorker joinLinks workerID = joinLinks ! (unat workerID mod CallCount)"

section \<open>Connecting\<close>

text \<open>The client; the part the health loop uses is that of Supervisor, the context is its \<open>cl_done\<close>.\<close>

record ('d, 'a) Client =
  cl_options :: "'d ClientOptions"
  cl_server :: net_addr
  cl_key :: bytes
  cl_sessionID :: bytes
  cl_conv :: u32
  cl_generation :: u64
  cl_closed :: bool
  cl_done :: bool
  cl_health :: "'a healthClient"

text \<open>\<open>random\<close> is what \<open>rand.Read\<close> fills the buffer with, or its error.\<close>

definition randomConversationID :: "go_error + bytes \<Rightarrow> go_error + u32" where
  "randomConversationID random =
     (case random of Inl err \<Rightarrow> Inl err
      | Inr convBuf \<Rightarrow> let conv = Uint32 convBuf in Inr (if conv = 0 then 1 else conv))"

definition fixSessionID :: "bytes \<Rightarrow> bytes" where
  "fixSessionID sid = (if sid = zeroSessionID then sid[0 := 1] else sid)"

text \<open>
  \<open>dns\<close> and \<open>doh\<close> are the answers of the two resolvers, \<open>hkdf\<close> the key derivation, \<open>rand16\<close> and \<open>rand4\<close>
  the two reads of \<open>crypto/rand\<close>.
\<close>

definition ConnectClient ::
  "'d socksaddr \<Rightarrow> (go_error + IP list) option \<Rightarrow> go_error + IP list \<Rightarrow> (gostring \<Rightarrow> string \<Rightarrow> string \<Rightarrow> go_error + bytes) \<Rightarrow>
   go_error + bytes \<Rightarrow> go_error + bytes \<Rightarrow> runtimeTransportState \<Rightarrow> 'd ClientOptions \<Rightarrow> go_error + ('d, 'a) Client" where
  "ConnectClient ops dns doh hkdf rand16 rand4 rt opts =
     (case validateClientOptions ops opts of Inl err \<Rightarrow> Inl err
      | Inr opts \<Rightarrow>
     (case resolveUDPAddress ops dns doh (co_Server opts) True of Inl err \<Rightarrow> Inl err
      | Inr (ip, port) \<Rightarrow>
     (case deriveWrapKey hkdf (co_ObfsPassword opts) of Inl err \<Rightarrow> Inl err
      | Inr key \<Rightarrow>
     (case rand16 of Inl err \<Rightarrow> Inl err
      | Inr sessionID \<Rightarrow>
     (case randomConversationID rand4 of Inl err \<Rightarrow> Inl err
      | Inr conv \<Rightarrow>
          Inr \<lparr>cl_options = opts, cl_server = UDPAddr ip (uint port) [], cl_key = key, cl_sessionID = fixSessionID sessionID,
               cl_conv = conv, cl_generation = 0, cl_closed = False, cl_done = False,
               cl_health = \<lparr>hc_TransportTag = co_TransportTag opts, hc_Workers = co_Workers opts,
                 hc_relay = Start (NewQUICRelay (co_Workers opts) True), sawPath = False, sawChallenge = False,
                 lastFailure = None, healthWake = 0, hc_runtimeGeneration = CurrentRuntimeGeneration rt\<rparr>\<rparr>)))))"

section \<open>Dialling a path\<close>

text \<open>
  What a dial meets: the credentials callback, the outcome of waiting for a TURN permit, the inputs of
  \<open>allocateTURN\<close>, of \<open>newRTPCodec\<close>, of the QUIC handshake and of \<open>exchangeAuth\<close>. QUIC connections
  are numbers.
\<close>

record ('d, 'c) dial_env =
  de_credentials :: "gostring \<Rightarrow> go_error + TURNCredentials"
  de_gate :: "go_error option"
  de_ops :: "'d socksaddr"
  de_Parse :: "string \<Rightarrow> go_error + url"
  de_allocate :: "'d turnEndpoint \<Rightarrow> go_error + 'c"
  de_io :: file_io
  de_now :: time
  de_runtime :: runtimeTransportState
  de_chacha :: "bytes \<Rightarrow> go_error + aead"
  de_seed :: "go_error + bytes"
  de_prng :: "go_error + u64 stream"
  de_quic :: "obfsPacketConn \<Rightarrow> go_error + nat"
  de_opened :: "go_error option"
  de_deadline :: "go_error option"
  de_written :: "go_error option"
  de_answer :: "bytes \<Rightarrow> bytes"

text \<open>What a dial does to the resources it holds.\<close>

datatype 'c dial_event =
    PermitTaken | PermitReleased | Invalidated gostring
  | AllocationOpened 'c | AllocationClosed 'c
  | QUICOpened nat | QUICClosed nat

text \<open>
  \<open>dialQUIC\<close>: the QUIC connection, whose end closes the packet connection and so the allocation below.
\<close>

definition dialQUIC :: "(obfsPacketConn \<Rightarrow> go_error + nat) \<Rightarrow> obfsPacketConn \<Rightarrow> (go_error + nat) \<times> 'c dial_event list" where
  "dialQUIC dial pconn =
     (case dial pconn of Inl err \<Rightarrow> (Inl err, []) | Inr conn \<Rightarrow> (Inr conn, [QUICOpened conn]))"

definition CloseWithError :: "nat \<Rightarrow> 'c \<Rightarrow> 'c dial_event list" where
  "CloseWithError conn allocation = [QUICClosed conn, AllocationClosed allocation]"

definition workerRequest :: "('d, 'a) Client \<Rightarrow> u16 \<Rightarrow> authRequest" where
  "workerRequest c workerID =
     \<lparr>ProtocolVersion = 0, SessionID = cl_sessionID c, Conv = cl_conv c, WorkerID = workerID,
      WorkerTotal = word_of_int (co_Workers (cl_options c)), WorkerEpoch = 1, LaneGeneration = 1,
      User = co_User (cl_options c), Password = co_Password (cl_options c)\<rparr>"

text \<open>The load, the compare-and-swap and the second load of \<open>c.generation\<close>, which is set once only.\<close>

definition bindGeneration :: "u64 \<Rightarrow> ('d, 'a) Client \<Rightarrow> ('d, 'a) Client" where
  "bindGeneration generation c = (if cl_generation c = 0 then c\<lparr>cl_generation := generation\<rparr> else c)"

definition errSessionReset :: go_error where
  "errSessionReset = New ''call vk_parasite: server session state was reset''"

definition authenticatePath ::
  "('d, 'c) dial_env \<Rightarrow> u16 \<Rightarrow> obfsPacketConn \<Rightarrow> nat \<Rightarrow> 'c \<Rightarrow> ('d, 'a) Client \<Rightarrow>
   (go_error + nat \<times> obfsPacketConn) \<times> ('d, 'a) Client \<times> 'c dial_event list" where
  "authenticatePath env workerID pconn conn allocation c =
     (case encodeAuthRequest (workerRequest c workerID) of
        Inl err \<Rightarrow> (Inl (Errorf ''worker %d inner auth encode: %w'' err), c, CloseWithError conn allocation)
      | Inr request \<Rightarrow>
     (case exchangeAuth (de_opened env) (de_deadline env) (de_written env) (de_answer env) request of
        Inl err \<Rightarrow> (Inl (Errorf ''worker %d inner auth: %w'' err), c, CloseWithError conn allocation)
      | Inr generation \<Rightarrow>
          let c = bindGeneration generation c in
          if generation \<noteq> cl_generation c then (Inl errSessionReset, c, CloseWithError conn allocation)
          else (Inr (conn, pconn), c, [])))"

definition dialAllocated ::
  "('d, 'c) dial_env \<Rightarrow> u16 \<Rightarrow> 'c \<Rightarrow> ('d, 'a) Client \<Rightarrow>
   (go_error + nat \<times> obfsPacketConn) \<times> ('d, 'a) Client \<times> 'c dial_event list" where
  "dialAllocated env workerID allocation c =
     (case newRTPCodec (de_chacha env) (cl_key c) (de_seed env) (de_prng env) (de_now env) of
        Inl err \<Rightarrow> (Inl (Errorf ''worker %d RTP codec: %w'' err), c, [AllocationClosed allocation])
      | Inr codec \<Rightarrow>
          let pconn = newObfsPacketConn (cl_server c) codec in
          case dialQUIC (de_quic env) pconn of
            (Inl err, evs) \<Rightarrow> (Inl (Errorf ''worker %d QUIC dial: %w'' err), c, evs @ [AllocationClosed allocation])
          | (Inr conn, evs) \<Rightarrow>
              (case authenticatePath env workerID pconn conn allocation c of (r, c, cls) \<Rightarrow> (r, c, evs @ cls)))"

definition DialPath ::
  "('d, 'c) dial_env \<Rightarrow> u16 \<Rightarrow> ('d, 'a) Client \<Rightarrow> turn_state \<Rightarrow>
   (go_error + nat \<times> obfsPacketConn) \<times> ('d, 'a) Client \<times> turn_state \<times> 'c dial_event list" where
  "DialPath env workerID c ts =
     (let joinLink = joinLinkForWorker (co_JoinLinks (cl_options c)) workerID in
      case de_credentials env joinLink of
        Inl err \<Rightarrow> (Inl (Errorf ''worker %d credentials: %w'' err), c, ts, [])
      | Inr credentials \<Rightarrow>
     (case de_gate env of
        Some err \<Rightarrow> (Inl (Errorf ''worker %d TURN gate: %w'' err), c, ts, [])
      | None \<Rightarrow>
     (case allocateTURN (de_ops env) (de_Parse env) (de_allocate env) (de_io env) (de_now env) (de_runtime env) credentials
             (unat workerID) (co_TransportTag (cl_options c)) (hc_runtimeGeneration (cl_health c)) ts of
        (Inl err, ts) \<Rightarrow>
          (Inl (Errorf ''worker %d TURN allocate: %w'' err), c, ts,
           [PermitTaken, PermitReleased] @
           (if isTURNCredentialError err \<and> has_InvalidateCredentials (cl_options c) then [Invalidated joinLink] else []))
      | (Inr allocation, ts) \<Rightarrow>
          (case dialAllocated env workerID allocation c of
             (r, c, evs) \<Rightarrow> (r, c, ts, [PermitTaken, AllocationOpened allocation, PermitReleased] @ evs)))))"

text \<open>\<open>dialTrackedPath\<close>; a \<open>dialOutcome\<close> is the error with its failure.\<close>

type_synonym dialOutcome = "go_error \<times> TransportFailure"

definition dialTrackedPath ::
  "('d, 'c) dial_env \<Rightarrow> u16 \<Rightarrow> ('d, 'a) Client \<Rightarrow> turn_state \<Rightarrow>
   (dialOutcome + nat \<times> obfsPacketConn) \<times> ('d, 'a) Client \<times> turn_state \<times> 'c dial_event list" where
  "dialTrackedPath env workerID c ts =
     (case DialPath env workerID c ts of
        (Inl err, c, ts, evs) \<Rightarrow>
          (case recordPathFailure err (cl_health c) of
             (failure, h) \<Rightarrow> (Inl (err, failure), c\<lparr>cl_health := h\<rparr>, ts, evs))
      | (Inr path, c, ts, evs) \<Rightarrow> (Inr path, c\<lparr>cl_health := (cl_health c)\<lparr>lastFailure := None\<rparr>\<rparr>, ts, evs))"

text \<open>\<open>RebindNetwork\<close> and \<open>Close\<close>; the relay is never nil. Without an argument the generation is 0.\<close>

definition on_relay :: "('a relay \<Rightarrow> 'a relay) \<Rightarrow> ('d, 'a) Client \<Rightarrow> ('d, 'a) Client" where
  "on_relay f c = c\<lparr>cl_health := (cl_health c)\<lparr>hc_relay := f (hc_relay (cl_health c))\<rparr>\<rparr>"

definition client_RebindNetwork :: "u64 \<Rightarrow> ('d, 'a) Client \<Rightarrow> ('d, 'a) Client" where
  "client_RebindNetwork generation c = on_relay (RebindNetwork generation) c"

definition client_Close :: "('d, 'a) Client \<Rightarrow> ('d, 'a) Client" where
  "client_Close c =
     (if cl_closed c then c
      else on_relay (\<lambda>r. relay_Close (r\<lparr>parent_done := True\<rparr>)) (c\<lparr>cl_closed := True, cl_done := True\<rparr>))"

section \<open>Steps of a client\<close>

text \<open>
  A client in its surroundings: workers dial whenever the relay lets them, the relay moves by its own
  steps, the network is rebound and the client closed. \<open>cs_acked\<close> lists the generations that the server
  answered on the paths handed to the relay.
\<close>

record ('d, 'a) client_system =
  cs_client :: "('d, 'a) Client"
  cs_turn :: turn_state
  cs_acked :: "u64 list"

definition pathGeneration :: "('d, 'c) dial_env \<Rightarrow> u16 \<Rightarrow> ('d, 'a) Client \<Rightarrow> go_error + u64" where
  "pathGeneration env workerID c =
     (case encodeAuthRequest (workerRequest c workerID) of Inl err \<Rightarrow> Inl err
      | Inr request \<Rightarrow> exchangeAuth (de_opened env) (de_deadline env) (de_written env) (de_answer env) request)"

definition client_init :: "('d, 'a) client_system \<Rightarrow> bool" where
  "client_init s \<longleftrightarrow> cs_acked s = [] \<and>
     (\<exists>ops dns doh hkdf sid rand4 rt opts. length sid = 16 \<and>
        ConnectClient ops dns doh hkdf (Inr sid) rand4 rt opts = Inr (cs_client s))"

inductive client_step :: "('d, 'a) client_system \<Rightarrow> ('d, 'a) client_system \<Rightarrow> bool" where
  dial: "dialTrackedPath (env :: ('d, nat) dial_env) w (cs_client s) (cs_turn s) = (r, c, ts, evs) \<Longrightarrow>
    acked = (case r of Inl _ \<Rightarrow> [] | Inr _ \<Rightarrow> [projr (pathGeneration env w (cs_client s))]) \<Longrightarrow>
    client_step s (s\<lparr>cs_client := c, cs_turn := ts, cs_acked := cs_acked s @ acked\<rparr>)"
| relay: "relay_step (hc_relay (cl_health (cs_client s))) r \<Longrightarrow>
    client_step s (s\<lparr>cs_client := on_relay (\<lambda>_. r) (cs_client s)\<rparr>)"
| rebind: "client_step s (s\<lparr>cs_client := client_RebindNetwork g (cs_client s)\<rparr>)"
| close: "client_step s (s\<lparr>cs_client := client_Close (cs_client s)\<rparr>)"

section \<open>Well-formedness\<close>

definition wf_options :: "'d ClientOptions \<Rightarrow> bool" where
  "wf_options opts \<longleftrightarrow>
     length (co_JoinLinks opts) = CallCount \<and> distinct (co_JoinLinks opts) \<and>
     (\<forall>l \<in> set (co_JoinLinks opts). l \<noteq> [] \<and> length l \<le> 2048) \<and>
     validateAuthStrings (co_User opts) (co_Password opts) = None \<and>
     co_ObfsPassword opts \<noteq> [] \<and> length (co_ObfsPassword opts) \<le> maximumPasswordLen \<and>
     co_Workers opts \<in> {4, 8, 12, 16, 20} \<and>
     Second \<le> co_WorkerConnectTimeout opts \<and> co_WorkerConnectTimeout opts \<le> 2 * Minute \<and> has_Credentials opts"

definition wf_client :: "('d, 'a) Client \<Rightarrow> bool" where
  "wf_client c \<longleftrightarrow>
     wf_options (cl_options c) \<and> length (cl_sessionID c) = 16 \<and> cl_sessionID c \<noteq> zeroSessionID \<and> cl_conv c \<noteq> 0 \<and>
     hc_Workers (cl_health c) = co_Workers (cl_options c) \<and>
     int (pathCount (hc_relay (cl_health c))) = co_Workers (cl_options c)"

lemma normalizeLinks_Inr:
  "normalizeLinks seen links = Inr ls \<Longrightarrow>
     ls = map TrimSpace links \<and> distinct ls \<and> set ls \<inter> set seen = {} \<and> (\<forall>l \<in> set ls. l \<noteq> [] \<and> length l \<le> 2048)"
  by (induction seen links arbitrary: ls rule: normalizeLinks.induct) (fastforce simp: Let_def split: if_splits sum.splits)+

lemma workers_choice:
  fixes w :: int
  assumes "\<not> w < int DefaultWorkerCount" "\<not> int MaximumWorkerCount < w" "w mod int CallCount = 0"
  shows "w \<in> {4, 8, 12, 16, 20}"
  using assms by (simp add: auth_consts) presburger

lemma withDefaults_fields [simp]:
  "co_JoinLinks (withDefaults opts) = co_JoinLinks opts" "co_User (withDefaults opts) = co_User opts"
  "co_Password (withDefaults opts) = co_Password opts" "co_ObfsPassword (withDefaults opts) = co_ObfsPassword opts"
  by (simp_all add: withDefaults_def Let_def)

lemma validateTail_Inr:
  assumes "validateTail opts = Inr opts'"
  shows "opts' = withDefaults opts" "validateAuthStrings (co_User opts) (co_Password opts) = None"
    "co_ObfsPassword opts \<noteq> []" "length (co_ObfsPassword opts) \<le> maximumPasswordLen" "co_Workers opts' \<in> {4, 8, 12, 16, 20}"
    "Second \<le> co_WorkerConnectTimeout opts'" "co_WorkerConnectTimeout opts' \<le> 2 * Minute" "has_Credentials opts'"
  using assms workers_choice [of "co_Workers opts'"]
  by (auto simp: validateTail_def Let_def split: option.splits if_splits)

lemma validateClientOptions_wf:
  assumes "validateClientOptions ops opts = Inr opts'"
  shows "wf_options opts'"
proof -
  from assms obtain ls where ls: "normalizeLinks [] (co_JoinLinks opts) = Inr ls"
    and len: "length (co_JoinLinks opts) = CallCount" and v: "validateTail (opts\<lparr>co_JoinLinks := ls\<rparr>) = Inr opts'"
    by (auto simp: validateClientOptions_def split: if_splits sum.splits)
  have n: "length ls = CallCount" "distinct ls" "\<forall>l \<in> set ls. l \<noteq> [] \<and> length l \<le> 2048"
    using normalizeLinks_Inr [OF ls] len by auto
  have "co_JoinLinks opts' = ls" "validateAuthStrings (co_User opts') (co_Password opts') = None"
    "co_ObfsPassword opts' \<noteq> []" "length (co_ObfsPassword opts') \<le> maximumPasswordLen"
    using validateTail_Inr(1-4) [OF v] by simp_all
  then show ?thesis using n validateTail_Inr(5-8) [OF v] unfolding wf_options_def by simp
qed

lemma fixSessionID_ok: "length sid = 16 \<Longrightarrow> length (fixSessionID sid) = 16 \<and> fixSessionID sid \<noteq> zeroSessionID"
  by (auto simp: fixSessionID_def zeroSessionID_def dest: arg_cong [of _ _ "\<lambda>xs. xs ! 0"])

lemma randomConversationID_nonzero: "randomConversationID r = Inr conv \<Longrightarrow> conv \<noteq> 0"
  by (auto simp: randomConversationID_def Let_def split: sum.splits if_splits)

lemma ConnectClient_wf:
  assumes "ConnectClient ops dns doh hkdf (Inr sid) rand4 rt opts = Inr c" "length sid = 16"
  shows "wf_client c" "cl_generation c = 0"
proof -
  note C = assms(1) [unfolded ConnectClient_def]
  from C obtain opts' where v: "validateClientOptions ops opts = Inr opts'"
    by (cases "validateClientOptions ops opts") simp_all
  note C = C [unfolded v, simplified]
  from C obtain ip port where "resolveUDPAddress ops dns doh (co_Server opts') True = Inr (ip, port)"
    by (cases "resolveUDPAddress ops dns doh (co_Server opts') True") auto
  note C = C [unfolded this, simplified]
  from C obtain key where "deriveWrapKey hkdf (co_ObfsPassword opts') = Inr key"
    by (cases "deriveWrapKey hkdf (co_ObfsPassword opts')") simp_all
  note C = C [unfolded this, simplified]
  from C obtain conv where conv: "randomConversationID rand4 = Inr conv" by (cases "randomConversationID rand4") simp_all
  note C = C [unfolded conv, simplified]
  have c: "cl_options c = opts'" "cl_sessionID c = fixSessionID sid" "cl_conv c = conv" "cl_generation c = 0"
      "hc_Workers (cl_health c) = co_Workers opts'" "hc_relay (cl_health c) = Start (NewQUICRelay (co_Workers opts') True)"
    by (simp_all flip: C)
  have "co_Workers opts' \<in> {4, 8, 12, 16, 20}" using validateClientOptions_wf [OF v] unfolding wf_options_def by blast
  then have "0 < co_Workers opts'" by auto
  then show "wf_client c" using c validateClientOptions_wf [OF v] fixSessionID_ok [OF assms(2)] randomConversationID_nonzero [OF conv]
    by (simp add: wf_client_def Start_def NewQUICRelay_def Let_def)
  show "cl_generation c = 0" by (fact c)
qed

lemma workerRequest_ok:
  assumes "wf_client c" "int (unat w) < co_Workers (cl_options c)"
  shows "wf_authRequest (workerRequest c w)" "authRequest_ok (workerRequest c w)"
    "int (unat (WorkerTotal (workerRequest c w))) = co_Workers (cl_options c)"
proof -
  show "wf_authRequest (workerRequest c w)" using assms by (simp add: wf_authRequest_def workerRequest_def wf_client_def)
  have k: "co_Workers (cl_options c) \<in> {4, 8, 12, 16, 20}" using assms by (simp add: wf_client_def wf_options_def)
  then show t: "int (unat (WorkerTotal (workerRequest c w))) = co_Workers (cl_options c)"
    by (auto simp: workerRequest_def)
  have "w < word_of_int (co_Workers (cl_options c))" using assms(2) t by (simp add: word_less_alt workerRequest_def)
  moreover have "supportedWorkerCount (word_of_int (co_Workers (cl_options c)))"
    using k by (auto simp: supportedWorkerCount_def auth_consts)
  ultimately show "authRequest_ok (workerRequest c w)"
    using assms(1) by (simp add: authRequest_ok_def workerRequest_def wf_client_def wf_options_def validWorkerMetadata_def)
qed

lemma bindGeneration_fields [simp]:
  "cl_options (bindGeneration g c) = cl_options c" "cl_sessionID (bindGeneration g c) = cl_sessionID c"
  "cl_conv (bindGeneration g c) = cl_conv c" "cl_health (bindGeneration g c) = cl_health c"
  "cl_generation (bindGeneration g c) = (if cl_generation c = 0 then g else cl_generation c)"
  by (simp_all add: bindGeneration_def)

lemma authenticatePath_cases:
  assumes "authenticatePath env w p q a c = (r, c', evs)"
  shows "(\<exists>g. r = Inr (q, p) \<and> evs = [] \<and> pathGeneration env w c = Inr g \<and> cl_generation c \<in> {0, g} \<and> c' = bindGeneration g c) \<or>
    (\<exists>err. r = Inl err \<and> evs = CloseWithError q a \<and> c' = c \<and>
       (\<forall>g. pathGeneration env w c = Inr g \<longrightarrow> g \<noteq> cl_generation c \<and> cl_generation c \<noteq> 0 \<and> err = errSessionReset))"
proof (cases "pathGeneration env w c")
  case (Inl e)
  then show ?thesis using assms by (auto simp: authenticatePath_def pathGeneration_def split: sum.splits)
next
  case (Inr g)
  then show ?thesis using assms
    by (auto simp: authenticatePath_def pathGeneration_def bindGeneration_def Let_def split: sum.splits if_splits)
qed

text \<open>The ways a dial can go: refused before there is an allocation, refused after it, or through.\<close>

lemma dialAllocated_cases:
  assumes "dialAllocated env w a c = (r, c', evs)"
  obtains
    (closed) err where "r = Inl err" "c' = c" "evs = [AllocationClosed a]"
  | (refused) q err where "r = Inl err" "c' = c" "evs = [QUICOpened q, QUICClosed q, AllocationClosed a]"
      "\<forall>g. pathGeneration env w c = Inr g \<longrightarrow> g \<noteq> cl_generation c \<and> cl_generation c \<noteq> 0 \<and> err = errSessionReset"
  | (through) q p g where "r = Inr (q, p)" "evs = [QUICOpened q]" "pathGeneration env w c = Inr g"
      "cl_generation c \<in> {0, g}" "c' = bindGeneration g c" "remote p = cl_server c"
proof (cases "newRTPCodec (de_chacha env) (cl_key c) (de_seed env) (de_prng env) (de_now env)")
  case (Inl err)
  then show ?thesis using assms by (intro closed) (auto simp: dialAllocated_def)
next
  case (Inr codec)
  let ?p = "newObfsPacketConn (cl_server c) codec"
  have p: "remote ?p = cl_server c" by (simp add: newObfsPacketConn_def)
  show ?thesis
  proof (cases "de_quic env ?p")
    case (Inl err)
    then show ?thesis using assms Inr by (intro closed) (auto simp: dialAllocated_def dialQUIC_def)
  next
    case conn: (Inr q)
    obtain r1 c1 e1 where auth: "authenticatePath env w ?p q a c = (r1, c1, e1)" by (cases "authenticatePath env w ?p q a c")
    then have eqs: "r = r1" "c' = c1" "evs = QUICOpened q # e1"
      using assms Inr conn by (simp_all add: dialAllocated_def dialQUIC_def)
    from authenticatePath_cases [OF auth] show ?thesis
    proof (elim disjE exE conjE)
      fix g assume "r1 = Inr (q, ?p)" "e1 = []" "pathGeneration env w c = Inr g" "cl_generation c \<in> {0, g}" "c1 = bindGeneration g c"
      then show ?thesis using eqs p by (intro through [of q ?p g]) simp_all
    next
      fix err assume "r1 = Inl err" "e1 = CloseWithError q a" "c1 = c"
        "\<forall>g. pathGeneration env w c = Inr g \<longrightarrow> g \<noteq> cl_generation c \<and> cl_generation c \<noteq> 0 \<and> err = errSessionReset"
      then show ?thesis using eqs by (intro refused [of err q]) (simp_all add: CloseWithError_def)
    qed
  qed
qed

lemma DialPath_cases:
  assumes "DialPath env w c ts = (r, c', ts', evs)"
  obtains
    (early) err where "r = Inl err" "c' = c" "evs = []"
  | (unallocated) m err where "r = Inl (Errorf m err)" "c' = c"
      "evs = [PermitTaken, PermitReleased] @ (if isTURNCredentialError err \<and> has_InvalidateCredentials (cl_options c)
         then [Invalidated (joinLinkForWorker (co_JoinLinks (cl_options c)) w)] else [])"
  | (closed) a err where "r = Inl err" "c' = c" "evs = [PermitTaken, AllocationOpened a, PermitReleased, AllocationClosed a]"
  | (refused) a q err where "r = Inl err" "c' = c"
      "evs = [PermitTaken, AllocationOpened a, PermitReleased, QUICOpened q, QUICClosed q, AllocationClosed a]"
      "\<forall>g. pathGeneration env w c = Inr g \<longrightarrow> g \<noteq> cl_generation c \<and> cl_generation c \<noteq> 0 \<and> err = errSessionReset"
  | (through) a q p g where "r = Inr (q, p)" "evs = [PermitTaken, AllocationOpened a, PermitReleased, QUICOpened q]"
      "pathGeneration env w c = Inr g" "cl_generation c \<in> {0, g}" "c' = bindGeneration g c" "remote p = cl_server c"
proof (cases "de_credentials env (joinLinkForWorker (co_JoinLinks (cl_options c)) w)")
  case (Inl e)
  then show ?thesis using assms by (intro early) (auto simp: DialPath_def Let_def)
next
  case cr: (Inr cr)
  show ?thesis
  proof (cases "de_gate env")
    case (Some e)
    then show ?thesis using assms cr by (intro early) (auto simp: DialPath_def Let_def)
  next
    case None
    obtain ra ts1 where al: "allocateTURN (de_ops env) (de_Parse env) (de_allocate env) (de_io env) (de_now env) (de_runtime env) cr
        (unat w) (co_TransportTag (cl_options c)) (hc_runtimeGeneration (cl_health c)) ts = (ra, ts1)" by fastforce
    note step = assms cr None al
    show ?thesis
    proof (cases ra)
      case (Inl e)
      have "r = Inl (Errorf ''worker %d TURN allocate: %w'' e)" "c' = c"
        "evs = [PermitTaken, PermitReleased] @ (if isTURNCredentialError e \<and> has_InvalidateCredentials (cl_options c)
           then [Invalidated (joinLinkForWorker (co_JoinLinks (cl_options c)) w)] else [])"
        using step Inl by (auto simp: DialPath_def Let_def)
      then show ?thesis by (rule unallocated)
    next
      case (Inr a)
      obtain r1 c1 e1 where d: "dialAllocated env w a c = (r1, c1, e1)" by (cases "dialAllocated env w a c")
      have eqs: "r = r1" "c' = c1" "evs = [PermitTaken, AllocationOpened a, PermitReleased] @ e1"
        using step Inr d by (simp_all add: DialPath_def Let_def)
      note k = closed refused through
      from d show ?thesis
      proof (cases rule: dialAllocated_cases)
        case (closed err)
        then show ?thesis using eqs by (intro k(1) [where err = err and a = a]) simp_all
      next
        case (refused q err)
        then show ?thesis using eqs by (intro k(2) [where err = err and a = a and q = q]) simp_all
      next
        case (through q p g)
        then show ?thesis using eqs by (intro k(3) [where a = a and q = q and p = p and g = g]) simp_all
      qed
    qed
  qed
qed

lemma pathGeneration_nonzero: "pathGeneration env w c = Inr g \<Longrightarrow> g \<noteq> 0"
  by (auto simp: pathGeneration_def exchangeAuth_def dest: decode_ack_Inr split: sum.splits option.splits prod.splits)

section \<open>The invariant\<close>

text \<open>Well-formed, and every path in use was acknowledged under the generation the client is bound to.\<close>

definition client_inv :: "('d, 'a) client_system \<Rightarrow> bool" where
  "client_inv s \<longleftrightarrow> wf_client (cs_client s) \<and> (\<forall>g \<in> set (cs_acked s). g \<noteq> 0 \<and> g = cl_generation (cs_client s))"

lemma recordPathFailure_fields:
  "recordPathFailure err h = (failure, h') \<Longrightarrow> hc_Workers h' = hc_Workers h \<and> hc_relay h' = hc_relay h"
  by (auto simp: recordPathFailure_def wakeHealth_def Let_def)

lemma dialTrackedPath_frame:
  assumes "dialTrackedPath env w c ts = (r, c', ts', evs)"
  shows "wf_client c \<Longrightarrow> wf_client c'"
    "cl_generation c' = cl_generation c \<or> cl_generation c = 0"
    "r = Inr x \<Longrightarrow> \<exists>g. pathGeneration env w c = Inr g \<and> g = cl_generation c' \<and> g \<noteq> 0"
proof -
  obtain r1 c1 ts1 e1 where d: "DialPath env w c ts = (r1, c1, ts1, e1)" by (metis prod_cases4)
  have frame: "cl_options c' = cl_options c1" "cl_sessionID c' = cl_sessionID c1" "cl_conv c' = cl_conv c1"
    "cl_generation c' = cl_generation c1" "hc_Workers (cl_health c') = hc_Workers (cl_health c1)"
    "hc_relay (cl_health c') = hc_relay (cl_health c1)" "r = Inr x \<Longrightarrow> r1 = Inr x"
    using assms d by (auto simp: dialTrackedPath_def dest: recordPathFailure_fields split: sum.splits prod.splits)
  from d have "c1 = c \<or> (\<exists>g. c1 = bindGeneration g c)" by (cases rule: DialPath_cases) auto
  then show "wf_client c \<Longrightarrow> wf_client c'" "cl_generation c' = cl_generation c \<or> cl_generation c = 0"
    by (auto simp: wf_client_def frame)
  from d show "r = Inr x \<Longrightarrow> \<exists>g. pathGeneration env w c = Inr g \<and> g = cl_generation c' \<and> g \<noteq> 0"
    by (cases rule: DialPath_cases) (auto simp: frame(4) dest: frame(7) pathGeneration_nonzero)
qed

lemma on_relay_fields [simp]:
  "cl_options (on_relay f c) = cl_options c" "cl_sessionID (on_relay f c) = cl_sessionID c"
  "cl_conv (on_relay f c) = cl_conv c" "cl_generation (on_relay f c) = cl_generation c"
  "hc_Workers (cl_health (on_relay f c)) = hc_Workers (cl_health c)"
  "hc_relay (cl_health (on_relay f c)) = f (hc_relay (cl_health c))"
  by (simp_all add: on_relay_def)

lemma client_close_rebind_fields [simp]:
  "cl_generation (client_Close c) = cl_generation c" "cl_generation (client_RebindNetwork g c) = cl_generation c"
  "wf_client (client_Close c) = wf_client c" "wf_client (client_RebindNetwork g c) = wf_client c"
  by (simp_all add: client_Close_def client_RebindNetwork_def wf_client_def relay_Close_def RebindNetwork_def Let_def)

lemma client_step_inv:
  assumes "client_step s t" "client_inv s"
  shows "client_inv t"
  using assms
proof (cases rule: client_step.cases)
  case (dial env w r c ts evs acked)
  note f = dialTrackedPath_frame [OF dial(2)]
  have wf: "wf_client c" using f(1) assms(2) by (simp add: client_inv_def)
  have old: "\<forall>g \<in> set (cs_acked s). g \<noteq> 0 \<and> g = cl_generation c"
    using f(2) assms(2) by (auto simp: client_inv_def)
  have "\<forall>g \<in> set acked. g \<noteq> 0 \<and> g = cl_generation c"
    using dial(3) f(3) by (cases r) auto
  then show ?thesis using dial(1) wf old by (auto simp: client_inv_def)
next
  case (relay r)
  then show ?thesis using assms(2) relay_step_pathCount [OF relay(2)] by (simp add: client_inv_def wf_client_def)
qed (simp_all add: client_inv_def)

interpretation clients: invariant_system client_init client_step client_inv
proof
  show "client_inv s" if "client_init s" for s
    using that ConnectClient_wf(1) by (auto simp: client_init_def client_inv_def)
  show "client_inv t" if "client_inv s" "client_step s t" for s t using client_step_inv that by blast
qed

text \<open>
  Once bound, a client stays bound: a server that opens the session anew, under another generation,
  is refused by every later dial.
\<close>

lemma step_keeps_generation:
  assumes "client_step s t" "cl_generation (cs_client s) \<noteq> 0"
  shows "cl_generation (cs_client t) = cl_generation (cs_client s)"
  using assms by (cases rule: client_step.cases) (auto dest: dialTrackedPath_frame(2))

lemma generation_never_reset:
  "client_step\<^sup>*\<^sup>* s t \<Longrightarrow> cl_generation (cs_client s) \<noteq> 0 \<Longrightarrow> cl_generation (cs_client t) = cl_generation (cs_client s)"
  by (induction rule: rtranclp_induct) (simp_all add: step_keeps_generation)

lemma lost_session_refused:
  assumes "client_step\<^sup>*\<^sup>* s t" "cl_generation (cs_client s) \<notin> {0, g}" "pathGeneration env w (cs_client t) = Inr g"
    "DialPath env w (cs_client t) ts = (r, c', ts', evs)"
  shows "\<exists>err. r = Inl err"
  using assms(4)
  by (cases rule: DialPath_cases) (use assms(1-3) generation_never_reset [OF assms(1)] in auto)

text \<open>A dial whose every stage succeeds hands over the connection.\<close>

lemma DialPath_success:
  assumes "de_credentials env (joinLinkForWorker (co_JoinLinks (cl_options c)) w) = Inr cr" "de_gate env = None"
    and "allocateTURN (de_ops env) (de_Parse env) (de_allocate env) (de_io env) (de_now env) (de_runtime env) cr
        (unat w) (co_TransportTag (cl_options c)) (hc_runtimeGeneration (cl_health c)) ts = (Inr a, ts')"
    and "newRTPCodec (de_chacha env) (cl_key c) (de_seed env) (de_prng env) (de_now env) = Inr codec"
    and "de_quic env (newObfsPacketConn (cl_server c) codec) = Inr q"
    and "pathGeneration env w c = Inr g" "cl_generation c \<in> {0, g}"
  shows "DialPath env w c ts = (Inr (q, newObfsPacketConn (cl_server c) codec), bindGeneration g c, ts',
    [PermitTaken, AllocationOpened a, PermitReleased, QUICOpened q])"
proof -
  have "authenticatePath env w p q a c = (Inr (q, p), bindGeneration g c, [])" for p
    using assms(6,7) by (auto simp: authenticatePath_def pathGeneration_def Let_def split: sum.splits)
  then have "dialAllocated env w a c = (Inr (q, newObfsPacketConn (cl_server c) codec), bindGeneration g c, [QUICOpened q])"
    using assms(4,5) by (simp add: dialAllocated_def dialQUIC_def)
  then show ?thesis using assms(1-3) by (simp add: DialPath_def Let_def)
qed

section \<open>A sample\<close>

definition demo_client_options :: "string ClientOptions" where
  "demo_client_options = \<lparr>co_TransportTag = ''vk'', co_Server = ''host'', co_JoinLinks = [[32, 97], [98], [99, 10], [100]],
     co_User = [97], co_Password = [98], co_ObfsPassword = [99], co_Workers = 0, co_WorkerConnectTimeout = 0,
     has_Credentials = True, has_InvalidateCredentials = True\<rparr>"

definition demo_client :: "(string, nat) Client" where
  "demo_client = projr (ConnectClient plain_socks (Some (Inr [[127, 0, 0, 1]])) (Inl EOF) (\<lambda>_ _ _. Inr (replicate 32 7))
     (Inr (replicate 16 0)) (Inr [0, 0, 0, 0]) initialState demo_client_options)"

definition demo_links :: "gostring list" where "demo_links = [[97], [98], [99], [100]]"

lemma demo_trim: "normalizeLinks [] (co_JoinLinks demo_client_options) = Inr demo_links"
  by code_simp

lemma demo_client_new:
  "ConnectClient plain_socks (Some (Inr [[127, 0, 0, 1]])) (Inl EOF) (\<lambda>_ _ _. Inr (replicate 32 7))
     (Inr (replicate 16 0)) (Inr [0, 0, 0, 0]) initialState demo_client_options = Inr demo_client"
  "cl_options demo_client = demo_client_options\<lparr>co_JoinLinks := demo_links, co_Workers := 4, co_WorkerConnectTimeout := 30 * Second\<rparr>"
  "cl_generation demo_client = 0"
proof -
  have u: "utf8_valid [97]" "utf8_valid [98]" by code_simp+
  have "validateTail (demo_client_options\<lparr>co_JoinLinks := demo_links\<rparr>) =
      Inr (demo_client_options\<lparr>co_JoinLinks := demo_links, co_Workers := 4, co_WorkerConnectTimeout := 30 * Second\<rparr>)"
    using u by (simp add: validateTail_def validateAuthStrings_def withDefaults_def demo_client_options_def auth_consts Let_def)
  then have v: "validateClientOptions plain_socks demo_client_options =
      Inr (demo_client_options\<lparr>co_JoinLinks := demo_links, co_Workers := 4, co_WorkerConnectTimeout := 30 * Second\<rparr>)"
    using demo_trim by (simp add: validateClientOptions_def) (simp add: plain_socks_def demo_client_options_def auth_consts)
  have r: "resolveUDPAddress plain_socks (Some (Inr [[127, 0, 0, 1]])) (Inl EOF) d True = Inr ([127, 0, 0, 1], 3478)" if "d \<noteq> []" for d
    using that by (simp add: resolveUDPAddress_def resolveUDPAddresses_def plain_socks_def Is4_def Unmap_def Let_def)
  have k: "deriveWrapKey (\<lambda>_ _ _. Inr (replicate 32 7)) (co_ObfsPassword demo_client_options) = Inr (replicate 32 7)"
    "co_Server demo_client_options \<noteq> []"
    by (simp_all add: deriveWrapKey_def demo_client_options_def)
  have c: "randomConversationID (Inr [0, 0, 0, 0]) = Inr 1" by (simp add: randomConversationID_def be_val_def)
  show "ConnectClient plain_socks (Some (Inr [[127, 0, 0, 1]])) (Inl EOF) (\<lambda>_ _ _. Inr (replicate 32 7))
     (Inr (replicate 16 0)) (Inr [0, 0, 0, 0]) initialState demo_client_options = Inr demo_client"
    "cl_options demo_client = demo_client_options\<lparr>co_JoinLinks := demo_links, co_Workers := 4, co_WorkerConnectTimeout := 30 * Second\<rparr>"
    "cl_generation demo_client = 0"
    by (simp_all add: demo_client_def ConnectClient_def v r k c)
qed

lemma demo_client_reached:
  "reach client_init client_step \<lparr>cs_client = demo_client, cs_turn = demo_turn_state, cs_acked = []\<rparr>"
proof -
  have "client_init \<lparr>cs_client = demo_client, cs_turn = demo_turn_state, cs_acked = []\<rparr>"
    unfolding client_init_def client_system.simps using demo_client_new(1)
    by (intro conjI refl exI [of _ plain_socks] exI [of _ "Some (Inr [[127, 0, 0, 1]])"] exI [of _ "Inl EOF"] exI [of _ "\<lambda>_ _ _. Inr (replicate 32 7)"]
        exI [of _ "replicate 16 0"] exI [of _ "Inr [0, 0, 0, 0]"] exI [of _ initialState] exI [of _ demo_client_options]) simp_all
  then show ?thesis by (rule reach_init)
qed

text \<open>Surroundings in which everything works and the server answers with the generation \<open>g\<close>.\<close>

definition demo_env :: "u64 \<Rightarrow> (string, nat) dial_env" where
  "demo_env g = \<lparr>de_credentials = \<lambda>_. Inr \<lparr>tc_URLs = [''host''], tc_Username = ''u'', tc_Credential = ''p''\<rparr>, de_gate = None,
     de_ops = plain_socks, de_Parse = plain_url, de_allocate = \<lambda>_. Inr 7, de_io = \<lparr>mkdir_ok = True, write_ok = True, rename_ok = True\<rparr>,
     de_now = 0, de_runtime = initialState, de_chacha = \<lambda>_. Inr plain_aead, de_seed = Inr (replicate 10 0), de_prng = Inr (sconst 0),
     de_quic = \<lambda>_. Inr 3, de_opened = None, de_deadline = None, de_written = None,
     de_answer = \<lambda>_. encodeAuthAck True g AuthRejectUnspecified\<rparr>"

lemma demo_generation:
  assumes "wf_client c" "int (unat w) < co_Workers (cl_options c)" "g \<noteq> 0"
  shows "pathGeneration (demo_env g) w c = Inr g"
proof -
  from workerRequest_ok [OF assms(1,2)] obtain f where "encodeAuthRequest (workerRequest c w) = Inr f"
    by (auto simp: encodeAuthRequest_layout)
  moreover have "ReadFull authAckFrameLen (encodeAuthAck True g AuthRejectUnspecified @ []) =
      Inr (encodeAuthAck True g AuthRejectUnspecified, [])" by (subst ReadFull_append) simp_all
  ultimately show ?thesis using assms(3) by (simp add: pathGeneration_def exchangeAuth_def demo_env_def decode_ack_accept)
qed

lemma demo_allocation:
  "\<exists>ts'. allocateTURN plain_socks plain_url (\<lambda>_. Inr (7 :: nat)) io now rt \<lparr>tc_URLs = [''host''], tc_Username = ''u'', tc_Credential = ''p''\<rparr>
     0 tag g ts = (Inr 7, ts')"
proof -
  have "destinations plain_socks plain_url reg [''host''] 0 \<noteq> []" for reg
    by (simp add: destinations_def parseTURNURL_def plain_socks_def plain_url_def EqualFold_def ToLower_def lower_def TrimPrefix_def
        rotateTURNEndpoints_def isMobileLTE_def Let_def)
  then obtain e es where "destinations plain_socks plain_url (scores ts) [''host''] 0 = e # es" by (meson list.exhaust)
  then show ?thesis by (simp add: allocateTURN_def)
qed

lemma demo_dial:
  assumes "wf_client c" "cl_generation c \<in> {0, g}" "g \<noteq> 0"
  shows "\<exists>p ts' evs. DialPath (demo_env g) 0 c ts = (Inr (3, p), bindGeneration g c, ts', evs)"
proof -
  have "co_Workers (cl_options c) \<in> {4, 8, 12, 16, 20}" using assms(1) unfolding wf_client_def wf_options_def by blast
  then have w: "int (unat (0 :: u16)) < co_Workers (cl_options c)" by auto
  obtain codec where codec: "newRTPCodec (de_chacha (demo_env g)) (cl_key c) (de_seed (demo_env g)) (de_prng (demo_env g)) (de_now (demo_env g)) = Inr codec"
    by (simp add: newRTPCodec_def demo_env_def)
  obtain ts' where "allocateTURN (de_ops (demo_env g)) (de_Parse (demo_env g)) (de_allocate (demo_env g)) (de_io (demo_env g)) (de_now (demo_env g))
      (de_runtime (demo_env g)) \<lparr>tc_URLs = [''host''], tc_Username = ''u'', tc_Credential = ''p''\<rparr>
      (unat (0 :: u16)) (co_TransportTag (cl_options c)) (hc_runtimeGeneration (cl_health c)) ts = (Inr 7, ts')"
    using demo_allocation by (fastforce simp: demo_env_def)
  from DialPath_success [OF _ _ this codec _ demo_generation [OF assms(1) w assms(3)] assms(2)] show ?thesis
    by (simp add: demo_env_def)
qed

section \<open>Properties\<close>

text \<open>
  C26. Whatever a client goes through after \<open>ConnectClient\<close> accepted its options, it stays well formed:
  every worker it runs has a join link of its own list and sends a request that encodes, and that the
  server reads back as this session, this worker and these credentials.
\<close>

theorem client_well_formed:
  assumes "reach client_init client_step s" "int (unat w) < co_Workers (cl_options (cs_client s))"
  shows "wf_client (cs_client s) \<and>
    joinLinkForWorker (co_JoinLinks (cl_options (cs_client s))) w \<in> set (co_JoinLinks (cl_options (cs_client s))) \<and>
    (\<exists>f. encodeAuthRequest (workerRequest (cs_client s) w) = Inr f \<and>
       readAuthRequest (f @ rest) = Inr ((workerRequest (cs_client s) w)\<lparr>ProtocolVersion := authProtocolVersion\<rparr>, rest))"
proof -
  have wf: "wf_client (cs_client s)" using clients.reach_inv [OF assms(1)] by (simp add: client_inv_def)
  then have "joinLinkForWorker (co_JoinLinks (cl_options (cs_client s))) w \<in> set (co_JoinLinks (cl_options (cs_client s)))"
    by (simp add: joinLinkForWorker_def wf_client_def wf_options_def auth_consts)
  then show ?thesis using wf workerRequest_ok [OF wf assms(2)] read_encode [of "workerRequest (cs_client s) w"]
    by (auto simp: encodeAuthRequest_layout)
qed

theorem client_well_formed_witness:
  "\<exists>f. encodeAuthRequest (workerRequest demo_client 3) = Inr f \<and>
     readAuthRequest f = Inr ((workerRequest demo_client 3)\<lparr>ProtocolVersion := authProtocolVersion\<rparr>, [])"
  using client_well_formed [OF demo_client_reached, of 3 "[]"] by (simp add: demo_client_new)

text \<open>
  C27. All paths that a client hands to its relay belong to one session of the server: they were all
  acknowledged with the same generation. A dial that the server acknowledges with another one fails
  and leaves the client bound as it was.
\<close>

theorem client_session_pinned:
  assumes "reach client_init client_step s" "DialPath env w (cs_client s) ts = (r, c, ts', evs)"
  shows "(\<forall>g \<in> set (cs_acked s). g \<noteq> 0 \<and> g = cl_generation (cs_client s)) \<and>
    (case r of Inl _ \<Rightarrow> c = cs_client s | Inr _ \<Rightarrow> pathGeneration env w (cs_client s) = Inr (cl_generation c)) \<and>
    (\<forall>g. pathGeneration env w (cs_client s) = Inr g \<and> cl_generation (cs_client s) \<notin> {0, g} \<longrightarrow> (\<exists>err. r = Inl err))"
proof -
  have "case r of Inl _ \<Rightarrow> c = cs_client s | Inr _ \<Rightarrow> pathGeneration env w (cs_client s) = Inr (cl_generation c)"
    using assms(2) by (cases rule: DialPath_cases) auto
  moreover have "\<exists>err. r = Inl err" if "pathGeneration env w (cs_client s) = Inr g" "cl_generation (cs_client s) \<notin> {0, g}" for g
    using assms(2) by (cases rule: DialPath_cases) (use that in auto)
  ultimately show ?thesis using clients.reach_inv [OF assms(1)] by (simp add: client_inv_def)
qed

theorem client_session_pinned_witness:
  "\<exists>s. reach client_init client_step s \<and> cs_acked s = [5] \<and>
     (\<exists>err c ts evs. DialPath (demo_env 6) 0 (cs_client s) (cs_turn s) = (Inl err, c, ts, evs) \<and> c = cs_client (s :: (string, nat) client_system))"
proof -
  let ?s = "\<lparr>cs_client = demo_client, cs_turn = demo_turn_state, cs_acked = []\<rparr>"
  have wf: "wf_client demo_client" using clients.reach_inv [OF demo_client_reached] by (simp add: client_inv_def)
  obtain p ts evs where d: "DialPath (demo_env 5) 0 demo_client demo_turn_state = (Inr (3, p), bindGeneration 5 demo_client, ts, evs)"
    using demo_dial [OF wf, of 5 demo_turn_state] by (auto simp: demo_client_new)
  let ?c = "(bindGeneration 5 demo_client)\<lparr>cl_health := (cl_health demo_client)\<lparr>lastFailure := None\<rparr>\<rparr>"
  have g: "pathGeneration (demo_env 5) 0 demo_client = Inr 5" by (rule demo_generation [OF wf]) (simp_all add: demo_client_new)
  have "client_step ?s (?s\<lparr>cs_client := ?c, cs_turn := ts, cs_acked := cs_acked ?s @ [5]\<rparr>)"
    by (rule client_step.dial [where env = "demo_env 5" and w = 0 and r = "Inr (3, p)" and evs = evs])
      (use d g in \<open>simp_all add: dialTrackedPath_def\<close>)
  with demo_client_reached have r: "reach client_init client_step (?s\<lparr>cs_client := ?c, cs_turn := ts, cs_acked := cs_acked ?s @ [5]\<rparr>)" (is "reach _ _ ?t")
    by (rule reach_step)
  have wf': "wf_client ?c" using clients.reach_inv [OF r] by (simp add: client_inv_def)
  have g': "pathGeneration (demo_env 6) 0 ?c = Inr 6" by (rule demo_generation [OF wf']) (simp_all add: demo_client_new)
  obtain r' c' ts' evs' where d': "DialPath (demo_env 6) 0 (cs_client ?t) (cs_turn ?t) = (r', c', ts', evs')" by (metis prod_cases4)
  from client_session_pinned [OF r d'] g' obtain err where "r' = Inl err" "c' = cs_client ?t"
    by (auto simp: demo_client_new split: sum.splits)
  with d' r show ?thesis by (intro exI [of _ ?t]) auto
qed

text \<open>
  C28. A dial accounts for what it takes: the TURN permit is given back on every way out, a failed dial
  leaves no allocation and no QUIC connection open, a successful one exactly one of each, and the
  credentials are only invalidated after an allocation that the TURN server refused for them.
\<close>

theorem dial_path_accounted:
  assumes "DialPath env w c ts = (r, c', ts', evs)"
  shows "count_list evs PermitReleased = count_list evs PermitTaken \<and> count_list evs PermitTaken \<le> 1 \<and>
    (case r of
       Inl err \<Rightarrow>
         (\<forall>a. count_list evs (AllocationOpened a) = count_list evs (AllocationClosed a)) \<and>
         (\<forall>q. count_list evs (QUICOpened q) = count_list evs (QUICClosed q)) \<and>
         (\<forall>l. Invalidated l \<in> set evs \<longrightarrow> isTURNCredentialError err \<and> l = joinLinkForWorker (co_JoinLinks (cl_options c)) w)
     | Inr (q, p) \<Rightarrow>
         remote p = cl_server c \<and> (\<forall>l. Invalidated l \<notin> set evs) \<and>
         (\<exists>a. \<forall>b. count_list evs (AllocationOpened b) = count_list evs (AllocationClosed b) + (if b = a then 1 else 0)) \<and>
         (\<forall>k. count_list evs (QUICOpened k) = count_list evs (QUICClosed k) + (if k = q then 1 else 0)))"
  using assms
proof (cases rule: DialPath_cases)
  case (through a q p g)
  then show ?thesis by (auto intro!: exI [of _ a])
qed auto

theorem dial_path_accounted_witness:
  "\<exists>p c ts evs. DialPath (demo_env 5) 0 demo_client demo_turn_state = (Inr (3, p), c, ts, evs) \<and>
     count_list evs (QUICOpened 3) = count_list evs (QUICClosed 3) + 1"
proof -
  have "wf_client demo_client" using clients.reach_inv [OF demo_client_reached] by (simp add: client_inv_def)
  then obtain p ts evs where d: "DialPath (demo_env 5) 0 demo_client demo_turn_state = (Inr (3, p), bindGeneration 5 demo_client, ts, evs)"
    using demo_dial [of demo_client 5 demo_turn_state] by (auto simp: demo_client_new)
  from dial_path_accounted [OF d] d show ?thesis by auto
qed

end
