(* ===== verification/Go_Conn.thy ===== *)
theory Go_Conn
  imports Prelude
begin

text \<open>
  Connections and buffers of Go's standard library as the stream protocols use them: a \<open>net.Conn\<close> with what it
  delivers and what its writes do, \<open>bytes.Buffer\<close>, \<open>io.CopyN\<close> and \<open>binary.Read\<close> of a byte.
\<close>

text \<open>\<open>binary.Read\<close> of one byte.\<close>

definition ReadByte :: "bytes \<Rightarrow> go_error + byte \<times> bytes" where
  "ReadByte rd = (case ReadFull 1 rd of Inl e \<Rightarrow> Inl e | Inr (bs, rest) \<Rightarrow> Inr (bs ! 0, rest))"

text \<open>
  A connection: the bytes the peer sent before it ended, the bytes written, and the outcomes of the
  coming writes (how many bytes are taken, and the error); after those, writes take everything.
\<close>

record conn =
  incoming :: bytes
  outgoing :: bytes
  outcomes :: "(nat \<times> go_error option) list"

definition conn_Write :: "bytes \<Rightarrow> conn \<Rightarrow> nat \<times> go_error option \<times> conn" where
  "conn_Write b c =
     (case outcomes c of
        [] \<Rightarrow> (length b, None, c\<lparr>outgoing := outgoing c @ b\<rparr>)
      | (n, err) # rest \<Rightarrow>
          let n = min n (length b) in
          (n, err, c\<lparr>outgoing := outgoing c @ take n b, outcomes := rest\<rparr>))"

text \<open>\<open>bytes.Buffer.Read\<close> with room for \<open>cap\<close> bytes, and \<open>io.CopyN\<close> into the buffer.\<close>

definition buffer_Read :: "nat \<Rightarrow> bytes \<Rightarrow> (go_error + bytes) \<times> bytes" where
  "buffer_Read cap buf = (if buf = [] \<and> cap \<noteq> 0 then (Inl EOF, []) else (Inr (take cap buf), drop cap buf))"

definition CopyN :: "int \<Rightarrow> bytes \<Rightarrow> bytes \<times> go_error option \<times> bytes" where
  "CopyN n rd =
     (take (nat n) rd, if int (length rd) < n then Some EOF else None, drop (nat n) rd)"

definition willing :: "conn \<Rightarrow> bool" where "willing c \<longleftrightarrow> outcomes c = []"

definition send :: "conn \<Rightarrow> bytes \<Rightarrow> conn" where "send c b = c\<lparr>outgoing := outgoing c @ b\<rparr>"

lemma send_send [simp]: "send (send c a) b = send c (a @ b)"
  by (simp add: send_def)

lemma send_fields [simp]:
  "outgoing (send c b) = outgoing c @ b" "incoming (send c b) = incoming c" "willing (send c b) = willing c"
  by (simp_all add: send_def willing_def)

lemma send_Nil [simp]: "send c [] = c"
  by (simp add: send_def)

definition feed :: "conn \<Rightarrow> bytes \<Rightarrow> conn" where "feed c b = c\<lparr>incoming := b\<rparr>"

lemma feed_feed [simp]: "feed (feed c a) b = feed c b" "incoming (feed c b) = b"
  "outgoing (feed c b) = outgoing c" "willing (feed c b) = willing c"
  by (simp_all add: feed_def willing_def)

lemma ReadByte_Cons [simp]: "ReadByte (b # rd) = Inr (b, rd)"
  by (simp add: ReadByte_def ReadFull_def)

end
