(* ===== verification/Bond.thy ===== *)
theory Bond
  imports Stream_Header Go_Conn "HOL-Library.AList"
begin

text \<open>
  The bond outbound and inbound (\<open>protocol/bond\<close>): one connection striped over several, each message
  cut by ratios, with a request on every sub-connection that lets the inbound put the bundle together.
  An index out of range panics in Go; such results are \<open>None\<close>.
\<close>

section \<open>Requests\<close>

definition bondVersion :: byte where "bondVersion = 0"

record 'd bondRequest =
  br_UUID :: bytes
  br_Index :: byte
  br_Count :: byte
  br_DownloadRatio :: byte
  br_UploadRatio :: byte
  br_Destination :: 'd

definition bond_ReadRequest :: "'d serializer \<Rightarrow> bytes \<Rightarrow> go_error + 'd bondRequest \<times> bytes" where
  "bond_ReadRequest ser rd =
     (case ReadByte rd of Inl e \<Rightarrow> Inl e | Inr (version, rd) \<Rightarrow>
      if version \<noteq> bondVersion then Inl (New ''unknown version: '')
      else
     (case ReadFull 16 rd of Inl e \<Rightarrow> Inl e | Inr (uuid, rd) \<Rightarrow>
     (case ReadByte rd of Inl e \<Rightarrow> Inl e | Inr (index, rd) \<Rightarrow>
     (case ReadByte rd of Inl e \<Rightarrow> Inl e | Inr (cnt, rd) \<Rightarrow>
     (case ReadByte rd of Inl e \<Rightarrow> Inl e | Inr (down, rd) \<Rightarrow>
     (case ReadByte rd of Inl e \<Rightarrow> Inl e | Inr (up, rd) \<Rightarrow>
     (case ReadAddrPort ser rd of Inl e \<Rightarrow> Inl e | Inr (dest, rd) \<Rightarrow>
        Inr (\<lparr>br_UUID = uuid, br_Index = index, br_Count = cnt, br_DownloadRatio = down, br_UploadRatio = up,
              br_Destination = dest\<rparr>, rd))))))))"

text \<open>The bytes handed to the writer.\<close>

definition bond_WriteRequest :: "'d serializer \<Rightarrow> 'd bondRequest \<Rightarrow> go_error + bytes" where
  "bond_WriteRequest ser request =
     (case WriteAddrPort ser (br_Destination request) of Inl e \<Rightarrow> Inl e
      | Inr addr \<Rightarrow>
          Inr ([bondVersion] @ br_UUID request @
               [br_Index request, br_Count request, br_DownloadRatio request, br_UploadRatio request] @ addr))"

section \<open>The connection\<close>

record bondedConn =
  bc_conns :: "conn list"
  bc_downloadRatios :: "byte list"
  bc_uploadRatios :: "byte list"
  bc_readBuffer :: bytes

definition NewBondedConn :: "conn list \<Rightarrow> byte list \<Rightarrow> byte list \<Rightarrow> bondedConn" where
  "NewBondedConn conns down up =
     \<lparr>bc_conns = conns, bc_downloadRatios = down, bc_uploadRatios = up, bc_readBuffer = []\<rparr>"

text \<open>\<open>splitByRatios\<close>; with no ratios it indexes an empty slice.\<close>

definition splitByRatios :: "nat \<Rightarrow> byte list \<Rightarrow> int list option" where
  "splitByRatios number ratios =
     (if ratios = [] then None
      else
        let parts = map (\<lambda>r. int (number * unat r div 100)) (butlast ratios) in
        Some (parts @ [int number - sum_list parts]))"

text \<open>The loop of \<open>Read\<close> over the chunks, from sub-connection \<open>i\<close> on: the buffer, how many bytes were copied, an error.\<close>

fun gather :: "nat \<Rightarrow> int list \<Rightarrow> conn list \<Rightarrow> bytes \<Rightarrow> (bytes \<times> go_error option \<times> conn list) option" where
  "gather i [] conns buf = Some (buf, None, conns)"
| "gather i (chunkLen # lens) conns buf =
     (if chunkLen = 0 then gather (Suc i) lens conns buf
      else if length conns \<le> i then None
      else
        case CopyN chunkLen (incoming (conns ! i)) of
          (bs, err, rest) \<Rightarrow>
            let conns = conns[i := (conns ! i)\<lparr>incoming := rest\<rparr>] in
            case err of Some e \<Rightarrow> Some (buf @ bs, Some e, conns)
            | None \<Rightarrow> gather (Suc i) lens conns (buf @ bs))"

text \<open>
  \<open>Read\<close>: the count it returns and the bytes it put into the caller's slice, which differ when a
  sub-connection ends inside a message.
\<close>

definition bond_Read :: "nat \<Rightarrow> bondedConn \<Rightarrow> ((nat \<times> bytes \<times> go_error option) \<times> bondedConn) option" where
  "bond_Read cap c =
     (let finish = (\<lambda>c. case buffer_Read cap (bc_readBuffer c) of
                     (Inl e, buf) \<Rightarrow> Some ((0, [], Some e), c\<lparr>bc_readBuffer := buf\<rparr>)
                   | (Inr bs, buf) \<Rightarrow> Some ((length bs, bs, None), c\<lparr>bc_readBuffer := buf\<rparr>)) in
      if bc_readBuffer c \<noteq> [] then finish c
      else if bc_conns c = [] then None
      else
        case ReadFull 2 (incoming (bc_conns c ! 0)) of
          Inl e \<Rightarrow> Some ((0, [], Some e), c\<lparr>bc_conns := (bc_conns c)[0 := (bc_conns c ! 0)\<lparr>incoming := []\<rparr>]\<rparr>)
        | Inr (header, rest) \<Rightarrow>
            let conns = (bc_conns c)[0 := (bc_conns c ! 0)\<lparr>incoming := rest\<rparr>] in
            case splitByRatios (be_val header) (bc_downloadRatios c) of
              None \<Rightarrow> None
            | Some chunkLens \<Rightarrow>
                (case gather 0 chunkLens conns [] of None \<Rightarrow> None
                 | Some (buf, Some e, conns) \<Rightarrow>
                     Some ((length buf, [], Some e), c\<lparr>bc_conns := conns, bc_readBuffer := buf\<rparr>)
                 | Some (buf, None, conns) \<Rightarrow> finish (c\<lparr>bc_conns := conns, bc_readBuffer := buf\<rparr>)))"

text \<open>The inner loop of \<open>Write\<close>: one chunk on one sub-connection, until it is taken, fails or takes nothing.\<close>

function write_chunk :: "bytes \<Rightarrow> conn \<Rightarrow> nat \<times> go_error option \<times> conn" where
  "write_chunk chunk c =
     (if chunk = [] then (0, None, c)
      else
        case conn_Write chunk c of
          (n, Some e, c) \<Rightarrow> (n, Some e, c)
        | (n, None, c) \<Rightarrow>
            if n = 0 then (0, Some UnexpectedEOF, c)
            else case write_chunk (drop n chunk) c of (m, err, c) \<Rightarrow> (n + m, err, c))"
  by pat_completeness auto
termination
  by (relation "measure (\<lambda>(chunk, _). length chunk)") auto

declare write_chunk.simps [simp del]

text \<open>The outer loop; a chunk that leaves the slice panics.\<close>

fun scatter :: "nat \<Rightarrow> int list \<Rightarrow> bytes \<Rightarrow> nat \<Rightarrow> conn list \<Rightarrow> (nat \<times> go_error option \<times> conn list) option" where
  "scatter i [] b tot conns = Some (tot, None, conns)"
| "scatter i (chunkLen # lens) b tot conns =
     (if chunkLen = 0 then scatter (Suc i) lens b tot conns
      else if chunkLen < 0 \<or> int (length b) < int tot + chunkLen \<or> length conns \<le> i then None
      else
        case write_chunk (slice tot (tot + nat chunkLen) b) (conns ! i) of
          (n, err, c) \<Rightarrow>
            (case err of Some e \<Rightarrow> Some (tot + n, Some e, conns[i := c])
             | None \<Rightarrow> scatter (Suc i) lens b (tot + n) (conns[i := c])))"

definition bond_Write :: "bytes \<Rightarrow> bondedConn \<Rightarrow> ((nat \<times> go_error option) \<times> bondedConn) option" where
  "bond_Write b c =
     (case splitByRatios (length b) (bc_uploadRatios c) of None \<Rightarrow> None
      | Some chunkLens \<Rightarrow>
        if bc_conns c = [] then None
        else
          case conn_Write (PutUint16 (word_of_nat (length b))) (bc_conns c ! 0) of
            (_, Some e, c0) \<Rightarrow> Some ((0, Some e), c\<lparr>bc_conns := (bc_conns c)[0 := c0]\<rparr>)
          | (_, None, c0) \<Rightarrow>
              (case scatter 0 chunkLens b 0 ((bc_conns c)[0 := c0]) of None \<Rightarrow> None
               | Some (tot, err, conns) \<Rightarrow> Some ((tot, err), c\<lparr>bc_conns := conns\<rparr>)))"

section \<open>Putting a bundle together\<close>

text \<open>\<open>NewOutbound\<close>: the ratios of the configured outbounds, each taken \<open>Count\<close> times, with totals in a byte.\<close>

record bondOutboundOptions =
  bo_Count :: nat
  bo_DownloadRatio :: byte
  bo_UploadRatio :: byte

record bondOutbound =
  bo_downloadRatios :: "byte list"
  bo_uploadRatios :: "byte list"

definition bond_NewOutbound :: "bondOutboundOptions list \<Rightarrow> go_error + bondOutbound" where
  "bond_NewOutbound opts =
     (let each = (\<lambda>f. concat (map (\<lambda>x. replicate (if bo_Count x = 0 then 1 else bo_Count x) (f x)) opts));
          down = each bo_DownloadRatio; up = each bo_UploadRatio in
      if sum_list down \<noteq> 100 \<or> sum_list up \<noteq> 100 then Inl (New ''invalid ratios'')
      else Inr \<lparr>bo_downloadRatios = down, bo_uploadRatios = up\<rparr>)"

text \<open>The request that \<open>DialContext\<close> writes on sub-connection \<open>i\<close>: the ratios as the inbound sees them.\<close>

definition dialRequest :: "bytes \<Rightarrow> 'd \<Rightarrow> bondOutbound \<Rightarrow> nat \<Rightarrow> 'd bondRequest" where
  "dialRequest uuid dest h i =
     \<lparr>br_UUID = uuid, br_Index = word_of_nat i, br_Count = word_of_nat (length (bo_downloadRatios h)),
      br_DownloadRatio = bo_uploadRatios h ! i, br_UploadRatio = bo_downloadRatios h ! i, br_Destination = dest\<rparr>"

text \<open>
  \<open>DialContext\<close> for a stream, after every outbound was dialled and the request written on it: the errors
  (by outbound; the code joins them as they happen) and the connections closed, or the bonded connection.
\<close>

definition bond_DialContext :: "bondOutbound \<Rightarrow> (go_error + conn) list \<Rightarrow> (go_error list \<times> conn list) + bondedConn" where
  "bond_DialContext h results =
     (let errs = concat (map (\<lambda>r. case r of Inl e \<Rightarrow> [e] | Inr _ \<Rightarrow> []) results);
          conns = concat (map (\<lambda>r. case r of Inl _ \<Rightarrow> [] | Inr c \<Rightarrow> [c]) results) in
      if errs \<noteq> [] then Inl (errs, conns)
      else Inr (NewBondedConn conns (bo_downloadRatios h) (bo_uploadRatios h)))"

record ratioConn =
  rc_conn :: conn
  rc_downloadRatio :: byte
  rc_uploadRatio :: byte

text \<open>The bundles under way, a Go map by index as an association list; entries that the cache evicts are gone.\<close>

type_synonym bundles = "bytes \<rightharpoonup> (byte \<times> ratioConn) list"

datatype 'd handled = Waiting | Rejected go_error | Bonded bondedConn 'd

text \<open>
  \<open>connHandler\<close> after the request is read. When the bundle is complete, every entry goes to the slot of
  its index, which panics unless the slices are that long.
\<close>

definition slots_of :: "(byte \<times> ratioConn) list \<Rightarrow> ratioConn list" where
  "slots_of m = map (\<lambda>i. the (map_of m (word_of_nat i))) [0..<length m]"

definition bundle_at :: "bytes \<Rightarrow> bundles \<Rightarrow> (byte \<times> ratioConn) list" where
  "bundle_at uuid cache = (case cache uuid of None \<Rightarrow> [] | Some m \<Rightarrow> m)"

definition bond_connHandler :: "'d bondRequest \<Rightarrow> conn \<Rightarrow> bundles \<Rightarrow> ('d handled \<times> bundles) option" where
  "bond_connHandler request conn cache =
     (let uuid = br_UUID request;
          m = AList.update (br_Index request)
                \<lparr>rc_conn = conn, rc_downloadRatio = br_DownloadRatio request, rc_uploadRatio = br_UploadRatio request\<rparr>
                (bundle_at uuid cache) in
      if length m \<noteq> unat (br_Count request) then Some (Waiting, cache(uuid \<mapsto> m))
      else if list_ex (\<lambda>(i, _). length m \<le> unat i) m then None
      else
        let rcs = slots_of m;
            cache = cache(uuid \<mapsto> []) in
        if sum_list (map rc_downloadRatio rcs) \<noteq> 100 \<or> sum_list (map rc_uploadRatio rcs) \<noteq> 100
        then Some (Rejected (New ''invalid ratios''), cache)
        else Some (Bonded (NewBondedConn (map rc_conn rcs) (map rc_downloadRatio rcs) (map rc_uploadRatio rcs))
                     (br_Destination request), cache))"

section \<open>Striping\<close>

definition ratios_ok :: "byte list \<Rightarrow> bool" where
  "ratios_ok rs \<longleftrightarrow> sum_list (map unat rs) = 100"

lemma ratios_nonempty: "ratios_ok rs \<Longrightarrow> rs \<noteq> []"
  by (auto simp: ratios_ok_def)

lemma parts_le: "sum_list (map (\<lambda>r. n * unat r div 100) rs) \<le> n * sum_list (map unat rs) div 100"
proof (induction rs)
  case (Cons r rs)
  have "n * unat r div 100 + n * sum_list (map unat rs) div 100 \<le> (n * unat r + n * sum_list (map unat rs)) div 100"
    by (metis div_add1_eq le_add1)
  then show ?case using Cons by (simp add: algebra_simps)
qed simp

lemma sum_list_int: "sum_list (map (\<lambda>x. int (f x)) xs) = int (sum_list (map f xs))"
  by (induction xs) simp_all

lemma splitByRatios_ok:
  assumes "ratios_ok rs"
  obtains lens where "splitByRatios n rs = Some (map int lens)" "length lens = length rs" "sum_list lens = n"
proof -
  have ne: "rs \<noteq> []" using assms by (auto simp: ratios_ok_def)
  let ?parts = "map (\<lambda>r. n * unat r div 100) (butlast rs)"
  have "sum_list (map unat (butlast rs)) \<le> 100"
    using assms ne by (metis append_butlast_last_id le_add1 map_append ratios_ok_def sum_list_append)
  then have "n * sum_list (map unat (butlast rs)) div 100 \<le> n" by (metis div_le_mono div_mult_self_is_m mult_le_mono2 zero_less_numeral)
  then have le: "sum_list ?parts \<le> n" using parts_le [of n "butlast rs"] by linarith
  have "sum_list (map (\<lambda>r. int (n * unat r div 100)) (butlast rs)) = int (sum_list ?parts)"
    by (rule sum_list_int)
  then have "splitByRatios n rs = Some (map int (?parts @ [n - sum_list ?parts]))"
    using ne le by (simp add: splitByRatios_def Let_def comp_def of_nat_diff)
  moreover have "length (?parts @ [n - sum_list ?parts]) = length rs" using ne by simp
  moreover have "sum_list (?parts @ [n - sum_list ?parts]) = n" using le by simp
  ultimately show ?thesis using that by blast
qed

fun stripes :: "nat list \<Rightarrow> bytes \<Rightarrow> bytes list" where
  "stripes [] b = []"
| "stripes (l # ls) b = take l b # stripes ls (drop l b)"

lemma length_stripes [simp]: "length (stripes ls b) = length ls"
  by (induction ls b rule: stripes.induct) simp_all

lemma concat_stripes: "sum_list ls = length b \<Longrightarrow> concat (stripes ls b) = b"
  by (induction ls b rule: stripes.induct) simp_all

lemma write_chunk_willing: "willing c \<Longrightarrow> write_chunk b c = (length b, None, send c b)"
  by (subst write_chunk.simps, cases "b = []") (auto simp: willing_def conn_Write_def send_def write_chunk.simps)

lemma scatter_willing:
  assumes "length pre = i" "length cs = length ls" "\<forall>c \<in> set cs. willing c" "tot + sum_list ls = length b"
  shows "scatter i (map int ls) b tot (pre @ cs) = Some (length b, None, pre @ map2 send cs (stripes ls (drop tot b)))"
  using assms
proof (induction ls arbitrary: i pre cs tot)
  case (Cons l ls)
  then obtain c cs' where cs: "cs = c # cs'" by (cases cs) auto
  show ?case
  proof (cases "l = 0")
    case True
    have "scatter (Suc i) (map int ls) b tot ((pre @ [c]) @ cs') =
        Some (length b, None, (pre @ [c]) @ map2 send cs' (stripes ls (drop tot b)))"
      by (rule Cons.IH) (use Cons.prems cs True in auto)
    then show ?thesis using True cs by (simp add: send_def)
  next
    case False
    have "slice tot (tot + l) b = take l (drop tot b)" by (simp add: slice_def)
    moreover have "scatter (Suc i) (map int ls) b (tot + l) ((pre @ [send c (take l (drop tot b))]) @ cs') =
        Some (length b, None, (pre @ [send c (take l (drop tot b))]) @ map2 send cs' (stripes ls (drop (tot + l) b)))"
      by (rule Cons.IH) (use Cons.prems cs in auto)
    ultimately show ?thesis using False cs Cons.prems
      by (simp add: write_chunk_willing nth_append list_update_append add.commute)
  qed
qed simp

text \<open>One message on the wire: its stripes, the length in front of the first.\<close>

definition striped :: "nat list \<Rightarrow> bytes \<Rightarrow> bytes list" where
  "striped ls m = (case stripes ls m of [] \<Rightarrow> [] | s # ss \<Rightarrow> (PutUint16 (word_of_nat (length m)) @ s) # ss)"

lemma length_striped [simp]: "length (striped ls m) = length ls"
  by (cases ls) (simp_all add: striped_def)

definition lens_for :: "byte list \<Rightarrow> bytes \<Rightarrow> nat list" where
  "lens_for rs m = map nat (the (splitByRatios (length m) rs))"

lemma lens_for:
  assumes "ratios_ok rs"
  shows "splitByRatios (length m) rs = Some (map int (lens_for rs m))" "length (lens_for rs m) = length rs"
    "sum_list (lens_for rs m) = length m" "lens_for rs m \<noteq> []"
proof -
  from splitByRatios_ok [OF assms, of "length m"] obtain ls where
    "splitByRatios (length m) rs = Some (map int ls)" "length ls = length rs" "sum_list ls = length m" .
  moreover have "rs \<noteq> []" using assms by (auto simp: ratios_ok_def)
  ultimately show "splitByRatios (length m) rs = Some (map int (lens_for rs m))" "length (lens_for rs m) = length rs"
    "sum_list (lens_for rs m) = length m" "lens_for rs m \<noteq> []"
    by (auto simp: lens_for_def comp_def)
qed

definition wf_writer :: "bondedConn \<Rightarrow> bool" where
  "wf_writer c \<longleftrightarrow> ratios_ok (bc_uploadRatios c) \<and> length (bc_conns c) = length (bc_uploadRatios c) \<and>
     (\<forall>x \<in> set (bc_conns c). willing x)"

lemma bond_Write_willing:
  assumes "wf_writer c"
  shows "bond_Write m c = Some ((length m, None), c\<lparr>bc_conns := map2 send (bc_conns c) (striped (lens_for (bc_uploadRatios c) m) m)\<rparr>)"
proof -
  note L = lens_for [of "bc_uploadRatios c" m]
  have r: "ratios_ok (bc_uploadRatios c)" and len: "length (bc_conns c) = length (bc_uploadRatios c)"
    and w: "\<forall>x \<in> set (bc_conns c). willing x" using assms by (auto simp: wf_writer_def)
  obtain l ls where ls: "lens_for (bc_uploadRatios c) m = l # ls" using L(4) [OF r] by (cases "lens_for (bc_uploadRatios c) m") auto
  obtain x xs where xs: "bc_conns c = x # xs" using L(2) [OF r] len ls by (cases "bc_conns c") auto
  let ?h = "PutUint16 (word_of_nat (length m))"
  have h: "conn_Write ?h x = (2, None, send x ?h)" using w xs by (simp add: conn_Write_def willing_def send_def)
  have "scatter 0 (map int (l # ls)) m 0 ([] @ send x ?h # xs) =
      Some (length m, None, [] @ map2 send (send x ?h # xs) (stripes (l # ls) (drop 0 m)))"
    by (rule scatter_willing) (use L(2,3) [OF r] ls len xs w in auto)
  then show ?thesis using L(1) [OF r] xs ls h by (simp add: bond_Write_def striped_def)
qed

fun write_all :: "bytes list \<Rightarrow> bondedConn \<Rightarrow> bondedConn option" where
  "write_all [] c = Some c"
| "write_all (m # ms) c =
     (case bond_Write m c of None \<Rightarrow> None
      | Some ((n, Some e), c) \<Rightarrow> None
      | Some ((n, None), c) \<Rightarrow> write_all ms c)"

text \<open>What the sub-connections carry after several messages.\<close>

fun lay :: "byte list \<Rightarrow> bytes list \<Rightarrow> bytes list" where
  "lay rs [] = replicate (length rs) []"
| "lay rs (m # ms) = map2 (@) (striped (lens_for rs m) m) (lay rs ms)"

lemma length_lay [simp]: "ratios_ok rs \<Longrightarrow> length (lay rs ms) = length rs"
  by (induction ms) (simp_all add: lens_for)

lemma map2_send_append:
  "length xs = length ys \<Longrightarrow> length ys = length zs \<Longrightarrow> map2 send (map2 send xs ys) zs = map2 send xs (map2 (@) ys zs)"
  by (induction xs ys zs rule: list_induct3) simp_all

lemma map2_send_id: "length xs = n \<Longrightarrow> map2 send xs (replicate n []) = xs"
  by (induction xs arbitrary: n) (auto simp: send_def)

lemma set_map2_send: "length xs = length ys \<Longrightarrow> \<forall>x \<in> set xs. willing x \<Longrightarrow> \<forall>x \<in> set (map2 send xs ys). willing x"
  by (induction xs ys rule: list_induct2) simp_all

lemma write_all_willing:
  "wf_writer c \<Longrightarrow> write_all ms c = Some (c\<lparr>bc_conns := map2 send (bc_conns c) (lay (bc_uploadRatios c) ms)\<rparr>)"
proof (induction ms arbitrary: c)
  case Nil
  then show ?case by (simp add: wf_writer_def map2_send_id)
next
  case (Cons m ms)
  let ?s = "striped (lens_for (bc_uploadRatios c) m) m"
  have r: "ratios_ok (bc_uploadRatios c)" "length (bc_conns c) = length (bc_uploadRatios c)" "length ?s = length (bc_uploadRatios c)"
    using Cons.prems by (auto simp: wf_writer_def lens_for)
  have "\<forall>x \<in> set (map2 send (bc_conns c) ?s). willing x"
    by (rule set_map2_send) (use Cons.prems r in \<open>simp_all add: wf_writer_def\<close>)
  then have "wf_writer (c\<lparr>bc_conns := map2 send (bc_conns c) ?s\<rparr>)"
    using Cons.prems r by (simp add: wf_writer_def)
  from Cons.IH [OF this] show ?case
    using Cons.prems r by (simp add: bond_Write_willing map2_send_append)
qed

section \<open>Reading back\<close>

lemma gather_stripes:
  assumes "length pre = i" "length cs = length ls" "map incoming cs = map2 (@) (stripes ls m) rests"
    "length rests = length ls" "sum_list ls = length m"
  shows "gather i (map int ls) (pre @ cs) buf = Some (buf @ m, None, pre @ map2 feed cs rests)"
  using assms
proof (induction ls arbitrary: i pre cs rests m buf)
  case (Cons l ls)
  then obtain c cs' r rests' where cs: "cs = c # cs'" "rests = r # rests'" by (cases cs; cases rests) auto
  have c: "incoming c = take l m @ r" "map incoming cs' = map2 (@) (stripes ls (drop l m)) rests'"
    using Cons.prems(3) cs by simp_all
  have l: "l \<le> length m" using Cons.prems(5) by simp
  have IH: "gather (Suc i) (map int ls) ((pre @ [feed c r]) @ cs') (buf @ take l m) =
      Some ((buf @ take l m) @ drop l m, None, (pre @ [feed c r]) @ map2 feed cs' rests')"
    by (rule Cons.IH) (use Cons.prems cs c in auto)
  show ?case
  proof (cases "l = 0")
    case True
    then have "feed c r = c" using c(1) by (simp add: feed_def)
    with True IH cs show ?thesis by simp
  next
    case False
    have "CopyN (int l) (incoming c) = (take l m, None, r)" using c(1) l by (simp add: CopyN_def)
    then show ?thesis using False IH cs Cons.prems(1)
      by (simp add: nth_append list_update_append feed_def)
  qed
qed simp

text \<open>The messages a reader has yet to return: the rest of the current one and those on the wire.\<close>

definition holds_messages :: "bytes list \<Rightarrow> bondedConn \<Rightarrow> bool" where
  "holds_messages ms c \<longleftrightarrow> ratios_ok (bc_downloadRatios c) \<and> length (bc_conns c) = length (bc_downloadRatios c) \<and>
     map incoming (bc_conns c) = lay (bc_downloadRatios c) ms \<and> (\<forall>m \<in> set ms. m \<noteq> [] \<and> length m \<le> 65535)"

lemma map_feed: "length cs = length rs \<Longrightarrow> map incoming (map2 feed cs rs) = rs"
  by (induction cs rs rule: list_induct2) simp_all

lemma bond_Read_message:
  assumes "holds_messages (m # ms) c" "bc_readBuffer c = []" "0 < cap"
  shows "\<exists>c'. bond_Read cap c = Some ((length (take cap m), take cap m, None), c'\<lparr>bc_readBuffer := drop cap m\<rparr>) \<and>
    holds_messages ms c'"
proof -
  let ?rs = "bc_downloadRatios c"
  have r: "ratios_ok ?rs" and len: "length (bc_conns c) = length ?rs" and m: "m \<noteq> []" "length m \<le> 65535"
    and inc: "map incoming (bc_conns c) = map2 (@) (striped (lens_for ?rs m) m) (lay ?rs ms)"
    using assms(1) by (auto simp: holds_messages_def)
  note L = lens_for [OF r, of m]
  obtain l ls where ls: "lens_for ?rs m = l # ls" using L(4) by (cases "lens_for ?rs m") auto
  obtain x xs where xs: "bc_conns c = x # xs" using L(2) len ls by (cases "bc_conns c") auto
  obtain y ys where ys: "lay ?rs ms = y # ys" using length_lay [OF r, of ms] L(2) ls by (cases "lay ?rs ms") auto
  let ?h = "PutUint16 (word_of_nat (length m))"
  have x: "incoming x = ?h @ take l m @ y" and xs': "map incoming xs = map2 (@) (stripes ls (drop l m)) ys"
    using inc by (simp_all add: xs ls ys striped_def)
  have h: "be_val ?h = length m" using m(2) by (simp add: unat_of_nat be_val_be_bytes)
  have rf: "ReadFull 2 (incoming x) = Inr (?h, take l m @ y)" unfolding x by (rule ReadFull_append) simp
  have "gather 0 (map int (l # ls)) ([] @ feed x (take l m @ y) # xs) [] =
      Some ([] @ m, None, [] @ map2 feed (feed x (take l m @ y) # xs) (y # ys))"
    by (rule gather_stripes) (use L(2,3) ls len xs xs' ys length_lay [OF r, of ms] in auto)
  then have g: "gather 0 (map int (l # ls)) (feed x (take l m @ y) # xs) [] = Some (m, None, map2 feed (x # xs) (y # ys))"
    by simp
  let ?c = "c\<lparr>bc_conns := map2 feed (x # xs) (y # ys)\<rparr>"
  have "bond_Read cap c = Some ((length (take cap m), take cap m, None), ?c\<lparr>bc_readBuffer := drop cap m\<rparr>)"
    using assms(2,3) m(1) g L(1)
    by (simp add: bond_Read_def xs rf h ls buffer_Read_def Let_def flip: feed_def)
  moreover have "holds_messages ms ?c"
    using assms(1) len xs ys length_lay [OF r, of ms] map_feed [of "x # xs" "y # ys"] by (simp add: holds_messages_def)
  ultimately show ?thesis by blast
qed

fun bond_reads :: "nat list \<Rightarrow> bondedConn \<Rightarrow> (bytes \<times> bondedConn) option" where
  "bond_reads [] c = Some ([], c)"
| "bond_reads (cap # caps) c =
     (case bond_Read cap c of None \<Rightarrow> None
      | Some ((n, bs, Some e), c) \<Rightarrow> Some (bs, c)
      | Some ((n, bs, None), c) \<Rightarrow> (case bond_reads caps c of None \<Rightarrow> None | Some (rest, c) \<Rightarrow> Some (bs @ rest, c)))"

lemma holds_frame [simp]: "holds_messages ms (c\<lparr>bc_readBuffer := b\<rparr>) = holds_messages ms c"
  by (simp add: holds_messages_def)

lemma bond_reads_exact:
  assumes "holds_messages ms c" "\<forall>cap \<in> set caps. 0 < cap"
  shows "\<exists>k c'. bond_reads caps c = Some (take k (bc_readBuffer c @ concat ms), c') \<and>
    (length (bc_readBuffer c @ concat ms) \<le> length caps \<longrightarrow> length (bc_readBuffer c @ concat ms) \<le> k)"
  using assms
proof (induction caps arbitrary: c ms)
  case Nil
  then show ?case by (intro exI [of _ 0]) simp
next
  case (Cons cap caps)
  have cap: "0 < cap" "\<forall>cap \<in> set caps. 0 < cap" using Cons.prems by auto
  have step: ?case if "bond_Read cap c = Some ((length bs, bs, None), c1)" "holds_messages ms' c1" "bs \<noteq> []"
    "bs @ bc_readBuffer c1 @ concat ms' = bc_readBuffer c @ concat ms" for bs c1 ms'
  proof -
    from Cons.IH [OF that(2) cap(2)] obtain k c' where
      k: "bond_reads caps c1 = Some (take k (bc_readBuffer c1 @ concat ms'), c')"
        "length (bc_readBuffer c1 @ concat ms') \<le> length caps \<longrightarrow> length (bc_readBuffer c1 @ concat ms') \<le> k" by blast
    have "1 \<le> length bs" using that(3) by (cases bs) auto
    then show ?thesis using that(1) k unfolding that(4) [symmetric]
      by (intro exI [of _ "length bs + k"]) auto
  qed
  show ?case
  proof (cases "bc_readBuffer c = []")
    case False
    then have "bond_Read cap c = Some ((length (take cap (bc_readBuffer c)), take cap (bc_readBuffer c), None),
        c\<lparr>bc_readBuffer := drop cap (bc_readBuffer c)\<rparr>)" by (simp add: bond_Read_def buffer_Read_def)
    from step [OF this, of ms] show ?thesis using False cap Cons.prems by simp
  next
    case buf: True
    show ?thesis
    proof (cases ms)
      case Nil
      have ne: "bc_downloadRatios c \<noteq> []" using Cons.prems(1) ratios_nonempty unfolding holds_messages_def by blast
      then have "bc_conns c \<noteq> []" "incoming (bc_conns c ! 0) = []"
        using Cons.prems(1) Nil nth_map [of 0 "bc_conns c" incoming] by (auto simp: holds_messages_def)
      then show ?thesis using buf Nil by (simp add: bond_Read_def ReadFull_def)
    next
      case (Cons m ms')
      with \<open>holds_messages ms c\<close> have m: "holds_messages (m # ms') c" "m \<noteq> []" by (auto simp: holds_messages_def)
      from bond_Read_message [OF m(1) buf cap(1)] obtain c1 where
        "bond_Read cap c = Some ((length (take cap m), take cap m, None), c1\<lparr>bc_readBuffer := drop cap m\<rparr>)" "holds_messages ms' c1" by blast
      from step [OF this(1), of ms'] this(2) show ?thesis using m(2) cap buf Cons by simp
    qed
  qed
qed

section \<open>Assembling\<close>

fun handle_all :: "('d bondRequest \<times> conn) list \<Rightarrow> bundles \<Rightarrow> ('d handled list \<times> bundles) option" where
  "handle_all [] cache = Some ([], cache)"
| "handle_all ((request, c) # es) cache =
     (case bond_connHandler request c cache of None \<Rightarrow> None
      | Some (r, cache) \<Rightarrow> (case handle_all es cache of None \<Rightarrow> None | Some (rs, cache) \<Rightarrow> Some (r # rs, cache)))"

lemma handler_other:
  "bond_connHandler request c cache = Some (r, cache') \<Longrightarrow> br_UUID request \<noteq> uuid \<Longrightarrow> cache' uuid = cache uuid"
  by (auto simp: bond_connHandler_def Let_def split: if_splits)

lemma update_new: "k \<notin> fst ` set xs \<Longrightarrow> AList.update k v xs = xs @ [(k, v)]"
  by (induction xs) auto

definition entry :: "bondOutbound \<Rightarrow> conn list \<Rightarrow> nat \<Rightarrow> byte \<times> ratioConn" where
  "entry h conns i = (word_of_nat i, \<lparr>rc_conn = conns ! i, rc_downloadRatio = bo_uploadRatios h ! i, rc_uploadRatio = bo_downloadRatios h ! i\<rparr>)"

text \<open>The bundle that an outbound dials: as many connections as ratios, at most 255, ratios adding up in a byte.\<close>

definition dialled :: "bondOutbound \<Rightarrow> conn list \<Rightarrow> bool" where
  "dialled h conns \<longleftrightarrow> conns \<noteq> [] \<and> length conns \<le> 255 \<and> length (bo_downloadRatios h) = length conns \<and>
     length (bo_uploadRatios h) = length conns \<and> sum_list (bo_downloadRatios h) = 100 \<and> sum_list (bo_uploadRatios h) = 100"

lemma entry_key: "dialled h conns \<Longrightarrow> i < length conns \<Longrightarrow> unat (fst (entry h conns i)) = i"
  by (simp add: entry_def dialled_def unat_of_nat)

lemma entries_slots:
  assumes "dialled h conns" and d: "distinct order" and s: "set order = {0..<length conns}"
  shows "slots_of (map (entry h conns) order) = map (\<lambda>i. snd (entry h conns i)) [0..<length conns]"
proof -
  have l: "length order = length conns" using distinct_card [OF d] s by simp
  have "distinct (map fst (map (entry h conns) order))"
  proof -
    have "inj_on (fst \<circ> entry h conns) (set order)"
      by (rule inj_on_inverseI [where g = unat]) (use s entry_key [OF assms(1)] in simp)
    then show ?thesis using d by (simp add: distinct_map)
  qed
  then have "map_of (map (entry h conns) order) (word_of_nat i) = Some (snd (entry h conns i))" if "i < length conns" for i
    using that s by (intro map_of_is_SomeI) (auto simp: entry_def image_iff)
  then show ?thesis using l by (simp add: slots_of_def)
qed

lemma handler_own:
  assumes "dialled h conns" "bundle_at uuid cache = map (entry h conns) seen" "distinct (seen @ [i])" "set (seen @ [i]) \<subseteq> {0..<length conns}"
  shows "bond_connHandler (dialRequest uuid dest h i) (conns ! i) cache =
    (if length seen + 1 = length conns
     then Some (Bonded (NewBondedConn conns (bo_uploadRatios h) (bo_downloadRatios h)) dest, cache(uuid \<mapsto> []))
     else Some (Waiting, cache(uuid \<mapsto> map (entry h conns) (seen @ [i]))))"
proof -
  have new: "word_of_nat i \<notin> fst ` set (map (entry h conns) seen)"
  proof
    assume "word_of_nat i \<in> fst ` set (map (entry h conns) seen)"
    then obtain j where "j \<in> set seen" "fst (entry h conns j) = fst (entry h conns i)" by (auto simp: entry_def)
    then show False using assms entry_key [OF assms(1), of i] entry_key [OF assms(1), of j] by (auto simp: subset_iff)
  qed
  let ?m = "map (entry h conns) (seen @ [i])"
  have m: "AList.update (br_Index (dialRequest uuid dest h i))
      \<lparr>rc_conn = conns ! i, rc_downloadRatio = br_DownloadRatio (dialRequest uuid dest h i), rc_uploadRatio = br_UploadRatio (dialRequest uuid dest h i)\<rparr>
      (bundle_at (br_UUID (dialRequest uuid dest h i)) cache) = ?m"
    using update_new [OF new] assms(2) by (simp add: dialRequest_def entry_def)
  have n: "unat (br_Count (dialRequest uuid dest h i)) = length conns"
    using assms(1) by (simp add: dialRequest_def dialled_def unat_of_nat)
  show ?thesis
  proof (cases "length seen + 1 = length conns")
    case False
    then show ?thesis unfolding bond_connHandler_def Let_def m n by (simp add: dialRequest_def)
  next
    case True
    have "card (set (seen @ [i])) = length conns" using assms(3) True by (simp add: distinct_card)
    then have perm: "set (seen @ [i]) = {0..<length conns}" using assms(4) by (intro card_subset_eq) auto
    have "\<not> list_ex (\<lambda>(j, _). length ?m \<le> unat j) ?m"
    proof
      assume "list_ex (\<lambda>(j, _). length ?m \<le> unat j) ?m"
      then obtain j where "j \<in> set (seen @ [i])" "length conns \<le> unat (fst (entry h conns j))"
        using True by (auto simp: list_ex_iff case_prod_beta)
      then show False using entry_key [OF assms(1), of j] assms(4) by (auto simp: subset_iff)
    qed
    moreover note entries_slots [OF assms(1,3) perm]
    moreover have "map (\<lambda>i. snd (entry h conns i)) [0..<length conns] =
        map2 (\<lambda>c (d, u). \<lparr>rc_conn = c, rc_downloadRatio = d, rc_uploadRatio = u\<rparr>) conns (zip (bo_uploadRatios h) (bo_downloadRatios h))"
      using assms(1) by (intro nth_equalityI) (auto simp: entry_def dialled_def)
    moreover have "map rc_conn (map2 (\<lambda>c (d, u). \<lparr>rc_conn = c, rc_downloadRatio = d, rc_uploadRatio = u\<rparr>) xs (zip ys zs)) = xs \<and>
        map rc_downloadRatio (map2 (\<lambda>c (d, u). \<lparr>rc_conn = c, rc_downloadRatio = d, rc_uploadRatio = u\<rparr>) xs (zip ys zs)) = ys \<and>
        map rc_uploadRatio (map2 (\<lambda>c (d, u). \<lparr>rc_conn = c, rc_downloadRatio = d, rc_uploadRatio = u\<rparr>) xs (zip ys zs)) = zs"
      if "length xs = length ys" "length ys = length zs" for xs ys zs
      using that by (induction xs ys zs rule: list_induct3) simp_all
    ultimately show ?thesis unfolding bond_connHandler_def Let_def m n using assms(1) True
      by (simp add: dialled_def dialRequest_def)
  qed
qed

definition own_results :: "bytes \<Rightarrow> ('d bondRequest \<times> conn) list \<Rightarrow> 'd handled list \<Rightarrow> 'd handled list" where
  "own_results uuid es rs = map snd (filter (\<lambda>((request, _), _). br_UUID request = uuid) (zip es rs))"

lemma handle_all_own:
  assumes "dialled h conns" "handle_all es cache = Some (rs, cache')"
    "filter (\<lambda>(request, _). br_UUID request = uuid) es = map (\<lambda>i. (dialRequest uuid dest h i, conns ! i)) todo"
    "bundle_at uuid cache = map (entry h conns) seen" "distinct (seen @ todo)" "set (seen @ todo) = {0..<length conns}" "todo \<noteq> []"
  shows "own_results uuid es rs =
    replicate (length todo - 1) Waiting @ [Bonded (NewBondedConn conns (bo_uploadRatios h) (bo_downloadRatios h)) dest]"
  using assms(2-)
proof (induction es arbitrary: cache rs todo seen)
  case (Cons e es)
  obtain request c where e: "e = (request, c)" by fastforce
  from Cons.prems(1) obtain r cache1 rs' where r: "bond_connHandler request c cache = Some (r, cache1)"
    "handle_all es cache1 = Some (rs', cache')" "rs = r # rs'" by (auto simp: e split: option.splits)
  show ?case
  proof (cases "br_UUID request = uuid")
    case False
    then have "bundle_at uuid cache1 = bundle_at uuid cache" using handler_other [OF r(1)] by (simp add: bundle_at_def)
    with False Cons.IH [OF r(2)] Cons.prems show ?thesis by (simp add: e r own_results_def)
  next
    case True
    obtain i todo' where t: "todo = i # todo'" using Cons.prems(6) by (cases todo) auto
    have req: "request = dialRequest uuid dest h i" "c = conns ! i"
      "filter (\<lambda>(request, _). br_UUID request = uuid) es = map (\<lambda>i. (dialRequest uuid dest h i, conns ! i)) todo'"
      using Cons.prems(2) True by (simp_all add: e t)
    have "length (seen @ todo) = length conns" using distinct_card [OF Cons.prems(4)] Cons.prems(5) by simp
    then have len: "length seen + 1 + length todo' = length conns" by (simp add: t)
    have own: "bond_connHandler request c cache = (if length seen + 1 = length conns
        then Some (Bonded (NewBondedConn conns (bo_uploadRatios h) (bo_downloadRatios h)) dest, cache(uuid \<mapsto> []))
        else Some (Waiting, cache(uuid \<mapsto> map (entry h conns) (seen @ [i]))))"
      unfolding req by (rule handler_own [OF assms(1) Cons.prems(3)]) (use Cons.prems(4,5) t in auto)
    show ?thesis
    proof (cases "todo' = []")
      case todo: True
      have "own_results uuid es rs' = []"
        using req(3) todo by (fastforce simp: own_results_def filter_empty_conv dest: set_zip_leftD)
      then show ?thesis using own r len True t todo by (simp add: e own_results_def split: if_splits)
    next
      case False
      then have "length seen + 1 \<noteq> length conns" using len by (cases todo') auto
      with own r(1) have w: "r = Waiting" "cache1 = cache(uuid \<mapsto> map (entry h conns) (seen @ [i]))" by simp_all
      have "own_results uuid es rs' = replicate (length todo' - 1) Waiting @ [Bonded (NewBondedConn conns (bo_uploadRatios h) (bo_downloadRatios h)) dest]"
        by (rule Cons.IH [OF r(2) req(3), of "seen @ [i]"])
          (use w False Cons.prems(4,5) t in \<open>auto simp: bundle_at_def\<close>)
      moreover have "length todo' = Suc (length todo' - 1)" using False by (cases todo') auto
      ultimately show ?thesis using True t w(1)
        by (simp add: e r(3) own_results_def) (metis append_Cons replicate_Suc)
    qed
  qed
qed simp

lemma NewOutbound_dialled:
  assumes "bond_NewOutbound opts = Inr h" "length conns = length (bo_downloadRatios h)" "length conns \<le> 255"
  shows "dialled h conns"
proof -
  have len: "length (concat (map (\<lambda>x. replicate (n x) (f x)) opts)) = length (concat (map (\<lambda>x. replicate (n x) (g x)) opts))"
    for n and f g :: "bondOutboundOptions \<Rightarrow> byte" by (simp add: length_concat comp_def)
  have "sum_list (bo_downloadRatios h) = 100" using assms(1) by (auto simp: bond_NewOutbound_def Let_def split: if_splits)
  with assms(2) have "conns \<noteq> []" by auto
  with assms len [where f = bo_DownloadRatio and g = bo_UploadRatio] show ?thesis
    by (auto simp: dialled_def bond_NewOutbound_def Let_def split: if_splits)
qed

section \<open>Requests read back\<close>

definition bond_request_enc :: "'d serializer \<Rightarrow> 'd bondRequest \<Rightarrow> bytes \<Rightarrow> bool" where
  "bond_request_enc ser request f \<longleftrightarrow> serializable ser (br_Destination request) \<and> length (br_UUID request) = 16 \<and>
     bond_WriteRequest ser request = Inr f"

interpretation bond_request: framed "bond_request_enc ser" "bond_ReadRequest ser" id for ser
proof
  fix m :: "'a bondRequest" and f rest
  assume enc: "bond_request_enc ser m f"
  then obtain bs where w: "WriteAddrPort ser (br_Destination m) = Inr bs" and r: "\<And>rest. ReadAddrPort ser (bs @ rest) = Inr (br_Destination m, rest)"
    by (auto simp: bond_request_enc_def elim: serializableE)
  have "ReadFull 16 (br_UUID m @ rd) = Inr (br_UUID m, rd)" for rd
    by (rule ReadFull_append) (use enc in \<open>simp add: bond_request_enc_def\<close>)
  with enc w r show "bond_ReadRequest ser (f @ rest) = Inr (id m, rest)"
    by (auto simp: bond_request_enc_def bond_WriteRequest_def bond_ReadRequest_def)
qed

text \<open>A lone request that announces one connection panics the inbound unless its index is zero.\<close>

lemma lone_request_panics:
  assumes "cache (br_UUID request) = None" "br_Count request = 1"
  shows "bond_connHandler request c cache = None \<longleftrightarrow> br_Index request \<noteq> 0"
  using assms unat_eq_zero [of "br_Index request"]
  by (auto simp: bond_connHandler_def bundle_at_def Let_def slots_of_def not_less_eq_eq [symmetric])

section \<open>The properties\<close>

text \<open>
  C35. The bond outbound and inbound carry a stream exactly: with ratios that add up to 100 and messages of 1 to
  65535 bytes, every write on the bundle succeeds, and the peer, whose download ratios are the writer's upload
  ratios and whose sub-connections deliver what was written on each, reads a prefix of the concatenated messages
  whatever the sizes of its (positive) read buffers, and all of it after enough reads.
\<close>
theorem bond_stream_exact:
  assumes "ratios_ok up" "length conns = length up" "\<forall>c \<in> set conns. willing c \<and> outgoing c = []"
    and "\<forall>m \<in> set ms. m \<noteq> [] \<and> length m \<le> 65535"
  shows "\<exists>w. write_all ms (NewBondedConn conns down up) = Some w \<and>
    (\<forall>peers caps down'. map incoming peers = map outgoing (bc_conns w) \<longrightarrow> (\<forall>cap \<in> set caps. 0 < cap) \<longrightarrow>
      (\<exists>k c'. bond_reads caps (NewBondedConn peers up down') = Some (take k (concat ms), c') \<and>
         (length (concat ms) \<le> length caps \<longrightarrow> length (concat ms) \<le> k)))"
proof -
  let ?w = "(NewBondedConn conns down up)\<lparr>bc_conns := map2 send conns (lay up ms)\<rparr>"
  have "wf_writer (NewBondedConn conns down up)" using assms by (simp add: wf_writer_def NewBondedConn_def)
  from write_all_willing [OF this] have w: "write_all ms (NewBondedConn conns down up) = Some ?w" by (simp add: NewBondedConn_def)
  have sent: "map outgoing (map2 send xs ys) = ys" if "length xs = length ys" "\<forall>c \<in> set xs. outgoing c = []" for xs ys
    using that by (induction xs ys rule: list_induct2) simp_all
  have out: "map outgoing (bc_conns ?w) = lay up ms" using assms sent [of conns "lay up ms"] by simp
  have "\<exists>k c'. bond_reads caps (NewBondedConn peers up down') = Some (take k (concat ms), c') \<and>
      (length (concat ms) \<le> length caps \<longrightarrow> length (concat ms) \<le> k)"
    if "map incoming peers = lay up ms" "\<forall>cap \<in> set caps. 0 < cap" for peers caps down'
  proof -
    have "length peers = length up" using arg_cong [OF that(1), of length] assms(1) by simp
    then have "holds_messages ms (NewBondedConn peers up down')" using assms that(1) by (simp add: holds_messages_def NewBondedConn_def)
    from bond_reads_exact [OF this that(2)] show ?thesis by (simp add: NewBondedConn_def)
  qed
  then show ?thesis by (intro exI [of _ ?w] conjI w allI impI) (simp_all only: out)
qed

theorem bond_stream_exact_witness:
  "\<exists>w. write_all [[1, 2, 3, 4, 5]] (NewBondedConn (replicate 2 \<lparr>incoming = [], outgoing = [], outcomes = []\<rparr>) [50, 50] [60, 40]) = Some w \<and>
     (\<forall>peers. map incoming peers = map outgoing (bc_conns w) \<longrightarrow>
       (\<exists>c. bond_reads [2, 2, 2, 2, 2] (NewBondedConn peers [60, 40] [50, 50]) = Some ([1, 2, 3, 4, 5], c)))"
proof -
  let ?conns = "replicate 2 \<lparr>incoming = [], outgoing = [], outcomes = []\<rparr>"
  let ?ms = "[[1, 2, 3, 4, 5]] :: bytes list"
  have "ratios_ok [60, 40]" by (simp add: ratios_ok_def)
  moreover have "\<forall>c \<in> set ?conns. willing c \<and> outgoing c = []" by (simp add: willing_def)
  ultimately obtain w where w: "write_all ?ms (NewBondedConn ?conns [50, 50] [60, 40]) = Some w"
    and r: "\<And>peers caps down'. map incoming peers = map outgoing (bc_conns w) \<Longrightarrow> \<forall>cap \<in> set caps. 0 < cap \<Longrightarrow>
      \<exists>k c'. bond_reads caps (NewBondedConn peers [60, 40] down') = Some (take k (concat ?ms), c') \<and>
         (length (concat ?ms) \<le> length caps \<longrightarrow> length (concat ?ms) \<le> k)"
    using bond_stream_exact [of "[60, 40]" ?conns ?ms "[50, 50]"] by auto
  have "\<exists>c. bond_reads [2, 2, 2, 2, 2] (NewBondedConn peers [60, 40] [50, 50]) = Some ([1, 2, 3, 4, 5], c)"
    if "map incoming peers = map outgoing (bc_conns w)" for peers
    using r [OF that, of "[2, 2, 2, 2, 2]" "[50, 50]"] by auto
  with w show ?thesis by blast
qed

text \<open>
  C36. The bond inbound assembles every bundle it is dialled with, in whatever order the requests of its
  connections arrive and however they are interleaved with those of other bundles: all but the last leave it
  waiting, the last yields the bonded connection over the connections in index order, with the outbound's
  upload ratios as its download ratios and the reverse, for the destination asked for.
\<close>
theorem bond_assembled:
  assumes "bond_NewOutbound opts = Inr h" "length conns = length (bo_downloadRatios h)" "length conns \<le> 255"
    and "distinct order" "set order = {0..<length conns}" "cache uuid = None"
    and "filter (\<lambda>(request, _). br_UUID request = uuid) es = map (\<lambda>i. (dialRequest uuid dest h i, conns ! i)) order"
    and "handle_all es cache = Some (rs, cache')"
  shows "own_results uuid es rs =
    replicate (length conns - 1) Waiting @ [Bonded (NewBondedConn conns (bo_uploadRatios h) (bo_downloadRatios h)) dest]"
proof -
  have d: "dialled h conns" using NewOutbound_dialled [OF assms(1-3)] .
  have "length order = length conns" using distinct_card [OF assms(4)] assms(5) by simp
  moreover have "order \<noteq> []" using d assms(5) by (auto simp: dialled_def)
  ultimately show ?thesis
    using handle_all_own [OF d assms(8,7), of "[]"] assms(4-6) by (simp add: bundle_at_def)
qed

definition demo_outbound :: bondOutbound where
  "demo_outbound = \<lparr>bo_downloadRatios = [50, 50], bo_uploadRatios = [50, 50]\<rparr>"

definition demo_conn :: "byte \<Rightarrow> conn" where
  "demo_conn b = \<lparr>incoming = [b], outgoing = [], outcomes = []\<rparr>"

theorem bond_assembled_witness:
  "own_results [7]
     [(dialRequest [7] () demo_outbound 1, demo_conn 1), (dialRequest [8] () demo_outbound 0, demo_conn 9),
      (dialRequest [7] () demo_outbound 0, demo_conn 0)]
     [Waiting, Waiting, Bonded (NewBondedConn [demo_conn 0, demo_conn 1] [50, 50] [50, 50]) ()] =
   [Waiting, Bonded (NewBondedConn [demo_conn 0, demo_conn 1] [50, 50] [50, 50]) ()]"
proof -
  let ?es = "[(dialRequest [7] () demo_outbound 1, demo_conn 1), (dialRequest [8] () demo_outbound 0, demo_conn 9),
      (dialRequest [7] () demo_outbound 0, demo_conn 0)]"
  have new: "bond_NewOutbound [\<lparr>bo_Count = 0, bo_DownloadRatio = 50, bo_UploadRatio = 50\<rparr>, \<lparr>bo_Count = 1, bo_DownloadRatio = 50, bo_UploadRatio = 50\<rparr>] = Inr demo_outbound"
    by (simp add: bond_NewOutbound_def demo_outbound_def Let_def)
  have "\<exists>cache. handle_all ?es Map.empty =
      Some ([Waiting, Waiting, Bonded (NewBondedConn [demo_conn 0, demo_conn 1] [50, 50] [50, 50]) ()], cache)"
    by (simp add: bond_connHandler_def dialRequest_def demo_outbound_def bundle_at_def slots_of_def)
  then obtain cache where run: "handle_all ?es Map.empty =
      Some ([Waiting, Waiting, Bonded (NewBondedConn [demo_conn 0, demo_conn 1] [50, 50] [50, 50]) ()], cache)" by blast
  have "own_results [7] ?es [Waiting, Waiting, Bonded (NewBondedConn [demo_conn 0, demo_conn 1] [50, 50] [50, 50]) ()] =
      replicate (length [demo_conn 0, demo_conn 1] - 1) Waiting @
      [Bonded (NewBondedConn [demo_conn 0, demo_conn 1] (bo_uploadRatios demo_outbound) (bo_downloadRatios demo_outbound)) ()]"
    by (rule bond_assembled [OF new _ _ _ _ _ _ run, where order = "[1, 0]"]) (auto simp: dialRequest_def demo_outbound_def)
  then show ?thesis by (simp add: demo_outbound_def)
qed

end
