(* ===== verification/Failover.thy ===== *)
theory Failover
  imports Stream_Header Go_Conn
begin

text \<open>
  The failover outbound and inbound (\<open>protocol/failover\<close>): a stream whose connection can be replaced. Each end
  counts the frames it wrote and read, keeps the last ten it wrote, and \<open>RestoreConn\<close> exchanges the counts
  and sends again what the peer has not read.
\<close>

section \<open>Requests\<close>

definition fo_Version :: byte where "fo_Version = 0"
definition BufferSize :: nat where "BufferSize = 10"
definition CommandTCP :: byte where "CommandTCP = 1"
definition CommandReconnect :: byte where "CommandReconnect = 2"
definition StatusOK :: byte where "StatusOK = 1"
definition StatusSessionNotFound :: byte where "StatusSessionNotFound = 2"

definition SessionClosed :: go_error where "SessionClosed = New ''session closed''"
definition SessionNotFound :: go_error where "SessionNotFound = New ''session not found''"
definition SessionExpired :: go_error where "SessionExpired = New ''session expired''"
definition SessionBroken :: go_error where "SessionBroken = New ''session broken''"

lemmas session_errors = SessionClosed_def SessionNotFound_def SessionExpired_def SessionBroken_def

record 'd foRequest =
  fr_UUID :: bytes
  fr_Command :: byte
  fr_Destination :: 'd

definition fo_ReadRequest :: "'d serializer \<Rightarrow> bytes \<Rightarrow> go_error + 'd foRequest \<times> bytes" where
  "fo_ReadRequest ser rd =
     (case ReadByte rd of Inl e \<Rightarrow> Inl e | Inr (version, rd) \<Rightarrow>
      if version \<noteq> fo_Version then Inl (New ''unknown version: '')
      else
     (case ReadFull 16 rd of Inl e \<Rightarrow> Inl e | Inr (uuid, rd) \<Rightarrow>
     (case ReadByte rd of Inl e \<Rightarrow> Inl e | Inr (command, rd) \<Rightarrow>
     (case ReadAddrPort ser rd of Inl e \<Rightarrow> Inl e | Inr (dest, rd) \<Rightarrow>
        Inr (\<lparr>fr_UUID = uuid, fr_Command = command, fr_Destination = dest\<rparr>, rd)))))"

definition fo_WriteRequest :: "'d serializer \<Rightarrow> 'd foRequest \<Rightarrow> go_error + bytes" where
  "fo_WriteRequest ser request =
     (case WriteAddrPort ser (fr_Destination request) of Inl e \<Rightarrow> Inl e
      | Inr addr \<Rightarrow> Inr ([fo_Version] @ fr_UUID request @ [fr_Command request] @ addr))"

section \<open>The connection\<close>

record failoverConn =
  fc_Conn :: conn
  fc_readIndex :: u32
  fc_readBuffer :: bytes
  fc_writeIndex :: u32
  fc_writeBuffers :: "bytes list"
  fc_err :: "go_error option"

definition NewFailoverConn :: "conn \<Rightarrow> failoverConn" where
  "NewFailoverConn conn =
     \<lparr>fc_Conn = conn, fc_readIndex = 0, fc_readBuffer = [], fc_writeIndex = 0,
      fc_writeBuffers = replicate BufferSize [], fc_err = None\<rparr>"

text \<open>\<open>read\<close>: what was copied of a frame that is cut off stays in the buffer.\<close>

definition fo_read :: "nat \<Rightarrow> failoverConn \<Rightarrow> (go_error + bytes) \<times> failoverConn" where
  "fo_read cap c =
     (let serve = (\<lambda>c. case buffer_Read cap (fc_readBuffer c) of (r, buf) \<Rightarrow> (r, c\<lparr>fc_readBuffer := buf\<rparr>)) in
      if fc_readBuffer c \<noteq> [] then serve c
      else
        case ReadFull 2 (incoming (fc_Conn c)) of
          Inl e \<Rightarrow> (Inl e, c\<lparr>fc_Conn := feed (fc_Conn c) []\<rparr>)
        | Inr (data, rest) \<Rightarrow>
            if be_val data = 0 then (Inl SessionClosed, c\<lparr>fc_Conn := feed (fc_Conn c) rest\<rparr>)
            else
              case CopyN (int (be_val data)) rest of
                (bs, err, rest) \<Rightarrow>
                  let c = c\<lparr>fc_Conn := feed (fc_Conn c) rest, fc_readBuffer := bs\<rparr> in
                  (case err of Some e \<Rightarrow> (Inl e, c) | None \<Rightarrow> serve c))"

definition fo_write :: "bytes \<Rightarrow> conn \<Rightarrow> int \<times> go_error option \<times> conn" where
  "fo_write b conn =
     (case conn_Write (PutUint16 (word_of_nat (length b)) @ b) conn of (n, err, conn) \<Rightarrow> (int n - 2, err, conn))"

text \<open>One turn of the loops of \<open>Read\<close> and \<open>Write\<close>: it returns, or the connection has to be replaced first.\<close>

datatype 'a turn = Return 'a | Await

definition Read_turn :: "nat \<Rightarrow> failoverConn \<Rightarrow> (go_error + bytes) turn \<times> failoverConn" where
  "Read_turn cap c =
     (case fo_read cap c of
        (Inl e, c) \<Rightarrow> if e = SessionClosed then (Return (Inl EOF), c\<lparr>fc_err := Some EOF\<rparr>) else (Await, c)
      | (Inr bs, c) \<Rightarrow> (Return (Inr bs), c\<lparr>fc_readIndex := fc_readIndex c + 1\<rparr>))"

definition Write_turn :: "bytes \<Rightarrow> failoverConn \<Rightarrow> int turn \<times> failoverConn" where
  "Write_turn b c =
     (case fo_write b (fc_Conn c) of
        (n, Some e, conn) \<Rightarrow> (Await, c\<lparr>fc_Conn := conn\<rparr>)
      | (n, None, conn) \<Rightarrow>
          (Return n, c\<lparr>fc_Conn := conn,
             fc_writeBuffers := (fc_writeBuffers c)[unat (fc_writeIndex c) mod BufferSize := b],
             fc_writeIndex := fc_writeIndex c + 1\<rparr>))"

text \<open>The loops of \<open>RestoreConn\<close>: the buffers from the peer's index on, and writing them again.\<close>

fun missing :: "nat \<Rightarrow> u32 \<Rightarrow> failoverConn \<Rightarrow> bytes list option" where
  "missing room index c =
     (if index = fc_writeIndex c then Some []
      else case room of 0 \<Rightarrow> None
      | Suc room \<Rightarrow> map_option (Cons (fc_writeBuffers c ! (unat index mod BufferSize))) (missing room (index + 1) c))"

declare missing.simps [simp del]

fun resend :: "bytes list \<Rightarrow> conn \<Rightarrow> go_error option \<times> conn" where
  "resend [] conn = (None, conn)"
| "resend (b # bs) conn =
     (case fo_write b conn of (_, Some e, conn) \<Rightarrow> (Some e, conn) | (_, None, conn) \<Rightarrow> resend bs conn)"

definition RestoreConn :: "conn \<Rightarrow> failoverConn \<Rightarrow> go_error option \<times> failoverConn" where
  "RestoreConn conn c =
     (case conn_Write (PutUint32 (fc_readIndex c)) conn of
        (_, Some e, _) \<Rightarrow> (Some e, c)
      | (_, None, conn) \<Rightarrow>
          (case ReadFull 4 (incoming conn) of Inl e \<Rightarrow> (Some e, c)
           | Inr (data, rest) \<Rightarrow>
               (case missing BufferSize (Uint32 data) c of None \<Rightarrow> (Some SessionBroken, c)
                | Some buffers \<Rightarrow>
                    (case resend buffers (feed conn rest) of
                       (Some e, _) \<Rightarrow> (Some e, c)
                     | (None, conn) \<Rightarrow> (None, c\<lparr>fc_Conn := conn\<rparr>)))))"

text \<open>
  The two loops of \<open>awaitConn\<close>. The dialling end goes by what each round finds: the context or the timer has ended, or a
  dial whose request was answered. The other end waits on \<open>await\<close>, which the handler of a reconnect request closes
  when its \<open>RestoreConn\<close> succeeds; one that fails leaves it waiting. When the rounds are used up it is still trying.
\<close>

datatype round = Cancelled go_error | Expired | Dialled "go_error + conn"

fun redial :: "round list \<Rightarrow> failoverConn \<Rightarrow> (go_error option \<times> failoverConn) option" where
  "redial [] c = None"
| "redial (Cancelled e # rs) c = Some (Some e, c)"
| "redial (Expired # rs) c = Some (Some SessionExpired, c\<lparr>fc_err := Some SessionExpired\<rparr>)"
| "redial (Dialled (Inl e) # rs) c = (if e = SessionNotFound then Some (Some e, c\<lparr>fc_err := Some e\<rparr>) else redial rs c)"
| "redial (Dialled (Inr conn) # rs) c =
     (case RestoreConn conn c of
        (None, c) \<Rightarrow> Some (None, c)
      | (Some e, c) \<Rightarrow> if e = SessionBroken then Some (Some e, c\<lparr>fc_err := Some e\<rparr>) else redial rs c)"

datatype arrival = Arrived conn | Gone go_error | TimedOut

fun arrivals :: "arrival list \<Rightarrow> failoverConn \<Rightarrow> (go_error option \<times> failoverConn) option" where
  "arrivals [] c = None"
| "arrivals (Gone e # rs) c = Some (Some e, c)"
| "arrivals (TimedOut # rs) c = Some (Some SessionExpired, c\<lparr>fc_err := Some SessionExpired\<rparr>)"
| "arrivals (Arrived conn # rs) c =
     (case RestoreConn conn c of (None, c) \<Rightarrow> Some (None, c) | (Some e, c) \<Rightarrow> arrivals rs c)"

text \<open>
  What a caller of \<open>awaitConn\<close> finds once it has the lock: another caller has put a new connection in place, and the
  context may have ended; or it dials, or it waits, as the end has a \<open>dial\<close> or not.
\<close>

datatype wait = Replaced conn "go_error option" | Dialling "round list" | Waiting "arrival list"

definition awaitConn :: "wait \<Rightarrow> failoverConn \<Rightarrow> (go_error option \<times> failoverConn) option" where
  "awaitConn w c =
     (case fc_err c of Some e \<Rightarrow> Some (Some e, c)
      | None \<Rightarrow>
          (case w of Replaced conn ctxErr \<Rightarrow> Some (ctxErr, c\<lparr>fc_Conn := conn\<rparr>)
           | Dialling rs \<Rightarrow> redial rs c
           | Waiting rs \<Rightarrow> arrivals rs c))"

text \<open>\<open>Read\<close> and \<open>Write\<close>, with what every wait meets.\<close>

fun fo_Read :: "nat \<Rightarrow> wait list \<Rightarrow> failoverConn \<Rightarrow> ((go_error + bytes) \<times> failoverConn) option" where
  "fo_Read cap [] c = (case Read_turn cap c of (Return r, c) \<Rightarrow> Some (r, c) | (Await, c) \<Rightarrow> None)"
| "fo_Read cap (w # ws) c =
     (case Read_turn cap c of
        (Return r, c) \<Rightarrow> Some (r, c)
      | (Await, c) \<Rightarrow>
          (case awaitConn w c of None \<Rightarrow> None
           | Some (Some e, c) \<Rightarrow> Some (Inl e, c)
           | Some (None, c) \<Rightarrow> fo_Read cap ws c))"

fun fo_Write :: "bytes \<Rightarrow> wait list \<Rightarrow> failoverConn \<Rightarrow> ((go_error + int) \<times> failoverConn) option" where
  "fo_Write b [] c = (case Write_turn b c of (Return n, c) \<Rightarrow> Some (Inr n, c) | (Await, c) \<Rightarrow> None)"
| "fo_Write b (w # ws) c =
     (case Write_turn b c of
        (Return n, c) \<Rightarrow> Some (Inr n, c)
      | (Await, c) \<Rightarrow>
          (case awaitConn w c of None \<Rightarrow> None
           | Some (Some e, c) \<Rightarrow> Some (Inl e, c)
           | Some (None, c) \<Rightarrow> fo_Write b ws c))"

text \<open>\<open>Close\<close>, the first time: an empty frame, once the error that ends every wait is set.\<close>

definition fo_Close :: "wait list \<Rightarrow> failoverConn \<Rightarrow> failoverConn option" where
  "fo_Close ws c = map_option snd (fo_Write [] ws (c\<lparr>fc_err := Some EOF\<rparr>))"

text \<open>
  \<open>connHandler\<close> of the inbound after the request is read: the sessions, the error returned, the connection
  with what was written on it, and whether the lock of the session was given up.
\<close>

datatype 'd served = Routed 'd | Served "go_error option"

definition fo_connHandler ::
  "'d foRequest \<Rightarrow> conn \<Rightarrow> (bytes \<rightharpoonup> failoverConn) \<Rightarrow> 'd served \<times> bool \<times> (bytes \<rightharpoonup> failoverConn)" where
  "fo_connHandler request conn conns =
     (let uuid = fr_UUID request in
      if fr_Command request = CommandTCP then
        (Routed (fr_Destination request), True, conns(uuid \<mapsto> NewFailoverConn conn))
      else if fr_Command request = CommandReconnect then
        (case conns uuid of
           None \<Rightarrow>
             (case conn_Write [StatusSessionNotFound] conn of
                (_, Some e, _) \<Rightarrow> (Served (Some e), True, conns)
              | (_, None, _) \<Rightarrow> (Served (Some SessionNotFound), True, conns))
         | Some c \<Rightarrow>
             (case conn_Write [StatusOK] conn of
                (_, Some e, _) \<Rightarrow> (Served (Some e), False, conns)
              | (_, None, conn) \<Rightarrow>
                  (case RestoreConn conn c of (err, c) \<Rightarrow> (Served err, True, conns(uuid \<mapsto> c)))))
      else (Served (Some (New ''command not found'')), False, conns))"

text \<open>What a dial of \<open>DialContext\<close> makes of the status that answers its reconnect request.\<close>

definition reconnected :: "conn \<Rightarrow> go_error + conn" where
  "reconnected conn =
     (case ReadFull 1 (incoming conn) of Inl e \<Rightarrow> Inl e
      | Inr (data, rest) \<Rightarrow> if data ! 0 = StatusSessionNotFound then Inl SessionNotFound else Inr (feed conn rest))"

text \<open>
  The dial strategies, by the results of dialling the outbounds in turn, each with the context error found
  while the delay after a failure runs; without a delay the context is not looked at. \<open>dial_pass\<close> is the
  loop over the outbounds, the sequential strategy goes through it once (\<open>Inl None\<close> is a nil connection with
  a nil error), the cycling one starts over.
\<close>

type_synonym 'c dial_result = "(go_error + 'c) \<times> go_error option"

fun dial_pass :: "duration \<Rightarrow> 'c dial_result list \<Rightarrow> go_error option \<Rightarrow> (go_error option + 'c) option \<times> go_error option" where
  "dial_pass delay [] err = (None, err)"
| "dial_pass delay ((Inr c, _) # rs) err = (Some (Inr c), err)"
| "dial_pass delay ((Inl e, ctxErr) # rs) err =
     (if 0 < delay \<and> ctxErr \<noteq> None then (Some (Inl ctxErr), Some e) else dial_pass delay rs (Some e))"

definition sequentialStrategy :: "duration \<Rightarrow> 'c dial_result list \<Rightarrow> go_error option + 'c" where
  "sequentialStrategy delay rs = (case dial_pass delay rs None of (Some r, _) \<Rightarrow> r | (None, err) \<Rightarrow> Inl err)"

fun cycleStrategy :: "nat \<Rightarrow> duration \<Rightarrow> (nat \<Rightarrow> 'c dial_result list) \<Rightarrow> nat \<Rightarrow> (go_error option + 'c) option" where
  "cycleStrategy 0 delay dials k = None"
| "cycleStrategy (Suc fuel) delay dials k =
     (case dial_pass delay (dials k) None of (Some r, _) \<Rightarrow> Some r | (None, _) \<Rightarrow> cycleStrategy fuel delay dials (Suc k))"

datatype strategy = Cycle | Sequential

definition CreateStrategy :: "string \<Rightarrow> go_error + strategy" where
  "CreateStrategy name =
     (if name = ''cycle'' then Inr Cycle
      else if name = ''sequential'' \<or> name = [] then Inr Sequential
      else Inl (New ''strategy not found: ''))"

section \<open>Frames\<close>

definition frame :: "bytes \<Rightarrow> bytes" where
  "frame m = PutUint16 (word_of_nat (length m)) @ m"

definition good :: "bytes \<Rightarrow> bool" where
  "good m \<longleftrightarrow> m \<noteq> [] \<and> length m \<le> 65535"

lemma fo_write_willing: "willing conn \<Longrightarrow> fo_write m conn = (int (length m), None, send conn (frame m))"
  by (simp add: fo_write_def conn_Write_def willing_def send_def frame_def)

lemma resend_willing: "willing conn \<Longrightarrow> resend bs conn = (None, send conn (concat (map frame bs)))"
  by (induction bs arbitrary: conn) (simp_all add: fo_write_willing)

lemma header_val: "good m \<Longrightarrow> be_val (PutUint16 (word_of_nat (length m))) = length m"
  by (simp add: good_def be_val_be_bytes unat_of_nat)

text \<open>With less room, the frame is returned in parts.\<close>

lemma read_frame_any:
  assumes "fc_readBuffer c = []" "incoming (fc_Conn c) = frame m @ rest" "good m"
  shows "Read_turn cap c = (Return (Inr (take cap m)),
    c\<lparr>fc_Conn := feed (fc_Conn c) rest, fc_readBuffer := drop cap m, fc_readIndex := fc_readIndex c + 1\<rparr>)"
proof -
  have "ReadFull 2 (incoming (fc_Conn c)) = Inr (PutUint16 (word_of_nat (length m)), m @ rest)"
    unfolding assms(2) frame_def append_assoc by (rule ReadFull_append) simp
  then show ?thesis using assms(1,3) header_val [OF assms(3)]
    by (cases c) (auto simp: Read_turn_def fo_read_def Let_def CopyN_def buffer_Read_def good_def)
qed

lemma read_frame:
  assumes "fc_readBuffer c = []" "incoming (fc_Conn c) = frame m @ rest" "good m" "length m \<le> cap"
  shows "Read_turn cap c = (Return (Inr m), c\<lparr>fc_Conn := feed (fc_Conn c) rest, fc_readIndex := fc_readIndex c + 1\<rparr>)"
  using read_frame_any [OF assms(1-3), of cap] assms(1,4) by (cases c) simp

text \<open>A frame cut off before its payload: at most the header, and not that of an empty frame.\<close>

definition stub :: "bytes \<Rightarrow> bool" where
  "stub h \<longleftrightarrow> length h \<le> 2 \<and> (length h = 2 \<longrightarrow> be_val h \<noteq> 0)"

lemma read_stub:
  assumes "fc_readBuffer c = []" "incoming (fc_Conn c) = h" "stub h"
  shows "Read_turn cap c = (Await, c\<lparr>fc_Conn := feed (fc_Conn c) []\<rparr>)"
proof (cases "length h = 2")
  case True
  then have "ReadFull 2 h = Inr (h, [])" by (simp add: ReadFull_def)
  moreover have "c\<lparr>fc_readBuffer := []\<rparr> = c" using assms(1) by (cases c) simp
  ultimately show ?thesis using assms True
    by (cases c) (simp add: Read_turn_def fo_read_def stub_def CopyN_def session_errors)
next
  case False
  then have "ReadFull 2 h = Inl (if h = [] then EOF else UnexpectedEOF)" using assms(3) by (simp add: ReadFull_def stub_def)
  then show ?thesis using assms by (simp add: Read_turn_def fo_read_def session_errors)
qed

section \<open>Restoring\<close>

text \<open>What the ring holds of the messages written.\<close>

definition ring_holds :: "bytes list \<Rightarrow> bytes list \<Rightarrow> bool" where
  "ring_holds bufs sent \<longleftrightarrow> length bufs = BufferSize \<and>
     (\<forall>j < length sent. length sent \<le> j + BufferSize \<longrightarrow> bufs ! (j mod BufferSize) = sent ! j)"

lemma ring_write:
  assumes "ring_holds bufs sent"
  shows "ring_holds (bufs[length sent mod BufferSize := m]) (sent @ [m])"
  unfolding ring_holds_def
proof (intro conjI allI impI)
  show "length (bufs[length sent mod BufferSize := m]) = BufferSize" using assms by (simp add: ring_holds_def)
  fix j assume j: "j < length (sent @ [m])" "length (sent @ [m]) \<le> j + BufferSize"
  show "bufs[length sent mod BufferSize := m] ! (j mod BufferSize) = (sent @ [m]) ! j"
  proof (cases "j = length sent")
    case True
    then show ?thesis using assms by (simp add: ring_holds_def BufferSize_def)
  next
    case False
    then have "\<not> BufferSize dvd length sent - j" using j by (intro nat_dvd_not_less) simp_all
    then have "j mod BufferSize \<noteq> length sent mod BufferSize"
      using mod_eq_dvd_iff_nat [of j "length sent" BufferSize] j False by (simp add: eq_commute)
    then show ?thesis using assms j False by (simp add: ring_holds_def nth_append)
  qed
qed

lemma missing_upto:
  assumes "fc_writeIndex c = word_of_nat n" "n < 2 ^ 32" "g \<le> n"
  shows "missing room (word_of_nat g) c =
    (if n - g \<le> room then Some (map (\<lambda>j. fc_writeBuffers c ! (j mod BufferSize)) [g..<n]) else None)"
  using assms(3)
proof (induction room arbitrary: g)
  case 0
  then have "(word_of_nat g :: u32) = word_of_nat n \<longleftrightarrow> g = n" using assms(2) by (simp add: word_of_nat_eq_iff take_bit_nat_eq_self)
  then show ?case using 0 assms(1) by (auto simp: missing.simps)
next
  case (Suc room)
  show ?case
  proof (cases "g = n")
    case True
    then show ?thesis using assms(1) by (simp add: missing.simps)
  next
    case False
    then have ne: "(word_of_nat g :: u32) \<noteq> word_of_nat n" and lt: "g < n"
      using Suc.prems assms(2) by (simp_all add: word_of_nat_eq_iff take_bit_nat_eq_self)
    have "unat (word_of_nat g :: u32) = g" using lt assms(2) by (simp add: unat_of_nat)
    moreover have "missing room (word_of_nat (Suc g)) c =
        (if n - Suc g \<le> room then Some (map (\<lambda>j. fc_writeBuffers c ! (j mod BufferSize)) [Suc g..<n]) else None)"
      by (rule Suc.IH) (use lt in simp)
    moreover have "(word_of_nat g :: u32) + 1 = word_of_nat (Suc g)" by simp
    moreover have "[g..<n] = g # [Suc g..<n]" using lt by (rule upt_conv_Cons)
    ultimately show ?thesis using ne assms(1) lt by (subst missing.simps) (auto simp: add.commute)
  qed
qed

lemma missing_exact:
  assumes "fc_writeIndex c = word_of_nat (length sent)" "length sent < 2 ^ 32" "g \<le> length sent" "ring_holds (fc_writeBuffers c) sent"
  shows "missing BufferSize (word_of_nat g) c = (if length sent - g \<le> BufferSize then Some (drop g sent) else None)"
proof -
  have "map (\<lambda>j. fc_writeBuffers c ! (j mod BufferSize)) [g..<length sent] = drop g sent" if "length sent - g \<le> BufferSize"
    using assms(4) that by (intro nth_equalityI) (auto simp: ring_holds_def)
  then show ?thesis using missing_upto [OF assms(1-3)] by simp
qed

lemma restore_exact:
  assumes "willing conn" "incoming conn = PutUint32 (word_of_nat g) @ rest"
    and "fc_writeIndex c = word_of_nat (length sent)" "length sent < 2 ^ 32" "g \<le> length sent" "ring_holds (fc_writeBuffers c) sent"
  shows "RestoreConn conn c =
    (if length sent - g \<le> BufferSize
     then (None, c\<lparr>fc_Conn := send (feed conn rest) (PutUint32 (fc_readIndex c) @ concat (map frame (drop g sent)))\<rparr>)
     else (Some SessionBroken, c))"
proof -
  have "conn_Write (PutUint32 (fc_readIndex c)) conn = (4, None, send conn (PutUint32 (fc_readIndex c)))"
    using assms(1) by (simp add: conn_Write_def willing_def send_def)
  moreover have "ReadFull 4 (incoming (send conn (PutUint32 (fc_readIndex c)))) = Inr (PutUint32 (word_of_nat g), rest)"
    using assms(2) by (simp only: send_fields) (rule ReadFull_append, simp)
  moreover have "feed (send conn x) y = send (feed conn y) x" for x y by (simp add: feed_def send_def)
  ultimately show ?thesis using assms(1) missing_exact [OF assms(3-6)]
    by (simp add: RestoreConn_def resend_willing)
qed

section \<open>A session\<close>

text \<open>
  Both ends of a session, with what each wrote and returned to its reader so far. While the connection is up,
  what one end writes reaches the other; once it is down, writes may still succeed but are lost, or fail after any number of
  bytes, and what was in flight ends after some whole frames, at most a header into the next. Readers bring room for
  a frame.
  Restoring gives both ends a new connection that carries what each \<open>RestoreConn\<close> writes. There are fewer
  than \<open>2 ^ 32\<close> messages each way.
\<close>

record session =
  endA :: failoverConn
  endB :: failoverConn
  up :: bool
  sentA :: "bytes list"
  gotA :: "bytes list"
  sentB :: "bytes list"
  gotB :: "bytes list"

definition fresh_conn :: "bytes \<Rightarrow> conn" where
  "fresh_conn bs = \<lparr>incoming = bs, outgoing = [], outcomes = []\<rparr>"

definition session_init :: "session \<Rightarrow> bool" where
  "session_init s \<longleftrightarrow> s = \<lparr>endA = NewFailoverConn (fresh_conn []), endB = NewFailoverConn (fresh_conn []), up = True,
     sentA = [], gotA = [], sentB = [], gotB = []\<rparr>"

text \<open>What an end has written leaves its connection, and arrives at the other when the connection is up.\<close>

definition flushed :: "failoverConn \<Rightarrow> failoverConn" where
  "flushed c = c\<lparr>fc_Conn := (fc_Conn c)\<lparr>outgoing := []\<rparr>\<rparr>"

definition arrive :: "bytes \<Rightarrow> failoverConn \<Rightarrow> failoverConn" where
  "arrive bs c = c\<lparr>fc_Conn := feed (fc_Conn c) (incoming (fc_Conn c) @ bs)\<rparr>"

definition cut_short :: "bytes list \<Rightarrow> bytes \<Rightarrow> failoverConn \<Rightarrow> failoverConn" where
  "cut_short ms h c = c\<lparr>fc_Conn := feed (fc_Conn c) (concat (map frame ms) @ h)\<rparr>"

definition breaking :: "nat \<Rightarrow> go_error \<Rightarrow> failoverConn \<Rightarrow> failoverConn" where
  "breaking n e c = c\<lparr>fc_Conn := (fc_Conn c)\<lparr>outcomes := [(n, Some e)]\<rparr>\<rparr>"

inductive end_step :: "session \<Rightarrow> session \<Rightarrow> bool" where
  Write: "good m \<Longrightarrow> length (sentA s) + 1 < 2 ^ 32 \<Longrightarrow> Write_turn m (endA s) = (Return n, a) \<Longrightarrow>
     end_step s (s\<lparr>endA := flushed a, endB := arrive (if up s then outgoing (fc_Conn a) else []) (endB s), sentA := sentA s @ [m]\<rparr>)"
| Write_fails: "\<not> up s \<Longrightarrow> good m \<Longrightarrow> Write_turn m (breaking n e (endA s)) = (Await, a) \<Longrightarrow> end_step s (s\<lparr>endA := flushed a\<rparr>)"
| Read: "(\<And>m. m \<in> set (sentB s) \<Longrightarrow> length m \<le> cap) \<Longrightarrow> Read_turn cap (endA s) = (Return (Inr bs), a) \<Longrightarrow>
     end_step s (s\<lparr>endA := a, gotA := gotA s @ [bs]\<rparr>)"
| Fail: "\<not> up s \<Longrightarrow> Read_turn cap (endA s) = (Await, a) \<Longrightarrow> end_step s (s\<lparr>endA := a\<rparr>)"
| Break: "up s \<Longrightarrow> stub h \<Longrightarrow> stub h' \<Longrightarrow>
     end_step s (s\<lparr>up := False, endA := cut_short (take k (drop (length (gotA s)) (sentB s))) h (endA s),
                    endB := cut_short (take k' (drop (length (gotB s)) (sentA s))) h' (endB s)\<rparr>)"
| Restore: "RestoreConn (fresh_conn (outgoing (fc_Conn b))) (endA s) = (None, a) \<Longrightarrow>
     RestoreConn (fresh_conn (outgoing (fc_Conn a))) (endB s) = (None, b) \<Longrightarrow>
     end_step s (s\<lparr>up := True, endA := flushed a, endB := flushed b\<rparr>)"

definition flip :: "session \<Rightarrow> session" where
  "flip s = \<lparr>endA = endB s, endB = endA s, up = up s, sentA = sentB s, gotA = gotB s, sentB = sentA s, gotB = gotA s\<rparr>"

definition session_step :: "session \<Rightarrow> session \<Rightarrow> bool" where
  "session_step s t \<longleftrightarrow> end_step s t \<or> end_step (flip s) (flip t)"

text \<open>One direction, from a writer to a reader.\<close>

definition in_flight :: "bool \<Rightarrow> bytes list \<Rightarrow> bytes \<Rightarrow> bool" where
  "in_flight u ms wire \<longleftrightarrow> (\<exists>k h. wire = concat (map frame (take k ms)) @ h \<and> stub h \<and> (u \<longrightarrow> length ms \<le> k \<and> h = []))"

definition direction :: "bool \<Rightarrow> failoverConn \<Rightarrow> failoverConn \<Rightarrow> bytes list \<Rightarrow> bytes list \<Rightarrow> bool" where
  "direction u w r sent got \<longleftrightarrow>
     length sent < 2 ^ 32 \<and> (\<forall>m \<in> set sent. good m) \<and> prefix got sent \<and>
     fc_writeIndex w = word_of_nat (length sent) \<and> ring_holds (fc_writeBuffers w) sent \<and>
     fc_readIndex r = word_of_nat (length got) \<and> fc_readBuffer r = [] \<and>
     in_flight u (drop (length got) sent) (incoming (fc_Conn r))"

definition quiet :: "failoverConn \<Rightarrow> bool" where
  "quiet c \<longleftrightarrow> willing (fc_Conn c) \<and> outgoing (fc_Conn c) = [] \<and> fc_err c = None"

definition session_inv :: "session \<Rightarrow> bool" where
  "session_inv s \<longleftrightarrow> quiet (endA s) \<and> quiet (endB s) \<and>
     direction (up s) (endA s) (endB s) (sentA s) (gotB s) \<and> direction (up s) (endB s) (endA s) (sentB s) (gotA s)"

lemma flip_flip [simp]: "flip (flip s) = s" "session_inv (flip s) = session_inv s"
  by (auto simp: flip_def session_inv_def)

lemma direction_cong:
  assumes "direction u w r sent got"
    and "fc_writeIndex w' = fc_writeIndex w" "fc_writeBuffers w' = fc_writeBuffers w"
    and "fc_readIndex r' = fc_readIndex r" "fc_readBuffer r' = fc_readBuffer r" "incoming (fc_Conn r') = incoming (fc_Conn r)"
  shows "direction u w' r' sent got"
  using assms by (simp add: direction_def)

lemma stub_Nil [simp]: "stub []"
  by (simp add: stub_def)

lemma direction_write:
  assumes "direction u w r sent got" "good m" "length sent + 1 < 2 ^ 32"
    and "fc_writeIndex w' = fc_writeIndex w + 1"
    and "fc_writeBuffers w' = (fc_writeBuffers w)[unat (fc_writeIndex w) mod BufferSize := m]"
  shows "direction u w' (arrive (if u then frame m else []) r) (sent @ [m]) got"
proof -
  have i: "unat (word_of_nat (length sent) :: u32) = length sent" using assms(3) by (simp add: unat_of_nat)
  obtain rest where rest: "sent = got @ rest" using assms(1) by (auto simp: direction_def prefix_def)
  obtain k h where k: "incoming (fc_Conn r) = concat (map frame (take k rest)) @ h" "stub h" "u \<longrightarrow> length rest \<le> k \<and> h = []"
    using assms(1) rest by (auto simp: direction_def in_flight_def)
  have "in_flight u (rest @ [m]) (incoming (fc_Conn r) @ (if u then frame m else []))"
  proof (cases u)
    case True
    with k show ?thesis unfolding in_flight_def by (intro exI [of _ "length rest + 1"] exI [of _ "[]"]) simp
  next
    case False
    with k show ?thesis unfolding in_flight_def by (intro exI [of _ "min k (length rest)"] exI [of _ h]) (simp add: min_def)
  qed
  moreover have "ring_holds (fc_writeBuffers w') (sent @ [m])"
    using assms(1,5) ring_write [of "fc_writeBuffers w" sent m] i by (simp add: direction_def)
  ultimately show ?thesis using assms rest by (auto simp: direction_def arrive_def add.commute)
qed

lemma direction_read:
  assumes "direction u w r sent got" "Read_turn cap r = (Return (Inr bs), r')" "\<And>m. m \<in> set sent \<Longrightarrow> length m \<le> cap"
  shows "direction u w r' sent (got @ [bs]) \<and>
    (\<exists>i. r' = r\<lparr>fc_Conn := feed (fc_Conn r) i, fc_readIndex := fc_readIndex r + 1\<rparr>)"
proof -
  have buf: "fc_readBuffer r = []" and g: "\<forall>m \<in> set sent. good m" using assms(1) by (auto simp: direction_def)
  obtain rest where rest: "sent = got @ rest" using assms(1) by (auto simp: direction_def prefix_def)
  obtain k h where k: "incoming (fc_Conn r) = concat (map frame (take k rest)) @ h" "stub h" "u \<longrightarrow> length rest \<le> k \<and> h = []"
    using assms(1) rest by (auto simp: direction_def in_flight_def)
  have "take k rest \<noteq> []"
  proof
    assume "take k rest = []"
    with read_stub [OF buf _ k(2), of cap] k(1) assms(2) show False by simp
  qed
  then obtain m ms k' where m: "rest = m # ms" "k = Suc k'" by (cases rest; cases k) auto
  have wire: "incoming (fc_Conn r) = frame m @ concat (map frame (take k' ms)) @ h" using k(1) m by simp
  from read_frame [OF buf wire, of cap] g rest m assms(2,3) have r': "bs = m"
    "r' = r\<lparr>fc_Conn := feed (fc_Conn r) (concat (map frame (take k' ms)) @ h), fc_readIndex := fc_readIndex r + 1\<rparr>" by auto
  moreover have "in_flight u ms (concat (map frame (take k' ms)) @ h)"
    unfolding in_flight_def by (intro exI [of _ k'] exI [of _ h]) (use k m in auto)
  ultimately show ?thesis using assms(1) rest m by (auto simp: direction_def add.commute)
qed

lemma direction_fail:
  assumes "direction False w r sent got" "Read_turn cap r = (Await, r')"
  shows "direction False w r' sent got \<and> (\<exists>i. r' = r\<lparr>fc_Conn := feed (fc_Conn r) i\<rparr>)"
proof -
  have buf: "fc_readBuffer r = []" and g: "\<forall>m \<in> set sent. good m" using assms(1) by (auto simp: direction_def)
  obtain rest where rest: "sent = got @ rest" using assms(1) by (auto simp: direction_def prefix_def)
  obtain k h where k: "incoming (fc_Conn r) = concat (map frame (take k rest)) @ h" "stub h"
    using assms(1) rest by (auto simp: direction_def in_flight_def)
  show ?thesis
  proof (cases "take k rest")
    case Nil
    with read_stub [OF buf _ k(2), of cap] k(1) assms(2) have "r' = r\<lparr>fc_Conn := feed (fc_Conn r) []\<rparr>" by simp
    moreover have "in_flight False rest []" unfolding in_flight_def by (intro exI [of _ 0]) simp
    ultimately show ?thesis using assms(1) rest by (auto simp: direction_def)
  next
    case (Cons m ms)
    then have "good m" using g rest by (metis Un_iff in_set_takeD list.set_intros(1) set_append)
    have "\<exists>x. fst (Read_turn cap r) = Return x"
      using read_frame_any [OF buf _ \<open>good m\<close>, of "concat (map frame ms) @ h" cap] k(1) Cons by simp
    with assms(2) show ?thesis by simp
  qed
qed

lemma direction_down:
  assumes "direction u w r sent got" "stub h"
  shows "direction False w (cut_short (take k (drop (length got) sent)) h r) sent got"
  using assms by (auto simp: direction_def in_flight_def cut_short_def)

lemma direction_restore:
  assumes "direction u w r sent got" "fc_writeIndex w' = fc_writeIndex w" "fc_writeBuffers w' = fc_writeBuffers w"
    and "fc_readIndex r' = fc_readIndex r" "fc_readBuffer r' = fc_readBuffer r"
    and "incoming (fc_Conn r') = concat (map frame (drop (length got) sent))"
  shows "direction v w' r' sent got"
  using assms unfolding direction_def in_flight_def
  by (intro conjI exI [of _ "length sent"] exI [of _ "[]"]) auto

lemma direction_resend:
  assumes "direction u w r sent got" "RestoreConn (fresh_conn (PutUint32 (fc_readIndex r) @ rest)) w = (None, w')"
  shows "w' = w\<lparr>fc_Conn := \<lparr>incoming = rest, outgoing = PutUint32 (fc_readIndex w) @ concat (map frame (drop (length got) sent)), outcomes = []\<rparr>\<rparr>"
    and "length sent - length got \<le> BufferSize"
proof -
  have "willing (fresh_conn x)" "incoming (fresh_conn x) = x" for x by (simp_all add: willing_def fresh_conn_def)
  moreover have "length got \<le> length sent" using assms(1) by (auto simp: direction_def dest: prefix_length_le)
  ultimately have "RestoreConn (fresh_conn (PutUint32 (fc_readIndex r) @ rest)) w =
    (if length sent - length got \<le> BufferSize
     then (None, w\<lparr>fc_Conn := send (feed (fresh_conn (PutUint32 (fc_readIndex r) @ rest)) rest)
        (PutUint32 (fc_readIndex w) @ concat (map frame (drop (length got) sent)))\<rparr>)
     else (Some SessionBroken, w))"
    using assms(1) by (intro restore_exact) (auto simp: direction_def)
  then show "w' = w\<lparr>fc_Conn := \<lparr>incoming = rest, outgoing = PutUint32 (fc_readIndex w) @ concat (map frame (drop (length got) sent)), outcomes = []\<rparr>\<rparr>"
    and "length sent - length got \<le> BufferSize"
    using assms(2) by (auto simp: fresh_conn_def send_def feed_def split: if_splits)
qed

lemma restore_announces:
  assumes "RestoreConn (fresh_conn bs) c = (None, c')"
  obtains x where "outgoing (fc_Conn c') = PutUint32 (fc_readIndex c) @ x"
proof -
  have "willing (fresh_conn bs)" by (simp add: willing_def fresh_conn_def)
  moreover have "conn_Write (PutUint32 (fc_readIndex c)) (fresh_conn bs) = (4, None, send (fresh_conn bs) (PutUint32 (fc_readIndex c)))"
    by (simp add: conn_Write_def fresh_conn_def send_def)
  ultimately show ?thesis using assms that
    by (auto simp: RestoreConn_def resend_willing fresh_conn_def split: sum.splits option.splits prod.splits)
qed

lemma flushed_fields [simp]:
  "fc_writeIndex (flushed c) = fc_writeIndex c" "fc_writeBuffers (flushed c) = fc_writeBuffers c"
  "fc_readIndex (flushed c) = fc_readIndex c" "fc_readBuffer (flushed c) = fc_readBuffer c"
  "incoming (fc_Conn (flushed c)) = incoming (fc_Conn c)" "quiet (flushed c) \<longleftrightarrow> willing (fc_Conn c) \<and> fc_err c = None"
  by (simp_all add: flushed_def quiet_def willing_def)

lemma arrive_fields [simp]:
  "fc_writeIndex (arrive bs c) = fc_writeIndex c" "fc_writeBuffers (arrive bs c) = fc_writeBuffers c"
  "quiet (arrive bs c) = quiet c"
  by (simp_all add: arrive_def quiet_def)

lemma cut_fields [simp]:
  "fc_writeIndex (cut_short ms h c) = fc_writeIndex c" "fc_writeBuffers (cut_short ms h c) = fc_writeBuffers c"
  "quiet (cut_short ms h c) = quiet c"
  by (simp_all add: cut_short_def quiet_def)

lemma Write_turn_quiet:
  assumes "quiet c"
  shows "Write_turn m c = (Return (int (length m)), c\<lparr>fc_Conn := send (fc_Conn c) (frame m),
     fc_writeBuffers := (fc_writeBuffers c)[unat (fc_writeIndex c) mod BufferSize := m], fc_writeIndex := fc_writeIndex c + 1\<rparr>)"
  using assms by (simp add: Write_turn_def fo_write_willing quiet_def)

lemma Write_turn_breaking:
  assumes "quiet c"
  shows "Write_turn m (breaking n e c) = (Await, c\<lparr>fc_Conn := send (fc_Conn c) (take n (frame m))\<rparr>)"
proof -
  have "(fc_Conn c)\<lparr>outgoing := x, outcomes := []\<rparr> = (fc_Conn c)\<lparr>outgoing := x\<rparr>" for x
    using assms by (cases "fc_Conn c") (simp add: quiet_def willing_def)
  then show ?thesis
    by (simp add: Write_turn_def fo_write_def conn_Write_def breaking_def send_def frame_def min_def Let_def)
qed

lemma session_inv_step:
  assumes inv: "session_inv s" and "end_step s t"
  shows "session_inv t"
  using assms(2)
proof cases
  case (Write m n a)
  have q: "quiet (endA s)" "quiet (endB s)" and d: "direction (up s) (endA s) (endB s) (sentA s) (gotB s)"
    "direction (up s) (endB s) (endA s) (sentB s) (gotA s)" using inv by (auto simp: session_inv_def)
  have a: "a = (endA s)\<lparr>fc_Conn := send (fc_Conn (endA s)) (frame m),
     fc_writeBuffers := (fc_writeBuffers (endA s))[unat (fc_writeIndex (endA s)) mod BufferSize := m],
     fc_writeIndex := fc_writeIndex (endA s) + 1\<rparr>" using Write(4) Write_turn_quiet [OF q(1)] by simp
  have "outgoing (fc_Conn a) = frame m" using q(1) by (simp add: a quiet_def)
  moreover have "direction (up s) (flushed a) (arrive (if up s then frame m else []) (endB s)) (sentA s @ [m]) (gotB s)"
    by (rule direction_write [OF d(1) Write(2,3)]) (simp_all add: a)
  moreover have "direction (up s) (arrive (if up s then frame m else []) (endB s)) (flushed a) (sentB s) (gotA s)"
    by (rule direction_cong [OF d(2)]) (simp_all add: a)
  moreover have "willing (fc_Conn a)" "fc_err a = None" using q(1) by (simp_all add: a quiet_def)
  ultimately show ?thesis using q by (cases "up s") (simp_all add: Write(1) session_inv_def)
next
  case (Write_fails m n e a)
  have q: "quiet (endA s)" and d: "direction (up s) (endA s) (endB s) (sentA s) (gotB s)"
    "direction (up s) (endB s) (endA s) (sentB s) (gotA s)" using inv by (auto simp: session_inv_def)
  have a: "a = (endA s)\<lparr>fc_Conn := send (fc_Conn (endA s)) (take n (frame m))\<rparr>"
    using Write_fails(4) Write_turn_breaking [OF q] by simp
  have "direction (up s) (flushed a) (endB s) (sentA s) (gotB s)" by (rule direction_cong [OF d(1)]) (simp_all add: a)
  moreover have "direction (up s) (endB s) (flushed a) (sentB s) (gotA s)" by (rule direction_cong [OF d(2)]) (simp_all add: a)
  moreover have "quiet (flushed a)" using q by (simp add: a) (simp add: quiet_def)
  ultimately show ?thesis using inv by (simp add: Write_fails(1) session_inv_def)
next
  case (Read cap bs a)
  have d: "direction (up s) (endB s) (endA s) (sentB s) (gotA s)" "direction (up s) (endA s) (endB s) (sentA s) (gotB s)"
    using inv by (auto simp: session_inv_def)
  from direction_read [OF d(1) Read(3,2)] obtain i where
    a: "direction (up s) (endB s) a (sentB s) (gotA s @ [bs])" "a = (endA s)\<lparr>fc_Conn := feed (fc_Conn (endA s)) i, fc_readIndex := fc_readIndex (endA s) + 1\<rparr>"
    by blast
  moreover have "direction (up s) a (endB s) (sentA s) (gotB s)" by (rule direction_cong [OF d(2)]) (simp_all add: a(2))
  ultimately show ?thesis using inv by (simp add: Read(1) session_inv_def quiet_def)
next
  case (Fail cap a)
  have d: "direction False (endB s) (endA s) (sentB s) (gotA s)" "direction False (endA s) (endB s) (sentA s) (gotB s)"
    using inv Fail(2) by (auto simp: session_inv_def)
  from direction_fail [OF d(1) Fail(3)] obtain i where
    a: "direction False (endB s) a (sentB s) (gotA s)" "a = (endA s)\<lparr>fc_Conn := feed (fc_Conn (endA s)) i\<rparr>" by blast
  moreover have "direction False a (endB s) (sentA s) (gotB s)" by (rule direction_cong [OF d(2)]) (simp_all add: a(2))
  ultimately show ?thesis using inv Fail(2) by (simp add: Fail(1) session_inv_def quiet_def)
next
  case (Break h h' k' k)
  have d: "direction (up s) (endB s) (endA s) (sentB s) (gotA s)" "direction (up s) (endA s) (endB s) (sentA s) (gotB s)"
    using inv by (auto simp: session_inv_def)
  have "direction False (cut_short x y (endB s)) (cut_short (take k (drop (length (gotA s)) (sentB s))) h (endA s)) (sentB s) (gotA s)" for x y
    by (rule direction_cong [OF direction_down [OF d(1) Break(3), of k]]) simp_all
  moreover have "direction False (cut_short x y (endA s)) (cut_short (take k' (drop (length (gotB s)) (sentA s))) h' (endB s)) (sentA s) (gotB s)" for x y
    by (rule direction_cong [OF direction_down [OF d(2) Break(4), of k']]) simp_all
  ultimately show ?thesis using inv by (simp add: Break(1) session_inv_def)
next
  case (Restore b a)
  have d: "direction (up s) (endB s) (endA s) (sentB s) (gotA s)" "direction (up s) (endA s) (endB s) (sentA s) (gotB s)"
    using inv by (auto simp: session_inv_def)
  from restore_announces [OF Restore(2)] obtain x where x: "outgoing (fc_Conn a) = PutUint32 (fc_readIndex (endA s)) @ x" .
  from restore_announces [OF Restore(3)] obtain y where y: "outgoing (fc_Conn b) = PutUint32 (fc_readIndex (endB s)) @ y" .
  note a = direction_resend(1) [OF d(2) Restore(2) [unfolded y]]
  note b = direction_resend(1) [OF d(1) Restore(3) [unfolded x]]
  have xy: "x = concat (map frame (drop (length (gotB s)) (sentA s)))" "y = concat (map frame (drop (length (gotA s)) (sentB s)))"
    using x y by (simp_all add: a b)
  have "direction True (flushed a) (flushed b) (sentA s) (gotB s)"
    by (rule direction_restore [OF d(2)]) (simp_all add: a b xy)
  moreover have "direction True (flushed b) (flushed a) (sentB s) (gotA s)"
    by (rule direction_restore [OF d(1)]) (simp_all add: a b xy)
  moreover have "fc_err (endA s) = None" "fc_err (endB s) = None" using inv by (simp_all add: session_inv_def quiet_def)
  ultimately show ?thesis by (simp add: Restore(1) session_inv_def a b willing_def)
qed

interpretation failover: invariant_system session_init session_step session_inv
proof
  fix s
  assume "session_init s"
  moreover have "ring_holds (replicate BufferSize []) []" by (simp add: ring_holds_def)
  moreover have "in_flight True [] []" by (simp add: in_flight_def)
  ultimately show "session_inv s"
    by (simp add: session_init_def session_inv_def direction_def NewFailoverConn_def fresh_conn_def quiet_def willing_def)
next
  fix s t
  assume "session_inv s" "session_step s t"
  then show "session_inv t" unfolding session_step_def using session_inv_step flip_flip by metis
qed

text \<open>A write that meets a broken connection, and one reconnection later.\<close>

lemma write_resumes:
  assumes "session_inv s" "willing conn" "incoming conn = PutUint32 (fc_readIndex (endB s)) @ rest"
    and "length (sentA s) - length (gotB s) \<le> BufferSize"
  shows "\<exists>c. fo_Write m [Dialling [Dialled (Inr conn)]] (breaking n e (endA s)) = Some (Inr (int (length m)), c) \<and>
    fc_Conn c = send (feed conn rest) (PutUint32 (fc_readIndex (endA s)) @ concat (map frame (drop (length (gotB s)) (sentA s) @ [m])))"
proof -
  let ?a = "(endA s)\<lparr>fc_Conn := send (fc_Conn (endA s)) (take n (frame m))\<rparr>"
  let ?x = "PutUint32 (fc_readIndex (endA s)) @ concat (map frame (drop (length (gotB s)) (sentA s)))"
  have q: "quiet (endA s)" and d: "direction (up s) (endA s) (endB s) (sentA s) (gotB s)" using assms(1) by (simp_all add: session_inv_def)
  have "length (gotB s) \<le> length (sentA s)" using d by (auto simp: direction_def dest: prefix_length_le)
  then have "RestoreConn conn ?a = (None, ?a\<lparr>fc_Conn := send (feed conn rest) ?x\<rparr>)"
    using restore_exact [OF assms(2), of "length (gotB s)" rest ?a "sentA s"] assms(3,4) d by (auto simp: direction_def)
  then have "fo_Write m [Dialling [Dialled (Inr conn)]] (breaking n e (endA s)) =
      fo_Write m [] (?a\<lparr>fc_Conn := send (feed conn rest) ?x\<rparr>)"
    using q by (simp add: Write_turn_breaking [OF q] awaitConn_def quiet_def del: fo_Write.simps(1))
  then show ?thesis using assms(2) by (simp add: Write_turn_def fo_write_willing)
qed

section \<open>Requests read back\<close>

definition fo_request_enc :: "'d serializer \<Rightarrow> 'd foRequest \<Rightarrow> bytes \<Rightarrow> bool" where
  "fo_request_enc ser request f \<longleftrightarrow> serializable ser (fr_Destination request) \<and> length (fr_UUID request) = 16 \<and>
     fo_WriteRequest ser request = Inr f"

interpretation fo_request: framed "fo_request_enc ser" "fo_ReadRequest ser" id for ser
proof
  fix m :: "'a foRequest" and f rest
  assume enc: "fo_request_enc ser m f"
  then obtain bs where w: "WriteAddrPort ser (fr_Destination m) = Inr bs" and r: "\<And>rest. ReadAddrPort ser (bs @ rest) = Inr (fr_Destination m, rest)"
    by (auto simp: fo_request_enc_def elim: serializableE)
  have "ReadFull 16 (fr_UUID m @ rd) = Inr (fr_UUID m, rd)" for rd
    by (rule ReadFull_append) (use enc in \<open>simp add: fo_request_enc_def\<close>)
  with enc w r show "fo_ReadRequest ser (f @ rest) = Inr (id m, rest)"
    by (auto simp: fo_request_enc_def fo_WriteRequest_def fo_ReadRequest_def)
qed

section \<open>Where the code falls short\<close>

text \<open>
  A frame that is cut off inside its payload: the part that arrived stays in the buffer and the next read
  returns it, then the frame sent again follows, so its beginning is read twice.
\<close>

lemma torn_frame_read_twice:
  assumes "good m" "0 < k" "k < length m" "length m \<le> cap" "fc_readBuffer c = []"
  shows "\<exists>c1 c2 c3. Read_turn cap (c\<lparr>fc_Conn := feed (fc_Conn c) (take (2 + k) (frame m))\<rparr>) = (Await, c1) \<and>
    Read_turn cap (c1\<lparr>fc_Conn := feed (fc_Conn c) (frame m)\<rparr>) = (Return (Inr (take k m)), c2) \<and>
    Read_turn cap c2 = (Return (Inr m), c3)"
proof -
  have "take (2 + k) (frame m) = PutUint16 (word_of_nat (length m)) @ take k m" by (simp add: frame_def)
  moreover have "ReadFull 2 (PutUint16 (word_of_nat (length m)) @ take k m) = Inr (PutUint16 (word_of_nat (length m)), take k m)"
    by (rule ReadFull_append) simp
  ultimately have "Read_turn cap (c\<lparr>fc_Conn := feed (fc_Conn c) (take (2 + k) (frame m))\<rparr>) =
      (Await, c\<lparr>fc_Conn := feed (fc_Conn c) [], fc_readBuffer := take k m\<rparr>)" (is "_ = (Await, ?c1)")
    using assms header_val [OF assms(1)] by (auto simp: Read_turn_def fo_read_def Let_def CopyN_def session_errors good_def)
  moreover have "Read_turn cap (?c1\<lparr>fc_Conn := feed (fc_Conn c) (frame m)\<rparr>) =
      (Return (Inr (take k m)), ?c1\<lparr>fc_Conn := feed (fc_Conn c) (frame m), fc_readBuffer := [], fc_readIndex := fc_readIndex c + 1\<rparr>)"
    (is "_ = (_, ?c2)") using assms by (auto simp: Read_turn_def fo_read_def buffer_Read_def)
  moreover have "fst (Read_turn cap ?c2) = Return (Inr m)"
    using read_frame [of ?c2 m "[]" cap] assms by simp
  ultimately show ?thesis by (metis prod.collapse)
qed

text \<open>The read index counts calls, not frames: with room for one byte, a frame of two bytes counts twice.\<close>

lemma small_reads_count_twice:
  assumes "fc_readBuffer c = []" "incoming (fc_Conn c) = frame [x, y]"
  shows "\<exists>c1 c2. Read_turn 1 c = (Return (Inr [x]), c1) \<and> Read_turn 1 c1 = (Return (Inr [y]), c2) \<and> fc_readIndex c2 = fc_readIndex c + 2"
proof -
  have "Read_turn 1 c = (Return (Inr [x]), c\<lparr>fc_Conn := feed (fc_Conn c) [], fc_readBuffer := [y], fc_readIndex := fc_readIndex c + 1\<rparr>)"
    using read_frame_any [of c "[x, y]" "[]" 1] assms by (simp add: good_def)
  then show ?thesis by (simp add: Read_turn_def fo_read_def buffer_Read_def)
qed

text \<open>A peer that reports more frames than were written, as it then does, breaks the session.\<close>

lemma missing_ahead:
  assumes "fc_writeIndex c = word_of_nat n" "n < g" "g + room < 2 ^ 32"
  shows "missing room (word_of_nat g) c = None"
  using assms(2,3)
proof (induction room arbitrary: g)
  case (Suc room)
  have "missing room (word_of_nat (Suc g)) c = None" by (rule Suc.IH) (use Suc.prems in simp_all)
  moreover have "(word_of_nat g :: u32) \<noteq> word_of_nat n" using Suc.prems by (simp add: word_of_nat_eq_iff take_bit_nat_eq_self)
  ultimately show ?case using assms(1) by (subst missing.simps) (simp add: add.commute)
qed (use assms(1) in \<open>simp add: missing.simps word_of_nat_eq_iff take_bit_nat_eq_self\<close>)

text \<open>A handler that returns with the lock of its session held: an unknown command, or a status that cannot be written.\<close>

lemma handler_keeps_lock:
  "fst (snd (fo_connHandler request conn conns)) = False \<longleftrightarrow>
     fr_Command request \<noteq> CommandTCP \<and>
     (fr_Command request \<noteq> CommandReconnect \<or>
      conns (fr_UUID request) \<noteq> None \<and> fst (snd (conn_Write [StatusOK] conn)) \<noteq> None)"
  by (auto simp: fo_connHandler_def Let_def split: option.splits prod.splits)

text \<open>Without a delay, cycling through outbounds that fail does not end, whatever the context.\<close>

lemma dial_pass_fails: "\<forall>r \<in> set rs. \<exists>e. fst r = Inl e \<Longrightarrow> delay \<le> 0 \<Longrightarrow> fst (dial_pass delay rs err) = None"
  by (induction delay rs err rule: dial_pass.induct) auto

lemma cycle_spins:
  assumes "\<And>k r. r \<in> set (dials k) \<Longrightarrow> \<exists>e. fst r = Inl e" "delay \<le> 0"
  shows "cycleStrategy fuel delay dials k = None"
proof (induction fuel arbitrary: k)
  case (Suc fuel)
  have "fst (dial_pass delay (dials k) None) = None" by (rule dial_pass_fails) (use assms in auto)
  with Suc show ?case by (auto split: prod.splits option.splits)
qed simp

lemma sequential_first:
  assumes "\<forall>r \<in> set rs. \<exists>e. fst r = Inl e" "\<forall>r \<in> set rs. snd r = None"
  shows "sequentialStrategy delay (rs @ (Inr c, x) # qs) = Inr c"
proof -
  have "dial_pass delay (rs @ (Inr c, x) # qs) err = (Some (Inr c), snd (dial_pass delay (rs @ (Inr c, x) # qs) err))" for err
    using assms by (induction rs arbitrary: err) auto
  from this [of None] show ?thesis by (auto simp: sequentialStrategy_def split: prod.splits)
qed

section \<open>The properties\<close>

text \<open>
  C33. A failover session survives losing its connection at a frame boundary or inside a header: along every run of writes,
  failing writes, reads with room for a frame, such losses and reconnections, what each end has read is a
  prefix of what the other has written, frame by frame and without loss or repetition, and while a connection is up
  everything written and not yet read is on its way. And a \<open>Write\<close> that fails on the broken connection, after any number of
  bytes, goes on by itself: when at most ten frames are missing and the next dial succeeds, it returns the length written, and
  the new connection carries the count of frames read, the missing frames and then the new one, each once.
\<close>
theorem failover_resume_exact:
  assumes "reach session_init session_step s"
  shows "prefix (gotB s) (sentA s) \<and> prefix (gotA s) (sentB s) \<and>
    (up s \<longrightarrow> incoming (fc_Conn (endB s)) = concat (map frame (drop (length (gotB s)) (sentA s))) \<and>
              incoming (fc_Conn (endA s)) = concat (map frame (drop (length (gotA s)) (sentB s)))) \<and>
    (\<forall>conn rest m n e. willing conn \<and> incoming conn = PutUint32 (fc_readIndex (endB s)) @ rest \<and> length (sentA s) - length (gotB s) \<le> 10 \<longrightarrow>
       (\<exists>c. fo_Write m [Dialling [Dialled (Inr conn)]] (breaking n e (endA s)) = Some (Inr (int (length m)), c) \<and>
          outgoing (fc_Conn c) = outgoing conn @ PutUint32 (word_of_nat (length (gotA s))) @
            concat (map frame (drop (length (gotB s)) (sentA s) @ [m]))))"
proof -
  have inv: "session_inv s" by (rule failover.reach_inv [OF assms])
  have i: "fc_readIndex (endA s) = word_of_nat (length (gotA s))" using inv by (simp add: session_inv_def direction_def)
  have "\<exists>c. fo_Write m [Dialling [Dialled (Inr conn)]] (breaking n e (endA s)) = Some (Inr (int (length m)), c) \<and>
      outgoing (fc_Conn c) = outgoing conn @ PutUint32 (word_of_nat (length (gotA s))) @ concat (map frame (drop (length (gotB s)) (sentA s) @ [m]))"
    if "willing conn \<and> incoming conn = PutUint32 (fc_readIndex (endB s)) @ rest \<and> length (sentA s) - length (gotB s) \<le> 10" for conn rest m n e
    using write_resumes [OF inv, of conn rest m n e] that by (auto simp: BufferSize_def i)
  then show ?thesis using inv by (auto simp: session_inv_def direction_def in_flight_def)
qed

text \<open>
  C34. Restoring is exact in every session: given a connection on which the peer announces how many frames it has
  read, \<open>RestoreConn\<close> announces its own count and sends again exactly the frames the peer is missing, in order,
  when they are at most ten, and reports the session broken, with its state unchanged, when they are more.
\<close>
theorem failover_restore_exact:
  assumes "reach session_init session_step s" "willing conn" "incoming conn = PutUint32 (fc_readIndex (endB s)) @ rest"
  shows "RestoreConn conn (endA s) =
    (if length (sentA s) - length (gotB s) \<le> 10
     then (None, (endA s)\<lparr>fc_Conn := send (feed conn rest)
             (PutUint32 (word_of_nat (length (gotA s))) @ concat (map frame (drop (length (gotB s)) (sentA s))))\<rparr>)
     else (Some SessionBroken, endA s))"
proof -
  have inv: "direction (up s) (endA s) (endB s) (sentA s) (gotB s)" "fc_readIndex (endA s) = word_of_nat (length (gotA s))"
    using failover.reach_inv [OF assms(1)] by (auto simp: session_inv_def direction_def)
  moreover have "length (gotB s) \<le> length (sentA s)" using inv(1) by (auto simp: direction_def dest: prefix_length_le)
  ultimately show ?thesis
    using restore_exact [OF assms(2), of "length (gotB s)" rest "endA s" "sentA s"] assms(3)
    by (auto simp: direction_def BufferSize_def)
qed

text \<open>A session for the witnesses: one message is written, lost, and sent again on a new connection.\<close>

definition demo_init :: session where
  "demo_init = \<lparr>endA = NewFailoverConn (fresh_conn []), endB = NewFailoverConn (fresh_conn []), up = True,
     sentA = [], gotA = [], sentB = [], gotB = []\<rparr>"

definition demo_written :: failoverConn where
  "demo_written = \<lparr>fc_Conn = fresh_conn [], fc_readIndex = 0, fc_readBuffer = [], fc_writeIndex = 1,
     fc_writeBuffers = [1, 2] # replicate 9 [], fc_err = None\<rparr>"

definition demo_lost :: session where
  "demo_lost = demo_init\<lparr>endA := demo_written, sentA := [[1, 2]], up := False\<rparr>"

definition demo_restored :: session where
  "demo_restored = demo_lost\<lparr>up := True, endB := (endB demo_lost)\<lparr>fc_Conn := fresh_conn [0, 2, 1, 2]\<rparr>\<rparr>"

lemma demo_reachable: "reach session_init session_step demo_lost" "reach session_init session_step demo_restored"
proof -
  have "reach session_init session_step demo_init" by (rule reach_init) (simp add: session_init_def demo_init_def)
  moreover have "Write_turn [1, 2] (endA demo_init) = (Return 2, demo_written\<lparr>fc_Conn := (fresh_conn [])\<lparr>outgoing := [0, 2, 1, 2]\<rparr>\<rparr>)"
    by code_simp
  then have "end_step demo_init (demo_lost\<lparr>up := True, endB := arrive [0, 2, 1, 2] (endB demo_lost)\<rparr>)"
    using end_step.Write [of "[1, 2]" demo_init "2" "demo_written\<lparr>fc_Conn := (fresh_conn [])\<lparr>outgoing := [0, 2, 1, 2]\<rparr>\<rparr>"]
    by (simp add: good_def demo_init_def demo_lost_def demo_written_def fresh_conn_def flushed_def)
  ultimately have w: "reach session_init session_step (demo_lost\<lparr>up := True, endB := arrive [0, 2, 1, 2] (endB demo_lost)\<rparr>)"
    by (auto intro: reach_step simp: session_step_def)
  have "end_step (demo_lost\<lparr>up := True, endB := arrive [0, 2, 1, 2] (endB demo_lost)\<rparr>) demo_lost"
    using end_step.Break [of "demo_lost\<lparr>up := True, endB := arrive [0, 2, 1, 2] (endB demo_lost)\<rparr>" "[]" "[]" 0 0]
    by (simp add: demo_lost_def demo_init_def demo_written_def NewFailoverConn_def fresh_conn_def cut_short_def arrive_def feed_def)
  with w show l: "reach session_init session_step demo_lost" by (auto intro: reach_step simp: session_step_def)
  let ?a = "demo_written\<lparr>fc_Conn := (fresh_conn [])\<lparr>outgoing := [0, 0, 0, 0, 0, 2, 1, 2]\<rparr>\<rparr>"
  let ?b = "(NewFailoverConn (fresh_conn []))\<lparr>fc_Conn := \<lparr>incoming = [0, 2, 1, 2], outgoing = [0, 0, 0, 0], outcomes = []\<rparr>\<rparr>"
  have "RestoreConn (fresh_conn (outgoing (fc_Conn ?b))) (endA demo_lost) = (None, ?a)" by code_simp
  moreover have "RestoreConn (fresh_conn (outgoing (fc_Conn ?a))) (endB demo_lost) = (None, ?b)" by code_simp
  ultimately have "end_step demo_lost demo_restored"
    using end_step.Restore [of ?b demo_lost ?a]
    by (simp add: demo_restored_def demo_lost_def demo_init_def demo_written_def NewFailoverConn_def fresh_conn_def flushed_def)
  with l show "reach session_init session_step demo_restored" by (auto intro: reach_step simp: session_step_def)
qed

theorem failover_resume_exact_witness:
  "reach session_init session_step demo_restored \<and> incoming (fc_Conn (endB demo_restored)) = frame [1, 2] \<and>
   (\<exists>c. fo_Write [3] [Dialling [Dialled (Inr (fresh_conn [0, 0, 0, 0]))]] (breaking 2 EOF (endA demo_lost)) = Some (Inr 1, c) \<and>
     outgoing (fc_Conn c) = [0, 0, 0, 0] @ frame [1, 2] @ frame [3])"
proof -
  have z: "PutUint32 0 = [0, 0, 0, 0]" by code_simp
  have w: "willing (fresh_conn [0, 0, 0, 0])" "incoming (fresh_conn [0, 0, 0, 0]) = PutUint32 (fc_readIndex (endB demo_lost)) @ []"
    using z by (simp_all add: willing_def fresh_conn_def demo_lost_def demo_init_def NewFailoverConn_def)
  have f: "drop (length (gotB demo_lost)) (sentA demo_lost) = [[1, 2]]" "length (gotA demo_lost) = 0" "outgoing (fresh_conn x) = []" for x
    by (simp_all add: demo_lost_def demo_init_def fresh_conn_def)
  have "length (sentA demo_lost) - length (gotB demo_lost) \<le> 10" by (simp add: demo_lost_def)
  from conjunct2 [OF conjunct2 [OF conjunct2 [OF failover_resume_exact [OF demo_reachable(1)]]], rule_format, OF conjI [OF w(1) conjI [OF w(2) this]], of "[3]" 2 EOF]
  have "\<exists>c. fo_Write [3] [Dialling [Dialled (Inr (fresh_conn [0, 0, 0, 0]))]] (breaking 2 EOF (endA demo_lost)) = Some (Inr 1, c) \<and>
     outgoing (fc_Conn c) = [0, 0, 0, 0] @ frame [1, 2] @ frame [3]"
    by (simp add: f z [simplified] del: fo_Write.simps)
  moreover have "up demo_restored" "drop (length (gotB demo_restored)) (sentA demo_restored) = [[1, 2]]"
    by (simp_all add: demo_restored_def demo_lost_def demo_init_def)
  ultimately show ?thesis using demo_reachable(2) failover_resume_exact [OF demo_reachable(2)] by simp
qed

theorem failover_restore_exact_witness:
  "reach session_init session_step demo_lost \<and>
   RestoreConn (fresh_conn [0, 0, 0, 0]) (endA demo_lost) =
     (None, (endA demo_lost)\<lparr>fc_Conn := send (fresh_conn []) ([0, 0, 0, 0] @ frame [1, 2])\<rparr>)"
proof -
  have z: "PutUint32 0 = [0, 0, 0, 0]" by code_simp
  have "willing (fresh_conn [0, 0, 0, 0])" "incoming (fresh_conn [0, 0, 0, 0]) = PutUint32 (fc_readIndex (endB demo_lost)) @ []"
    using z by (simp_all add: willing_def fresh_conn_def demo_lost_def demo_init_def NewFailoverConn_def)
  from failover_restore_exact [OF demo_reachable(1) this] demo_reachable(1) z show ?thesis
    by (simp add: demo_lost_def demo_init_def feed_def fresh_conn_def)
qed

end
