(* ===== verification/Kmutex.thy ===== *)
theory Kmutex
  imports Prelude
begin

text \<open>
  The lock by key of \<open>common/kmutex/mutex.go\<close>, which the bond and failover inbounds use per session. The
  mutex \<open>km.l\<close> makes \<open>Lock\<close> and \<open>Unlock\<close> atomic up to \<open>cond.Wait\<close>, which gives it up and blocks until a
  \<open>Signal\<close>, given to the longest waiting goroutine, lets the caller go on.
\<close>

record 't klock =
  ref :: u64
  queue :: "'t list" \<comment> \<open>the goroutines in \<open>cond.Wait\<close>\<close>

text \<open>The entries of \<open>km.s\<close>, the goroutines signalled that have not gone on, and those past \<open>Lock\<close>.\<close>

record ('k, 't) kmutex =
  locks :: "'k \<rightharpoonup> 't klock"
  signalled :: "('t \<times> 'k) list"
  held :: "('t \<times> 'k) list"

definition km_New :: "('k, 't) kmutex" where
  "km_New = \<lparr>locks = Map.empty, signalled = [], held = []\<rparr>"

definition km_Lock :: "'t \<Rightarrow> 'k \<Rightarrow> ('k, 't) kmutex \<Rightarrow> ('k, 't) kmutex" where
  "km_Lock t k km =
     (case locks km k of
        None \<Rightarrow> km\<lparr>locks := (locks km)(k \<mapsto> \<lparr>ref = 1, queue = []\<rparr>), held := held km @ [(t, k)]\<rparr>
      | Some kl \<Rightarrow> km\<lparr>locks := (locks km)(k \<mapsto> \<lparr>ref = ref kl + 1, queue = queue kl @ [t]\<rparr>)\<rparr>)"

text \<open>\<open>Unlock\<close> panics on a key that is not locked; \<open>Signal\<close> with nobody waiting does nothing.\<close>

definition km_Unlock :: "'t \<Rightarrow> 'k \<Rightarrow> ('k, 't) kmutex \<Rightarrow> ('k, 't) kmutex option" where
  "km_Unlock t k km =
     (case locks km k of
        None \<Rightarrow> None
      | Some kl \<Rightarrow>
          if ref kl = 0 then None
          else
            let km = km\<lparr>held := remove1 (t, k) (held km)\<rparr> in
            if ref kl - 1 = 0 then Some (km\<lparr>locks := (locks km)(k := None)\<rparr>)
            else
              (case queue kl of
                 [] \<Rightarrow> Some (km\<lparr>locks := (locks km)(k \<mapsto> \<lparr>ref = ref kl - 1, queue = []\<rparr>)\<rparr>)
               | w # ws \<Rightarrow> Some (km\<lparr>locks := (locks km)(k \<mapsto> \<lparr>ref = ref kl - 1, queue = ws\<rparr>),
                                  signalled := signalled km @ [(w, k)]\<rparr>)))"

text \<open>A signalled goroutine takes \<open>km.l\<close> back and returns from \<open>Lock\<close>.\<close>

definition km_resume :: "'t \<times> 'k \<Rightarrow> ('k, 't) kmutex \<Rightarrow> ('k, 't) kmutex" where
  "km_resume w km = km\<lparr>signalled := remove1 w (signalled km), held := held km @ [w]\<rparr>"

text \<open>
  Clients that unlock only what they locked. The counter has 64 bits, so fewer than \<open>2 ^ 64\<close> goroutines are
  assumed to wait at once.
\<close>

inductive km_step :: "('k, 't) kmutex \<Rightarrow> ('k, 't) kmutex \<Rightarrow> bool" where
  Lock: "(\<And>kl. locks km k = Some kl \<Longrightarrow> length (queue kl) + 2 < 2 ^ 64) \<Longrightarrow> km_step km (km_Lock t k km)"
| Unlock: "(t, k) \<in> set (held km) \<Longrightarrow> km_Unlock t k km = Some km' \<Longrightarrow> km_step km km'"
| Resume: "w \<in> set (signalled km) \<Longrightarrow> km_step km (km_resume w km)"

section \<open>The invariant\<close>

text \<open>How many goroutines own a key, as holders or as the one signalled.\<close>

definition n_of :: "'k \<Rightarrow> ('t \<times> 'k) list \<Rightarrow> nat" where
  "n_of k ws = length (filter (\<lambda>w. snd w = k) ws)"

definition owners :: "'k \<Rightarrow> ('k, 't) kmutex \<Rightarrow> nat" where
  "owners k km = n_of k (held km) + n_of k (signalled km)"

definition km_inv :: "('k, 't) kmutex \<Rightarrow> bool" where
  "km_inv km \<longleftrightarrow> (\<forall>k. case locks km k of None \<Rightarrow> owners k km = 0
     | Some kl \<Rightarrow> owners k km = 1 \<and> unat (ref kl) = length (queue kl) + 1)"

lemma n_of_simps [simp]: "n_of k [] = 0" "n_of k (ws @ [w]) = n_of k ws + (if snd w = k then 1 else 0)"
  by (simp_all add: n_of_def)

lemma n_of_pos: "w \<in> set ws \<Longrightarrow> 0 < n_of (snd w) ws"
  by (auto simp: n_of_def filter_empty_conv)

lemma n_of_remove1: "w \<in> set ws \<Longrightarrow> n_of k (remove1 w ws) = n_of k ws - (if snd w = k then 1 else 0)"
  by (simp add: n_of_def filter_remove1 length_remove1)

lemma km_invD:
  assumes "km_inv km"
  shows "locks km k = None \<Longrightarrow> n_of k (held km) = 0 \<and> n_of k (signalled km) = 0"
    and "locks km k = Some kl \<Longrightarrow> n_of k (held km) + n_of k (signalled km) = 1 \<and> unat (ref kl) = length (queue kl) + 1"
  using spec [OF assms [unfolded km_inv_def], of k] by (simp_all add: owners_def)

lemma km_invI:
  assumes "\<And>k. locks km k = None \<Longrightarrow> n_of k (held km) + n_of k (signalled km) = 0"
    and "\<And>k kl. locks km k = Some kl \<Longrightarrow> n_of k (held km) + n_of k (signalled km) = 1 \<and> unat (ref kl) = length (queue kl) + 1"
  shows "km_inv km"
  using assms by (auto simp: km_inv_def owners_def split: option.split)

lemma km_inv_Lock:
  assumes inv: "km_inv km" and few: "\<And>kl. locks km k = Some kl \<Longrightarrow> length (queue kl) + 2 < 2 ^ 64"
  shows "km_inv (km_Lock t k km)"
proof (cases "locks km k")
  case None
  with km_invD [OF inv] show ?thesis by (intro km_invI) (auto simp: km_Lock_def split: if_splits)
next
  case (Some kl)
  have r: "unat (ref kl) = length (queue kl) + 1" using km_invD(2) [OF inv Some] by simp
  then have "unat (ref kl + 1) = unat (ref kl) + 1" using few [OF Some] by (simp add: unat_word_ariths)
  with km_invD [OF inv] Some r show ?thesis by (intro km_invI) (auto simp: km_Lock_def split: if_splits)
qed

lemma km_inv_Unlock:
  assumes inv: "km_inv km" and h: "(t, k) \<in> set (held km)"
  obtains km' where "km_Unlock t k km = Some km'" "km_inv km'"
proof -
  note n = n_of_pos [OF h] n_of_remove1 [OF h]
  from km_invD(1) [OF inv, of k] n(1) obtain kl where kl: "locks km k = Some kl" by (cases "locks km k") auto
  have q: "n_of k (held km) = 1" "n_of k (signalled km) = 0" "unat (ref kl) = length (queue kl) + 1"
    using km_invD(2) [OF inv kl] n(1) by auto
  then have nz: "ref kl \<noteq> 0" by auto
  have dec: "unat (ref kl - 1) = length (queue kl)" using q(3) nz by (simp add: unat_minus_one)
  then have zero: "ref kl - 1 = 0 \<longleftrightarrow> queue kl = []" by (metis length_0_conv unat_eq_zero)
  show ?thesis
  proof (cases "queue kl")
    case Nil
    let ?km = "km\<lparr>held := remove1 (t, k) (held km), locks := (locks km)(k := None)\<rparr>"
    have "km_Unlock t k km = Some ?km" using kl nz zero Nil by (simp add: km_Unlock_def Let_def)
    moreover have "km_inv ?km" using km_invD [OF inv] q n(2) by (intro km_invI) (auto split: if_splits)
    ultimately show ?thesis by (rule that)
  next
    case (Cons w ws)
    let ?km = "km\<lparr>held := remove1 (t, k) (held km), locks := (locks km)(k \<mapsto> \<lparr>ref = ref kl - 1, queue = ws\<rparr>), signalled := signalled km @ [(w, k)]\<rparr>"
    have "km_Unlock t k km = Some ?km" using kl nz zero Cons by (simp add: km_Unlock_def Let_def)
    moreover have "km_inv ?km" using km_invD [OF inv] q n(2) dec Cons by (intro km_invI) (auto split: if_splits)
    ultimately show ?thesis by (rule that)
  qed
qed

lemma km_inv_resume:
  assumes inv: "km_inv km" and w: "w \<in> set (signalled km)"
  shows "km_inv (km_resume w km)"
proof -
  have "n_of k (held (km_resume w km)) + n_of k (signalled (km_resume w km)) = n_of k (held km) + n_of k (signalled km)" for k
    using n_of_remove1 [OF w, of k] n_of_pos [OF w] by (auto simp: km_resume_def)
  moreover have "locks (km_resume w km) = locks km" by (simp add: km_resume_def)
  ultimately show ?thesis using km_invD [OF inv] by (intro km_invI) auto
qed

interpretation kmutexes: invariant_system "\<lambda>km. km = km_New" km_step km_inv
proof
  fix km :: "('a, 'b) kmutex"
  show "km = km_New \<Longrightarrow> km_inv km" by (simp add: km_inv_def km_New_def owners_def)
next
  fix km km' :: "('a, 'b) kmutex"
  assume "km_inv km" "km_step km km'"
  from this(2,1) show "km_inv km'"
    by cases (auto intro: km_inv_Lock km_inv_resume elim: km_inv_Unlock)
qed

section \<open>The property\<close>

text \<open>
  C37. The lock by key is a lock and loses no wake-up: along every run in which goroutines unlock only keys they
  hold, no two of them hold the same key, unlocking a held key does not panic, and whenever somebody waits
  for a key, exactly one goroutine either holds it or has been signalled to take it.
\<close>
theorem kmutex_exclusive:
  assumes "reach (\<lambda>km. km = km_New) km_step km"
  shows "((t, k) \<in> set (held km) \<and> (t', k) \<in> set (held km) \<longrightarrow> t = t') \<and>
    ((t, k) \<in> set (held km) \<longrightarrow> km_Unlock t k km \<noteq> None) \<and>
    (locks km k = Some kl \<and> queue kl \<noteq> [] \<longrightarrow> owners k km = 1)"
proof -
  have inv: "km_inv km" using kmutexes.reach_inv [OF assms] .
  have "n_of k (held km) \<le> 1" using km_invD [OF inv, of k] by (cases "locks km k") auto
  then have "t = t'" if "(t, k) \<in> set (held km)" "(t', k) \<in> set (held km)"
  proof (rule contrapos_pp)
    assume "t \<noteq> t'"
    with that have "card {(t, k), (t', k)} \<le> card (set (filter (\<lambda>w. snd w = k) (held km)))" by (intro card_mono) auto
    also have "\<dots> \<le> n_of k (held km)" unfolding n_of_def by (rule card_length)
    finally show "\<not> n_of k (held km) \<le> 1" using \<open>t \<noteq> t'\<close> by simp
  qed
  moreover have "km_Unlock t k km \<noteq> None" if "(t, k) \<in> set (held km)" by (rule km_inv_Unlock [OF inv that]) simp
  moreover have "owners k km = 1" if "locks km k = Some kl" using km_invD(2) [OF inv that] by (simp add: owners_def)
  ultimately show ?thesis by blast
qed

theorem kmutex_exclusive_witness:
  "reach (\<lambda>km. km = km_New) km_step (km_Lock (2::nat) ''a'' (km_Lock 1 ''a'' km_New)) \<and>
   owners ''a'' (km_Lock (2::nat) ''a'' (km_Lock 1 ''a'' km_New)) = 1"
proof -
  let ?km = "km_Lock (2::nat) ''a'' (km_Lock 1 ''a'' km_New)"
  have "reach (\<lambda>km. km = km_New) km_step (km_Lock (1::nat) ''a'' km_New)"
    by (rule reach_step) (rule reach_init, rule refl, rule km_step.Lock, simp add: km_New_def)
  then have r: "reach (\<lambda>km. km = km_New) km_step ?km"
    by (rule reach_step) (rule km_step.Lock, simp add: km_New_def km_Lock_def)
  moreover have "locks ?km ''a'' = Some \<lparr>ref = 2, queue = [2]\<rparr>" by (simp add: km_Lock_def km_New_def)
  ultimately show ?thesis using kmutex_exclusive [OF r, of 1 "''a''" 1 "\<lparr>ref = 2, queue = [2]\<rparr>"] by simp
qed

end
