(* ===== verification/Tls_Fragment.thy ===== *)
theory Tls_Fragment
  imports Go_Strings
begin

text \<open>
  Fragmenting the ClientHello (\<open>common/tlsfragment\<close>): \<open>index.go\<close> finds the server name in the first write of a
  connection, \<open>conn.go\<close> cuts that write inside the name into several packets, several TLS records or both.
  The public suffix list is a parameter. Waiting for an acknowledgement between packets is left out.
\<close>

section \<open>Finding the server name\<close>

record MyServerName =
  sn_Index :: nat
  sn_Length :: nat
  sn_ServerName :: bytes
  sn_ExtensionsListLengthIndex :: nat

text \<open>Two bytes as a \<open>uint16\<close>.\<close>

definition pair16 :: "bytes \<Rightarrow> nat \<Rightarrow> nat" where
  "pair16 bs i = unat (bs ! i) * 256 + unat (bs ! (i + 1))"

definition server_name_in :: "bytes \<Rightarrow> nat \<Rightarrow> MyServerName option" where
  "server_name_in sex currentIndex =
     (if length sex < 5 then None
      else if sex ! 2 \<noteq> 0 then None
      else Some \<lparr>sn_Index = currentIndex + 4 + 5, sn_Length = pair16 sex 3, sn_ServerName = drop 5 sex,
                 sn_ExtensionsListLengthIndex = 0\<rparr>)"

text \<open>
  The loop over the extensions. The slice \<open>exs[4+exLen:]\<close> is computed in \<open>uint16\<close>, so it may wrap around and
  the loop need not end; \<open>None\<close> is then its value.
\<close>

partial_function (option) extensions_loop :: "bytes \<Rightarrow> nat \<Rightarrow> MyServerName option option" where
  "extensions_loop exs currentIndex =
     (if exs = [] then Some None
      else if length exs < 4 then Some None
      else if length exs < 4 + pair16 exs 2 then Some None
      else if pair16 exs 0 = 0 then Some (server_name_in (slice 4 (4 + pair16 exs 2) exs) currentIndex)
      else extensions_loop (drop (unat (4 + word_of_nat (pair16 exs 2) :: u16)) exs) (currentIndex + 4 + pair16 exs 2))"

definition indexTLSServerNameFromExtensions :: "bytes \<Rightarrow> MyServerName option option" where
  "indexTLSServerNameFromExtensions exs =
     (if length exs < 2 then Some None
      else if length (drop 2 exs) < pair16 exs 0 then Some None
      else extensions_loop (drop 2 exs) 2)"

definition indexTLSServerNameFromHandshake :: "bytes \<Rightarrow> MyServerName option option" where
  "indexTLSServerNameFromHandshake handshake =
     (if length handshake < 39 then Some None
      else if handshake ! 0 \<noteq> 1 then Some None
      else if length (drop 4 handshake) \<noteq> be_val (slice 1 4 handshake) then Some None
      else if (word_of_nat (pair16 handshake 4) :: u16) AND 0xFFFC \<noteq> 0x0300 \<and> pair16 handshake 4 \<noteq> 0x0304 then Some None
      else
        let currentIndex = 39 + unat (handshake ! 38) in
        if length handshake < currentIndex then Some None
        else
          let cipherSuites = drop currentIndex handshake in
          if length cipherSuites < 2 then Some None
          else
            let csLen = pair16 cipherSuites 0 in
            if length cipherSuites < 2 + csLen + 1 then Some None
            else
              let currentIndex = currentIndex + 2 + csLen + 1 + unat (cipherSuites ! (2 + csLen)) in
              if length handshake < currentIndex then Some None
              else map_option (map_option (\<lambda>sn. sn\<lparr>sn_Index := sn_Index sn + currentIndex, sn_ExtensionsListLengthIndex := currentIndex\<rparr>))
                     (indexTLSServerNameFromExtensions (drop currentIndex handshake)))"

definition IndexTLSServerName :: "bytes \<Rightarrow> MyServerName option option" where
  "IndexTLSServerName payload =
     (if length payload < 5 \<or> payload ! 0 \<noteq> 22 then Some None
      else if length payload < 5 + pair16 payload 3 then Some None
      else map_option (map_option (\<lambda>sn. sn\<lparr>sn_Index := sn_Index sn + 5,
                sn_ExtensionsListLengthIndex := sn_ExtensionsListLengthIndex sn + 5\<rparr>))
             (indexTLSServerNameFromHandshake (drop 5 payload)))"

section \<open>The connection\<close>

text \<open>The labels that are cut, and where the first of them starts.\<close>

definition labels :: "(bytes \<Rightarrow> bytes) \<Rightarrow> bytes \<Rightarrow> nat \<Rightarrow> bytes list \<times> nat" where
  "labels publicSuffix name currentIndex =
     (let splits = split_by dot name;
          splits = (if publicSuffix name \<noteq> [] then take (length splits - count_list name dot) splits else splits) in
      if 1 < length splits \<and> hd splits = [dot, dot, dot] then (tl splits, currentIndex + length (hd splits) + 1)
      else (splits, currentIndex))"

text \<open>
  One cut in each label, at \<open>rand.Intn(len(split))\<close>, which panics for an empty label; \<open>rnd i\<close> is the \<open>i\<close>-th
  random number, reduced to the range.
\<close>

fun split_indexes :: "(nat \<Rightarrow> nat) \<Rightarrow> nat \<Rightarrow> nat \<Rightarrow> bytes list \<Rightarrow> nat list option" where
  "split_indexes rnd i currentIndex [] = Some []"
| "split_indexes rnd i currentIndex (split # splits) =
     (if split = [] then None
      else map_option (Cons (currentIndex + rnd i mod length split))
             (split_indexes rnd (Suc i) (currentIndex + length split + (if splits = [] then 0 else 1)) splits))"

text \<open>The slices between the cuts; cuts out of order or out of range panic.\<close>

fun cut_at :: "nat \<Rightarrow> nat list \<Rightarrow> bytes \<Rightarrow> bytes list option" where
  "cut_at p [] b = (if p \<le> length b then Some [drop p b] else None)"
| "cut_at p (i # is) b = (if p \<le> i \<and> i \<le> length b then map_option (Cons (slice p i b)) (cut_at i is b) else None)"

record fragConn =
  fg_tcpConn :: bool
  fg_firstPacketWritten :: bool
  fg_splitPacket :: bool
  fg_splitRecord :: bool

definition record_of :: "bytes \<Rightarrow> bytes \<Rightarrow> bytes" where
  "record_of b payload = take 3 b @ PutUint16 (word_of_nat (length payload)) @ payload"

text \<open>The payloads, and the packets they are written as; with neither option there are none.\<close>

definition packets :: "bool \<Rightarrow> bool \<Rightarrow> bytes \<Rightarrow> bytes list \<Rightarrow> bytes list" where
  "packets splitPacket splitRecord b ps =
     (let qs = (if splitRecord then map (record_of b) ps else ps) in
      if splitPacket then qs else if splitRecord then [concat qs] else [])"

text \<open>Writes in turn, by the error of each; what was written when one fails includes it.\<close>

fun write_packets :: "(nat \<Rightarrow> (nat \<times> go_error) option) \<Rightarrow> nat \<Rightarrow> bytes list \<Rightarrow> go_error option \<times> bytes list" where
  "write_packets werr i [] = (None, [])"
| "write_packets werr i (p # ps) =
     (case werr i of Some (n, e) \<Rightarrow> (Some e, [p])
      | None \<Rightarrow> (case write_packets werr (Suc i) ps of (err, ws) \<Rightarrow> (err, p # ws)))"

text \<open>
  \<open>Write\<close>, with the errors of \<open>SetNoDelay\<close> and those of the writes, each with the bytes it still took: the count and error it returns and the writes
  it makes. The first write of the connection is the one cut.
\<close>

definition frag_Write ::
  "(bytes \<Rightarrow> bytes) \<Rightarrow> (nat \<Rightarrow> nat) \<Rightarrow> (bool \<Rightarrow> go_error option) \<Rightarrow> (nat \<Rightarrow> (nat \<times> go_error) option) \<Rightarrow> bytes \<Rightarrow> fragConn \<Rightarrow>
     ((nat \<times> go_error option \<times> bytes list) \<times> fragConn) option" where
  "frag_Write publicSuffix rnd noDelay werr b c =
     (let plain = (case werr 0 of None \<Rightarrow> (length b, None, [b]) | Some (n, e) \<Rightarrow> (n, Some e, [b]));
          c' = c\<lparr>fg_firstPacketWritten := True\<rparr> in
      if fg_firstPacketWritten c \<or> b = [] then Some (plain, c)
      else
        case IndexTLSServerName b of
          None \<Rightarrow> None
        | Some None \<Rightarrow> Some (plain, c')
        | Some (Some sn) \<Rightarrow>
            if fg_splitPacket c \<and> fg_tcpConn c \<and> noDelay True \<noteq> None then Some ((0, noDelay True, []), c')
            else
              case labels publicSuffix (sn_ServerName sn) (sn_Index sn) of
                (splits, currentIndex) \<Rightarrow>
                  (case split_indexes rnd 0 currentIndex splits of
                     None \<Rightarrow> None
                   | Some [] \<Rightarrow> None
                   | Some (i # is) \<Rightarrow>
                       if fg_splitRecord c \<and> i < 5 then None
                       else
                         (case cut_at (if fg_splitRecord c then 5 else 0) (i # is) b of
                            None \<Rightarrow> None
                          | Some ps \<Rightarrow>
                              (case write_packets werr 0 (packets (fg_splitPacket c) (fg_splitRecord c) b ps) of
                                 (Some e, ws) \<Rightarrow> Some ((0, Some e, ws), c')
                               | (None, ws) \<Rightarrow>
                                   if fg_tcpConn c \<and> noDelay False \<noteq> None then Some ((0, noDelay False, ws), c')
                                   else Some ((length b, None, ws), c')))))"

section \<open>The index is right and the scan ends\<close>

text \<open>A name found at its index.\<close>

definition name_at :: "MyServerName \<Rightarrow> bytes \<Rightarrow> bool" where
  "name_at sn b \<longleftrightarrow> (\<exists>p q. b = p @ sn_ServerName sn @ q \<and> length p = sn_Index sn)"

definition found :: "bytes \<Rightarrow> MyServerName option option \<Rightarrow> bool" where
  "found b r \<longleftrightarrow> (\<exists>s. r = Some s \<and> (\<forall>sn. s = Some sn \<longrightarrow> name_at sn b))"

lemma found_None [simp]: "found b (Some None)"
  by (simp add: found_def)

lemma found_shift:
  assumes "found (drop k b) r" "k \<le> length b" "\<And>sn. sn_Index (f sn) = sn_Index sn + k" "\<And>sn. sn_ServerName (f sn) = sn_ServerName sn"
  shows "found b (map_option (map_option f) r)"
proof -
  have "name_at (f sn) b" if "name_at sn (drop k b)" for sn
  proof -
    from that obtain p q where "drop k b = p @ sn_ServerName sn @ q" "length p = sn_Index sn" by (auto simp: name_at_def)
    then have "b = (take k b @ p) @ sn_ServerName sn @ q" by (metis append.assoc append_take_drop_id)
    then show ?thesis unfolding name_at_def
      by (intro exI [of _ "take k b @ p"] exI [of _ q]) (use assms \<open>length p = sn_Index sn\<close> in simp)
  qed
  then show ?thesis using assms(1) by (auto simp: found_def)
qed

lemma pair16_less: "pair16 bs i < 65536"
  using unat_bound [of "bs ! i"] unat_bound [of "bs ! (i + 1)"] by (simp add: pair16_def)

lemma server_name_in_found:
  assumes "4 + n \<le> length exs" "full = pre @ exs" "length pre = i"
  shows "found full (Some (server_name_in (slice 4 (4 + n) exs) i))"
proof -
  have "exs = take 4 exs @ slice 4 (4 + n) exs @ drop (4 + n) exs"
    by (simp add: slice_def) (metis append.assoc append_take_drop_id take_add)
  then have "full = pre @ take 4 exs @ slice 4 (4 + n) exs @ drop (4 + n) exs" using assms(2) by simp
  moreover have "slice 4 (4 + n) exs = take 5 (slice 4 (4 + n) exs) @ drop 5 (slice 4 (4 + n) exs)" by simp
  ultimately have f: "full = (pre @ take 4 exs @ take 5 (slice 4 (4 + n) exs)) @ drop 5 (slice 4 (4 + n) exs) @ drop (4 + n) exs"
    by (metis append.assoc)
  have "name_at sn full" if "server_name_in (slice 4 (4 + n) exs) i = Some sn" for sn
    unfolding name_at_def
    by (intro exI [of _ "pre @ take 4 exs @ take 5 (slice 4 (4 + n) exs)"] exI [of _ "drop (4 + n) exs"])
      (use that f assms in \<open>auto simp: server_name_in_def split: if_splits\<close>)
  then show ?thesis by (auto simp: found_def)
qed

lemma extensions_loop_found:
  "length exs < 65536 \<Longrightarrow> full = pre @ exs \<Longrightarrow> length pre = i \<Longrightarrow> found full (extensions_loop exs i)"
proof (induction "length exs" arbitrary: exs pre i rule: less_induct)
  case less
  let ?n = "pair16 exs 2"
  show ?case
  proof (cases "exs = [] \<or> length exs < 4 \<or> length exs < 4 + ?n \<or> pair16 exs 0 = 0")
    case True
    then show ?thesis using server_name_in_found [of ?n exs full pre i] less.prems
      by (subst extensions_loop.simps) auto
  next
    case False
    then have l: "4 + ?n \<le> length exs" "4 \<le> length exs" by auto
    have "(4 + word_of_nat ?n :: u16) = word_of_nat (4 + ?n)" by simp
    then have "unat (4 + word_of_nat ?n :: u16) = 4 + ?n" using l less.prems(1) by (simp only: unat_of_nat) simp
    moreover have "found full (extensions_loop (drop (4 + ?n) exs) (i + 4 + ?n))"
      by (rule less.hyps [of _ "pre @ take (4 + ?n) exs"]) (use l less.prems in auto)
    ultimately show ?thesis using False by (subst extensions_loop.simps) simp
  qed
qed

lemma IndexTLSServerName_found:
  assumes "length b < 65536"
  shows "found b (IndexTLSServerName b)"
proof -
  have exts: "found exs (indexTLSServerNameFromExtensions exs)" if "length exs < 65536" for exs
    using that extensions_loop_found [of "drop 2 exs" exs "take 2 exs" 2] by (auto simp: indexTLSServerNameFromExtensions_def)
  have hand: "found h (indexTLSServerNameFromHandshake h)" if "length h < 65536" for h
    using that unfolding indexTLSServerNameFromHandshake_def Let_def
    by (auto intro!: found_shift exts)
  show ?thesis using assms unfolding IndexTLSServerName_def by (auto intro!: found_shift hand)
qed

text \<open>
  An extension of 65532 bytes, which needs a longer input: \<open>4+exLen\<close> is zero, the loop looks at the same
  extension again and never ends.
\<close>

lemma extensions_loop_stuck:
  assumes "pair16 exs 2 = 65532" "65536 \<le> length exs" "pair16 exs 0 \<noteq> 0"
  shows "extensions_loop exs i = None"
proof -
  have "xs \<noteq> exs" if "extensions_loop xs j = Some y" for xs j y
  proof (rule extensions_loop.raw_induct [OF _ that, of "\<lambda>xs j y. xs \<noteq> exs"])
    fix rec xs j y
    assume 1: "\<And>xs j y. rec xs j = Some y \<Longrightarrow> xs \<noteq> exs"
      "(if xs = [] then Some None
        else if length xs < 4 then Some None
        else if length xs < 4 + pair16 xs 2 then Some None
        else if pair16 xs 0 = 0 then Some (server_name_in (slice 4 (4 + pair16 xs 2) xs) j)
        else rec (drop (unat (4 + word_of_nat (pair16 xs 2) :: u16)) xs) (j + 4 + pair16 xs 2)) = Some y"
    show "xs \<noteq> exs"
    proof
      assume x: "xs = exs"
      have "unat (4 + word_of_nat (pair16 exs 2) :: u16) = 0" unfolding assms(1) by simp
      then have "rec exs (j + 4 + pair16 exs 2) = Some y" using 1(2) assms x by (auto split: if_splits)
      from 1(1) [OF this] show False by simp
    qed
  qed
  then show ?thesis by (cases "extensions_loop exs i") auto
qed

section \<open>The cuts\<close>

text \<open>How long labels are with the separators between them.\<close>

definition joined_length :: "bytes list \<Rightarrow> nat" where
  "joined_length splits = sum_list (map length splits) + (length splits - 1)"

lemma joined_length_Cons: "joined_length (s # ss) = length s + (if ss = [] then 0 else 1 + joined_length ss)"
  by (cases ss) (simp_all add: joined_length_def)

lemma split_by_length: "joined_length (split_by d xs) = length xs"
proof (induction xs)
  case (Cons x xs)
  then show ?case by (cases "split_by d xs") (auto simp: joined_length_Cons split: if_splits)
qed (simp add: joined_length_def)

lemma joined_length_take: "joined_length (take k splits) \<le> joined_length splits"
proof (induction splits arbitrary: k)
  case (Cons s ss)
  then show ?case by (cases k) (auto simp: joined_length_Cons joined_length_def [of "[]"] add_mono)
qed simp

text \<open>The special case for a first label of three dots never applies, and with a public suffix one label is left.\<close>

lemma labels_eq:
  "labels publicSuffix name i =
     (if publicSuffix name \<noteq> [] then [hd (split_by dot name)] else split_by dot name, i)"
proof -
  have one: "take (length (split_by dot name) - count_list name dot) (split_by dot name) = [hd (split_by dot name)]"
    unfolding split_by_count by (cases "split_by dot name") simp_all
  have "hd (split_by dot name) \<noteq> [dot, dot, dot]"
    using split_by_no_sep [of "hd (split_by dot name)" dot name] by auto
  then show ?thesis by (auto simp: labels_def Let_def one simp del: diff_add_inverse)
qed

lemma split_indexes_ok:
  "\<forall>s \<in> set splits. s \<noteq> [] \<Longrightarrow> \<exists>is. split_indexes rnd i cur splits = Some is \<and> length is = length splits \<and> sorted is \<and>
     (\<forall>x \<in> set is. cur \<le> x \<and> x < cur + joined_length splits)"
proof (induction splits arbitrary: i cur)
  case (Cons s ss)
  let ?cur = "cur + length s + (if ss = [] then 0 else 1)"
  from Cons.IH [of "Suc i" ?cur] Cons.prems obtain js where js: "split_indexes rnd (Suc i) ?cur ss = Some js" "length js = length ss" "sorted js"
    "\<forall>x \<in> set js. ?cur \<le> x \<and> x < ?cur + joined_length ss" by auto
  have s: "rnd i mod length s < length s" using Cons.prems by simp
  then have "\<forall>x \<in> set js. cur + rnd i mod length s \<le> x" using js(4) by fastforce
  moreover have "\<forall>x \<in> set js. cur \<le> x \<and> x < cur + joined_length (s # ss)"
    using js by (auto simp: joined_length_Cons split: if_splits)
  moreover have "cur + rnd i mod length s < cur + joined_length (s # ss)" using s by (simp add: joined_length_Cons)
  ultimately show ?case using js Cons.prems by simp
qed simp

lemma cut_at_exact:
  "sorted is \<Longrightarrow> \<forall>x \<in> set is. p \<le> x \<and> x \<le> length b \<Longrightarrow> p \<le> length b \<Longrightarrow>
     \<exists>ps. cut_at p is b = Some ps \<and> concat ps = drop p b \<and> length ps = length is + 1"
proof (induction "is" arbitrary: p)
  case (Cons i js)
  from Cons.IH [of i] Cons.prems obtain ps where ps: "cut_at i js b = Some ps" "concat ps = drop i b" "length ps = length js + 1"
    by auto
  have "slice p i b @ drop i b = drop p b"
    using Cons.prems by (simp add: slice_def) (metis add_diff_inverse_nat append_take_drop_id drop_drop le_add_diff_inverse2 not_less)
  with ps Cons.prems show ?case by simp
qed simp

section \<open>Records\<close>

lemma be_bytes_two: "be_bytes 2 n = [word_of_nat (n div 256), word_of_nat n]"
  by (simp add: numeral_2_eq_2)

lemma be_bytes_two_nonempty [simp]: "be_bytes 2 n \<noteq> []"
  by (simp add: be_bytes_two)

lemma pair16_be: "i = length p \<Longrightarrow> n < 65536 \<Longrightarrow> pair16 (p @ be_bytes 2 n @ q) i = n"
proof -
  assume "i = length p" "n < 65536"
  moreover from this have "n div 256 mod 256 = n div 256" by simp
  ultimately show ?thesis unfolding be_bytes_two pair16_def by (simp add: nth_append)
qed

text \<open>A reader of TLS records: the type and version of each and its payload.\<close>

function read_records :: "bytes \<Rightarrow> (bytes \<times> bytes) list option" where
  "read_records b =
     (if b = [] then Some []
      else if length b < 5 \<or> length b < 5 + pair16 b 3 then None
      else map_option (Cons (take 3 b, slice 5 (5 + pair16 b 3) b)) (read_records (drop (5 + pair16 b 3) b)))"
  by pat_completeness auto
termination
  by (relation "measure length") auto

declare read_records.simps [simp del]

lemma read_records_of:
  assumes "3 \<le> length b" "\<forall>p \<in> set ps. length p < 65536"
  shows "read_records (concat (map (record_of b) ps)) = Some (map (\<lambda>p. (take 3 b, p)) ps)"
  using assms(2)
proof (induction ps)
  case Nil
  then show ?case by (simp add: read_records.simps)
next
  case (Cons p ps)
  let ?h = "PutUint16 (word_of_nat (length p))"
  let ?r = "concat (map (record_of b) ps)"
  have u: "unat (word_of_nat (length p) :: u16) = length p" using Cons.prems by (simp add: unat_of_nat)
  have c: "concat (map (record_of b) (p # ps)) = take 3 b @ ?h @ p @ ?r" by (simp add: record_of_def)
  have n: "pair16 (take 3 b @ ?h @ p @ ?r) 3 = length p" unfolding u by (rule pair16_be) (use assms(1) Cons.prems in simp_all)
  have l: "length (take 3 b @ ?h) = 5" using assms(1) by simp
  have "slice 5 (5 + length p) ((take 3 b @ ?h) @ p @ ?r) = p" by (rule slice_exact) (use l in simp_all)
  moreover have "drop (5 + length p) ((take 3 b @ ?h) @ p @ ?r) = ?r" using l by (simp only: drop_append) simp
  moreover have "take 3 ((take 3 b @ ?h) @ p @ ?r) = take 3 b" using assms(1) by simp
  ultimately show ?case unfolding c using n l Cons by (subst read_records.simps) simp
qed

section \<open>A ClientHello\<close>

definition hello_extension :: "nat \<Rightarrow> bytes \<Rightarrow> bytes" where
  "hello_extension t body = be_bytes 2 t @ be_bytes 2 (length body) @ body"

definition server_name_list :: "bytes \<Rightarrow> bytes" where
  "server_name_list host = be_bytes 2 (length host + 3) @ [0] @ be_bytes 2 (length host) @ host"

text \<open>The parts of a hello: version, random, session id, cipher suites, compression methods and extensions.\<close>

record hello =
  h_version :: bytes
  h_random :: bytes
  h_session :: bytes
  h_ciphers :: bytes
  h_methods :: bytes
  h_before :: "(nat \<times> bytes) list" \<comment> \<open>the extensions before the server name\<close>
  h_host :: bytes
  h_after :: bytes

definition hello_extensions :: "hello \<Rightarrow> bytes" where
  "hello_extensions h = concat (map (\<lambda>(t, body). hello_extension t body) (h_before h)) @
     hello_extension 0 (server_name_list (h_host h)) @ h_after h"

definition hello_prefix :: "hello \<Rightarrow> bytes" where
  "hello_prefix h = h_version h @ h_random h @ [word_of_nat (length (h_session h))] @ h_session h @
     be_bytes 2 (length (h_ciphers h)) @ h_ciphers h @ [word_of_nat (length (h_methods h))] @ h_methods h"

definition hello_body :: "hello \<Rightarrow> bytes" where
  "hello_body h = hello_prefix h @ be_bytes 2 (length (hello_extensions h)) @ hello_extensions h"

definition hello_record :: "byte \<Rightarrow> byte \<Rightarrow> hello \<Rightarrow> bytes" where
  "hello_record v v' h = [22, v, v'] @ be_bytes 2 (4 + length (hello_body h)) @ [1] @ be_bytes 3 (length (hello_body h)) @ hello_body h"

definition wf_hello :: "hello \<Rightarrow> bool" where
  "wf_hello h \<longleftrightarrow> h_version h = [3, 3] \<and> length (h_random h) = 32 \<and> length (h_session h) < 256 \<and>
     length (h_methods h) < 256 \<and> (\<forall>(t, body) \<in> set (h_before h). t \<noteq> 0 \<and> t < 65536) \<and>
     length (hello_body h) < 65500"

lemma extensions_loop_skip:
  assumes "t \<noteq> 0" "t < 65536" "length body < 65532"
  shows "extensions_loop (hello_extension t body @ q) i = extensions_loop q (i + 4 + length body)"
proof -
  let ?exs = "hello_extension t body @ q"
  have t: "pair16 ?exs 0 = t" using pair16_be [of 0 "[]" t] assms(2) by (simp add: hello_extension_def)
  have n: "pair16 ?exs 2 = length body"
    using pair16_be [of 2 "be_bytes 2 t" "length body" "body @ q"] assms(3) by (simp add: hello_extension_def)
  have "(4 + word_of_nat (length body) :: u16) = word_of_nat (4 + length body)" by simp
  then have "unat (4 + word_of_nat (length body) :: u16) = 4 + length body" using assms(3) by (simp only: unat_of_nat) simp
  moreover have "drop (4 + length body) ?exs = q" by (simp add: hello_extension_def)
  ultimately show ?thesis using t n assms(1) by (subst extensions_loop.simps) (simp add: hello_extension_def add.commute)
qed

lemma extensions_loop_name:
  assumes "length host < 65527"
  shows "extensions_loop (hello_extension 0 (server_name_list host) @ q) i =
    Some (Some \<lparr>sn_Index = i + 9, sn_Length = length host, sn_ServerName = host, sn_ExtensionsListLengthIndex = 0\<rparr>)"
proof -
  let ?l = "server_name_list host"
  let ?exs = "hello_extension 0 ?l @ q"
  have l: "length ?l = 5 + length host" by (simp add: server_name_list_def)
  have t: "pair16 ?exs 0 = 0" using pair16_be [of 0 "[]" 0] by (simp add: hello_extension_def)
  have n: "pair16 ?exs 2 = 5 + length host"
    using pair16_be [of 2 "be_bytes 2 0" "length ?l" "?l @ q"] assms l by (simp add: hello_extension_def)
  have s: "slice 4 (4 + (5 + length host)) ?exs = ?l"
    using slice_exact [of 4 "be_bytes 2 0 @ be_bytes 2 (length ?l)" "4 + (5 + length host)" ?l q] l by (simp add: hello_extension_def)
  have "pair16 ?l 3 = length host"
    using pair16_be [of 3 "be_bytes 2 (length host + 3) @ [0]" "length host" host] assms by (simp add: server_name_list_def)
  moreover have "?l ! 2 = 0" "drop 5 ?l = host" by (simp_all add: server_name_list_def nth_append)
  ultimately have "server_name_in ?l i = Some \<lparr>sn_Index = i + 9, sn_Length = length host, sn_ServerName = host, sn_ExtensionsListLengthIndex = 0\<rparr>"
    using l by (simp add: server_name_in_def)
  with t n s l show ?thesis by (subst extensions_loop.simps) (simp add: hello_extension_def)
qed

lemma extensions_loop_list:
  assumes "\<forall>(t, body) \<in> set es. t \<noteq> 0 \<and> t < 65536 \<and> length body < 65532" "length host < 65527"
  shows "\<exists>j. extensions_loop (concat (map (\<lambda>(t, body). hello_extension t body) es) @ hello_extension 0 (server_name_list host) @ q) i =
    Some (Some \<lparr>sn_Index = j, sn_Length = length host, sn_ServerName = host, sn_ExtensionsListLengthIndex = 0\<rparr>)"
  using assms(1)
proof (induction es arbitrary: i)
  case Nil
  then show ?case using extensions_loop_name [OF assms(2)] by simp
next
  case (Cons e es)
  obtain t body where e: "e = (t, body)" by fastforce
  from Cons.IH [of "i + 4 + length body"] Cons.prems show ?case
    using extensions_loop_skip [of t body] by (simp add: e)
qed

lemma hello_extensions_index:
  assumes "wf_hello h"
  shows "\<exists>j. indexTLSServerNameFromExtensions (be_bytes 2 (length (hello_extensions h)) @ hello_extensions h) =
    Some (Some \<lparr>sn_Index = j, sn_Length = length (h_host h), sn_ServerName = h_host h, sn_ExtensionsListLengthIndex = 0\<rparr>)"
proof -
  have len: "length (hello_extensions h) < 65500" using assms by (simp add: wf_hello_def hello_body_def)
  have body: "length body < 65532" if "(t, body) \<in> set (h_before h)" for t body
  proof -
    have "length (hello_extension t body) \<le> length (concat (map (\<lambda>(t, body). hello_extension t body) (h_before h)))"
      using that by (simp add: length_concat) (rule member_le_sum_list, force, simp)
    then show ?thesis using len by (simp add: hello_extensions_def hello_extension_def)
  qed
  have "length (h_host h) < 65527" using len by (simp add: hello_extensions_def hello_extension_def server_name_list_def)
  then have "\<exists>j. extensions_loop (hello_extensions h) 2 =
      Some (Some \<lparr>sn_Index = j, sn_Length = length (h_host h), sn_ServerName = h_host h, sn_ExtensionsListLengthIndex = 0\<rparr>)"
    unfolding hello_extensions_def by (intro extensions_loop_list) (use assms body in \<open>auto simp: wf_hello_def\<close>)
  moreover have "pair16 (be_bytes 2 (length (hello_extensions h)) @ hello_extensions h) 0 = length (hello_extensions h)"
    using pair16_be [of 0 "[]"] len by simp
  ultimately show ?thesis by (simp add: indexTLSServerNameFromExtensions_def)
qed

lemma nth_mid: "i = length p \<Longrightarrow> (p @ x # q) ! i = x"
  by simp

lemma drop_exact: "i = length p \<Longrightarrow> drop i (p @ q) = q"
  by simp

lemma hello_handshake_index:
  assumes "wf_hello h"
  shows "\<exists>j k. indexTLSServerNameFromHandshake ([1] @ be_bytes 3 (length (hello_body h)) @ hello_body h) =
    Some (Some \<lparr>sn_Index = j, sn_Length = length (h_host h), sn_ServerName = h_host h, sn_ExtensionsListLengthIndex = k\<rparr>)"
proof -
  let ?n = "length (hello_body h)"
  let ?hs = "[1] @ be_bytes 3 ?n @ hello_body h"
  let ?exts = "be_bytes 2 (length (hello_extensions h)) @ hello_extensions h"
  let ?tail = "[word_of_nat (length (h_methods h))] @ h_methods h @ ?exts"
  let ?suites = "be_bytes 2 (length (h_ciphers h)) @ h_ciphers h @ ?tail"
  let ?start = "[1] @ be_bytes 3 ?n @ [3, 3] @ h_random h"
  have w: "h_version h = [3, 3]" "length (h_random h) = 32" "length (h_session h) < 256" "length (h_methods h) < 256" "?n < 65500"
    using assms by (simp_all add: wf_hello_def)
  have hs: "?hs = ?start @ [word_of_nat (length (h_session h))] @ h_session h @ ?suites"
    by (simp add: hello_body_def hello_prefix_def w(1))
  have start: "length ?start = 38" using w(2) by simp
  have size: "39 + length (h_session h) + length ?suites = 4 + ?n" using arg_cong [OF hs, of length] start by simp
  have ver: "pair16 ?hs 4 = 0x0303" by (simp add: pair16_def nth_append hello_body_def hello_prefix_def w(1))
  have val: "be_val (slice 1 4 ?hs) = ?n"
    using slice_exact [of 1 "[1]" 4 "be_bytes 3 ?n" "hello_body h"] w(5) by (simp add: be_val_be_bytes)
  have sid: "unat (?hs ! 38) = length (h_session h)" unfolding hs using start w(3) nth_mid [OF start [symmetric]] by simp
  have suites: "drop (39 + length (h_session h)) ?hs = ?suites"
    using drop_exact [of "39 + length (h_session h)" "?start @ [word_of_nat (length (h_session h))] @ h_session h" ?suites] start
    unfolding hs by simp
  have cs: "pair16 ?suites 0 = length (h_ciphers h)" using pair16_be [of 0 "[]" "length (h_ciphers h)"] size w(5) by simp
  have meth: "unat (?suites ! (2 + length (h_ciphers h))) = length (h_methods h)"
    using w(4) nth_mid [of "2 + length (h_ciphers h)" "be_bytes 2 (length (h_ciphers h)) @ h_ciphers h"] by simp
  let ?i = "39 + length (h_session h) + 2 + length (h_ciphers h) + 1 + length (h_methods h)"
  have exts: "drop ?i ?hs = ?exts"
  proof -
    have "drop ?i ?hs = drop (3 + length (h_ciphers h) + length (h_methods h)) ?suites"
      unfolding suites [symmetric] drop_drop by (rule arg_cong [where f = "\<lambda>n. drop n ?hs"]) simp
    then show ?thesis by simp
  qed
  have i: "?i + length ?exts = 4 + ?n" using size by simp
  from hello_extensions_index [OF assms] obtain j where "indexTLSServerNameFromExtensions ?exts =
      Some (Some \<lparr>sn_Index = j, sn_Length = length (h_host h), sn_ServerName = h_host h, sn_ExtensionsListLengthIndex = 0\<rparr>)" by blast
  moreover have "indexTLSServerNameFromHandshake ?hs =
      map_option (map_option (\<lambda>sn. sn\<lparr>sn_Index := sn_Index sn + ?i, sn_ExtensionsListLengthIndex := ?i\<rparr>)) (indexTLSServerNameFromExtensions ?exts)"
    unfolding indexTLSServerNameFromHandshake_def Let_def sid suites cs meth val ver exts using size i by simp
  ultimately show ?thesis by auto
qed

lemma hello_index:
  assumes "wf_hello h"
  obtains sn where "IndexTLSServerName (hello_record v v' h) = Some (Some sn)" "sn_ServerName sn = h_host h"
    "name_at sn (hello_record v v' h)"
proof -
  let ?b = "hello_record v v' h"
  let ?hs = "[1] @ be_bytes 3 (length (hello_body h)) @ hello_body h"
  have n: "length (hello_body h) < 65500" using assms by (simp add: wf_hello_def)
  have "pair16 ?b 3 = 4 + length (hello_body h)"
    using pair16_be [of 3 "[22, v, v']" "4 + length (hello_body h)" ?hs] n by (simp add: hello_record_def)
  moreover have "drop 5 ?b = ?hs" by (simp add: hello_record_def)
  moreover from hello_handshake_index [OF assms] obtain j k where "indexTLSServerNameFromHandshake ?hs =
      Some (Some \<lparr>sn_Index = j, sn_Length = length (h_host h), sn_ServerName = h_host h, sn_ExtensionsListLengthIndex = k\<rparr>)" by blast
  moreover have "length ?b = 9 + length (hello_body h)" "?b ! 0 = 22" by (simp_all add: hello_record_def)
  ultimately have "IndexTLSServerName ?b =
      Some (Some \<lparr>sn_Index = j + 5, sn_Length = length (h_host h), sn_ServerName = h_host h, sn_ExtensionsListLengthIndex = k + 5\<rparr>)"
    by (simp add: IndexTLSServerName_def)
  moreover have "found ?b (IndexTLSServerName ?b)" by (rule IndexTLSServerName_found) (use n in \<open>simp add: hello_record_def\<close>)
  ultimately show ?thesis using that by (auto simp: found_def)
qed

section \<open>Cutting\<close>

lemma name_index_ge:
  assumes "IndexTLSServerName b = Some (Some sn)"
  shows "5 \<le> sn_Index sn" "5 \<le> length b"
  using assms by (auto simp: IndexTLSServerName_def split: if_splits)

text \<open>What the first write becomes, for labels that are not empty.\<close>

lemma frag_payloads:
  assumes "length b < 65536" "IndexTLSServerName b = Some (Some sn)" "k \<le> 5"
    and ne: "\<forall>s \<in> set (fst (labels publicSuffix (sn_ServerName sn) (sn_Index sn))). s \<noteq> []"
  obtains i "is" ps where
    "split_indexes rnd 0 (sn_Index sn) (fst (labels publicSuffix (sn_ServerName sn) (sn_Index sn))) = Some (i # is)"
    "cut_at k (i # is) b = Some ps" "concat ps = drop k b"
    "length ps = length (fst (labels publicSuffix (sn_ServerName sn) (sn_Index sn))) + 1" "5 \<le> i"
    "i = sn_Index sn + rnd 0 mod length (hd (split_by dot (sn_ServerName sn)))"
proof -
  let ?name = "sn_ServerName sn"
  let ?ls = "fst (labels publicSuffix ?name (sn_Index sn))"
  have ls: "?ls = (if publicSuffix ?name \<noteq> [] then [hd (split_by dot ?name)] else split_by dot ?name)" by (simp add: labels_eq)
  then have hd: "?ls \<noteq> []" "hd ?ls = hd (split_by dot ?name)" by simp_all
  have "joined_length ?ls \<le> length ?name"
    using split_by_length [of dot ?name] joined_length_take [of 1 "split_by dot ?name"]
    by (cases "split_by dot ?name") (auto simp: ls)
  moreover from IndexTLSServerName_found [OF assms(1)] assms(2) obtain p q where "b = p @ ?name @ q" "length p = sn_Index sn"
    by (auto simp: found_def name_at_def)
  ultimately have inb: "sn_Index sn + joined_length ?ls \<le> length b" by simp
  from split_indexes_ok [OF ne, of rnd 0 "sn_Index sn"] obtain js where js:
    "split_indexes rnd 0 (sn_Index sn) ?ls = Some js" "length js = length ?ls" "sorted js"
    "\<forall>x \<in> set js. sn_Index sn \<le> x \<and> x < sn_Index sn + joined_length ?ls" by auto
  then obtain i "is" where i: "js = i # is" using hd(1) by (cases js) auto
  obtain l ls' where l: "?ls = l # ls'" using hd(1) by (cases ?ls) auto
  then have "i = sn_Index sn + rnd 0 mod length (hd (split_by dot ?name))" using js(1) i hd(2) by (auto split: if_splits)
  moreover have "\<forall>x \<in> set js. k \<le> x \<and> x \<le> length b" using js(4) inb assms(3) name_index_ge [OF assms(2)] by fastforce
  then obtain ps where "cut_at k js b = Some ps" "concat ps = drop k b" "length ps = length js + 1"
    using cut_at_exact [OF js(3), of k b] assms(3) name_index_ge [OF assms(2)] by fastforce
  moreover have "5 \<le> i" using js(4) i name_index_ge [OF assms(2)] by fastforce
  ultimately show ?thesis using that js(1,2) i by metis
qed

lemma write_packets_all: "\<forall>i. werr i = None \<Longrightarrow> write_packets werr i ps = (None, ps)"
  by (induction ps arbitrary: i) simp_all

section \<open>The properties\<close>

text \<open>
  C38. The server name of a ClientHello is found where it is, and the scan always ends: every write of fewer than
  65536 bytes is answered, with nothing or with a name that stands in the bytes at the index reported, and for
  a well-formed hello with a server name the answer is that name.
\<close>
theorem tls_name_indexed:
  assumes "length b < 65536"
  shows "(\<exists>s. IndexTLSServerName b = Some s \<and> (\<forall>sn. s = Some sn \<longrightarrow> name_at sn b)) \<and>
    (\<forall>h v v'. wf_hello h \<and> b = hello_record v v' h \<longrightarrow> (\<exists>sn. IndexTLSServerName b = Some (Some sn) \<and> sn_ServerName sn = h_host h))"
  using IndexTLSServerName_found [OF assms] hello_index unfolding found_def by metis

definition demo_hello :: hello where
  "demo_hello = \<lparr>h_version = [3, 3], h_random = replicate 32 7, h_session = [], h_ciphers = [0x13, 0x01], h_methods = [0],
     h_before = [(10, [0, 2])], h_host = [97, 98, 46, 99], h_after = []\<rparr>"

lemma demo_hello_wf: "wf_hello demo_hello" "length (hello_record 3 1 demo_hello) < 65536"
  by (simp_all add: wf_hello_def demo_hello_def hello_record_def hello_body_def hello_prefix_def hello_extensions_def hello_extension_def server_name_list_def)

theorem tls_name_indexed_witness:
  "\<exists>sn. IndexTLSServerName (hello_record 3 1 demo_hello) = Some (Some sn) \<and> sn_ServerName sn = [97, 98, 46, 99] \<and>
     name_at sn (hello_record 3 1 demo_hello)"
proof -
  note t = tls_name_indexed [OF demo_hello_wf(2)]
  then obtain sn where "IndexTLSServerName (hello_record 3 1 demo_hello) = Some (Some sn)" "sn_ServerName sn = h_host demo_hello"
    using demo_hello_wf(1) by blast
  with t show ?thesis by (auto simp: demo_hello_def)
qed

text \<open>
  C39. Fragmenting changes how the hello travels and nothing else: the first write is reported as written in full;
  as packets its pieces are the bytes handed in, as records they are records of the same type and version whose
  payloads together are the original payload, one piece more than there are labels to cut; the first cut is in
  the first label of the name at the random offset. Every later write, whatever its bytes, is passed on as it is, and so is
  a first write that is not a hello; an empty one does not even count as the first.
\<close>
theorem tls_fragment_exact:
  assumes "length b < 65536" "IndexTLSServerName b = Some (Some sn)" "\<not> fg_firstPacketWritten c"
    and "\<forall>s \<in> set (fst (labels publicSuffix (sn_ServerName sn) (sn_Index sn))). s \<noteq> []"
    and "\<forall>i. werr i = None" "\<forall>d. noDelay d = None" "fg_splitPacket c \<or> fg_splitRecord c"
  shows "\<exists>ws ps. frag_Write publicSuffix rnd noDelay werr b c = Some ((length b, None, ws), c\<lparr>fg_firstPacketWritten := True\<rparr>) \<and>
    length ps = length (fst (labels publicSuffix (sn_ServerName sn) (sn_Index sn))) + 1 \<and>
    concat ps = (if fg_splitRecord c then drop 5 b else b) \<and>
    hd ps = slice (if fg_splitRecord c then 5 else 0) (sn_Index sn + rnd 0 mod length (hd (split_by dot (sn_ServerName sn)))) b \<and>
    (fg_splitRecord c \<longrightarrow> read_records (concat ws) = Some (map (\<lambda>p. (take 3 b, p)) ps)) \<and>
    (fg_splitPacket c \<longrightarrow> length ws = length ps \<and> (\<not> fg_splitRecord c \<longrightarrow> ws = ps)) \<and>
    (\<forall>b'. frag_Write publicSuffix rnd noDelay werr b' (c\<lparr>fg_firstPacketWritten := True\<rparr>) =
       Some ((length b', None, [b']), c\<lparr>fg_firstPacketWritten := True\<rparr>)) \<and>
    (\<forall>b'. b' \<noteq> [] \<and> IndexTLSServerName b' = Some None \<longrightarrow>
       frag_Write publicSuffix rnd noDelay werr b' c = Some ((length b', None, [b']), c\<lparr>fg_firstPacketWritten := True\<rparr>)) \<and>
    frag_Write publicSuffix rnd noDelay werr [] c = Some ((0, None, [[]]), c)"
    (is "\<exists>ws ps. ?P ws ps")
proof -
  obtain ls where lab: "labels publicSuffix (sn_ServerName sn) (sn_Index sn) = (ls, sn_Index sn)" by (simp add: labels_eq)
  let ?k = "if fg_splitRecord c then 5 else 0 :: nat"
  have k: "?k \<le> 5" by simp
  obtain i "is" ps where i: "split_indexes rnd 0 (sn_Index sn) ls = Some (i # is)"
    and ps: "cut_at ?k (i # is) b = Some ps" "concat ps = drop ?k b" "length ps = length ls + 1"
    and i': "5 \<le> i" "i = sn_Index sn + rnd 0 mod length (hd (split_by dot (sn_ServerName sn)))"
    by (rule frag_payloads [OF assms(1,2) k assms(4), of rnd, unfolded lab fst_conv])
  have hd: "hd ps = slice ?k i b" using ps(1) by (auto split: if_splits)
  have b: "b \<noteq> []" "3 \<le> length b" using name_index_ge [OF assms(2)] by auto
  let ?ws = "packets (fg_splitPacket c) (fg_splitRecord c) b ps"
  have small: "\<forall>p \<in> set ps. length p < 65536"
  proof
    fix p assume "p \<in> set ps"
    then have "length p \<le> length (concat ps)" by (auto simp: length_concat intro!: member_le_sum_list)
    then show "length p < 65536" using ps(2) assms(1) by simp
  qed
  have "frag_Write publicSuffix rnd noDelay werr b c = Some ((length b, None, ?ws), c\<lparr>fg_firstPacketWritten := True\<rparr>)"
    using assms(3) b(1) i i'(1) ps(1) write_packets_all [of werr] assms(5,6)
    by (simp add: frag_Write_def assms(2) lab Let_def del: cut_at.simps)
  moreover have "frag_Write publicSuffix rnd noDelay werr b' (c\<lparr>fg_firstPacketWritten := True\<rparr>) =
      Some ((length b', None, [b']), c\<lparr>fg_firstPacketWritten := True\<rparr>)"
    "b' \<noteq> [] \<Longrightarrow> IndexTLSServerName b' = Some None \<Longrightarrow>
       frag_Write publicSuffix rnd noDelay werr b' c = Some ((length b', None, [b']), c\<lparr>fg_firstPacketWritten := True\<rparr>)"
    "frag_Write publicSuffix rnd noDelay werr [] c = Some ((0, None, [[]]), c)" for b'
    using assms(3,5) by (simp_all add: frag_Write_def)
  moreover have "fg_splitRecord c \<Longrightarrow> concat ?ws = concat (map (record_of b) ps)" by (simp add: packets_def Let_def)
  moreover have "fg_splitPacket c \<Longrightarrow> length ?ws = length ps" "fg_splitPacket c \<Longrightarrow> \<not> fg_splitRecord c \<Longrightarrow> ?ws = ps" by (simp_all add: packets_def Let_def)
  ultimately have "?P ?ws ps" using ps hd i'(2) read_records_of [OF b(2) small] by (auto simp: lab)
  then show ?thesis by blast
qed

theorem tls_fragment_exact_witness:
  "\<exists>ws ps. frag_Write (\<lambda>_. [99]) (\<lambda>_. 1) (\<lambda>_. None) (\<lambda>_. None) (hello_record 3 1 demo_hello)
       \<lparr>fg_tcpConn = True, fg_firstPacketWritten = False, fg_splitPacket = True, fg_splitRecord = True\<rparr> =
     Some ((length (hello_record 3 1 demo_hello), None, ws),
       \<lparr>fg_tcpConn = True, fg_firstPacketWritten = True, fg_splitPacket = True, fg_splitRecord = True\<rparr>) \<and>
     length ps = 2 \<and> concat ps = drop 5 (hello_record 3 1 demo_hello) \<and>
     read_records (concat ws) = Some (map (\<lambda>p. (take 3 (hello_record 3 1 demo_hello), p)) ps) \<and>
     frag_Write (\<lambda>_. [99]) (\<lambda>_. 1) (\<lambda>_. None) (\<lambda>_. None) [23, 3, 3]
       \<lparr>fg_tcpConn = True, fg_firstPacketWritten = True, fg_splitPacket = True, fg_splitRecord = True\<rparr> =
     Some ((3, None, [[23, 3, 3]]), \<lparr>fg_tcpConn = True, fg_firstPacketWritten = True, fg_splitPacket = True, fg_splitRecord = True\<rparr>)"
proof -
  let ?b = "hello_record 3 1 demo_hello"
  let ?c = "\<lparr>fg_tcpConn = True, fg_firstPacketWritten = False, fg_splitPacket = True, fg_splitRecord = True\<rparr>"
  from hello_index [OF demo_hello_wf(1), of 3 1] obtain sn where sn: "IndexTLSServerName ?b = Some (Some sn)" "sn_ServerName sn = [97, 98, 46, 99]"
    by (auto simp: demo_hello_def)
  then have ls: "fst (labels (\<lambda>_. [99]) (sn_ServerName sn) (sn_Index sn)) = [[97, 98]]" by (simp add: labels_eq)
  obtain ws ps where "frag_Write (\<lambda>_. [99]) (\<lambda>_. 1) (\<lambda>_. None) (\<lambda>_. None) ?b ?c = Some ((length ?b, None, ws), ?c\<lparr>fg_firstPacketWritten := True\<rparr>)"
    "length ps = length [[97, 98] :: bytes] + 1" "concat ps = drop 5 ?b" "read_records (concat ws) = Some (map (\<lambda>p. (take 3 ?b, p)) ps)"
    "\<forall>b'. frag_Write (\<lambda>_. [99]) (\<lambda>_. 1) (\<lambda>_. None) (\<lambda>_. None) b' (?c\<lparr>fg_firstPacketWritten := True\<rparr>) =
      Some ((length b', None, [b']), ?c\<lparr>fg_firstPacketWritten := True\<rparr>)"
    using tls_fragment_exact [OF demo_hello_wf(2) sn(1), of ?c "\<lambda>_. [99]" "\<lambda>_. None" "\<lambda>_. None" "\<lambda>_. 1"] unfolding ls by auto
  then show ?thesis by (intro exI [of _ ws] exI [of _ ps]) simp
qed

text \<open>
  The draw may be zero, and for a label of one byte it always is: then the whole name stays in one piece. With
  neither option the write is reported as done but nothing is written, and an empty first label panics.
\<close>

lemma one_byte_label_uncut: "length (hd (split_by dot name)) = 1 \<Longrightarrow> rnd mod length (hd (split_by dot name)) = 0"
  by simp

lemma empty_label_panics:
  assumes "IndexTLSServerName b = Some (Some sn)" "\<not> fg_firstPacketWritten c" "hd (split_by dot (sn_ServerName sn)) = []"
    and "\<forall>d. noDelay d = None"
  shows "frag_Write publicSuffix rnd noDelay werr b c = None"
proof -
  let ?ls = "if publicSuffix (sn_ServerName sn) \<noteq> [] then [hd (split_by dot (sn_ServerName sn))] else split_by dot (sn_ServerName sn)"
  have "split_indexes rnd 0 (sn_Index sn) ?ls = None"
    using assms(3) by (cases "split_by dot (sn_ServerName sn)") auto
  moreover have "labels publicSuffix (sn_ServerName sn) (sn_Index sn) = (?ls, sn_Index sn)" by (rule labels_eq)
  moreover have "b \<noteq> []" using name_index_ge [OF assms(1)] by auto
  ultimately show ?thesis using assms(2,4) by (simp only: frag_Write_def assms(1) Let_def) simp
qed

end
