(* ===== verification/Tunnel_Obfuscator.thy ===== *)
theory Tunnel_Obfuscator
  imports Obfs Go_Sha256 Go_Strings
begin

text \<open>
  The obfuscator of the call tunnels (\<open>transport/call/tunnel/obfuscator.go\<close>): payloads sealed under a key
  derived from the join link and dressed as VP8 frames, with an epoch that tells the ends of a tunnel, their
  echoes and their restarts apart. XChaCha20-Poly1305 and the random source are parameters.
\<close>

section \<open>Headers\<close>

definition vp8Keepalive :: bytes where
  "vp8Keepalive = [0x30, 0x01, 0x00, 0x9d, 0x01, 0x2a, 0x10, 0x00, 0x10, 0x00, 0x00, 0x47, 0x08, 0x85, 0x85, 0x88,
     0x99, 0x84, 0x88, 0xfc]"

definition vp8Interframe :: bytes where
  "vp8Interframe = [0xb1, 0x01, 0x00, 0x08, 0x11, 0x18, 0x00, 0x18, 0x00, 0x18, 0x58, 0x2f, 0xf4, 0x00, 0x08, 0x00, 0x00]"

definition vp8KeepaliveLen :: nat where "vp8KeepaliveLen = 20"
definition vp8InterframeLen :: nat where "vp8InterframeLen = 17"
definition epochFieldLen :: nat where "epochFieldLen = 4"
definition keepaliveHdrLen :: nat where "keepaliveHdrLen = vp8KeepaliveLen + epochFieldLen"
definition interframeHdrLen :: nat where "interframeHdrLen = vp8InterframeLen + epochFieldLen"

lemmas vp8_lens = vp8KeepaliveLen_def vp8InterframeLen_def epochFieldLen_def keepaliveHdrLen_def interframeHdrLen_def

definition ErrEmptySecret :: go_error where
  "ErrEmptySecret = New ''tunnel: obfuscator requires a non-empty secret''"

record DecodeResult =
  HasFrame :: bool
  dr_Keepalive :: bool
  SelfEcho :: bool
  PeerRestart :: bool
  dr_Payload :: bytes
  PeerEpoch :: u32

definition no_frame :: DecodeResult where
  "no_frame = \<lparr>HasFrame = False, dr_Keepalive = False, SelfEcho = False, PeerRestart = False, dr_Payload = [], PeerEpoch = 0\<rparr>"

record TunnelObfuscator =
  to_aead :: aead
  localEpoch :: u32
  peerEpoch :: u32
  hasPeer :: bool

text \<open>The nonce of XChaCha20-Poly1305 (\<open>aead.NonceSize()\<close>).\<close>

definition xNonceSize :: nat where "xNonceSize = 24"

section \<open>The secret of a join link\<close>

definition extractJoinToken :: "gostring \<Rightarrow> gostring" where
  "extractJoinToken joinLink =
     (let s = TrimSpace joinLink;
          s = TrimRightByte slash s;
          s = takeWhile (\<lambda>c. c \<noteq> question) s;
          s = takeWhile (\<lambda>c. c \<noteq> hash) s in
      after_last slash s)"

definition DeriveSecretFromJoinLink :: "gostring \<Rightarrow> bytes" where
  "DeriveSecretFromJoinLink joinLink = extractJoinToken joinLink"

definition NewTunnelObfuscator :: "(bytes \<Rightarrow> go_error + aead) \<Rightarrow> go_error + bytes \<Rightarrow> bytes \<Rightarrow> go_error + TunnelObfuscator" where
  "NewTunnelObfuscator newX rnd secret =
     (if secret = [] then Inl ErrEmptySecret
      else case newX (Sum256 secret) of Inl e \<Rightarrow> Inl e
      | Inr a \<Rightarrow>
          (case rnd of Inl e \<Rightarrow> Inl e
           | Inr epochBytes \<Rightarrow>
               let epoch = Uint32 epochBytes in
               Inr \<lparr>to_aead = a, localEpoch = (if epoch = 0 then 1 else epoch), peerEpoch = 0, hasPeer = False\<rparr>))"

section \<open>Frames\<close>

definition keepaliveHeader :: "TunnelObfuscator \<Rightarrow> bytes" where
  "keepaliveHeader ob = vp8Keepalive @ PutUint32 (localEpoch ob)"

definition dataHeader :: "TunnelObfuscator \<Rightarrow> bytes" where
  "dataHeader ob = vp8Interframe @ PutUint32 (localEpoch ob)"

text \<open>\<open>EncodeKeepalive\<close> with the padding that \<open>rand.Read\<close> gives.\<close>

definition EncodeKeepalive :: "go_error + bytes \<Rightarrow> int \<Rightarrow> TunnelObfuscator \<Rightarrow> bytes" where
  "EncodeKeepalive pad padLen ob =
     (let hdr = keepaliveHeader ob in
      if padLen \<le> 0 then hdr else case pad of Inl _ \<Rightarrow> hdr | Inr bs \<Rightarrow> hdr @ bs)"

text \<open>With the random nonce; \<open>None\<close> is a nil slice.\<close>

definition EncodeData :: "go_error + bytes \<Rightarrow> bytes \<Rightarrow> TunnelObfuscator \<Rightarrow> bytes option" where
  "EncodeData rnd payload ob =
     (case rnd of Inl _ \<Rightarrow> None
      | Inr nonce \<Rightarrow> Some (dataHeader ob @ nonce @ Seal (to_aead ob) nonce payload []))"

definition EncryptPayload :: "go_error + bytes \<Rightarrow> bytes \<Rightarrow> TunnelObfuscator option \<Rightarrow> bytes option" where
  "EncryptPayload rnd plaintext obf =
     (case obf of None \<Rightarrow> Some plaintext
      | Some ob \<Rightarrow> (case rnd of Inl _ \<Rightarrow> None | Inr nonce \<Rightarrow> Some (nonce @ Seal (to_aead ob) nonce plaintext [])))"

definition DecryptPayload :: "bytes \<Rightarrow> TunnelObfuscator option \<Rightarrow> bytes option" where
  "DecryptPayload data obf =
     (case obf of None \<Rightarrow> Some data
      | Some ob \<Rightarrow>
          if length data < xNonceSize + aead_Overhead then None
          else Open (to_aead ob) (take xNonceSize data) (drop xNonceSize data) [])"

definition Decode :: "bytes \<Rightarrow> TunnelObfuscator \<Rightarrow> DecodeResult \<times> TunnelObfuscator" where
  "Decode frm ob =
     (if frm = [] then (no_frame, ob)
      else if frm ! 0 \<noteq> vp8Keepalive ! 0 \<and> frm ! 0 \<noteq> vp8Interframe ! 0 then (no_frame, ob)
      else
        let isKeepaliveFrame = (frm ! 0 = vp8Keepalive ! 0);
            hdrLen = (if isKeepaliveFrame then keepaliveHdrLen else interframeHdrLen);
            epochOff = (if isKeepaliveFrame then vp8KeepaliveLen else vp8InterframeLen) in
        if length frm < hdrLen then (no_frame, ob)
        else
          let epoch = Uint32 (slice epochOff (epochOff + epochFieldLen) frm) in
          if epoch = localEpoch ob then (no_frame\<lparr>HasFrame := True, SelfEcho := True, PeerEpoch := epoch\<rparr>, ob)
          else
            let res = no_frame\<lparr>HasFrame := True, PeerEpoch := epoch, PeerRestart := hasPeer ob \<and> peerEpoch ob \<noteq> epoch\<rparr>;
                ob = ob\<lparr>peerEpoch := epoch, hasPeer := True\<rparr> in
            if isKeepaliveFrame \<or> length frm = hdrLen then (res\<lparr>dr_Keepalive := True\<rparr>, ob)
            else
              let body = drop hdrLen frm in
              if length body < xNonceSize + aead_Overhead then (no_frame, ob)
              else
                case Open (to_aead ob) (take xNonceSize body) (drop xNonceSize body) [] of
                  None \<Rightarrow> (no_frame, ob)
                | Some plaintext \<Rightarrow> (res\<lparr>dr_Payload := plaintext\<rparr>, ob))"

section \<open>What the peer makes of a frame\<close>

lemma vp8_facts [simp]: "length vp8Keepalive = 20" "length vp8Interframe = 17" "vp8Keepalive ! 0 = 0x30" "vp8Interframe ! 0 = 0xb1"
  "vp8Keepalive \<noteq> []" "vp8Interframe \<noteq> []"
  by (simp_all add: vp8Keepalive_def vp8Interframe_def)

lemma payload_roundtrip:
  assumes "aead_laws (to_aead ob)" "to_aead p = to_aead ob" "length nonce = 24"
    and "EncryptPayload (Inr nonce) m (Some ob) = Some w"
  shows "DecryptPayload w (Some p) = Some m"
  using assms by (auto simp: EncryptPayload_def DecryptPayload_def xNonceSize_def aead_Overhead_def aead_lawsD)

text \<open>What the peer learns from a frame with an epoch other than its own, before it looks at the body.\<close>

definition met :: "u32 \<Rightarrow> TunnelObfuscator \<Rightarrow> TunnelObfuscator" where
  "met epoch ob = ob\<lparr>peerEpoch := epoch, hasPeer := True\<rparr>"

definition meeting :: "u32 \<Rightarrow> TunnelObfuscator \<Rightarrow> DecodeResult" where
  "meeting epoch ob = no_frame\<lparr>HasFrame := True, PeerEpoch := epoch, PeerRestart := hasPeer ob \<and> peerEpoch ob \<noteq> epoch\<rparr>"

lemma Decode_data:
  assumes "length h = 17" "h ! 0 = 0xb1" "epoch \<noteq> localEpoch ob" "body \<noteq> []"
  shows "Decode (h @ PutUint32 epoch @ body) ob =
    (if length body < 40 then (no_frame, met epoch ob)
     else case Open (to_aead ob) (take 24 body) (drop 24 body) [] of
       None \<Rightarrow> (no_frame, met epoch ob)
     | Some plaintext \<Rightarrow> ((meeting epoch ob)\<lparr>dr_Payload := plaintext\<rparr>, met epoch ob))"
proof -
  let ?f = "h @ PutUint32 epoch @ body"
  have "h \<noteq> []" using assms(1) by auto
  then have f: "?f \<noteq> []" "?f ! 0 = 0xb1" using assms(2) by (simp_all add: nth_append)
  have "slice 17 21 ?f = PutUint32 epoch" using slice_exact [of 17 h 21 "PutUint32 epoch" body] assms(1) by simp
  then have e: "Uint32 (slice 17 21 ?f) = epoch" by simp
  have "drop 21 ?f = body" "length ?f = 21 + length body" using assms(1) by simp_all
  with f e assms(3,4) show ?thesis
    by (simp add: Decode_def vp8_lens xNonceSize_def aead_Overhead_def met_def meeting_def Let_def split: option.split)
qed

lemma Decode_keepalive:
  assumes "epoch \<noteq> localEpoch ob"
  shows "Decode (vp8Keepalive @ PutUint32 epoch @ pad) ob = ((meeting epoch ob)\<lparr>dr_Keepalive := True\<rparr>, met epoch ob)"
proof -
  have "slice 20 24 (vp8Keepalive @ PutUint32 epoch @ pad) = PutUint32 epoch" by (rule slice_exact) simp_all
  then show ?thesis using assms by (simp add: Decode_def vp8_lens nth_append met_def meeting_def Let_def)
qed

lemma Decode_echo:
  assumes "h = vp8Keepalive \<or> h = vp8Interframe"
  shows "Decode (h @ PutUint32 (localEpoch ob) @ body) ob =
    (no_frame\<lparr>HasFrame := True, SelfEcho := True, PeerEpoch := localEpoch ob\<rparr>, ob)"
proof -
  have "slice 20 24 (vp8Keepalive @ PutUint32 (localEpoch ob) @ body) = PutUint32 (localEpoch ob)"
    "slice 17 21 (vp8Interframe @ PutUint32 (localEpoch ob) @ body) = PutUint32 (localEpoch ob)"
    by (rule slice_exact, simp_all)+
  then show ?thesis using assms
    by (cases "h = vp8Keepalive") (simp_all add: Decode_def vp8_lens nth_append Let_def)
qed

text \<open>What is accepted was sealed under the key, whatever else the frame says.\<close>

lemma Decode_only_sealed:
  assumes "aead_laws (to_aead ob)" "Decode f ob = (res, ob')" "dr_Payload res \<noteq> []"
  obtains nonce where "drop 21 f = nonce @ Seal (to_aead ob) nonce (dr_Payload res) []" "length nonce = 24"
proof -
  let ?body = "drop 21 f"
  have n: "\<not> length ?body < 40" "Open (to_aead ob) (take 24 ?body) (drop 24 ?body) [] = Some (dr_Payload res)"
    using assms(2,3)
    by (auto simp: Decode_def Let_def no_frame_def vp8_lens xNonceSize_def aead_Overhead_def split: if_splits option.splits)
  then have "?body = take 24 ?body @ Seal (to_aead ob) (take 24 ?body) (dr_Payload res) []"
    using aead_lawsD(3) [OF assms(1) n(2)] by (metis append_take_drop_id)
  moreover have "length (take 24 ?body) = 24" using n(1) by simp
  ultimately show ?thesis by (rule that)
qed

text \<open>
  The epoch is outside the seal and is taken over before the seal is checked: a forged frame is dropped, but
  the next genuine one is reported as a restart of the peer.
\<close>

lemma forged_epoch_restarts:
  assumes "hasPeer ob" "peerEpoch ob = epoch" "forged \<noteq> epoch" "forged \<noteq> localEpoch ob" "epoch \<noteq> localEpoch ob"
  shows "\<exists>ob' ob''. Decode (vp8Interframe @ PutUint32 forged @ [0]) ob = (no_frame, ob') \<and>
    Decode (vp8Keepalive @ PutUint32 epoch @ []) ob' = ((meeting epoch ob')\<lparr>dr_Keepalive := True\<rparr>, ob'') \<and>
    PeerRestart (meeting epoch ob')"
  using assms Decode_data [of vp8Interframe forged ob "[0]"] Decode_keepalive [of epoch "met forged ob" "[]"]
  by (simp add: met_def) (simp add: meeting_def)

section \<open>Tokens\<close>

lemma join_token:
  assumes "TrimSpace link = link" "link = p @ slash # tok @ q" "q = [] \<or> hd q = question \<or> hd q = hash"
    and "\<forall>c \<in> set tok. c \<noteq> slash \<and> c \<noteq> question \<and> c \<noteq> hash" "tok \<noteq> []" "\<forall>c \<in> set p. c \<noteq> question \<and> c \<noteq> hash"
    and "last link \<noteq> slash"
  shows "extractJoinToken link = tok"
proof -
  have "TrimRightByte slash link = link" by (rule TrimRightByte_id) (use assms(7) in simp)
  moreover have "takeWhile (\<lambda>c. c \<noteq> hash) (takeWhile (\<lambda>c. c \<noteq> question) link) = p @ slash # tok"
  proof -
    have all: "\<forall>c \<in> set (p @ slash # tok). c \<noteq> question \<and> c \<noteq> hash" using assms(4,6) by (simp add: ball_Un)
    have pre: "takeWhile (\<lambda>c. c \<noteq> d) ((p @ slash # tok) @ r) = (p @ slash # tok) @ takeWhile (\<lambda>c. c \<noteq> d) r"
      if "d = question \<or> d = hash" for d r by (rule takeWhile_append2) (use all that in blast)
    have l: "link = (p @ slash # tok) @ q" using assms(2) by simp
    have "takeWhile (\<lambda>c. c \<noteq> hash) (takeWhile (\<lambda>c. c \<noteq> question) q) = []" using assms(3) by (cases q) auto
    then show ?thesis unfolding l by (simp only: pre simp_thms append_Nil2)
  qed
  ultimately show ?thesis using assms(1,4) after_last_append [of slash tok p] by (auto simp: extractJoinToken_def)
qed

text \<open>A slash before the query leaves no token, although one at the end of the link is cut off.\<close>

lemma slash_before_query:
  "TrimSpace (p @ [slash, question, x]) = p @ [slash, question, x] \<Longrightarrow> x \<noteq> slash \<Longrightarrow> \<forall>c \<in> set p. c \<noteq> question \<and> c \<noteq> hash \<Longrightarrow>
     extractJoinToken (p @ [slash, question, x]) = []"
proof -
  assume a: "TrimSpace (p @ [slash, question, x]) = p @ [slash, question, x]" "x \<noteq> slash" "\<forall>c \<in> set p. c \<noteq> question \<and> c \<noteq> hash"
  have "TrimRightByte slash (p @ [slash, question, x]) = p @ [slash, question, x]" by (rule TrimRightByte_id) (use a in simp)
  moreover have "takeWhile (\<lambda>c. c \<noteq> question) (p @ [slash, question, x]) = p @ [slash]" using a(3) by (subst takeWhile_append2) auto
  moreover have "takeWhile (\<lambda>c. c \<noteq> hash) (p @ [slash]) = p @ [slash]" using a(3) by (subst takeWhile_append2) auto
  ultimately show ?thesis using a(1) by (simp add: extractJoinToken_def after_last_def)
qed

section \<open>The property\<close>

text \<open>
  C32. The frames of a tunnel end mean to the other end what they are: with the same key and another epoch it
  reads a data frame as its payload and a keepalive as a keepalive, reports a restart exactly when the
  sender's epoch is not the one it knew, and remembers the epoch; its own frames are echoes that change
  nothing; and a payload it accepts was sealed under the key.
\<close>
theorem obfuscator_frames_exact:
  assumes "aead_laws (to_aead ob)" "to_aead peer = to_aead ob" "localEpoch peer \<noteq> localEpoch ob" "length nonce = 24"
  shows "(\<exists>f. EncodeData (Inr nonce) payload ob = Some f \<and>
      Decode f peer = ((meeting (localEpoch ob) peer)\<lparr>dr_Payload := payload\<rparr>, met (localEpoch ob) peer) \<and>
      Decode f ob = (no_frame\<lparr>HasFrame := True, SelfEcho := True, PeerEpoch := localEpoch ob\<rparr>, ob)) \<and>
    Decode (EncodeKeepalive pad padLen ob) peer = ((meeting (localEpoch ob) peer)\<lparr>dr_Keepalive := True\<rparr>, met (localEpoch ob) peer) \<and>
    (PeerRestart (meeting (localEpoch ob) peer) \<longleftrightarrow> hasPeer peer \<and> peerEpoch peer \<noteq> localEpoch ob) \<and>
    (\<forall>f res p'. Decode f peer = (res, p') \<and> dr_Payload res \<noteq> [] \<longrightarrow>
      (\<exists>n. drop 21 f = n @ Seal (to_aead peer) n (dr_Payload res) [] \<and> length n = 24))"
proof -
  let ?ct = "Seal (to_aead ob) nonce payload []"
  have ct: "length ?ct = length payload + 16" "Open (to_aead peer) nonce ?ct [] = Some payload"
    using aead_lawsD(1,2) [OF assms(1)] assms(2) by auto
  have "nonce @ ?ct \<noteq> []" using assms(4) by auto
  then have "Decode (vp8Interframe @ PutUint32 (localEpoch ob) @ nonce @ ?ct) peer =
      ((meeting (localEpoch ob) peer)\<lparr>dr_Payload := payload\<rparr>, met (localEpoch ob) peer)"
    using Decode_data [of vp8Interframe "localEpoch ob" peer "nonce @ ?ct"] assms(3,4) ct by simp
  moreover have "Decode (EncodeKeepalive pad padLen ob) peer = ((meeting (localEpoch ob) peer)\<lparr>dr_Keepalive := True\<rparr>, met (localEpoch ob) peer)"
    using Decode_keepalive [of "localEpoch ob" peer "[]"] Decode_keepalive [of "localEpoch ob" peer] assms(3)
    by (auto simp: EncodeKeepalive_def keepaliveHeader_def Let_def split: sum.split)
  moreover have "Decode (vp8Interframe @ PutUint32 (localEpoch ob) @ nonce @ ?ct) ob =
      (no_frame\<lparr>HasFrame := True, SelfEcho := True, PeerEpoch := localEpoch ob\<rparr>, ob)" by (rule Decode_echo) simp
  moreover have "\<exists>n. drop 21 f = n @ Seal (to_aead peer) n (dr_Payload res) [] \<and> length n = 24"
    if "Decode f peer = (res, p')" "dr_Payload res \<noteq> []" for f res p'
    using Decode_only_sealed [OF _ that] assms(1,2) by metis
  moreover have "PeerRestart (meeting (localEpoch ob) peer) \<longleftrightarrow> hasPeer peer \<and> peerEpoch peer \<noteq> localEpoch ob"
    by (simp add: meeting_def)
  ultimately show ?thesis by (auto simp: EncodeData_def dataHeader_def)
qed

definition demo_obf :: "u32 \<Rightarrow> TunnelObfuscator" where
  "demo_obf epoch = \<lparr>to_aead = plain_aead, localEpoch = epoch, peerEpoch = 0, hasPeer = False\<rparr>"

theorem obfuscator_frames_exact_witness:
  "\<exists>f. EncodeData (Inr (replicate 24 7)) [1, 2, 3] (demo_obf 1) = Some f \<and> dr_Payload (fst (Decode f (demo_obf 2))) = [1, 2, 3]"
  using obfuscator_frames_exact [of "demo_obf 1" "demo_obf 2" "replicate 24 7" "[1, 2, 3]" "Inr []" 0]
  by (auto simp: demo_obf_def)

end
