(* ===== verification/Dc_Tunnel.thy ===== *)
theory Dc_Tunnel
  imports Tunnel_Obfuscator Tunnel_Protocol "HOL-Library.Multiset"
begin

text \<open>
  The data channel tunnel (\<open>transport/call/tunnel/dctunnel.go\<close>): relay frames as messages of a WebRTC data
  channel, encrypted and, on channels with a small message size, cut into numbered chunks that the other end
  puts together in any order. The channel itself is what arrives and what is written.
\<close>

section \<open>The tunnel\<close>

definition chunkSize :: nat where "chunkSize = 994"

record chunkBuf =
  cb_chunks :: "bytes option list"
  cb_count :: nat
  cb_size :: nat

record DCTunnel =
  dt_obf :: "TunnelObfuscator option"
  dt_chunked :: bool
  dt_readBuf :: nat
  dt_recvBufs :: "u16 \<rightharpoonup> chunkBuf"
  dt_sendMsgID :: u32

text \<open>The messages that \<open>sendChunked\<close> writes.\<close>

definition chunk_total :: "bytes \<Rightarrow> nat" where
  "chunk_total data = max 1 ((length data + (chunkSize - 1)) div chunkSize)"

definition chunk_at :: "u16 \<Rightarrow> bytes \<Rightarrow> nat \<Rightarrow> bytes" where
  "chunk_at mid data i =
     PutUint16 mid @ be_bytes 2 i @ be_bytes 2 (chunk_total data) @
     slice (i * chunkSize) (min (i * chunkSize + chunkSize) (length data)) data"

definition sendChunked :: "bytes \<Rightarrow> DCTunnel \<Rightarrow> bytes list \<times> DCTunnel" where
  "sendChunked data t =
     (let msgID = dt_sendMsgID t + 1; mid = ucast msgID :: u16 in
      (map (chunk_at mid data) [0..<chunk_total data], t\<lparr>dt_sendMsgID := msgID\<rparr>))"

text \<open>\<open>SendData\<close> with the random nonce of each frame; a frame that cannot be encrypted is skipped.\<close>

function dc_SendData :: "(nat \<Rightarrow> go_error + bytes) \<Rightarrow> nat \<Rightarrow> bytes \<Rightarrow> DCTunnel \<Rightarrow> bytes list \<times> DCTunnel" where
  "dc_SendData rnd k data t =
     (if length data < 4 then ([], t)
      else
        let frameLen = be_val (slice 0 4 data) in
        if frameLen < 5 \<or> length data < 4 + frameLen then ([], t)
        else
          case EncryptPayload (rnd k) (slice 4 (4 + frameLen) data) (dt_obf t) of
            None \<Rightarrow> dc_SendData rnd (Suc k) (drop (4 + frameLen) data) t
          | Some wire \<Rightarrow>
              (case (if dt_chunked t then sendChunked wire t else ([wire], t)) of
                 (ws, t) \<Rightarrow>
                   (case dc_SendData rnd (Suc k) (drop (4 + frameLen) data) t of (ws', t) \<Rightarrow> (ws @ ws', t))))"
  by auto
termination by (relation "measure (\<lambda>(_, _, data, _). length data)") auto

declare dc_SendData.simps [simp del]

text \<open>What reaches \<open>onData\<close>.\<close>

definition deliverMessage :: "bytes \<Rightarrow> DCTunnel \<Rightarrow> bytes list" where
  "deliverMessage data t =
     (if data = [] then []
      else case DecryptPayload data (dt_obf t) of
        None \<Rightarrow> []
      | Some pt \<Rightarrow> if pt = [] then [] else [PutUint32 (word_of_nat (length pt)) @ pt])"

definition put_chunk :: "nat \<Rightarrow> bytes \<Rightarrow> chunkBuf \<Rightarrow> chunkBuf" where
  "put_chunk idx payload cb =
     (if idx < length (cb_chunks cb) \<and> cb_chunks cb ! idx = None
      then cb\<lparr>cb_chunks := (cb_chunks cb)[idx := Some payload], cb_count := cb_count cb + 1, cb_size := cb_size cb + length payload\<rparr>
      else cb)"

definition handleChunk :: "bytes \<Rightarrow> DCTunnel \<Rightarrow> bytes list \<times> DCTunnel" where
  "handleChunk data t =
     (let mid = Uint16 (slice 0 2 data); idx = be_val (slice 2 4 data); total = be_val (slice 4 6 data); payload = drop 6 data in
      if total = 1 then (deliverMessage payload t, t)
      else
        let cb = put_chunk idx payload
                   (case dt_recvBufs t mid of Some cb \<Rightarrow> cb
                    | None \<Rightarrow> \<lparr>cb_chunks = replicate total None, cb_count = 0, cb_size = 0\<rparr>) in
        if cb_count cb = total
        then (deliverMessage (concat (map (\<lambda>c. case c of None \<Rightarrow> [] | Some p \<Rightarrow> p) (cb_chunks cb))) t,
              t\<lparr>dt_recvBufs := (dt_recvBufs t)(mid := None)\<rparr>)
        else ([], t\<lparr>dt_recvBufs := (dt_recvBufs t)(mid \<mapsto> cb)\<rparr>))"

text \<open>
  The read loop over what arrives, each message with whether it is a string; a message that does not fit the
  buffer is a read error, which ends the loop like the end of the channel does.
\<close>

fun dc_readLoop :: "(bool \<times> bytes) list \<Rightarrow> DCTunnel \<Rightarrow> bytes list \<times> DCTunnel" where
  "dc_readLoop [] t = ([], t)"
| "dc_readLoop ((isString, data) # rest) t =
     (if dt_readBuf t < length data then ([], t)
      else
        case (if isString then ([], t)
              else if dt_chunked t \<and> 6 \<le> length data then handleChunk data t
              else if 0 < length data then (deliverMessage data t, t)
              else ([], t)) of
          (ds, t) \<Rightarrow> (case dc_readLoop rest t of (ds', t) \<Rightarrow> (ds @ ds', t)))"

section \<open>Chunks\<close>

definition piece :: "bytes \<Rightarrow> nat \<Rightarrow> bytes" where
  "piece data i = slice (i * chunkSize) (min (i * chunkSize + chunkSize) (length data)) data"

lemma chunk_total_bound: "length data \<le> chunk_total data * chunkSize"
proof -
  let ?n = "(length data + 993) div 994"
  have "length data \<le> ?n * 994" by linarith
  moreover have "?n \<le> chunk_total data" by (simp add: chunk_total_def chunkSize_def)
  then have "?n * 994 \<le> chunk_total data * 994" by (rule mult_le_mono1)
  ultimately show ?thesis by (simp add: chunkSize_def)
qed

lemma pieces_upto: "concat (map (piece data) [0..<n]) = take (n * chunkSize) data"
proof (induction n)
  case (Suc n)
  have "slice (n * chunkSize) (min (n * chunkSize + chunkSize) (length data)) data = take chunkSize (drop (n * chunkSize) data)"
    by (cases "n * chunkSize + chunkSize \<le> length data") (simp_all add: slice_def min_def)
  then show ?case using Suc take_add [of "n * chunkSize" chunkSize data] by (simp add: piece_def add.commute)
qed simp

lemma pieces_all: "concat (map (piece data) [0..<chunk_total data]) = data"
  using pieces_upto [of data "chunk_total data"] chunk_total_bound [of data] by simp

lemma chunk_parse:
  assumes "i < 65536" "chunk_total data < 65536"
  shows "Uint16 (slice 0 2 (chunk_at mid data i)) = mid" "be_val (slice 2 4 (chunk_at mid data i)) = i"
    "be_val (slice 4 6 (chunk_at mid data i)) = chunk_total data" "drop 6 (chunk_at mid data i) = piece data i"
    "6 \<le> length (chunk_at mid data i)" "length (chunk_at mid data i) \<le> 1000"
proof -
  have a: "slice 0 2 (chunk_at mid data i) = PutUint16 mid" by (simp add: chunk_at_def slice_def)
  show "Uint16 (slice 0 2 (chunk_at mid data i)) = mid" unfolding a by simp
  show "be_val (slice 2 4 (chunk_at mid data i)) = i" using assms(1) by (simp add: chunk_at_def slice_def be_val_be_bytes)
  show "be_val (slice 4 6 (chunk_at mid data i)) = chunk_total data" using assms(2) by (simp add: chunk_at_def slice_def be_val_be_bytes)
  show "drop 6 (chunk_at mid data i) = piece data i" by (simp add: chunk_at_def piece_def)
  show "6 \<le> length (chunk_at mid data i)" "length (chunk_at mid data i) \<le> 1000" by (simp_all add: chunk_at_def chunkSize_def)
qed

section \<open>Reassembly in any order\<close>

text \<open>Messages under way by id, and the buffers after the chunks in a set have arrived.\<close>

type_synonym parcels = "(u16 \<times> bytes) list"

definition arrived :: "(u16 \<times> nat) set \<Rightarrow> u16 \<Rightarrow> nat \<Rightarrow> nat list" where
  "arrived S mid n = filter (\<lambda>i. (mid, i) \<in> S) [0..<n]"

definition buf_after :: "parcels \<Rightarrow> (u16 \<times> nat) set \<Rightarrow> u16 \<rightharpoonup> chunkBuf" where
  "buf_after ps S mid =
     (case map_of ps mid of None \<Rightarrow> None
      | Some data \<Rightarrow>
          let n = chunk_total data; seen = arrived S mid n in
          if n = 1 \<or> seen = [] \<or> length seen = n then None
          else Some \<lparr>cb_chunks = map (\<lambda>i. if (mid, i) \<in> S then Some (piece data i) else None) [0..<n],
                     cb_count = length seen, cb_size = sum_list (map (\<lambda>i. length (piece data i)) seen)\<rparr>)"

lemma arrived_insert:
  assumes "i < n" "(mid, i) \<notin> S"
  shows "length (arrived (insert (mid, i) S) mid n) = length (arrived S mid n) + 1"
    and "sum_list (map f (arrived (insert (mid, i) S) mid n)) = sum_list (map f (arrived S mid n)) + (f i :: nat)"
proof -
  have "[0..<n] = [0..<i] @ i # [Suc i..<n]"
    using assms(1) upt_add_eq_append [of 0 i "n - i"] upt_conv_Cons [of i n] by simp
  moreover have "filter (\<lambda>j. (mid, j) \<in> insert (mid, i) S) xs = filter (\<lambda>j. (mid, j) \<in> S) xs" if "i \<notin> set xs" for xs
    using that by (intro filter_cong) auto
  ultimately show "length (arrived (insert (mid, i) S) mid n) = length (arrived S mid n) + 1"
    and "sum_list (map f (arrived (insert (mid, i) S) mid n)) = sum_list (map f (arrived S mid n)) + f i"
    using assms(2) by (simp_all add: arrived_def)
qed

lemma arrived_other: "mid' \<noteq> mid \<Longrightarrow> arrived (insert (mid, i) S) mid' n = arrived S mid' n"
  by (simp add: arrived_def)

lemma arrived_all: "length (arrived S mid n) = n \<longleftrightarrow> (\<forall>i < n. (mid, i) \<in> S)"
  by (auto simp: arrived_def) (metis atLeastLessThan_iff filter_id_conv le0 length_filter_less less_irrefl length_upt diff_zero set_upt)

lemma buf_after_other: "mid' \<noteq> mid \<Longrightarrow> buf_after ps (insert (mid, i) S) mid' = buf_after ps S mid'"
  by (simp add: buf_after_def arrived_other Let_def split: option.split)

text \<open>One chunk that is new.\<close>

lemma handleChunk_step:
  assumes data: "map_of ps mid = Some data" and i: "i < chunk_total data" "chunk_total data < 65536" and new: "(mid, i) \<notin> S"
    and buf: "dt_recvBufs t = buf_after ps S"
  shows "handleChunk (chunk_at mid data i) t =
    (if length (arrived (insert (mid, i) S) mid (chunk_total data)) = chunk_total data then deliverMessage data t else [],
     t\<lparr>dt_recvBufs := buf_after ps (insert (mid, i) S)\<rparr>)"
proof -
  let ?n = "chunk_total data" and ?S = "insert (mid, i) S"
  note cp = chunk_parse [OF _ i(2), of i mid]
  have i16: "i < 65536" using i by simp
  note ins = arrived_insert(1) [OF i(1) new] arrived_insert(2) [OF i(1) new, of "\<lambda>j. length (piece data j)"]
  show ?thesis
  proof (cases "?n = 1")
    case True
    then have "i = 0" "piece data i = data" using i(1) pieces_all [of data] by simp_all
    moreover have "buf_after ps ?S mid' = buf_after ps S mid'" for mid'
      using data True buf_after_other [of mid' mid ps i S] by (cases "mid' = mid") (simp_all add: buf_after_def)
    then have "t\<lparr>dt_recvBufs := buf_after ps ?S\<rparr> = t" using buf by (cases t) auto
    moreover have "length (arrived ?S mid ?n) = ?n" unfolding arrived_all using True \<open>i = 0\<close> by simp
    ultimately show ?thesis using True cp [OF i16] by (simp add: handleChunk_def)
  next
    case False
    let ?chunks = "\<lambda>S. map (\<lambda>j. if (mid, j) \<in> S then Some (piece data j) else None) [0..<?n]"
    have lt: "length (arrived S mid ?n) < ?n"
      using arrived_all [of S mid ?n] new i(1) length_filter_le [of "\<lambda>i. (mid, i) \<in> S" "[0..<?n]"]
      by (auto simp: arrived_def le_less)
    have cur: "(case dt_recvBufs t mid of Some cb \<Rightarrow> cb | None \<Rightarrow> \<lparr>cb_chunks = replicate ?n None, cb_count = 0, cb_size = 0\<rparr>) =
        \<lparr>cb_chunks = ?chunks S, cb_count = length (arrived S mid ?n), cb_size = sum_list (map (\<lambda>j. length (piece data j)) (arrived S mid ?n))\<rparr>"
    proof (cases "arrived S mid ?n = []")
      case True
      then have "?chunks S = map (\<lambda>_. None) [0..<?n]" by (intro map_cong) (auto simp: arrived_def filter_empty_conv)
      then show ?thesis using True data by (simp add: buf buf_after_def map_replicate_const)
    next
      case ne: False
      then show ?thesis using data lt False by (simp add: buf buf_after_def Let_def)
    qed
    have upd: "(?chunks S)[i := Some (piece data i)] = ?chunks ?S" using i(1) by (intro nth_equalityI) (auto simp: nth_list_update)
    have put: "put_chunk i (piece data i) \<lparr>cb_chunks = ?chunks S, cb_count = length (arrived S mid ?n), cb_size = sum_list (map (\<lambda>j. length (piece data j)) (arrived S mid ?n))\<rparr> =
        \<lparr>cb_chunks = ?chunks ?S, cb_count = length (arrived ?S mid ?n), cb_size = sum_list (map (\<lambda>j. length (piece data j)) (arrived ?S mid ?n))\<rparr>"
      using i(1) new ins upd by (simp add: put_chunk_def)
    have fin: "buf_after ps ?S = (dt_recvBufs t)(mid := if length (arrived ?S mid ?n) = ?n then None else
        Some \<lparr>cb_chunks = ?chunks ?S, cb_count = length (arrived ?S mid ?n), cb_size = sum_list (map (\<lambda>j. length (piece data j)) (arrived ?S mid ?n))\<rparr>)"
    proof
      fix mid'
      have "arrived ?S mid ?n \<noteq> []" using ins(1) by auto
      then show "buf_after ps ?S mid' = ((dt_recvBufs t)(mid := if length (arrived ?S mid ?n) = ?n then None else
        Some \<lparr>cb_chunks = ?chunks ?S, cb_count = length (arrived ?S mid ?n), cb_size = sum_list (map (\<lambda>j. length (piece data j)) (arrived ?S mid ?n))\<rparr>)) mid'"
        using data False buf_after_other [of mid' mid ps i S] by (cases "mid' = mid") (auto simp: buf buf_after_def Let_def)
    qed
    have out: "concat (map (\<lambda>c. case c of None \<Rightarrow> [] | Some p \<Rightarrow> p) (?chunks ?S)) = data" if "length (arrived ?S mid ?n) = ?n"
    proof -
      have "map (\<lambda>c. case c of None \<Rightarrow> [] | Some p \<Rightarrow> p) (?chunks ?S) = map (piece data) [0..<?n]"
        using that unfolding arrived_all by simp
      then show ?thesis by (simp only: pieces_all)
    qed
    show ?thesis unfolding handleChunk_def Let_def cp(1-4) [OF i16] cur put using False out by (simp add: fin)
  qed
qed

section \<open>All chunks\<close>

text \<open>The messages complete after the chunks in a set.\<close>

definition completed :: "parcels \<Rightarrow> (u16 \<times> nat) set \<Rightarrow> parcels" where
  "completed ps S = filter (\<lambda>(mid, data). length (arrived S mid (chunk_total data)) = chunk_total data) ps"

lemma completed_insert:
  assumes "distinct (map fst ps)" "map_of ps mid = Some data" "i < chunk_total data" "(mid, i) \<notin> S"
  shows "mset (completed ps (insert (mid, i) S)) = mset (completed ps S) +
    (if length (arrived (insert (mid, i) S) mid (chunk_total data)) = chunk_total data then {#(mid, data)#} else {#})"
proof -
  have "(mid, data) \<in> set ps" using map_of_SomeD [OF assms(2)] .
  then obtain xs ys where ps: "ps = xs @ (mid, data) # ys" by (auto simp: in_set_conv_decomp)
  then have no: "mid \<notin> fst ` set xs" "mid \<notin> fst ` set ys" using assms(1) by auto
  have same: "completed zs (insert (mid, i) S) = completed zs S" if "mid \<notin> fst ` set zs" for zs
    unfolding completed_def using that by (intro filter_cong) (auto simp: arrived_other image_iff)
  have "length (arrived S mid (chunk_total data)) \<noteq> chunk_total data" using assms(3,4) by (auto simp: arrived_all)
  then show ?thesis using same [OF no(1)] same [OF no(2)] by (simp add: ps completed_def)
qed

definition chunk_keys :: "parcels \<Rightarrow> (u16 \<times> nat) list" where
  "chunk_keys ps = concat (map (\<lambda>(mid, data). map (Pair mid) [0..<chunk_total data]) ps)"

definition key_chunk :: "parcels \<Rightarrow> u16 \<times> nat \<Rightarrow> bytes" where
  "key_chunk ps k = chunk_at (fst k) (the (map_of ps (fst k))) (snd k)"

definition sound_parcels :: "parcels \<Rightarrow> bool" where
  "sound_parcels ps \<longleftrightarrow> distinct (map fst ps) \<and> (\<forall>(mid, data) \<in> set ps. chunk_total data < 65536)"

lemma chunk_keysD:
  assumes "sound_parcels ps" "(mid, i) \<in> set (chunk_keys ps)"
  obtains data where "map_of ps mid = Some data" "i < chunk_total data" "chunk_total data < 65536"
  using assms by (auto simp: chunk_keys_def sound_parcels_def)

lemma readLoop_chunks:
  assumes "sound_parcels ps" "distinct ks" "set ks \<subseteq> set (chunk_keys ps)" "set ks \<inter> S = {}"
    and "dt_recvBufs t = buf_after ps S" "dt_chunked t" "1000 \<le> dt_readBuf t"
  shows "\<exists>ds. dc_readLoop (map (\<lambda>k. (False, key_chunk ps k)) ks) t = (ds, t\<lparr>dt_recvBufs := buf_after ps (S \<union> set ks)\<rparr>) \<and>
    mset ds + mset (concat (map (\<lambda>(_, data). deliverMessage data t) (completed ps S))) =
      mset (concat (map (\<lambda>(_, data). deliverMessage data t) (completed ps (S \<union> set ks))))"
  using assms(2-)
proof (induction ks arbitrary: S t)
  case Nil
  then show ?case by (cases t) simp
next
  case (Cons k ks)
  obtain mid i where k: "k = (mid, i)" by fastforce
  from chunk_keysD [OF assms(1), of mid i] Cons.prems(2) obtain data where
    d: "map_of ps mid = Some data" "i < chunk_total data" "chunk_total data < 65536" by (auto simp: k)
  let ?t = "t\<lparr>dt_recvBufs := buf_after ps (insert k S)\<rparr>"
  have new: "(mid, i) \<notin> S" using Cons.prems(3) by (simp add: k)
  note step = handleChunk_step [OF d new Cons.prems(4), folded k]
  have len: "6 \<le> length (key_chunk ps k)" "length (key_chunk ps k) \<le> dt_readBuf t"
    using chunk_parse(5,6) [of i data mid] d Cons.prems(6) by (simp_all add: key_chunk_def k)
  have same: "deliverMessage x ?t = deliverMessage x t" for x by (simp add: deliverMessage_def)
  from Cons.IH [of "insert k S" ?t] Cons.prems obtain ds where
    ds: "dc_readLoop (map (\<lambda>k. (False, key_chunk ps k)) ks) ?t = (ds, ?t\<lparr>dt_recvBufs := buf_after ps (insert k S \<union> set ks)\<rparr>)"
    "mset ds + mset (concat (map (\<lambda>(_, data). deliverMessage data t) (completed ps (insert k S)))) =
       mset (concat (map (\<lambda>(_, data). deliverMessage data t) (completed ps (insert k S \<union> set ks))))"
    by (auto simp: same)
  have sound: "distinct (map fst ps)" using assms(1) by (simp add: sound_parcels_def)
  have cat: "mset (concat (map f xs)) = \<Sum>\<^sub># (image_mset (\<lambda>x. mset (f x)) (mset xs))" for f :: "u16 \<times> bytes \<Rightarrow> bytes list" and xs
    by (induction xs) simp_all
  let ?now = "if length (arrived (insert k S) mid (chunk_total data)) = chunk_total data then deliverMessage data t else []"
  have "mset (concat (map (\<lambda>(_, data). deliverMessage data t) (completed ps (insert k S)))) =
      mset ?now + mset (concat (map (\<lambda>(_, data). deliverMessage data t) (completed ps S)))"
    using completed_insert [OF sound d(1,2) new, folded k] unfolding cat by auto
  with ds step len Cons.prems(5) show ?case by (auto simp: key_chunk_def k d(1) add.commute add.left_commute)
qed

lemma chunk_keysI: "(mid, data) \<in> set ps \<Longrightarrow> i < chunk_total data \<Longrightarrow> (mid, i) \<in> set (chunk_keys ps)"
  by (force simp: chunk_keys_def)

lemma distinct_chunk_keys: "sound_parcels ps \<Longrightarrow> distinct (chunk_keys ps)"
proof (induction ps)
  case (Cons p ps)
  obtain mid data where p: "p = (mid, data)" by fastforce
  have "set (map (Pair mid) [0..<chunk_total data]) \<inter> set (chunk_keys ps) = {}"
    using Cons.prems by (auto simp: p sound_parcels_def chunk_keys_def image_iff)
  moreover have "distinct (map (Pair mid) [0..<chunk_total data])" by (simp add: distinct_map inj_on_def)
  moreover have "distinct (chunk_keys ps)" using Cons by (simp add: sound_parcels_def p)
  ultimately show ?case by (simp add: chunk_keys_def p)
qed (simp add: chunk_keys_def)

lemma completed_none: "completed ps {} = []"
  by (auto simp: completed_def arrived_def chunk_total_def filter_empty_conv)

lemma completed_all: "completed ps (set (chunk_keys ps)) = ps"
  unfolding completed_def by (rule filter_True) (auto simp: arrived_all intro: chunk_keysI)

lemma buf_after_all: "buf_after ps (set (chunk_keys ps)) = Map.empty"
proof
  fix mid
  have "length (arrived (set (chunk_keys ps)) mid (chunk_total data)) = chunk_total data" if "map_of ps mid = Some data" for data
    unfolding arrived_all using map_of_SomeD [OF that] by (auto intro: chunk_keysI)
  then show "buf_after ps (set (chunk_keys ps)) mid = None" by (auto simp: buf_after_def Let_def split: option.split)
qed

lemma buf_after_none: "buf_after ps {} = Map.empty"
  by (rule ext) (simp add: buf_after_def arrived_def Let_def split: option.split)

lemma permuted_map: "mset cs = image_mset f (mset K) \<Longrightarrow> \<exists>ks. mset ks = mset K \<and> cs = map f ks"
proof (induction cs arbitrary: K)
  case (Cons c cs)
  then have "c \<in># image_mset f (mset K)" by (metis list.set_intros(1) set_mset_mset)
  then obtain k where k: "k \<in> set K" "f k = c" by auto
  then have "mset cs = image_mset f (mset (remove1 k K))" using Cons.prems by (simp add: image_mset_Diff flip: Cons.prems)
  from Cons.IH [OF this] obtain ks where "mset ks = mset (remove1 k K)" "cs = map f ks" by blast
  with k show ?case by (intro exI [of _ "k # ks"]) simp
qed simp

text \<open>Chunks of several messages, in any order.\<close>

lemma chunks_any_order:
  assumes "sound_parcels ps" "mset cs = mset (concat (map (\<lambda>(mid, data). map (chunk_at mid data) [0..<chunk_total data]) ps))"
    and "dt_recvBufs t = Map.empty" "dt_chunked t" "1000 \<le> dt_readBuf t"
  shows "\<exists>ds. dc_readLoop (map (Pair False) cs) t = (ds, t) \<and> mset ds = mset (concat (map (\<lambda>(_, data). deliverMessage data t) ps))"
proof -
  have "map (key_chunk ps) (chunk_keys ps) = concat (map (\<lambda>(mid, data). map (chunk_at mid data) [0..<chunk_total data]) ps)"
  proof -
    have "map (key_chunk ps) (map (Pair mid) [0..<chunk_total data]) = map (chunk_at mid data) [0..<chunk_total data]"
      if "(mid, data) \<in> set ps" for mid data
      using that assms(1) by (auto simp: key_chunk_def sound_parcels_def)
    then show ?thesis unfolding chunk_keys_def map_concat map_map by (intro arg_cong [where f = concat] map_cong) auto
  qed
  then have "mset cs = image_mset (key_chunk ps) (mset (chunk_keys ps))" using assms(2) by (metis mset_map)
  from permuted_map [OF this] obtain ks where ks: "mset ks = mset (chunk_keys ps)" "cs = map (key_chunk ps) ks" by blast
  then have d: "distinct ks" "set ks = set (chunk_keys ps)"
    using distinct_chunk_keys [OF assms(1)] mset_eq_imp_distinct_iff [OF ks(1)] mset_eq_setD [OF ks(1)] by simp_all
  from readLoop_chunks [OF assms(1) d(1), of "{}" t] obtain ds where
    "dc_readLoop (map (\<lambda>k. (False, key_chunk ps k)) ks) t = (ds, t\<lparr>dt_recvBufs := buf_after ps (set (chunk_keys ps))\<rparr>)"
    "mset ds = mset (concat (map (\<lambda>(_, data). deliverMessage data t) ps))"
    using d assms(3-5) by (auto simp: buf_after_none completed_none completed_all)
  moreover have "t\<lparr>dt_recvBufs := buf_after ps (set (chunk_keys ps))\<rparr> = t" using assms(3) by (cases t) (simp add: buf_after_all)
  ultimately show ?thesis unfolding ks(2) by (simp add: comp_def)
qed

section \<open>Sending\<close>

definition frame_body :: "message \<Rightarrow> bytes" where
  "frame_body m = PutUint32 (fst m) @ [fst (snd m)] @ snd (snd m)"

definition matching :: "TunnelObfuscator option \<Rightarrow> TunnelObfuscator option \<Rightarrow> bool" where
  "matching a b \<longleftrightarrow> (case (a, b) of (None, None) \<Rightarrow> True
     | (Some ob, Some peer) \<Rightarrow> aead_laws (to_aead ob) \<and> to_aead peer = to_aead ob | _ \<Rightarrow> False)"

lemma frame_body_facts: "length (frame_body m) = 5 + length (snd (snd m))" "enc_frame m = PutUint32 (word_of_nat (length (frame_body m))) @ frame_body m"
  by (simp_all add: frame_body_def wire)

lemma deliver_sent:
  assumes "matching obf (dt_obf r)" "length nonce = 24"
  obtains w where "EncryptPayload (Inr nonce) (frame_body m) obf = Some w" "deliverMessage w r = [enc_frame m]"
    "length w \<le> length (frame_body m) + 40"
proof (cases obf)
  case None
  then have "dt_obf r = None" using assms(1) by (simp add: matching_def split: option.splits)
  moreover have "frame_body m \<noteq> []" by (simp add: frame_body_def)
  ultimately have "deliverMessage (frame_body m) r = [enc_frame m]" by (simp add: deliverMessage_def DecryptPayload_def frame_body_facts(2))
  then show ?thesis using that [of "frame_body m"] None by (simp add: EncryptPayload_def)
next
  case (Some ob)
  then obtain peer where peer: "dt_obf r = Some peer" "aead_laws (to_aead ob)" "to_aead peer = to_aead ob"
    using assms(1) by (auto simp: matching_def split: option.splits)
  let ?w = "nonce @ Seal (to_aead ob) nonce (frame_body m) []"
  have enc: "EncryptPayload (Inr nonce) (frame_body m) (Some ob) = Some ?w" by (simp add: EncryptPayload_def)
  have "DecryptPayload ?w (Some peer) = Some (frame_body m)" by (rule payload_roundtrip [OF peer(2,3) assms(2) enc])
  moreover have "frame_body m \<noteq> []" "?w \<noteq> []" using assms(2) by (auto simp: frame_body_def)
  ultimately have "deliverMessage ?w r = [enc_frame m]" using peer(1) by (simp add: deliverMessage_def frame_body_facts(2))
  then show ?thesis using that [of ?w] enc Some assms(2) aead_lawsD(2) [OF peer(2)] by simp
qed

lemma SendData_frame:
  assumes "encodable m"
  shows "dc_SendData rnd k (enc_frame m @ rest) t =
    (case EncryptPayload (rnd k) (frame_body m) (dt_obf t) of
       None \<Rightarrow> dc_SendData rnd (Suc k) rest t
     | Some w \<Rightarrow> (case (if dt_chunked t then sendChunked w t else ([w], t)) of
         (ws, t) \<Rightarrow> (case dc_SendData rnd (Suc k) rest t of (ws', t) \<Rightarrow> (ws @ ws', t))))"
proof -
  define d where "d = enc_frame m @ rest"
  let ?n = "length (frame_body m)"
  have d: "d = PutUint32 (word_of_nat ?n) @ frame_body m @ rest" unfolding d_def frame_body_facts(2) by simp
  have n: "5 \<le> ?n" "?n < 2 ^ 32" using assms by (simp_all add: frame_body_facts(1) encodable_def)
  have "slice 0 4 d = PutUint32 (word_of_nat ?n)" unfolding d by (simp add: slice_def)
  then have v: "be_val (slice 0 4 d) = ?n" using n(2) by (simp add: be_val_PutUint32)
  have s: "slice 4 (4 + ?n) d = frame_body m" unfolding d by (rule slice_exact) simp_all
  have r: "drop (4 + ?n) d = rest" "4 + ?n \<le> length d" unfolding d by simp_all
  show ?thesis unfolding d_def [symmetric] dc_SendData.simps [of rnd k d t] Let_def v s r(1) using n(1) r(2) by simp
qed

text \<open>The ids and the encrypted bodies of the messages of one call.\<close>

fun parcels_of :: "(nat \<Rightarrow> go_error + bytes) \<Rightarrow> nat \<Rightarrow> message list \<Rightarrow> DCTunnel \<Rightarrow> parcels" where
  "parcels_of rnd k [] t = []"
| "parcels_of rnd k (m # ms) t =
     (ucast (dt_sendMsgID t + 1), the (EncryptPayload (rnd k) (frame_body m) (dt_obf t))) #
     parcels_of rnd (Suc k) ms (t\<lparr>dt_sendMsgID := dt_sendMsgID t + 1\<rparr>)"

lemma SendData_parcels:
  assumes "\<forall>m \<in> set ms. encodable m" "\<forall>j. \<exists>nonce. rnd j = Inr nonce \<and> length nonce = 24" "dt_chunked t"
  shows "fst (dc_SendData rnd k (concat (map enc_frame ms)) t) =
    concat (map (\<lambda>(mid, data). map (chunk_at mid data) [0..<chunk_total data]) (parcels_of rnd k ms t))"
  using assms(1,3)
proof (induction ms arbitrary: k t)
  case Nil
  then show ?case by (simp add: dc_SendData.simps)
next
  case (Cons m ms)
  obtain nonce where "rnd k = Inr nonce" using assms(2) by blast
  then obtain w where w: "EncryptPayload (rnd k) (frame_body m) (dt_obf t) = Some w"
    by (cases "dt_obf t") (simp_all add: EncryptPayload_def)
  let ?t = "t\<lparr>dt_sendMsgID := dt_sendMsgID t + 1\<rparr>"
  have "fst (dc_SendData rnd (Suc k) (concat (map enc_frame ms)) ?t) =
      concat (map (\<lambda>(mid, data). map (chunk_at mid data) [0..<chunk_total data]) (parcels_of rnd (Suc k) ms ?t))"
    by (rule Cons.IH) (use Cons.prems in auto)
  then show ?case using Cons.prems w
    by (auto simp: SendData_frame sendChunked_def Let_def split: prod.split)
qed

lemma parcels_ids:
  "map fst (parcels_of rnd k ms t) = map (\<lambda>j. ucast (dt_sendMsgID t + 1 + word_of_nat j) :: u16) [0..<length ms]"
proof (induction ms arbitrary: k t)
  case (Cons m ms)
  have "[0..<length (m # ms)] = 0 # map Suc [0..<length ms]" by (simp add: map_Suc_upt upt_conv_Cons del: upt_Suc)
  then show ?case using Cons [of "Suc k" "t\<lparr>dt_sendMsgID := dt_sendMsgID t + 1\<rparr>"] by (simp add: comp_def add.assoc)
qed simp

lemma distinct_parcel_ids:
  assumes "length ms \<le> 65536"
  shows "distinct (map fst (parcels_of rnd k ms t))"
proof -
  let ?b = "unat (dt_sendMsgID t)"
  have low: "(ucast (dt_sendMsgID t + 1 + word_of_nat j) :: u16) = word_of_nat (?b + 1 + j)" for j
  proof -
    have "dt_sendMsgID t + 1 + word_of_nat j = word_of_nat (?b + 1 + j)" by simp
    then show ?thesis by (simp only: unsigned_of_nat word_of_nat_eq_iff take_bit_take_bit) simp
  qed
  have "inj_on (\<lambda>j. word_of_nat (?b + 1 + j) :: u16) {0..<length ms}"
  proof (rule inj_onI)
    fix i j assume ij: "i \<in> {0..<length ms}" "j \<in> {0..<length ms}" "(word_of_nat (?b + 1 + i) :: u16) = word_of_nat (?b + 1 + j)"
    then have "(word_of_nat i :: u16) = word_of_nat j" by simp
    then have "i mod 65536 = j mod 65536" by (simp add: word_of_nat_eq_iff take_bit_eq_mod)
    then show "i = j" using ij(1,2) assms by simp
  qed
  then show ?thesis unfolding parcels_ids low by (simp add: distinct_map)
qed

lemma parcels_delivered:
  assumes "matching (dt_obf t) (dt_obf r)" "\<forall>j. \<exists>nonce. rnd j = Inr nonce \<and> length nonce = 24"
  shows "map (\<lambda>(_, data). deliverMessage data r) (parcels_of rnd k ms t) = map (\<lambda>m. [enc_frame m]) ms \<and>
    (\<forall>(mid, data) \<in> set (parcels_of rnd k ms t). \<exists>m \<in> set ms. length data \<le> length (frame_body m) + 40)"
  using assms(1)
proof (induction ms arbitrary: k t)
  case (Cons m ms)
  obtain nonce where n: "rnd k = Inr nonce" "length nonce = 24" using assms(2) by blast
  from deliver_sent [OF Cons.prems n(2), of m] obtain w where
    "EncryptPayload (rnd k) (frame_body m) (dt_obf t) = Some w" "deliverMessage w r = [enc_frame m]" "length w \<le> length (frame_body m) + 40"
    unfolding n(1) by blast
  with Cons.IH [of "t\<lparr>dt_sendMsgID := dt_sendMsgID t + 1\<rparr>" "Suc k"] Cons.prems show ?case by (auto split: prod.splits)
qed simp

section \<open>The property\<close>

text \<open>
  C31. A chunked data channel tunnel carries every relay frame whole: frames handed to \<open>SendData\<close> in one call (up
  to 65536, of up to 65 million bytes each) reach \<open>onData\<close> at the other end each exactly once, whatever the order in
  which the channel delivers the chunks of all of them, and decode to the messages sent; nothing is left in
  the buffers of the receiver.
\<close>
theorem dc_tunnel_exact:
  assumes "\<forall>m \<in> set ms. length (snd (snd m)) \<le> 65000000" "length ms \<le> 65536"
    and "\<forall>j. \<exists>nonce. rnd j = Inr nonce \<and> length nonce = 24" "matching (dt_obf t) (dt_obf r)"
    and "dt_chunked t" "dt_chunked r" "1000 \<le> dt_readBuf r" "dt_recvBufs r = Map.empty"
    and "mset cs = mset (fst (dc_SendData rnd k (concat (map enc_frame ms)) t))"
  shows "\<exists>ds. dc_readLoop (map (Pair False) cs) r = (ds, r) \<and> mset ds = mset (map enc_frame ms) \<and>
    mset (concat (map DecodeFrames ds)) = mset ms"
proof -
  let ?ps = "parcels_of rnd k ms t"
  have enc: "\<forall>m \<in> set ms. encodable m" using assms(1) by (auto simp: encodable_def)
  note del = parcels_delivered [OF assms(4,3), of k ms]
  have "chunk_total data < 65536" if "(mid, data) \<in> set ?ps" for mid data
  proof -
    from del that obtain m where "m \<in> set ms" "length data \<le> length (frame_body m) + 40" by blast
    then have "length data \<le> 65000045" using assms(1) by (auto simp: frame_body_facts(1))
    then have "(length data + 993) div 994 \<le> (65000045 + 993) div 994" by (intro div_le_mono) simp
    then show ?thesis by (simp add: chunk_total_def chunkSize_def)
  qed
  then have "sound_parcels ?ps" using distinct_parcel_ids [OF assms(2)] by (auto simp: sound_parcels_def)
  from chunks_any_order [OF this _ assms(8,6,7), of cs] obtain ds where
    ds: "dc_readLoop (map (Pair False) cs) r = (ds, r)" "mset ds = mset (concat (map (\<lambda>(_, data). deliverMessage data r) ?ps))"
    using assms(9) SendData_parcels [OF enc assms(3,5), of k] by auto
  have "concat (map (\<lambda>(_, data). deliverMessage data r) ?ps) = map enc_frame ms" using del by (simp add: concat_map_singleton)
  then have m: "mset ds = mset (map enc_frame ms)" using ds(2) by simp
  have cat: "mset (concat (map DecodeFrames xs)) = \<Sum>\<^sub># (image_mset (\<lambda>x. mset (DecodeFrames x)) (mset xs))" for xs
    by (induction xs) simp_all
  have "mset (concat (map DecodeFrames ds)) = mset (concat (map DecodeFrames (map enc_frame ms)))" unfolding cat m ..
  also have "map DecodeFrames (map enc_frame ms) = map (\<lambda>m. [m]) ms"
    using enc DecodeFrames_frames [of "[_]" "[]"] by (auto simp: comp_def)
  finally show ?thesis using ds(1) m by auto
qed

definition demo_dc :: DCTunnel where
  "demo_dc = \<lparr>dt_obf = None, dt_chunked = True, dt_readBuf = 65536, dt_recvBufs = Map.empty, dt_sendMsgID = 0\<rparr>"

theorem dc_tunnel_exact_witness:
  "\<exists>ds. dc_readLoop (map (Pair False) (rev (fst (dc_SendData (\<lambda>_. Inr (replicate 24 0)) 0 (enc_frame (1, 4, [5]) @ enc_frame (2, 4, [6])) demo_dc)))) demo_dc =
     (ds, demo_dc) \<and> mset (concat (map DecodeFrames ds)) = {#(1, 4, [5]), (2, 4, [6])#}"
  using dc_tunnel_exact [of "[(1, 4, [5]), (2, 4, [6])]" "\<lambda>_. Inr (replicate 24 0)" demo_dc demo_dc
    "rev (fst (dc_SendData (\<lambda>_. Inr (replicate 24 0)) 0 (enc_frame (1, 4, [5]) @ enc_frame (2, 4, [6])) demo_dc))" 0]
  by (auto simp: demo_dc_def matching_def)

text \<open>
  A message that lost a chunk keeps its buffer. When its id comes round again, a chunk of the new message in a
  place already filled is dropped and the message that is delivered has the old chunk in it.
\<close>

lemma stale_chunk_delivered:
  assumes "dt_obf t = None" "dt_recvBufs t mid = Some \<lparr>cb_chunks = [Some old, None], cb_count = 1, cb_size = length old\<rparr>"
    and "chunk_total data = 2" "old @ piece data 1 \<noteq> []"
  shows "\<exists>t'. handleChunk (chunk_at mid data 0) t = ([], t') \<and>
    fst (handleChunk (chunk_at mid data 1) t') = [PutUint32 (word_of_nat (length (old @ piece data 1))) @ old @ piece data 1]"
proof -
  have "handleChunk (chunk_at mid data 0) t = ([], t\<lparr>dt_recvBufs := (dt_recvBufs t)(mid \<mapsto> \<lparr>cb_chunks = [Some old, None], cb_count = 1, cb_size = length old\<rparr>)\<rparr>)"
    using chunk_parse(1-4) [of 0 data mid] assms(2,3) by (simp add: handleChunk_def put_chunk_def)
  moreover have "fst (handleChunk (chunk_at mid data 1) (t\<lparr>dt_recvBufs := (dt_recvBufs t)(mid \<mapsto> \<lparr>cb_chunks = [Some old, None], cb_count = 1, cb_size = length old\<rparr>)\<rparr>)) =
      [PutUint32 (word_of_nat (length (old @ piece data 1))) @ old @ piece data 1]"
    using chunk_parse(1-4) [of 1 data mid] assms by (auto simp: handleChunk_def put_chunk_def deliverMessage_def DecryptPayload_def Let_def)
  ultimately show ?thesis by blast
qed

end
