(* ===== verification/Vp8_Tunnel.thy ===== *)
theory Vp8_Tunnel
  imports Tunnel_Obfuscator
begin

text \<open>
  The VP8 data tunnel (\<open>transport/call/tunnel/vp8tunnel.go\<close>): a bounded queue of payloads and a writer that
  turns one payload per tick into a sample of a video track, or a keepalive when there is none. The track
  is what was written to it, the ticks of the writer are steps, and the random numbers of pacing are
  arguments.
\<close>

section \<open>Pacing\<close>

definition defaultVP8FPS :: int where "defaultVP8FPS = 24"
definition defaultVP8Batch :: int where "defaultVP8Batch = 30"
definition keepaliveIdleMin :: duration where "keepaliveIdleMin = 60 * Millisecond"
definition keepaliveIdleMax :: duration where "keepaliveIdleMax = 200 * Millisecond"
definition keepalivePadMax :: int where "keepalivePadMax = 176"
definition sendQueueDepth :: nat where "sendQueueDepth = 128"
definition paceBatchFloorPercent :: int where "paceBatchFloorPercent = 80"

text \<open>\<open>common.DurationInRange\<close> and \<open>common.IntInRange\<close>, with the random number that is reduced to the range.\<close>

definition in_range :: "nat \<Rightarrow> int \<Rightarrow> int \<Rightarrow> int" where
  "in_range rnd lo hi = (if hi \<le> lo then lo else lo + int rnd mod (hi - lo + 1))"

definition sampleIntervalFor :: "int \<Rightarrow> int \<Rightarrow> duration" where
  "sampleIntervalFor fps batch =
     (let fps = (if fps < 1 then 1 else fps);
          frameInterval = Second div fps;
          interval = (if 1 < batch then frameInterval div batch else frameInterval) in
      if interval \<le> 0 then Millisecond else interval)"

definition pacedBatchFor :: "nat \<Rightarrow> int \<Rightarrow> int" where
  "pacedBatchFor rnd batch =
     (if batch \<le> 1 then batch
      else let low = batch * paceBatchFloorPercent div 100 in in_range rnd (if low < 1 then 1 else low) batch)"

section \<open>The tunnel\<close>

record VP8DataTunnel =
  vt_obf :: TunnelObfuscator
  vt_stopped :: bool \<comment> \<open>\<open>stopCh\<close> is closed\<close>
  vt_sendQueue :: "bytes list"
  vt_queueDepth :: nat
  vt_cfgChan :: bool \<comment> \<open>a reconfiguration is signalled\<close>
  vt_running :: bool
  vt_fps :: int
  vt_batch :: int
  vt_keepaliveMin :: duration
  vt_keepaliveMax :: duration
  vt_keepalivePadMax :: int
  vt_sentFrames :: u64
  vt_recvFrames :: u64
  vt_keepaliveFrames :: u64

definition NewVP8DataTunnelWithQueue :: "TunnelObfuscator \<Rightarrow> nat \<Rightarrow> VP8DataTunnel" where
  "NewVP8DataTunnelWithQueue ob queueDepth =
     \<lparr>vt_obf = ob, vt_stopped = False, vt_sendQueue = [],
      vt_queueDepth = (if queueDepth < sendQueueDepth then sendQueueDepth else queueDepth),
      vt_cfgChan = False, vt_running = False, vt_fps = defaultVP8FPS, vt_batch = defaultVP8Batch,
      vt_keepaliveMin = keepaliveIdleMin, vt_keepaliveMax = keepaliveIdleMax, vt_keepalivePadMax = keepalivePadMax,
      vt_sentFrames = 0, vt_recvFrames = 0, vt_keepaliveFrames = 0\<rparr>"

definition SetKeepaliveShape :: "duration \<Rightarrow> duration \<Rightarrow> int \<Rightarrow> VP8DataTunnel \<Rightarrow> VP8DataTunnel" where
  "SetKeepaliveShape minPeriod maxPeriod padMax t =
     (let t = (if 0 < minPeriod then t\<lparr>vt_keepaliveMin := minPeriod\<rparr> else t);
          t = (if vt_keepaliveMin t \<le> maxPeriod then t\<lparr>vt_keepaliveMax := maxPeriod\<rparr> else t) in
      if 0 \<le> padMax then t\<lparr>vt_keepalivePadMax := padMax\<rparr> else t)"

text \<open>\<open>nextKeepalive\<close>: after how many idle ticks, with how much padding.\<close>

definition nextKeepalive :: "nat \<Rightarrow> nat \<Rightarrow> duration \<Rightarrow> VP8DataTunnel \<Rightarrow> int \<times> int" where
  "nextKeepalive rnd rnd' sampleInterval t =
     (let ticks = in_range rnd (vt_keepaliveMin t) (vt_keepaliveMax t) div sampleInterval in
      (if ticks < 1 then 1 else ticks, in_range rnd' 0 (vt_keepalivePadMax t)))"

definition vt_Reconfigure :: "int \<Rightarrow> int \<Rightarrow> VP8DataTunnel \<Rightarrow> VP8DataTunnel" where
  "vt_Reconfigure fps batch t =
     (if fps \<le> 0 \<and> batch \<le> 0 then t
      else
        let changed = (0 < fps \<and> vt_fps t \<noteq> fps \<or> 0 < batch \<and> vt_batch t \<noteq> batch);
            t = t\<lparr>vt_fps := (if 0 < fps then fps else vt_fps t), vt_batch := (if 0 < batch then batch else vt_batch t)\<rparr> in
        if changed then t\<lparr>vt_cfgChan := True\<rparr> else t)"

text \<open>
  \<open>SendData\<close>: \<open>None\<close> while it blocks on a full queue. When the tunnel is stopped and the queue has room, either
  case of the \<open>select\<close> may be taken, which \<open>queued\<close> says.
\<close>

definition vt_SendData :: "bool \<Rightarrow> bytes \<Rightarrow> VP8DataTunnel \<Rightarrow> VP8DataTunnel option" where
  "vt_SendData queued data t =
     (let room = length (vt_sendQueue t) < vt_queueDepth t in
      if data = [] then Some t
      else if room \<and> (queued \<or> \<not> vt_stopped t) then Some (t\<lparr>vt_sendQueue := vt_sendQueue t @ [data]\<rparr>)
      else if vt_stopped t then Some t
      else None)"

definition TrySendData :: "bool \<Rightarrow> bytes \<Rightarrow> VP8DataTunnel \<Rightarrow> bool \<times> VP8DataTunnel" where
  "TrySendData queued data t =
     (let room = length (vt_sendQueue t) < vt_queueDepth t in
      if data = [] then (True, t)
      else if room \<and> (queued \<or> \<not> vt_stopped t) then (True, t\<lparr>vt_sendQueue := vt_sendQueue t @ [data]\<rparr>)
      else (False, t))"

text \<open>\<open>Start\<close> and \<open>Stop\<close>, with whether the writer is started or \<open>OnClose\<close> called.\<close>

definition vt_Start :: "int \<Rightarrow> int \<Rightarrow> VP8DataTunnel \<Rightarrow> bool \<times> VP8DataTunnel" where
  "vt_Start fps batch t =
     (let t = t\<lparr>vt_fps := (if 0 < fps then fps else vt_fps t), vt_batch := (if 0 < batch then batch else vt_batch t)\<rparr> in
      if vt_running t then (False, t) else (True, t\<lparr>vt_running := True\<rparr>))"

definition vt_Stop :: "VP8DataTunnel \<Rightarrow> bool \<times> VP8DataTunnel" where
  "vt_Stop t = (if vt_running t then (True, t\<lparr>vt_running := False, vt_stopped := True\<rparr>) else (False, t))"

text \<open>\<open>HandleFrame\<close>: whether a restart of the peer is reported, and what reaches \<open>OnData\<close>.\<close>

definition vt_HandleFrame :: "bytes \<Rightarrow> VP8DataTunnel \<Rightarrow> bool \<times> bytes option \<times> VP8DataTunnel" where
  "vt_HandleFrame frm t =
     (case Decode frm (vt_obf t) of
        (res, ob) \<Rightarrow>
          let t = t\<lparr>vt_obf := ob\<rparr> in
          if \<not> HasFrame res \<or> SelfEcho res then (False, None, t)
          else if dr_Keepalive res \<or> dr_Payload res = [] then (PeerRestart res, None, t)
          else (PeerRestart res, Some (dr_Payload res), t\<lparr>vt_recvFrames := vt_recvFrames t + 1\<rparr>))"

section \<open>The writer\<close>

record writer =
  w_interval :: duration
  w_every :: int
  w_pad :: int
  w_idle :: int

record vp8_writer = writer +
  w_fps :: int \<comment> \<open>the rate read at the top of the loop\<close>
  w_batch :: int

text \<open>
  The top of the outer loop, which reads the rate, and a pace drift, which draws new numbers for the rate read there.
\<close>

definition writer_start :: "nat \<times> nat \<times> nat \<Rightarrow> VP8DataTunnel \<Rightarrow> vp8_writer" where
  "writer_start rnds t =
     (case rnds of (r1, r2, r3) \<Rightarrow>
        let fps = vt_fps t; batch = vt_batch t;
            interval = sampleIntervalFor fps (pacedBatchFor r1 batch) in
        case nextKeepalive r2 r3 interval t of (every, pad) \<Rightarrow>
          \<lparr>w_interval = interval, w_every = every, w_pad = pad, w_idle = 0, w_fps = fps, w_batch = batch\<rparr>)"

definition writer_drift :: "nat \<times> nat \<times> nat \<Rightarrow> VP8DataTunnel \<Rightarrow> vp8_writer \<Rightarrow> vp8_writer" where
  "writer_drift rnds t w =
     (case rnds of (r1, r2, r3) \<Rightarrow>
        let interval = sampleIntervalFor (w_fps w) (pacedBatchFor r1 (w_batch w)) in
        case nextKeepalive r2 r3 interval t of (every, pad) \<Rightarrow>
          w\<lparr>w_interval := interval, w_every := every, w_pad := pad\<rparr>)"

text \<open>A tick: the sample, if any, and whether it is a keepalive.\<close>

definition writer_tick ::
  "go_error + bytes \<Rightarrow> go_error + bytes \<Rightarrow> nat \<times> nat \<Rightarrow> VP8DataTunnel \<Rightarrow> 'a writer_scheme \<Rightarrow> (bytes option \<times> bool) \<times> VP8DataTunnel \<times> 'a writer_scheme" where
  "writer_tick nonce padding rnds t w =
     (case vt_sendQueue t of
        data # rest \<Rightarrow> ((EncodeData nonce data (vt_obf t), False), t\<lparr>vt_sendQueue := rest\<rparr>, w\<lparr>w_idle := 0\<rparr>)
      | [] \<Rightarrow>
          let idle = w_idle w + 1 in
          if idle < w_every w then ((None, False), t, w\<lparr>w_idle := idle\<rparr>)
          else
            case nextKeepalive (fst rnds) (snd rnds) (w_interval w) t of (every, pad) \<Rightarrow>
              ((Some (EncodeKeepalive padding (w_pad w) (vt_obf t)), True), t, w\<lparr>w_idle := 0, w_every := every, w_pad := pad\<rparr>))"

definition wrote :: "bool \<Rightarrow> VP8DataTunnel \<Rightarrow> VP8DataTunnel" where
  "wrote isKeepalive t =
     t\<lparr>vt_sentFrames := vt_sentFrames t + 1, vt_keepaliveFrames := vt_keepaliveFrames t + (if isKeepalive then 1 else 0)\<rparr>"

text \<open>
  A tunnel at work: its writer while it runs, the samples on the track, and the payloads accepted and lost. A payload is
  accepted by what the call tells its caller: \<open>TrySendData\<close> returned true, or \<open>SendData\<close> returned while the tunnel was not
  stopped; on a stopped tunnel the caller of \<open>SendData\<close> learns nothing, and the payload counts if it was queued. It is lost if
  no nonce could be drawn for it or its sample could not be written. A tunnel that was stopped is started again only
  once its writer has ended.
\<close>

record vp8_run =
  v_tunnel :: VP8DataTunnel
  v_writer :: "vp8_writer option"
  v_track :: "bytes list"
  v_accepted :: "bytes list"
  v_sent :: "bytes list" \<comment> \<open>the payloads whose samples are on the track\<close>
  v_lost :: nat \<comment> \<open>how many could not be sealed or written\<close>

definition vp8_init :: "vp8_run \<Rightarrow> bool" where
  "vp8_init s \<longleftrightarrow> (\<exists>ob depth. s = \<lparr>v_tunnel = NewVP8DataTunnelWithQueue ob depth, v_writer = None, v_track = [], v_accepted = [], v_sent = [], v_lost = 0\<rparr>)"

inductive vp8_step :: "vp8_run \<Rightarrow> vp8_run \<Rightarrow> bool" where
  Send: "vt_SendData q data (v_tunnel s) = Some t \<Longrightarrow>
     vp8_step s (s\<lparr>v_tunnel := t, v_accepted := v_accepted s @
       (if data \<noteq> [] \<and> (\<not> vt_stopped (v_tunnel s) \<or> vt_sendQueue t \<noteq> vt_sendQueue (v_tunnel s)) then [data] else [])\<rparr>)"
| TrySend: "TrySendData q data (v_tunnel s) = (ok, t) \<Longrightarrow>
     vp8_step s (s\<lparr>v_tunnel := t, v_accepted := v_accepted s @ (if ok \<and> data \<noteq> [] then [data] else [])\<rparr>)"
| Reconfigure: "vp8_step s (s\<lparr>v_tunnel := vt_Reconfigure fps batch (v_tunnel s)\<rparr>)"
| Shape: "vp8_step s (s\<lparr>v_tunnel := SetKeepaliveShape lo hi pad (v_tunnel s)\<rparr>)"
| Start: "vt_Start fps batch (v_tunnel s) = (go, t) \<Longrightarrow> (go \<Longrightarrow> v_writer s = None) \<Longrightarrow>
     vp8_step s (s\<lparr>v_tunnel := t, v_writer := if go then Some (writer_start rnds t) else v_writer s\<rparr>)"
| Stop: "vt_Stop (v_tunnel s) = (b, t) \<Longrightarrow> vp8_step s (s\<lparr>v_tunnel := t\<rparr>)"
| Receive: "vt_HandleFrame frm (v_tunnel s) = (b, d, t) \<Longrightarrow> vp8_step s (s\<lparr>v_tunnel := t\<rparr>)"
| Ended: "vt_stopped (v_tunnel s) \<Longrightarrow> vp8_step s (s\<lparr>v_writer := None\<rparr>)"
| Restart: "v_writer s = Some w \<Longrightarrow> vt_cfgChan (v_tunnel s) \<Longrightarrow>
     vp8_step s (s\<lparr>v_tunnel := (v_tunnel s)\<lparr>vt_cfgChan := False\<rparr>, v_writer := Some (writer_start rnds (v_tunnel s))\<rparr>)"
| Drift: "v_writer s = Some w \<Longrightarrow> vp8_step s (s\<lparr>v_writer := Some (writer_drift rnds (v_tunnel s) w)\<rparr>)"
| Tick: "v_writer s = Some w \<Longrightarrow> writer_tick nonce padding rs (v_tunnel s) w = ((sample, ka), t, w') \<Longrightarrow>
     (\<And>n. nonce = Inr n \<Longrightarrow> length n = 24) \<Longrightarrow>
     vp8_step s (if sample = None \<or> fails
       then s\<lparr>v_tunnel := t, v_writer := Some w', v_lost := v_lost s + (if vt_sendQueue (v_tunnel s) \<noteq> [] \<and> (isl nonce \<or> fails) then 1 else 0)\<rparr>
       else s\<lparr>v_tunnel := wrote ka t, v_writer := Some w', v_track := v_track s @ [the sample],
         v_sent := v_sent s @ (if ka then [] else [hd (vt_sendQueue (v_tunnel s))])\<rparr>)"

text \<open>What the peer delivers of the samples on a track.\<close>

fun receive_track :: "bytes list \<Rightarrow> VP8DataTunnel \<Rightarrow> bytes list" where
  "receive_track [] t = []"
| "receive_track (f # fs) t =
     (case vt_HandleFrame f t of (_, d, t) \<Rightarrow> (case d of None \<Rightarrow> [] | Some p \<Rightarrow> [p]) @ receive_track fs t)"

section \<open>Bounds of pacing\<close>

lemma in_range_bounds: "lo \<le> hi \<Longrightarrow> lo \<le> in_range rnd lo hi \<and> in_range rnd lo hi \<le> hi"
  using pos_mod_bound [of "hi - lo + 1" "int rnd"] pos_mod_sign [of "hi - lo + 1" "int rnd"] by (auto simp: in_range_def)

lemma in_range_ge: "lo \<le> in_range rnd lo hi"
  using in_range_bounds [of lo hi rnd] by (cases "lo \<le> hi") (auto simp: in_range_def)

lemma interval_bounds: "0 < sampleIntervalFor fps batch \<and> sampleIntervalFor fps batch \<le> Second"
proof -
  let ?f = "if fps < 1 then 1 else fps"
  have "Second div ?f \<le> Second" using zdiv_mono2 [of Second 1 ?f] by simp
  moreover have "0 \<le> Second div ?f" by (rule pos_imp_zdiv_nonneg_iff [THEN iffD2]) simp_all
  moreover have "(Second div ?f) div batch \<le> Second div ?f" if "1 < batch"
    using that \<open>0 \<le> Second div ?f\<close> zdiv_mono2 [of "Second div ?f" 1 batch] by simp
  ultimately show ?thesis unfolding sampleIntervalFor_def Let_def by auto
qed

lemma paced_bounds: "1 \<le> batch \<Longrightarrow> 1 \<le> pacedBatchFor rnd batch \<and> pacedBatchFor rnd batch \<le> batch"
proof -
  assume "1 \<le> batch"
  let ?low = "batch * paceBatchFloorPercent div 100"
  have "batch * 80 div 100 \<le> batch" using \<open>1 \<le> batch\<close> by linarith
  then have "(if ?low < 1 then 1 else ?low) \<le> batch" using \<open>1 \<le> batch\<close> unfolding paceBatchFloorPercent_def by simp
  from in_range_bounds [OF this, of rnd] show ?thesis using \<open>1 \<le> batch\<close>
    by (auto simp: pacedBatchFor_def Let_def split: if_splits)
qed

definition wf_vp8_writer :: "'a writer_scheme \<Rightarrow> bool" where
  "wf_vp8_writer w \<longleftrightarrow> 0 < w_interval w \<and> w_interval w \<le> Second \<and> 1 \<le> w_every w \<and> 0 \<le> w_pad w"

lemma next_bounds: "1 \<le> fst (nextKeepalive r r' i t) \<and> 0 \<le> snd (nextKeepalive r r' i t)"
  using in_range_ge [of 0 r' "vt_keepalivePadMax t"] by (simp add: nextKeepalive_def Let_def)

lemma wf_vp8_writer_start: "wf_vp8_writer (writer_start rnds t)"
  using interval_bounds next_bounds
  by (auto simp: wf_vp8_writer_def writer_start_def Let_def split: prod.splits) (metis fst_conv, metis snd_conv)

lemma wf_vp8_writer_drift: "wf_vp8_writer w \<Longrightarrow> wf_vp8_writer (writer_drift rnds t w)"
  using interval_bounds next_bounds
  by (auto simp: wf_vp8_writer_def writer_drift_def Let_def split: prod.splits) (metis fst_conv, metis snd_conv)

section \<open>Samples\<close>

text \<open>A sample of an end: a keepalive, or a payload sealed under its key.\<close>

definition sample_of :: "TunnelObfuscator \<Rightarrow> bytes \<Rightarrow> bytes option \<Rightarrow> bool" where
  "sample_of ob f d \<longleftrightarrow> (case d of
       None \<Rightarrow> \<exists>pad. f = vp8Keepalive @ PutUint32 (localEpoch ob) @ pad
     | Some p \<Rightarrow> p \<noteq> [] \<and> (\<exists>nonce. length nonce = 24 \<and> f = vp8Interframe @ PutUint32 (localEpoch ob) @ nonce @ Seal (to_aead ob) nonce p []))"

lemma EncodeKeepalive_sample: "sample_of ob (EncodeKeepalive padding n ob) None"
  by (auto simp: sample_of_def EncodeKeepalive_def keepaliveHeader_def Let_def split: sum.split)

lemma EncodeData_sample:
  "EncodeData nonce d ob = Some f \<Longrightarrow> d \<noteq> [] \<Longrightarrow> (\<And>n. nonce = Inr n \<Longrightarrow> length n = 24) \<Longrightarrow> sample_of ob f (Some d)"
  by (auto simp: EncodeData_def dataHeader_def sample_of_def split: sum.splits)

definition sample_payloads :: "bytes option list \<Rightarrow> bytes list" where
  "sample_payloads ds = concat (map (\<lambda>d. case d of None \<Rightarrow> [] | Some p \<Rightarrow> [p]) ds)"

lemma sample_payloads_append [simp]: "sample_payloads (xs @ ys) = sample_payloads xs @ sample_payloads ys" "sample_payloads [] = []"
  by (simp_all add: sample_payloads_def)

lemma receive_sample:
  assumes "sample_of ob f d" "aead_laws (to_aead ob)" "to_aead (vt_obf t) = to_aead ob" "localEpoch (vt_obf t) \<noteq> localEpoch ob"
  shows "\<exists>b t'. vt_HandleFrame f t = (b, d, t') \<and> to_aead (vt_obf t') = to_aead ob \<and> localEpoch (vt_obf t') = localEpoch (vt_obf t)"
proof (cases d)
  case None
  then obtain pad where "f = vp8Keepalive @ PutUint32 (localEpoch ob) @ pad" using assms(1) by (auto simp: sample_of_def)
  then show ?thesis using None assms(3,4) Decode_keepalive [of "localEpoch ob" "vt_obf t" pad]
    by (simp add: vt_HandleFrame_def Let_def met_def meeting_def no_frame_def)
next
  case (Some p)
  then obtain nonce where p: "p \<noteq> []" "length nonce = 24" "f = vp8Interframe @ PutUint32 (localEpoch ob) @ nonce @ Seal (to_aead ob) nonce p []"
    using assms(1) by (auto simp: sample_of_def)
  have ct: "length (Seal (to_aead ob) nonce p []) = length p + 16" "Open (to_aead ob) nonce (Seal (to_aead ob) nonce p []) [] = Some p"
    using aead_lawsD(1,2) [OF assms(2)] by auto
  have "nonce @ Seal (to_aead ob) nonce p [] \<noteq> []" using p(2) by auto
  then have "Decode f (vt_obf t) = ((meeting (localEpoch ob) (vt_obf t))\<lparr>dr_Payload := p\<rparr>, met (localEpoch ob) (vt_obf t))"
    using Decode_data [of vp8Interframe "localEpoch ob" "vt_obf t" "nonce @ Seal (to_aead ob) nonce p []"] assms(3,4) p ct by simp
  then show ?thesis using Some p(1) assms(3)
    by (simp add: vt_HandleFrame_def Let_def met_def meeting_def no_frame_def)
qed

lemma receive_samples:
  assumes "list_all2 (sample_of ob) fs ds" "aead_laws (to_aead ob)" "to_aead (vt_obf t) = to_aead ob" "localEpoch (vt_obf t) \<noteq> localEpoch ob"
  shows "receive_track fs t = sample_payloads ds"
  using assms(1,3,4)
proof (induction fs ds arbitrary: t rule: list_all2_induct)
  case (Cons f fs d ds)
  from receive_sample [OF Cons(1) assms(2) Cons.prems] obtain b t' where
    "vt_HandleFrame f t = (b, d, t')" "to_aead (vt_obf t') = to_aead ob" "localEpoch (vt_obf t') = localEpoch (vt_obf t)" by blast
  with Cons.IH [of t'] Cons.prems show ?case by (simp add: sample_payloads_def)
qed (simp add: sample_payloads_def)

section \<open>The invariant\<close>

definition vp8_inv :: "vp8_run \<Rightarrow> bool" where
  "vp8_inv s \<longleftrightarrow> length (vt_sendQueue (v_tunnel s)) \<le> vt_queueDepth (v_tunnel s) \<and>
     (\<forall>d \<in> set (vt_sendQueue (v_tunnel s)). d \<noteq> []) \<and> (\<forall>w. v_writer s = Some w \<longrightarrow> wf_vp8_writer w) \<and>
     (\<exists>p. v_accepted s = p @ vt_sendQueue (v_tunnel s) \<and> subseq (v_sent s) p \<and> length p = length (v_sent s) + v_lost s) \<and>
     (\<exists>ds. list_all2 (sample_of (vt_obf (v_tunnel s))) (v_track s) ds \<and> v_sent s = sample_payloads ds)"

text \<open>Steps that leave the queue and the key alone.\<close>

definition same_stream :: "VP8DataTunnel \<Rightarrow> VP8DataTunnel \<Rightarrow> bool" where
  "same_stream t t' \<longleftrightarrow> vt_sendQueue t' = vt_sendQueue t \<and> vt_queueDepth t' = vt_queueDepth t \<and>
     to_aead (vt_obf t') = to_aead (vt_obf t) \<and> localEpoch (vt_obf t') = localEpoch (vt_obf t)"

lemma sample_of_cong: "to_aead a = to_aead b \<Longrightarrow> localEpoch a = localEpoch b \<Longrightarrow> sample_of a = sample_of b"
  by (rule ext, rule ext) (simp add: sample_of_def split: option.split)

lemma same_stream_inv:
  assumes "vp8_inv s" "same_stream (v_tunnel s) t" "\<forall>w. wr = Some w \<longrightarrow> wf_vp8_writer w"
  shows "vp8_inv (s\<lparr>v_tunnel := t, v_writer := wr\<rparr>)"
  using assms sample_of_cong [of "vt_obf t" "vt_obf (v_tunnel s)"] by (simp add: vp8_inv_def same_stream_def)

lemma Decode_keeps: "Decode f ob = (res, ob') \<Longrightarrow> to_aead ob' = to_aead ob \<and> localEpoch ob' = localEpoch ob"
  by (auto simp: Decode_def Let_def split: if_splits option.splits)

lemma same_stream_ops:
  "same_stream t t" "same_stream t (vt_Reconfigure fps batch t)" "same_stream t (SetKeepaliveShape lo hi pad t)"
  "vt_Start fps batch t = (go, t') \<Longrightarrow> same_stream t t'" "vt_Stop t = (b, t') \<Longrightarrow> same_stream t t'"
  "vt_HandleFrame f t = (b, d, t') \<Longrightarrow> same_stream t t'" "same_stream t (t\<lparr>vt_cfgChan := c\<rparr>)"
  using Decode_keeps [of f "vt_obf t"]
  by (auto simp: same_stream_def vt_Reconfigure_def SetKeepaliveShape_def vt_Start_def vt_Stop_def vt_HandleFrame_def Let_def
      split: if_splits prod.splits)

lemma enqueue_inv:
  assumes "vp8_inv s" "data \<noteq> []" "length (vt_sendQueue (v_tunnel s)) < vt_queueDepth (v_tunnel s)"
  shows "vp8_inv (s\<lparr>v_tunnel := (v_tunnel s)\<lparr>vt_sendQueue := vt_sendQueue (v_tunnel s) @ [data]\<rparr>, v_accepted := v_accepted s @ [data]\<rparr>)"
  using assms by (auto simp: vp8_inv_def)

text \<open>A send either queues the payload and accepts it or does neither.\<close>

definition sent_as :: "bytes \<Rightarrow> VP8DataTunnel \<Rightarrow> VP8DataTunnel \<Rightarrow> bytes list \<Rightarrow> bool" where
  "sent_as data t t' acc \<longleftrightarrow> t' = t \<and> acc = [] \<or>
     t' = t\<lparr>vt_sendQueue := vt_sendQueue t @ [data]\<rparr> \<and> acc = [data] \<and> data \<noteq> [] \<and> length (vt_sendQueue t) < vt_queueDepth t"

lemma SendData_cases:
  "vt_SendData q data t = Some t' \<Longrightarrow>
     sent_as data t t' (if data \<noteq> [] \<and> (\<not> vt_stopped t \<or> vt_sendQueue t' \<noteq> vt_sendQueue t) then [data] else [])"
  "TrySendData q data t = (ok, t') \<Longrightarrow> sent_as data t t' (if ok \<and> data \<noteq> [] then [data] else [])"
  by (auto simp: sent_as_def vt_SendData_def TrySendData_def Let_def split: if_splits)

lemma send_progress:
  assumes "data \<noteq> []" "\<not> vt_stopped t"
  shows "vt_SendData q data t = None \<longleftrightarrow> vt_queueDepth t \<le> length (vt_sendQueue t)"
    "fst (TrySendData q data t) \<longleftrightarrow> length (vt_sendQueue t) < vt_queueDepth t"
  using assms by (auto simp: vt_SendData_def TrySendData_def Let_def)

lemma accept_inv:
  assumes "vp8_inv s" "sent_as data (v_tunnel s) t acc"
  shows "vp8_inv (s\<lparr>v_tunnel := t, v_accepted := v_accepted s @ acc\<rparr>)"
  using assms enqueue_inv [OF assms(1), of data] by (auto simp: sent_as_def)

lemma tick_inv:
  assumes inv: "vp8_inv s" and w: "v_writer s = Some w" and tick: "writer_tick nonce padding rs (v_tunnel s) w = ((sample, ka), t, w')"
    and n: "\<And>n. nonce = Inr n \<Longrightarrow> length n = 24"
  shows "vp8_inv (if sample = None \<or> fails
    then s\<lparr>v_tunnel := t, v_writer := Some w', v_lost := v_lost s + (if vt_sendQueue (v_tunnel s) \<noteq> [] \<and> (isl nonce \<or> fails) then 1 else 0)\<rparr>
    else s\<lparr>v_tunnel := wrote ka t, v_writer := Some w', v_track := v_track s @ [the sample],
      v_sent := v_sent s @ (if ka then [] else [hd (vt_sendQueue (v_tunnel s))])\<rparr>)"
proof -
  let ?t = "v_tunnel s"
  have ww: "wf_vp8_writer w" using inv w by (simp add: vp8_inv_def)
  obtain p where p: "v_accepted s = p @ vt_sendQueue ?t" "subseq (v_sent s) p" "length p = length (v_sent s) + v_lost s"
    using inv by (auto simp: vp8_inv_def)
  obtain ds where ds: "list_all2 (sample_of (vt_obf ?t)) (v_track s) ds" "v_sent s = sample_payloads ds" using inv by (auto simp: vp8_inv_def)
  have q: "length (vt_sendQueue ?t) \<le> vt_queueDepth ?t" "\<forall>d \<in> set (vt_sendQueue ?t). d \<noteq> []" using inv by (auto simp: vp8_inv_def)
  have grow: "list_all2 (sample_of (vt_obf ?t)) (v_track s @ [f]) (ds @ [d])" if "sample_of (vt_obf ?t) f d" for f d
    using ds(1) that by (simp add: list_all2_appendI)
  show ?thesis
  proof (cases "vt_sendQueue ?t")
    case Nil
    have wf': "wf_vp8_writer w'" and t: "t = ?t" and ka: "sample \<noteq> None \<Longrightarrow> ka"
      and smp: "sample \<noteq> None \<Longrightarrow> sample_of (vt_obf ?t) (the sample) None"
      using tick Nil ww next_bounds [of "fst rs" "snd rs" "w_interval w" ?t] EncodeKeepalive_sample
      by (auto simp: writer_tick_def wf_vp8_writer_def Let_def split: if_splits prod.splits)
    show ?thesis
    proof (cases "sample = None \<or> fails")
      case True
      then show ?thesis using inv wf' Nil by (simp add: vp8_inv_def t)
    next
      case False
      then have "list_all2 (sample_of (vt_obf ?t)) (v_track s @ [the sample]) (ds @ [None])" using grow smp by blast
      then show ?thesis using False wf' Nil p ds(2) ka
        by (auto simp: vp8_inv_def t wrote_def sample_payloads_def intro!: exI [of _ "ds @ [None]"])
    qed
  next
    case (Cons d rest)
    have t: "t = ?t\<lparr>vt_sendQueue := rest\<rparr>" "sample = EncodeData nonce d (vt_obf ?t)" "\<not> ka" and wf': "wf_vp8_writer w'"
      using tick Cons ww by (auto simp: writer_tick_def wf_vp8_writer_def)
    have d: "d \<noteq> []" using q(2) Cons by simp
    have nl: "sample = None \<longleftrightarrow> isl nonce" using t(2) by (simp add: EncodeData_def split: sum.split)
    show ?thesis
    proof (cases "sample = None \<or> fails")
      case True
      have "subseq (v_sent s) (p @ [d])" by (rule list_emb_prefix [OF p(2)])
      moreover have "isl nonce \<or> fails" using True nl by simp
      ultimately show ?thesis using True wf' Cons p ds q by (auto simp: vp8_inv_def t(1) intro!: exI [of _ "p @ [d]"])
    next
      case False
      then have "sample_of (vt_obf ?t) (the sample) (Some d)"
        using t(2) d n by (auto intro: EncodeData_sample)
      from grow [OF this] have "list_all2 (sample_of (vt_obf ?t)) (v_track s @ [the sample]) (ds @ [Some d])" .
      moreover have "subseq (v_sent s @ [d]) (p @ [d])" using p(2) by simp
      ultimately show ?thesis using False wf' Cons p ds(2) q t(3)
        by (auto simp: vp8_inv_def t(1) wrote_def sample_payloads_def intro!: exI [of _ "p @ [d]"] exI [of _ "ds @ [Some d]"])
    qed
  qed
qed

lemma vp8_inv_step:
  assumes "vp8_inv s" "vp8_step s s'"
  shows "vp8_inv s'"
  using assms(2)
proof cases
  case (Send q data t)
  from accept_inv [OF assms(1) SendData_cases(1) [OF Send(2)]] show ?thesis unfolding Send(1) .
next
  case (TrySend q data ok t)
  from accept_inv [OF assms(1) SendData_cases(2) [OF TrySend(2)]] show ?thesis unfolding TrySend(1) .
next
  case (Tick w nonce padding rs sample ka t w' fails)
  then show ?thesis using tick_inv [OF assms(1)] by blast
next
  case (Reconfigure fps batch)
  then show ?thesis using same_stream_inv [OF assms(1) same_stream_ops(2), of "v_writer s"] assms(1) by (simp add: vp8_inv_def)
next
  case (Shape lo hi pad)
  then show ?thesis using same_stream_inv [OF assms(1) same_stream_ops(3), of "v_writer s"] assms(1) by (simp add: vp8_inv_def)
next
  case (Start fps batch go t rnds)
  then show ?thesis
    using same_stream_inv [OF assms(1) same_stream_ops(4), of fps batch go t "if go then Some (writer_start rnds t) else v_writer s"] assms(1) wf_vp8_writer_start
    by (auto simp: vp8_inv_def split: if_splits)
next
  case (Stop b t)
  then show ?thesis using same_stream_inv [OF assms(1) same_stream_ops(5), of b t "v_writer s"] assms(1) by (simp add: vp8_inv_def)
next
  case (Receive frm b d t)
  then show ?thesis using same_stream_inv [OF assms(1) same_stream_ops(6), of frm b d t "v_writer s"] assms(1) by (simp add: vp8_inv_def)
next
  case Ended
  then show ?thesis using assms(1) by (simp add: vp8_inv_def)
next
  case (Restart w rnds)
  then show ?thesis using assms(1) wf_vp8_writer_start by (simp add: vp8_inv_def)
next
  case (Drift w rnds)
  then show ?thesis using assms(1) wf_vp8_writer_drift by (simp add: vp8_inv_def)
qed

interpretation vp8: invariant_system vp8_init vp8_step vp8_inv
proof
  fix s assume "vp8_init s"
  then show "vp8_inv s" by (auto simp: vp8_init_def vp8_inv_def NewVP8DataTunnelWithQueue_def intro: exI [of _ "[]"])
qed (rule vp8_inv_step)

section \<open>The property\<close>

text \<open>
  C30. A VP8 tunnel is an ordered channel with counted losses: along every run, with any mix of blocking and
  non-blocking sends, reconfigurations, drifts, restarts and failing writes, the other end (same key, other
  epoch) delivers from the track exactly the payloads whose samples were written, in the order they were
  accepted; every payload that \<open>TrySendData\<close> reported as taken or on which \<open>SendData\<close> returned while the tunnel was not
  stopped is written, still queued or counted as lost, and lost only if its nonce or its write failed; on a
  tunnel that is not stopped \<open>SendData\<close> blocks and \<open>TrySendData\<close> refuses exactly when the queue is full; the queue
  keeps its depth; and the ticker of the writer always gets a positive period of at most a second.
\<close>
theorem vp8_channel_ordered:
  assumes "reach vp8_init vp8_step s" "aead_laws (to_aead (vt_obf (v_tunnel s)))"
    and "to_aead (vt_obf peer) = to_aead (vt_obf (v_tunnel s))" "localEpoch (vt_obf peer) \<noteq> localEpoch (vt_obf (v_tunnel s))"
  shows "(\<forall>q data. data \<noteq> [] \<and> \<not> vt_stopped (v_tunnel s) \<longrightarrow>
       (vt_SendData q data (v_tunnel s) = None \<longleftrightarrow> length (vt_sendQueue (v_tunnel s)) = vt_queueDepth (v_tunnel s)) \<and>
       (fst (TrySendData q data (v_tunnel s)) \<longleftrightarrow> length (vt_sendQueue (v_tunnel s)) < vt_queueDepth (v_tunnel s))) \<and>
    receive_track (v_track s) peer = v_sent s \<and> subseq (v_sent s) (v_accepted s) \<and>
    length (v_accepted s) = length (v_sent s) + length (vt_sendQueue (v_tunnel s)) + v_lost s \<and>
    (v_lost s = 0 \<longrightarrow> v_accepted s = v_sent s @ vt_sendQueue (v_tunnel s)) \<and>
    length (vt_sendQueue (v_tunnel s)) \<le> vt_queueDepth (v_tunnel s) \<and>
    (\<forall>w. v_writer s = Some w \<longrightarrow> 0 < w_interval w \<and> w_interval w \<le> Second)"
proof -
  have inv: "vp8_inv s" using vp8.reach_inv [OF assms(1)] .
  obtain p where p: "v_accepted s = p @ vt_sendQueue (v_tunnel s)" "subseq (v_sent s) p" "length p = length (v_sent s) + v_lost s"
    using inv by (auto simp: vp8_inv_def)
  obtain ds where "list_all2 (sample_of (vt_obf (v_tunnel s))) (v_track s) ds" "v_sent s = sample_payloads ds" using inv by (auto simp: vp8_inv_def)
  then have "receive_track (v_track s) peer = v_sent s" using receive_samples [OF _ assms(2-4)] by simp
  moreover have "subseq (v_sent s) (v_accepted s)" unfolding p(1) by (rule list_emb_prefix [OF p(2)])
  moreover have "v_lost s = 0 \<Longrightarrow> v_sent s = p" using p(2,3) subseq_same_length by fastforce
  moreover have "length (vt_sendQueue (v_tunnel s)) \<le> vt_queueDepth (v_tunnel s)" using inv by (simp add: vp8_inv_def)
  ultimately show ?thesis using inv p by (auto simp: send_progress vp8_inv_def wf_vp8_writer_def)
qed

definition vp8_demo :: "vp8_run \<times> vp8_run \<times> vp8_run \<times> vp8_run" where
  "vp8_demo =
     (let s0 = \<lparr>v_tunnel = NewVP8DataTunnelWithQueue (demo_obf 1) 0, v_writer = None, v_track = [], v_accepted = [], v_sent = [], v_lost = 0\<rparr>;
          s1 = s0\<lparr>v_tunnel := the (vt_SendData False [1, 2, 3] (v_tunnel s0)), v_accepted := [[1, 2, 3]]\<rparr>;
          t2 = snd (vt_Start 0 0 (v_tunnel s1));
          s2 = s1\<lparr>v_tunnel := t2, v_writer := Some (writer_start (0, 0, 0) t2)\<rparr>;
          r = writer_tick (Inr (replicate 24 7)) (Inr []) (0, 0) t2 (the (v_writer s2)) in
      (s0, s1, s2, s2\<lparr>v_tunnel := wrote False (fst (snd r)), v_writer := Some (snd (snd r)), v_track := [the (fst (fst r))], v_sent := [[1, 2, 3]]\<rparr>))"

lemma vp8_demo_reach: "reach vp8_init vp8_step (snd (snd (snd vp8_demo)))"
proof -
  let ?s = "fst vp8_demo" let ?s1 = "fst (snd vp8_demo)" let ?s2 = "fst (snd (snd vp8_demo))"
  have "vp8_init ?s" by (auto simp: vp8_demo_def vp8_init_def Let_def)
  then have "reach vp8_init vp8_step ?s" by (rule reach.intros(1))
  moreover have "vp8_step ?s ?s1"
    using vp8_step.Send [of False "[1, 2, 3]" ?s "v_tunnel ?s1"]
    by (simp add: vp8_demo_def Let_def vt_SendData_def NewVP8DataTunnelWithQueue_def sendQueueDepth_def)
  moreover have "vp8_step ?s1 ?s2"
    using vp8_step.Start [of 0 0 ?s1 True "v_tunnel ?s2" "(0, 0, 0)"]
    by (simp add: vp8_demo_def Let_def vt_SendData_def vt_Start_def NewVP8DataTunnelWithQueue_def sendQueueDepth_def)
  moreover have "vp8_step ?s2 (snd (snd (snd vp8_demo)))"
    using vp8_step.Tick [of ?s2 "the (v_writer ?s2)" "Inr (replicate 24 7)" "Inr []" "(0, 0)" "EncodeData (Inr (replicate 24 7)) [1, 2, 3] (demo_obf 1)"
        False "(v_tunnel ?s2)\<lparr>vt_sendQueue := []\<rparr>" "(the (v_writer ?s2))\<lparr>w_idle := 0\<rparr>" False]
    by (simp add: vp8_demo_def Let_def vt_SendData_def vt_Start_def NewVP8DataTunnelWithQueue_def sendQueueDepth_def writer_tick_def EncodeData_def)
  ultimately show ?thesis by (blast intro: reach.intros(2))
qed

theorem vp8_channel_ordered_witness:
  "receive_track (v_track (snd (snd (snd vp8_demo)))) (NewVP8DataTunnelWithQueue (demo_obf 2) 0) = [[1, 2, 3]]"
  using vp8_channel_ordered [OF vp8_demo_reach, of "NewVP8DataTunnelWithQueue (demo_obf 2) 0"]
  by (simp add: vp8_demo_def Let_def NewVP8DataTunnelWithQueue_def demo_obf_def vt_SendData_def vt_Start_def writer_tick_def wrote_def sendQueueDepth_def)

end
