(* ===== verification/Multi_Track.thy ===== *)
theory Multi_Track
  imports Vp8_Tunnel Tunnel_Protocol
begin

text \<open>
  Several tracks as one tunnel: the multi-track tunnel
  (\<open>transport/call/tunnel/multi_track_tunnel.go\<close>), which spreads connections over VP8 tunnels, and the
  camera and screen pair (\<open>screen_tunnel.go\<close>) with the writer of the screen channel. VP8 tunnels are
  shared between their owners, so they live in a store and are named by reference.
\<close>

type_synonym vheap = "nat \<Rightarrow> VP8DataTunnel"

section \<open>The multi-track tunnel\<close>

record MultiTrackTunnel =
  mt_tunnels :: "nat list"
  mt_camera :: "nat option" \<comment> \<open>the tunnel wired as the camera: its close and restart are reported\<close>
  mt_isClosed :: bool
  mt_fps :: int
  mt_batch :: int

definition NewMultiTrackTunnel :: "nat list \<Rightarrow> MultiTrackTunnel" where
  "NewMultiTrackTunnel tunnels =
     \<lparr>mt_tunnels = tunnels, mt_camera = (case tunnels of [] \<Rightarrow> None | r # _ \<Rightarrow> Some r), mt_isClosed = False, mt_fps = 0, mt_batch = 0\<rparr>"

definition AddSubTunnel :: "nat \<Rightarrow> MultiTrackTunnel \<Rightarrow> vheap \<Rightarrow> MultiTrackTunnel \<times> vheap" where
  "AddSubTunnel tun m h =
     (if mt_isClosed m then (m, h(tun := snd (vt_Stop (h tun))))
      else
        (m\<lparr>mt_tunnels := mt_tunnels m @ [tun]\<rparr>,
         if 0 < mt_fps m \<and> 0 < mt_batch m then h(tun := snd (vt_Start (mt_fps m) (mt_batch m) (h tun))) else h))"

definition RemoveLastSubTunnel :: "MultiTrackTunnel \<Rightarrow> vheap \<Rightarrow> nat option \<times> MultiTrackTunnel \<times> vheap" where
  "RemoveLastSubTunnel m h =
     (if length (mt_tunnels m) \<le> 1 then (None, m, h)
      else
        let r = last (mt_tunnels m) in
        (Some r, m\<lparr>mt_tunnels := butlast (mt_tunnels m)\<rparr>, h(r := snd (vt_Stop (h r)))))"

text \<open>The connection of a relay frame, 0 when the frame is too short to carry one.\<close>

definition frame_conn :: "bytes \<Rightarrow> u32" where
  "frame_conn data = (if 8 \<le> length data then Uint32 (slice 4 8 data) else 0)"

definition track_of :: "bytes \<Rightarrow> 'a list \<Rightarrow> 'a" where
  "track_of data tracks = tracks ! (unat (frame_conn data) mod length tracks)"

definition mt_SendData :: "bool \<Rightarrow> bytes \<Rightarrow> MultiTrackTunnel \<Rightarrow> vheap \<Rightarrow> vheap option" where
  "mt_SendData queued data m h =
     (if mt_tunnels m = [] then Some h
      else let r = track_of data (mt_tunnels m) in map_option (\<lambda>t. h(r := t)) (vt_SendData queued data (h r)))"

definition each_tunnel :: "(VP8DataTunnel \<Rightarrow> VP8DataTunnel) \<Rightarrow> nat list \<Rightarrow> vheap \<Rightarrow> vheap" where
  "each_tunnel f tunnels h = fold (\<lambda>r h. h(r := f (h r))) tunnels h"

definition mt_Reconfigure :: "int \<Rightarrow> int \<Rightarrow> MultiTrackTunnel \<Rightarrow> vheap \<Rightarrow> MultiTrackTunnel \<times> vheap" where
  "mt_Reconfigure fps batch m h =
     (m\<lparr>mt_fps := fps, mt_batch := batch\<rparr>, each_tunnel (vt_Reconfigure fps batch) (mt_tunnels m) h)"

definition mt_Start :: "int \<Rightarrow> int \<Rightarrow> MultiTrackTunnel \<Rightarrow> vheap \<Rightarrow> MultiTrackTunnel \<times> vheap" where
  "mt_Start fps batch m h =
     (m\<lparr>mt_fps := fps, mt_batch := batch\<rparr>, each_tunnel (\<lambda>t. snd (vt_Start fps batch t)) (mt_tunnels m) h)"

text \<open>
  \<open>Stop\<close> marks the tunnel closed first, so the close handler of the camera, run by its \<open>Stop\<close>, returns at once.
\<close>

definition mt_Stop :: "MultiTrackTunnel \<Rightarrow> vheap \<Rightarrow> MultiTrackTunnel \<times> vheap" where
  "mt_Stop m h =
     (if mt_isClosed m then (m, h)
      else (m\<lparr>mt_isClosed := True\<rparr>, each_tunnel (\<lambda>t. snd (vt_Stop t)) (mt_tunnels m) h))"

text \<open>The close handler of the camera, with whether it calls \<open>onClose\<close>, and the \<open>Stop\<close> of one tunnel that runs it.\<close>

definition camera_OnClose :: "MultiTrackTunnel \<Rightarrow> vheap \<Rightarrow> bool \<times> MultiTrackTunnel \<times> vheap" where
  "camera_OnClose m h =
     (if mt_isClosed m then (False, m, h)
      else (True, m\<lparr>mt_isClosed := True\<rparr>, each_tunnel (\<lambda>t. snd (vt_Stop t)) (mt_tunnels m) h))"

definition sub_Stop :: "nat \<Rightarrow> MultiTrackTunnel \<Rightarrow> vheap \<Rightarrow> bool \<times> MultiTrackTunnel \<times> vheap" where
  "sub_Stop tun m h =
     (case vt_Stop (h tun) of
        (called, t) \<Rightarrow> if called \<and> mt_camera m = Some tun then camera_OnClose m (h(tun := t)) else (False, m, h(tun := t)))"

text \<open>\<open>HandleFrame\<close>: whether a restart is reported, and what reaches \<open>onData\<close>.\<close>

definition mt_HandleFrame :: "bytes \<Rightarrow> MultiTrackTunnel \<Rightarrow> vheap \<Rightarrow> bool \<times> bytes option \<times> vheap" where
  "mt_HandleFrame frm m h =
     (case mt_tunnels m of
        [] \<Rightarrow> (False, None, h)
      | r # _ \<Rightarrow>
          (case vt_HandleFrame frm (h r) of (restart, d, t) \<Rightarrow> (restart \<and> mt_camera m = Some r, d, h(r := t))))"

section \<open>The screen channel\<close>

definition screenWriterFPS :: int where "screenWriterFPS = 24"
definition screenWriterBatch :: int where "screenWriterBatch = 30"
definition screenWriterMaxBytes :: nat where "screenWriterMaxBytes = 60000"
definition screenWriterQueue :: nat where "screenWriterQueue = 256"
definition screenKeepalivePadMax :: int where "screenKeepalivePadMax = 48"

record ScreenWriter =
  sw_obf :: TunnelObfuscator
  sw_stopped :: bool
  sw_sendQueue :: "bytes list"
  sw_cfgChan :: bool
  sw_running :: bool
  sw_fps :: int
  sw_batch :: int
  sw_sent :: u64

definition NewScreenWriter :: "TunnelObfuscator \<Rightarrow> ScreenWriter" where
  "NewScreenWriter ob =
     \<lparr>sw_obf = ob, sw_stopped = False, sw_sendQueue = [], sw_cfgChan = False, sw_running = False,
      sw_fps = screenWriterFPS, sw_batch = screenWriterBatch, sw_sent = 0\<rparr>"

definition sw_SendData :: "bool \<Rightarrow> bytes \<Rightarrow> ScreenWriter \<Rightarrow> ScreenWriter option" where
  "sw_SendData queued data w =
     (let room = length (sw_sendQueue w) < screenWriterQueue in
      if data = [] then Some w
      else if room \<and> (queued \<or> \<not> sw_stopped w) then Some (w\<lparr>sw_sendQueue := sw_sendQueue w @ [data]\<rparr>)
      else if sw_stopped w then Some w
      else None)"

definition sw_Reconfigure :: "int \<Rightarrow> int \<Rightarrow> ScreenWriter \<Rightarrow> ScreenWriter" where
  "sw_Reconfigure fps batch w =
     (if fps \<le> 0 \<and> batch \<le> 0 then w
      else
        let changed = (0 < fps \<and> sw_fps w \<noteq> fps \<or> 0 < batch \<and> sw_batch w \<noteq> batch);
            w = w\<lparr>sw_fps := (if 0 < fps then fps else sw_fps w), sw_batch := (if 0 < batch then batch else sw_batch w)\<rparr> in
        if changed then w\<lparr>sw_cfgChan := True\<rparr> else w)"

definition sw_Start :: "ScreenWriter \<Rightarrow> bool \<times> ScreenWriter" where
  "sw_Start w = (if sw_running w then (False, w) else (True, w\<lparr>sw_running := True\<rparr>))"

definition sw_Stop :: "ScreenWriter \<Rightarrow> ScreenWriter" where
  "sw_Stop w = (if sw_running w then w\<lparr>sw_running := False, sw_stopped := True\<rparr> else w)"

definition sw_interval :: "ScreenWriter \<Rightarrow> duration" where
  "sw_interval w =
     (let frm = Second div sw_fps w;
          sample = (if 1 < sw_batch w then frm div sw_batch w else frm) in
      if sample \<le> 0 then Millisecond else sample)"

definition sw_nextKeepalive :: "nat \<Rightarrow> nat \<Rightarrow> duration \<Rightarrow> int \<times> int" where
  "sw_nextKeepalive rnd rnd' sample =
     (let ticks = in_range rnd keepaliveIdleMin keepaliveIdleMax div sample in
      (if ticks < 1 then 1 else ticks, in_range rnd' 0 screenKeepalivePadMax))"

text \<open>
  \<open>emit\<close>: the message on the channel, if it gets there. \<open>send\<close> is \<open>None\<close> before \<open>SetSend\<close>, and otherwise says
  whether the channel takes the message.
\<close>

definition emit :: "bool option \<Rightarrow> bytes option \<Rightarrow> ScreenWriter \<Rightarrow> bytes option \<times> ScreenWriter" where
  "emit snd_ok msg w =
     (case msg of
        None \<Rightarrow> (None, w)
      | Some b \<Rightarrow>
          if screenWriterMaxBytes < length b then (None, w)
          else case snd_ok of
              None \<Rightarrow> (None, w)
            | Some ok \<Rightarrow> if ok then (Some b, w\<lparr>sw_sent := sw_sent w + 1\<rparr>) else (None, w))"

text \<open>The top of the loop of \<open>writerLoop\<close> and a tick of it, with the state of its locals.\<close>

definition sw_loop :: "nat \<times> nat \<Rightarrow> ScreenWriter \<Rightarrow> writer" where
  "sw_loop rnds w =
     (case sw_nextKeepalive (fst rnds) (snd rnds) (sw_interval w) of
        (every, pad) \<Rightarrow> \<lparr>w_interval = sw_interval w, w_every = every, w_pad = pad, w_idle = 0\<rparr>)"

definition sw_tick ::
  "bool option \<Rightarrow> go_error + bytes \<Rightarrow> go_error + bytes \<Rightarrow> nat \<times> nat \<Rightarrow> ScreenWriter \<Rightarrow> writer \<Rightarrow> bytes option \<times> ScreenWriter \<times> writer" where
  "sw_tick snd_ok nonce padding rnds w l =
     (case sw_sendQueue w of
        data # rest \<Rightarrow>
          (case emit snd_ok (EncodeData nonce data (sw_obf w)) (w\<lparr>sw_sendQueue := rest\<rparr>) of (out, w) \<Rightarrow> (out, w, l\<lparr>w_idle := 0\<rparr>))
      | [] \<Rightarrow>
          let idle = w_idle l + 1 in
          if idle < w_every l then (None, w, l\<lparr>w_idle := idle\<rparr>)
          else
            case emit snd_ok (Some (EncodeKeepalive padding (w_pad l) (sw_obf w))) w of
              (out, w) \<Rightarrow>
                (case sw_nextKeepalive (fst rnds) (snd rnds) (w_interval l) of
                   (every, pad) \<Rightarrow> (out, w, l\<lparr>w_idle := 0, w_every := every, w_pad := pad\<rparr>)))"

section \<open>Camera and screen\<close>

text \<open>The obfuscator is one object shared with the camera tunnel, as both callers construct it: it is the camera's.\<close>

record SymmetricScreenTunnel =
  sym_cam :: VP8DataTunnel
  sym_screen :: ScreenWriter
  sym_recv :: u64
  sym_trackCount :: int

definition NewSymmetricScreenTunnel :: "VP8DataTunnel \<Rightarrow> ScreenWriter \<Rightarrow> SymmetricScreenTunnel" where
  "NewSymmetricScreenTunnel cam screen = \<lparr>sym_cam = cam, sym_screen = screen, sym_recv = 0, sym_trackCount = 0\<rparr>"

definition SetTrackCount :: "int \<Rightarrow> SymmetricScreenTunnel \<Rightarrow> SymmetricScreenTunnel" where
  "SetTrackCount n s =
     (let n = (if n < 1 then 1 else n);
          n = (if 2 < n then 2 else n);
          s = s\<lparr>sym_trackCount := n\<rparr> in
      if 2 \<le> n then s\<lparr>sym_screen := snd (sw_Start (sym_screen s))\<rparr> else s)"

text \<open>\<open>SendData\<close>, with what \<open>screenUp\<close> says; \<open>None\<close> while it blocks.\<close>

definition sym_SendData :: "bool \<Rightarrow> bool \<Rightarrow> bytes \<Rightarrow> SymmetricScreenTunnel \<Rightarrow> SymmetricScreenTunnel option" where
  "sym_SendData queued screenUp data s =
     (let connID = frame_conn data;
          cam = map_option (\<lambda>t. s\<lparr>sym_cam := t\<rparr>) (vt_SendData queued data (sym_cam s));
          tc = (if sym_trackCount s < 1 then 1 else sym_trackCount s) in
      if connID = ControlConnID then cam
      else if uint connID mod tc = 1 \<and> screenUp
      then map_option (\<lambda>w. s\<lparr>sym_screen := w\<rparr>) (sw_SendData queued data (sym_screen s))
      else cam)"

definition sym_Reconfigure :: "int \<Rightarrow> int \<Rightarrow> SymmetricScreenTunnel \<Rightarrow> SymmetricScreenTunnel" where
  "sym_Reconfigure fps batch s =
     s\<lparr>sym_cam := vt_Reconfigure fps batch (sym_cam s), sym_screen := sw_Reconfigure fps batch (sym_screen s)\<rparr>"

definition sym_Stop :: "SymmetricScreenTunnel \<Rightarrow> bool \<times> SymmetricScreenTunnel" where
  "sym_Stop s =
     (case vt_Stop (sym_cam s) of (called, t) \<Rightarrow> (called, s\<lparr>sym_screen := sw_Stop (sym_screen s), sym_cam := t\<rparr>))"

definition HandleScreenFrame :: "bytes \<Rightarrow> SymmetricScreenTunnel \<Rightarrow> bytes option \<times> SymmetricScreenTunnel" where
  "HandleScreenFrame frm s =
     (case Decode frm (vt_obf (sym_cam s)) of
        (res, ob) \<Rightarrow>
          let s = s\<lparr>sym_cam := (sym_cam s)\<lparr>vt_obf := ob\<rparr>, sym_recv := sym_recv s + 1\<rparr> in
          if \<not> HasFrame res \<or> SelfEcho res \<or> dr_Keepalive res \<or> dr_Payload res = [] then (None, s)
          else (Some (dr_Payload res), s))"

section \<open>Closing and routing\<close>

lemma each_tunnel_apply: "distinct rs \<Longrightarrow> each_tunnel f rs h r = (if r \<in> set rs then f (h r) else h r)"
  by (induction rs arbitrary: h) (auto simp: each_tunnel_def)

lemma vt_Stop_stops: "vt_running t \<Longrightarrow> vt_stopped (snd (vt_Stop t))" "\<not> vt_running (snd (vt_Stop t))"
  by (auto simp: vt_Stop_def)

text \<open>
  Whoever stops the camera first, the multi-track tunnel is closed with every writer of it stopped, and the close
  handler has run; \<open>Stop\<close> of the multi-track tunnel stops the same writers but leaves \<open>onClose\<close> uncalled, and a
  second close does nothing.
\<close>

lemma camera_close_stops_all:
  assumes "mt_camera m = Some r" "vt_running (h r)" "\<not> mt_isClosed m" "distinct (mt_tunnels m)" "r \<in> set (mt_tunnels m)"
  obtains m' h' where "sub_Stop r m h = (True, m', h')" "mt_isClosed m'" "\<forall>x \<in> set (mt_tunnels m). \<not> vt_running (h' x)"
    "\<forall>x. fst (sub_Stop x m' h') = False" "mt_Stop m' h' = (m', h')"
proof -
  obtain t where t: "vt_Stop (h r) = (True, t)" using assms(2) by (simp add: vt_Stop_def)
  have *: "sub_Stop r m h = (True, m\<lparr>mt_isClosed := True\<rparr>, each_tunnel (\<lambda>t. snd (vt_Stop t)) (mt_tunnels m) (h(r := t)))"
    using assms(1,3) t by (simp add: sub_Stop_def camera_OnClose_def)
  show ?thesis
    by (rule that [OF *]) (auto simp: each_tunnel_apply [OF assms(4)] vt_Stop_stops sub_Stop_def camera_OnClose_def mt_Stop_def split: prod.split)
qed

lemma mt_Stop_stops_all:
  assumes "\<not> mt_isClosed m" "distinct (mt_tunnels m)" "mt_Stop m h = (m', h')"
  shows "mt_isClosed m'" "\<forall>x \<in> set (mt_tunnels m). \<not> vt_running (h' x)" "fst (camera_OnClose m' h') = False"
  using assms by (auto simp: mt_Stop_def camera_OnClose_def each_tunnel_apply vt_Stop_stops)

text \<open>
  While the tracks stay the same a connection keeps its track. A track that is added changes the divisor, so a
  connection that is open goes on over another track while frames of it still wait on the first.
\<close>

lemma track_of_conn: "frame_conn a = frame_conn b \<Longrightarrow> track_of a ts = track_of b ts"
  by (simp add: track_of_def)

lemma EncodeFrame_conn [simp]: "frame_conn (EncodeFrame c t p) = c"
proof -
  have "slice 4 8 (EncodeFrame c t p) = PutUint32 c" unfolding EncodeFrame_layout by (rule slice_exact) simp_all
  then show ?thesis by (simp add: frame_conn_def)
qed

lemma added_track_reroutes:
  "track_of (EncodeFrame 3 MsgData [1]) (mt_tunnels (NewMultiTrackTunnel [10, 11])) = 11"
  "track_of (EncodeFrame 3 MsgData [2]) (mt_tunnels (fst (AddSubTunnel 12 (NewMultiTrackTunnel [10, 11]) h))) = 10"
  by (simp_all add: track_of_def NewMultiTrackTunnel_def AddSubTunnel_def flip: numeral_2_eq_2)

section \<open>The screen channel is exact\<close>

definition wf_screen :: "ScreenWriter \<Rightarrow> bool" where
  "wf_screen w \<longleftrightarrow> 0 < sw_fps w \<and> 0 < sw_batch w \<and> length (sw_sendQueue w) \<le> screenWriterQueue \<and> (\<forall>d \<in> set (sw_sendQueue w). d \<noteq> [])"

lemma wf_screen_new: "wf_screen (NewScreenWriter ob)"
  by (simp add: wf_screen_def NewScreenWriter_def screenWriterFPS_def screenWriterBatch_def)

lemma emit_cases:
  "emit ok msg w = (out, w') \<Longrightarrow> sw_sendQueue w' = sw_sendQueue w \<and> sw_fps w' = sw_fps w \<and> sw_batch w' = sw_batch w \<and> sw_obf w' = sw_obf w \<and>
     (\<forall>b. out = Some b \<longrightarrow> msg = Some b \<and> length b \<le> screenWriterMaxBytes)"
  by (auto simp: emit_def split: option.splits if_splits)

lemma wf_screen_ops:
  assumes "wf_screen w"
  shows "sw_SendData q d w = Some w' \<Longrightarrow> wf_screen w'" "wf_screen (sw_Reconfigure fps batch w)" "wf_screen (snd (sw_Start w))" "wf_screen (sw_Stop w)"
    "sw_tick ok nonce padding rs w l = (out, w', l') \<Longrightarrow> wf_screen w'"
  using assms emit_cases
  by (fastforce simp: wf_screen_def sw_SendData_def sw_Reconfigure_def sw_Start_def sw_Stop_def sw_tick_def Let_def
      split: if_splits list.splits prod.splits)+

lemma sw_interval_bounds: "wf_screen w \<Longrightarrow> 0 < sw_interval w \<and> sw_interval w \<le> Second"
  using zdiv_mono2 [of Second 1 "sw_fps w"] zdiv_mono2 [of "Second div sw_fps w" 1 "sw_batch w"] div_int_pos_iff [of Second "sw_fps w"]
  by (auto simp: sw_interval_def wf_screen_def Let_def)

text \<open>
  Every message on the channel fits its limit, and what the other end reads from it is the payload the tick took from
  the queue, or nothing for a keepalive.
\<close>

lemma screen_tick_exact:
  assumes "wf_screen w" "sw_tick ok nonce padding rs w l = (Some b, w', l')" "\<And>n. nonce = Inr n \<Longrightarrow> length n = 24"
    and "aead_laws (to_aead (sw_obf w))" "to_aead (vt_obf (sym_cam s)) = to_aead (sw_obf w)" "localEpoch (vt_obf (sym_cam s)) \<noteq> localEpoch (sw_obf w)"
  shows "length b \<le> screenWriterMaxBytes"
    "fst (HandleScreenFrame b s) = (case sw_sendQueue w of [] \<Rightarrow> None | d # _ \<Rightarrow> Some d)"
proof -
  obtain d where d: "sample_of (sw_obf w) b d" "d = (case sw_sendQueue w of [] \<Rightarrow> None | d # _ \<Rightarrow> Some d)" "length b \<le> screenWriterMaxBytes"
  proof (cases "sw_sendQueue w")
    case Nil
    then obtain w1 where "emit ok (Some (EncodeKeepalive padding (w_pad l) (sw_obf w))) w = (Some b, w1)"
      using assms(2) by (auto simp: sw_tick_def Let_def split: if_splits prod.splits)
    from emit_cases [OF this] have "b = EncodeKeepalive padding (w_pad l) (sw_obf w)" "length b \<le> screenWriterMaxBytes" by auto
    then show ?thesis using that Nil EncodeKeepalive_sample by simp
  next
    case (Cons x rest)
    then obtain w1 where "emit ok (EncodeData nonce x (sw_obf w)) (w\<lparr>sw_sendQueue := rest\<rparr>) = (Some b, w1)"
      using assms(2) by (auto simp: sw_tick_def split: prod.splits)
    from emit_cases [OF this] have b: "EncodeData nonce x (sw_obf w) = Some b" "length b \<le> screenWriterMaxBytes" by auto
    have "x \<noteq> []" using assms(1) Cons by (simp add: wf_screen_def)
    then have "sample_of (sw_obf w) b (Some x)" using EncodeData_sample [OF b(1) _ assms(3)] by blast
    then show ?thesis by (rule that [of "Some x"]) (simp_all add: Cons b(2))
  qed
  show "length b \<le> screenWriterMaxBytes" by (rule d(3))
  have "fst (HandleScreenFrame b s) = d"
    using receive_sample [OF d(1) assms(4), of "sym_cam s"] assms(5,6)
    by (auto simp: vt_HandleFrame_def HandleScreenFrame_def Let_def split: prod.splits if_splits)
  then show "fst (HandleScreenFrame b s) = (case sw_sendQueue w of [] \<Rightarrow> None | d # _ \<Rightarrow> Some d)" using d(2) by simp
qed

text \<open>A frame joins exactly one queue, and frames of the control connection and of a screen that is down join the camera's.\<close>

lemma sym_SendData_once:
  assumes "sym_SendData q up' data s = Some s'" "data \<noteq> []" "\<not> vt_stopped (sym_cam s)" "\<not> sw_stopped (sym_screen s)"
  shows "if frame_conn data \<noteq> ControlConnID \<and> sym_trackCount s = 2 \<and> odd (uint (frame_conn data)) \<and> up'
    then s' = s\<lparr>sym_screen := (sym_screen s)\<lparr>sw_sendQueue := sw_sendQueue (sym_screen s) @ [data]\<rparr>\<rparr>
    else sym_trackCount s \<le> 2 \<longrightarrow> s' = s\<lparr>sym_cam := (sym_cam s)\<lparr>vt_sendQueue := vt_sendQueue (sym_cam s) @ [data]\<rparr>\<rparr>"
proof -
  let ?c = "uint (frame_conn data)"
  have "(?c mod (if sym_trackCount s < 1 then 1 else sym_trackCount s) = 1) = (sym_trackCount s = 2 \<and> odd ?c)" if "sym_trackCount s \<le> 2"
  proof (cases "sym_trackCount s = 2")
    case False
    then have "sym_trackCount s < 1 \<or> sym_trackCount s = 1" using that by linarith
    then show ?thesis by auto
  qed (simp add: odd_iff_mod_2_eq_one)
  then show ?thesis using assms by (auto simp: sym_SendData_def vt_SendData_def sw_SendData_def Let_def split: if_splits)
qed

lemma SetTrackCount_bounds: "1 \<le> sym_trackCount (SetTrackCount n s) \<and> sym_trackCount (SetTrackCount n s) \<le> 2"
  by (auto simp: SetTrackCount_def Let_def)

end
