(* ===== verification/Kcp_Tunnel.thy ===== *)
theory Kcp_Tunnel
  imports Multi_Track "HOL-Library.Monad_Syntax"
begin

text \<open>
  The reliable layer over a multi-track tunnel (\<open>transport/call/tunnel/multi_track_kcp_tunnel.go\<close>): one KCP
  session per track, connections pinned to sessions, and datagrams past the sessions. The KCP library is
  a parameter; sessions are shared between the list and the map of the tunnel, so they live in a store.
\<close>

section \<open>The library\<close>

text \<open>
  What the tunnel calls of \<open>kcp.KCP\<close>. \<open>Update\<close> and \<open>Input\<close> read the clock and call the output function, whose segments
  are the second component; \<open>Recv\<close> gives the message it wrote into a buffer of the given size.
\<close>

record 'k kcp_lib =
  NewKCP :: "u32 \<Rightarrow> 'k"
  kNoDelay :: "int \<Rightarrow> int \<Rightarrow> int \<Rightarrow> int \<Rightarrow> 'k \<Rightarrow> 'k"
  kWndSize :: "int \<Rightarrow> int \<Rightarrow> 'k \<Rightarrow> 'k"
  kSetMtu :: "int \<Rightarrow> 'k \<Rightarrow> 'k"
  kSend :: "bytes \<Rightarrow> 'k \<Rightarrow> 'k"
  kUpdate :: "time \<Rightarrow> 'k \<Rightarrow> 'k \<times> bytes list"
  kInput :: "time \<Rightarrow> bytes \<Rightarrow> 'k \<Rightarrow> 'k \<times> bytes list"
  kPeekSize :: "'k \<Rightarrow> int"
  kRecv :: "nat \<Rightarrow> 'k \<Rightarrow> bytes \<times> 'k"
  kWaitSnd :: "'k \<Rightarrow> int"

section \<open>Constants and the window\<close>

definition kcpConvBase :: nat where "kcpConvBase = 0x77627374"
definition kcpSegmentMTU :: int where "kcpSegmentMTU = 1200 - 1 - int interframeHdrLen - 24 - 16 - 1"
definition kcpReceiveBufSize :: nat where "kcpReceiveBufSize = 128 * 1024"
definition kcpWindowFloor :: int where "kcpWindowFloor = 64"
definition kcpWindowCeiling :: int where "kcpWindowCeiling = 512"
definition kcpWaitSndFactor :: int where "kcpWaitSndFactor = 2"
definition kcpChannelReliable :: byte where "kcpChannelReliable = 0x00"
definition kcpChannelRaw :: byte where "kcpChannelRaw = 0x01"
definition KCPCarrierQueueDepth :: int where "KCPCarrierQueueDepth = kcpWaitSndFactor * kcpWindowCeiling"

text \<open>
  The product is that of 64-bit integers. \<open>int(float64(rate) * 0.25)\<close> is the quarter rounded down: exactly below
  \<open>2^53\<close>, and far above the ceiling beyond.
\<close>

definition computeKCPWindow :: "int \<Rightarrow> int \<Rightarrow> int" where
  "computeKCPWindow fps batch =
     (let rate = sint (word_of_int (fps * batch) :: u64);
          rate = (if rate < 1 then defaultVP8FPS * defaultVP8Batch else rate);
          window = rate div 4 in
      if window < kcpWindowFloor then kcpWindowFloor
      else if kcpWindowCeiling < window then kcpWindowCeiling
      else window)"

section \<open>A session\<close>

record 'k trackKCPSession =
  ts_conv :: u32
  ts_vp8 :: nat
  ts_kcp :: 'k
  ts_recvBuf :: nat \<comment> \<open>the length of the buffer\<close>

definition configured :: "'k kcp_lib \<Rightarrow> u32 \<Rightarrow> int \<Rightarrow> 'k" where
  "configured K conv window = kSetMtu K kcpSegmentMTU (kWndSize K window window (kNoDelay K 1 10 2 1 (NewKCP K conv)))"

definition newTrackKCPSession :: "'k kcp_lib \<Rightarrow> nat \<Rightarrow> u32 \<Rightarrow> int \<Rightarrow> 'k trackKCPSession" where
  "newTrackKCPSession K vp8 conv window = \<lparr>ts_conv = conv, ts_vp8 = vp8, ts_kcp = configured K conv window, ts_recvBuf = kcpReceiveBufSize\<rparr>"

definition setWindow :: "'k kcp_lib \<Rightarrow> int \<Rightarrow> 'k trackKCPSession \<Rightarrow> 'k trackKCPSession" where
  "setWindow K window s = s\<lparr>ts_kcp := kWndSize K window window (ts_kcp s)\<rparr>"

definition ts_update :: "'k kcp_lib \<Rightarrow> time \<Rightarrow> 'k trackKCPSession \<Rightarrow> 'k trackKCPSession \<times> bytes list" where
  "ts_update K now s = (case kUpdate K now (ts_kcp s) of (k, segs) \<Rightarrow> (s\<lparr>ts_kcp := k\<rparr>, segs))"

definition ts_send :: "'k kcp_lib \<Rightarrow> time \<Rightarrow> bytes \<Rightarrow> 'k trackKCPSession \<Rightarrow> 'k trackKCPSession \<times> bytes list" where
  "ts_send K now frm s = ts_update K now (s\<lparr>ts_kcp := kSend K frm (ts_kcp s)\<rparr>)"

text \<open>The loop of \<open>input\<close>, which ends when the library has no message left.\<close>

partial_function (option) ts_drain :: "'k kcp_lib \<Rightarrow> 'k trackKCPSession \<Rightarrow> (bytes list \<times> 'k trackKCPSession) option" where
  "ts_drain K s =
     (let n = kPeekSize K (ts_kcp s) in
      if n \<le> 0 then Some ([], s)
      else
        let s = (if int (ts_recvBuf s) < n then s\<lparr>ts_recvBuf := nat n\<rparr> else s) in
        case kRecv K (ts_recvBuf s) (ts_kcp s) of
          (m, k) \<Rightarrow>
            let s = s\<lparr>ts_kcp := k\<rparr> in
            if m = [] then Some ([], s)
            else do { r \<leftarrow> ts_drain K s; Some (m # fst r, snd r) })"

definition ts_input :: "'k kcp_lib \<Rightarrow> time \<Rightarrow> bytes \<Rightarrow> 'k trackKCPSession \<Rightarrow> (bytes list \<times> 'k trackKCPSession \<times> bytes list) option" where
  "ts_input K now segment s =
     (case kInput K now segment (ts_kcp s) of
        (k, segs) \<Rightarrow> map_option (\<lambda>(ms, s). (ms, s, segs)) (ts_drain K (s\<lparr>ts_kcp := k\<rparr>)))"

section \<open>The tunnel\<close>

record 'k MultiTrackKCPTunnel =
  kt_mt :: MultiTrackTunnel
  kt_store :: "nat \<Rightarrow> 'k trackKCPSession"
  kt_next :: nat \<comment> \<open>the first free reference of the store\<close>
  kt_sessions :: "nat list"
  kt_convMap :: "u32 \<rightharpoonup> nat"
  kt_connPin :: "u32 \<rightharpoonup> nat"
  kt_onData :: bool \<comment> \<open>a handler is set\<close>
  kt_onClose :: bool
  kt_stopped :: bool
  kt_currentWindow :: int
  kt_sentMessages :: u64
  kt_deliveredMessages :: u64
  kt_outputSegments :: u64
  kt_inputSegments :: u64
  kt_rawSent :: u64
  kt_rawReceived :: u64
  kt_droppedSegments :: u64

text \<open>The output function of a session, on every segment the library hands to it.\<close>

fun kcp_output ::
  "(nat \<Rightarrow> bool) \<Rightarrow> nat \<Rightarrow> bytes list \<Rightarrow> 'k MultiTrackKCPTunnel \<times> vheap \<Rightarrow> 'k MultiTrackKCPTunnel \<times> vheap" where
  "kcp_output queued vp8 [] th = th"
| "kcp_output queued vp8 (seg # segs) (t, h) =
     kcp_output (\<lambda>i. queued (Suc i)) vp8 segs
       (if seg = [] then (t, h)
        else case TrySendData (queued 0) (kcpChannelReliable # seg) (h vp8) of
            (ok, v) \<Rightarrow>
              (t\<lparr>kt_outputSegments := kt_outputSegments t + 1, kt_droppedSegments := kt_droppedSegments t + (if ok then 0 else 1)\<rparr>,
               h(vp8 := v)))"

definition addSession :: "'k kcp_lib \<Rightarrow> nat \<Rightarrow> int \<Rightarrow> 'k MultiTrackKCPTunnel \<Rightarrow> 'k MultiTrackKCPTunnel" where
  "addSession K sub window t =
     (let conv = word_of_nat (kcpConvBase + length (kt_sessions t)) in
      t\<lparr>kt_store := (kt_store t)(kt_next t := newTrackKCPSession K sub conv window), kt_next := kt_next t + 1,
        kt_sessions := kt_sessions t @ [kt_next t], kt_convMap := (kt_convMap t)(conv \<mapsto> kt_next t)\<rparr>)"

definition NewMultiTrackKCPTunnel :: "'k kcp_lib \<Rightarrow> (nat \<Rightarrow> 'k trackKCPSession) \<Rightarrow> MultiTrackTunnel \<Rightarrow> vheap \<Rightarrow> 'k MultiTrackKCPTunnel" where
  "NewMultiTrackKCPTunnel K store mt h =
     (let subs = mt_tunnels mt;
          window = (case subs of [] \<Rightarrow> kcpWindowFloor | s # _ \<Rightarrow> computeKCPWindow (vt_fps (h s)) (vt_batch (h s))) in
      fold (\<lambda>sub. addSession K sub window) subs
        \<lparr>kt_mt = mt, kt_store = store, kt_next = 0, kt_sessions = [], kt_convMap = Map.empty, kt_connPin = Map.empty,
         kt_onData = False, kt_onClose = False, kt_stopped = False, kt_currentWindow = window,
         kt_sentMessages = 0, kt_deliveredMessages = 0, kt_outputSegments = 0, kt_inputSegments = 0,
         kt_rawSent = 0, kt_rawReceived = 0, kt_droppedSegments = 0\<rparr>)"

text \<open>How \<open>SendData\<close> goes: the frame is ignored, goes past the sessions, waits for its session, or is sent on it.\<close>

datatype kcp_outcome = Ignored | Raw | Waits nat | Sent nat

definition sendRaw :: "bool \<Rightarrow> u32 \<Rightarrow> bytes \<Rightarrow> 'k MultiTrackKCPTunnel \<Rightarrow> vheap \<Rightarrow> kcp_outcome \<times> 'k MultiTrackKCPTunnel \<times> vheap" where
  "sendRaw queued connID frm t h =
     (if kt_sessions t = [] then (Ignored, t, h)
      else
        let s = kt_store t (kt_sessions t ! (unat connID mod length (kt_sessions t))) in
        case TrySendData queued (kcpChannelRaw # frm) (h (ts_vp8 s)) of
          (_, v) \<Rightarrow> (Raw, t\<lparr>kt_rawSent := kt_rawSent t + 1\<rparr>, h(ts_vp8 s := v)))"

definition pinned :: "u32 \<Rightarrow> 'k MultiTrackKCPTunnel \<Rightarrow> nat" where
  "pinned connID t =
     (let n = length (kt_sessions t) in
      case kt_connPin t connID of Some i \<Rightarrow> if i < n then i else unat connID mod n | None \<Rightarrow> unat connID mod n)"

definition kt_SendData ::
  "'k kcp_lib \<Rightarrow> (nat \<Rightarrow> bool) \<Rightarrow> time \<Rightarrow> bytes \<Rightarrow> 'k MultiTrackKCPTunnel \<Rightarrow> vheap \<Rightarrow> kcp_outcome \<times> 'k MultiTrackKCPTunnel \<times> vheap" where
  "kt_SendData K queued now frm t h =
     (if length frm < 9 then (Ignored, t, h)
      else
        let connID = Uint32 (slice 4 8 frm); msgType = frm ! 8 in
        if msgType = MsgUDP \<or> msgType = MsgUDPReply then sendRaw (queued 0) connID frm t h
        else if kt_sessions t = [] then (Ignored, t, h)
        else
          let index = pinned connID t;
              t = t\<lparr>kt_connPin := (kt_connPin t)(connID \<mapsto> index)\<rparr>;
              r = kt_sessions t ! index;
              s = kt_store t r in
          if msgType = MsgData \<and> kt_currentWindow t * kcpWaitSndFactor \<le> kWaitSnd K (ts_kcp s)
          then (if kt_stopped t then Ignored else Waits r, t, h)
          else
            case ts_send K now frm s of
              (s, segs) \<Rightarrow>
                (case kcp_output queued (ts_vp8 s) segs
                        (t\<lparr>kt_sentMessages := kt_sentMessages t + 1, kt_store := (kt_store t)(r := s)\<rparr>, h) of
                   (t, h) \<Rightarrow>
                     (Sent r, if msgType = MsgClose then t\<lparr>kt_connPin := (kt_connPin t)(connID := None)\<rparr> else t, h)))"

text \<open>\<open>handleDecodedSegment\<close>: the messages handed to \<open>onData\<close>.\<close>

definition handleDecodedSegment ::
  "'k kcp_lib \<Rightarrow> (nat \<Rightarrow> bool) \<Rightarrow> time \<Rightarrow> bytes \<Rightarrow> 'k MultiTrackKCPTunnel \<Rightarrow> vheap \<Rightarrow> (bytes list \<times> 'k MultiTrackKCPTunnel \<times> vheap) option" where
  "handleDecodedSegment K queued now payload t h =
     (case payload of
        [] \<Rightarrow> Some ([], t, h)
      | channel # body \<Rightarrow>
          if channel = kcpChannelRaw
          then Some (if kt_onData t then ([body], t\<lparr>kt_rawReceived := kt_rawReceived t + 1\<rparr>, h) else ([], t, h))
          else if length body < 4 then Some ([], t, h)
          else case kt_convMap t (Uint32 (rev (take 4 body))) of
              None \<Rightarrow> Some ([], t, h)
            | Some r \<Rightarrow>
                do { (ms, s, segs) \<leftarrow> ts_input K now body (kt_store t r);
                     let (t, h) = kcp_output queued (ts_vp8 s) segs (t\<lparr>kt_inputSegments := kt_inputSegments t + 1, kt_store := (kt_store t)(r := s)\<rparr>, h);
                     Some (if kt_onData t then (ms, t\<lparr>kt_deliveredMessages := kt_deliveredMessages t + of_nat (length ms)\<rparr>, h) else ([], t, h)) })"

definition window_session :: "'k kcp_lib \<Rightarrow> int \<Rightarrow> nat \<Rightarrow> 'k MultiTrackKCPTunnel \<Rightarrow> 'k MultiTrackKCPTunnel" where
  "window_session K window r t = t\<lparr>kt_store := (kt_store t)(r := setWindow K window (kt_store t r))\<rparr>"

definition applyWindow :: "'k kcp_lib \<Rightarrow> int \<Rightarrow> 'k MultiTrackKCPTunnel \<Rightarrow> 'k MultiTrackKCPTunnel" where
  "applyWindow K window t =
     fold (window_session K window) (kt_sessions t) (t\<lparr>kt_currentWindow := window\<rparr>)"

definition kt_Reconfigure :: "'k kcp_lib \<Rightarrow> int \<Rightarrow> int \<Rightarrow> 'k MultiTrackKCPTunnel \<Rightarrow> vheap \<Rightarrow> 'k MultiTrackKCPTunnel \<times> vheap" where
  "kt_Reconfigure K fps batch t h =
     (case mt_Reconfigure fps batch (kt_mt t) h of (mt, h) \<Rightarrow> (applyWindow K (computeKCPWindow fps batch) (t\<lparr>kt_mt := mt\<rparr>), h))"

definition AddSession :: "'k kcp_lib \<Rightarrow> nat \<Rightarrow> 'k MultiTrackKCPTunnel \<Rightarrow> 'k MultiTrackKCPTunnel" where
  "AddSession K sub t = addSession K sub (kt_currentWindow t) t"

definition RemoveLastSession :: "'k MultiTrackKCPTunnel \<Rightarrow> 'k MultiTrackKCPTunnel" where
  "RemoveLastSession t =
     (if length (kt_sessions t) \<le> 1 then t
      else t\<lparr>kt_sessions := butlast (kt_sessions t), kt_convMap := (kt_convMap t)(ts_conv (kt_store t (last (kt_sessions t))) := None)\<rparr>)"

definition StopLayer :: "'k MultiTrackKCPTunnel \<Rightarrow> 'k MultiTrackKCPTunnel" where
  "StopLayer t = t\<lparr>kt_stopped := True\<rparr>"

definition kt_Stop :: "'k MultiTrackKCPTunnel \<Rightarrow> vheap \<Rightarrow> 'k MultiTrackKCPTunnel \<times> vheap" where
  "kt_Stop t h = (case mt_Stop (kt_mt t) h of (mt, h) \<Rightarrow> (t\<lparr>kt_stopped := True, kt_mt := mt\<rparr>, h))"

text \<open>\<open>handleInnerClose\<close>, with whether \<open>onClose\<close> is called.\<close>

definition handleInnerClose :: "'k MultiTrackKCPTunnel \<Rightarrow> bool \<times> 'k MultiTrackKCPTunnel" where
  "handleInnerClose t = (kt_onClose t, t\<lparr>kt_stopped := True\<rparr>)"

text \<open>A tick of \<open>updateLoop\<close>: it updates the sessions one after another.\<close>

definition update_session ::
  "'k kcp_lib \<Rightarrow> time \<Rightarrow> (nat \<Rightarrow> bool) \<Rightarrow> nat \<Rightarrow> 'k MultiTrackKCPTunnel \<times> vheap \<Rightarrow> 'k MultiTrackKCPTunnel \<times> vheap" where
  "update_session K now queued r th =
     (case ts_update K now (kt_store (fst th) r) of
        (s, segs) \<Rightarrow> kcp_output queued (ts_vp8 s) segs ((fst th)\<lparr>kt_store := (kt_store (fst th))(r := s)\<rparr>, snd th))"

definition update_tick ::
  "'k kcp_lib \<Rightarrow> time \<Rightarrow> (nat \<Rightarrow> nat \<Rightarrow> bool) \<Rightarrow> 'k MultiTrackKCPTunnel \<Rightarrow> vheap \<Rightarrow> 'k MultiTrackKCPTunnel \<times> vheap" where
  "update_tick K now queued t h = fold (\<lambda>r. update_session K now (queued r) r) (kt_sessions t) (t, h)"

section \<open>What the library promises\<close>

text \<open>
  One end of a KCP conversation with its history: the segments it put out, the messages given to \<open>Send\<close> and those taken
  with \<open>Recv\<close>. An end takes in segments of the other end only, in any order, any number of times, or
  never. \<open>Send\<close> refuses a message of more than 255 fragments; the fragments have the room a segment leaves.
\<close>

definition kcpMessageMax :: nat where "kcpMessageMax = 255 * (nat kcpSegmentMTU - 24)"

record 'k kcp_end =
  e_kcp :: "'k option" \<comment> \<open>\<open>None\<close> before the session exists\<close>
  e_out :: "bytes set"
  e_sent :: "bytes list"
  e_got :: "bytes list"

inductive kcp_end_step :: "'k kcp_lib \<Rightarrow> u32 \<Rightarrow> bytes set \<Rightarrow> 'k kcp_end \<Rightarrow> 'k kcp_end \<Rightarrow> bool" for K conv arrivals where
  Born: "e_kcp e = None \<Longrightarrow> kcp_end_step K conv arrivals e (e\<lparr>e_kcp := Some (configured K conv w)\<rparr>)"
| Window: "e_kcp e = Some k \<Longrightarrow> kcp_end_step K conv arrivals e (e\<lparr>e_kcp := Some (kWndSize K w w k)\<rparr>)"
| Sends: "e_kcp e = Some k \<Longrightarrow> m \<noteq> [] \<Longrightarrow> length m \<le> kcpMessageMax \<Longrightarrow>
     kcp_end_step K conv arrivals e (e\<lparr>e_kcp := Some (kSend K m k), e_sent := e_sent e @ [m]\<rparr>)"
| Updates: "e_kcp e = Some k \<Longrightarrow> kUpdate K now k = (k', segs) \<Longrightarrow>
     kcp_end_step K conv arrivals e (e\<lparr>e_kcp := Some k', e_out := e_out e \<union> set segs\<rparr>)"
| Inputs: "e_kcp e = Some k \<Longrightarrow> seg \<in> arrivals \<Longrightarrow> kInput K now seg k = (k', segs) \<Longrightarrow>
     kcp_end_step K conv arrivals e (e\<lparr>e_kcp := Some k', e_out := e_out e \<union> set segs\<rparr>)"
| Recvs: "e_kcp e = Some k \<Longrightarrow> 0 < kPeekSize K k \<Longrightarrow> kPeekSize K k \<le> int n \<Longrightarrow> kRecv K n k = (m, k') \<Longrightarrow>
     kcp_end_step K conv arrivals e (e\<lparr>e_kcp := Some k', e_got := e_got e @ [m]\<rparr>)"

definition unborn :: "'k kcp_end" where
  "unborn = \<lparr>e_kcp = None, e_out = {}, e_sent = [], e_got = []\<rparr>"

inductive kcp_link :: "'k kcp_lib \<Rightarrow> u32 \<Rightarrow> 'k kcp_end \<Rightarrow> 'k kcp_end \<Rightarrow> bool" for K conv where
  Fresh: "kcp_link K conv unborn unborn"
| Here: "kcp_link K conv a b \<Longrightarrow> kcp_end_step K conv (e_out b) a a' \<Longrightarrow> kcp_link K conv a' b"
| There: "kcp_link K conv a b \<Longrightarrow> kcp_end_step K conv (e_out a) b b' \<Longrightarrow> kcp_link K conv a b'"

text \<open>
  \<open>PeekSize\<close> is the length of the message \<open>Recv\<close> takes, and \<open>Recv\<close> uses up what was received. Along every conversation the
  messages taken at an end are the first ones given to the other, and every segment starts with the
  little-endian number of the conversation.
\<close>

definition kcp_laws :: "'k kcp_lib \<Rightarrow> bool" where
  "kcp_laws K \<longleftrightarrow>
     (\<forall>k n. 0 < kPeekSize K k \<and> kPeekSize K k \<le> int n \<longrightarrow> int (length (fst (kRecv K n k))) = kPeekSize K k) \<and>
     (\<exists>f. \<forall>k n. 0 < kPeekSize K k \<and> kPeekSize K k \<le> int n \<longrightarrow> f (snd (kRecv K n k)) < (f k :: nat)) \<and>
     (\<forall>conv a b. kcp_link K conv a b \<longrightarrow> prefix (e_got a) (e_sent b) \<and>
        (\<forall>seg \<in> e_out a. 4 \<le> length seg \<and> take 4 seg = rev (PutUint32 conv)))"

lemma kcp_link_sym: "kcp_link K conv a b \<Longrightarrow> kcp_link K conv b a"
  by (induction rule: kcp_link.induct) (auto intro: kcp_link.intros)

lemma kcp_link_here: "(kcp_end_step K conv (e_out b))\<^sup>*\<^sup>* a a' \<Longrightarrow> kcp_link K conv a b \<Longrightarrow> kcp_link K conv a' b"
  by (induction rule: rtranclp_induct) (auto intro: kcp_link.Here)

text \<open>Under these promises the loop of \<open>input\<close> ends, and it takes messages one after another.\<close>

lemma drain_ends:
  assumes "kcp_laws K" "e_kcp e = Some (ts_kcp s)"
  obtains ms s' where "ts_drain K s = Some (ms, s')" "ts_conv s' = ts_conv s" "ts_vp8 s' = ts_vp8 s"
    "(kcp_end_step K conv arr)\<^sup>*\<^sup>* e (e\<lparr>e_kcp := Some (ts_kcp s'), e_got := e_got e @ ms\<rparr>)"
proof -
  obtain f :: "'a \<Rightarrow> nat" where f: "0 < kPeekSize K k \<Longrightarrow> kPeekSize K k \<le> int n \<Longrightarrow> f (snd (kRecv K n k)) < f k" for k n
    using assms(1) unfolding kcp_laws_def by metis
  have len: "0 < kPeekSize K k \<Longrightarrow> kPeekSize K k \<le> int n \<Longrightarrow> int (length (fst (kRecv K n k))) = kPeekSize K k" for k n
    using assms(1) unfolding kcp_laws_def by blast
  have "\<exists>ms s'. ts_drain K s = Some (ms, s') \<and> ts_conv s' = ts_conv s \<and> ts_vp8 s' = ts_vp8 s \<and>
    (kcp_end_step K conv arr)\<^sup>*\<^sup>* e (e\<lparr>e_kcp := Some (ts_kcp s'), e_got := e_got e @ ms\<rparr>)"
    using assms(2)
  proof (induction "f (ts_kcp s)" arbitrary: s e rule: less_induct)
    case less
    show ?case
    proof (cases "kPeekSize K (ts_kcp s) \<le> 0")
      case True
      then have "ts_drain K s = Some ([], s)" by (subst ts_drain.simps) (simp add: Let_def)
      moreover have "e\<lparr>e_kcp := Some (ts_kcp s)\<rparr> = e" using less.prems by (cases e) simp
      ultimately show ?thesis by (intro exI [of _ "[]"] exI [of _ s]) simp
    next
      case False
      define n where "n = (if int (ts_recvBuf s) < kPeekSize K (ts_kcp s) then nat (kPeekSize K (ts_kcp s)) else ts_recvBuf s)"
      obtain m k where r: "kRecv K n (ts_kcp s) = (m, k)" by fastforce
      have n: "0 < kPeekSize K (ts_kcp s)" "kPeekSize K (ts_kcp s) \<le> int n" using False by (auto simp: n_def)
      let ?s = "s\<lparr>ts_recvBuf := n, ts_kcp := k\<rparr>" let ?e = "e\<lparr>e_kcp := Some k, e_got := e_got e @ [m]\<rparr>"
      have "m \<noteq> []" using len [OF n] n r by auto
      have "f (ts_kcp ?s) < f (ts_kcp s)" using f [OF n] r by simp
      from less.hyps [OF this, of ?e] obtain ms s' where s': "ts_drain K ?s = Some (ms, s')" "ts_conv s' = ts_conv s" "ts_vp8 s' = ts_vp8 s"
        "(kcp_end_step K conv arr)\<^sup>*\<^sup>* ?e (?e\<lparr>e_kcp := Some (ts_kcp s'), e_got := e_got ?e @ ms\<rparr>)" by auto
      have "ts_drain K s = Some (m # ms, s')"
        using False s'(1) \<open>m \<noteq> []\<close> r unfolding n_def by (subst ts_drain.simps) (auto simp: Let_def split: if_splits)
      moreover have "kcp_end_step K conv arr e ?e" using kcp_end_step.Recvs [OF less.prems n r] .
      ultimately show ?thesis using s' by (intro exI [of _ "m # ms"] exI [of _ s']) (auto intro: converse_rtranclp_into_rtranclp)
    qed
  qed
  then show ?thesis using that by blast
qed

section \<open>Two tunnels\<close>

text \<open>
  A tunnel at work, with the payloads its carriers ever held, the frames sent on sessions with the reference of the session,
  and what reached \<open>onData\<close>. Its carriers may lose, repeat and reorder: any payload the other side's carriers
  ever held may arrive at any time. A handler is set, and sessions are added but not removed.
\<close>

record 'k kcp_node =
  n_t :: "'k MultiTrackKCPTunnel"
  n_h :: vheap
  n_off :: "bytes set"
  n_sent :: "(nat \<times> bytes) list"
  n_delivered :: "bytes list"

definition queued_in :: "vheap \<Rightarrow> bytes set" where
  "queued_in h = {d. \<exists>r. d \<in> set (vt_sendQueue (h r))}"

definition node_upd :: "'k kcp_node \<Rightarrow> 'k MultiTrackKCPTunnel \<times> vheap \<Rightarrow> 'k kcp_node" where
  "node_upd n th = n\<lparr>n_t := fst th, n_h := snd th, n_off := n_off n \<union> queued_in (snd th)\<rparr>"

definition sent_frames :: "kcp_outcome \<Rightarrow> bytes \<Rightarrow> (nat \<times> bytes) list" where
  "sent_frames outcome frm = (case outcome of Sent r \<Rightarrow> [(r, frm)] | _ \<Rightarrow> [])"

inductive node_step :: "'k kcp_lib \<Rightarrow> bytes set \<Rightarrow> 'k kcp_node \<Rightarrow> 'k kcp_node \<Rightarrow> bool" for K arrivals where
  SendData: "kt_SendData K queued now frm (n_t n) (n_h n) = (outcome, t, h) \<Longrightarrow> length frm \<le> kcpMessageMax \<Longrightarrow>
     node_step K arrivals n ((node_upd n (t, h))\<lparr>n_sent := n_sent n @ sent_frames outcome frm\<rparr>)"
| Segment: "payload \<in> arrivals \<Longrightarrow> handleDecodedSegment K queued now payload (n_t n) (n_h n) = Some (ms, t, h) \<Longrightarrow>
     node_step K arrivals n ((node_upd n (t, h))\<lparr>n_delivered := n_delivered n @ ms\<rparr>)"
| Update: "node_step K arrivals n (node_upd n (update_tick K now queues (n_t n) (n_h n)))"
| Reconfig: "node_step K arrivals n (node_upd n (kt_Reconfigure K fps batch (n_t n) (n_h n)))"
| Add: "length (kt_sessions (n_t n)) < 2 ^ 32 \<Longrightarrow> node_step K arrivals n (node_upd n (AddSession K sub (n_t n), n_h n))"
| StopTunnel: "node_step K arrivals n (node_upd n (kt_Stop (n_t n) (n_h n)))"
| StopOnly: "node_step K arrivals n (node_upd n (StopLayer (n_t n), n_h n))"
| Carrier: "\<forall>r. set (vt_sendQueue (h r)) \<subseteq> set (vt_sendQueue (n_h n r)) \<Longrightarrow> node_step K arrivals n (node_upd n (n_t n, h))"

type_synonym 'k kcp_pair = "'k kcp_node \<times> 'k kcp_node"

inductive kcp_step :: "'k kcp_lib \<Rightarrow> 'k kcp_pair \<Rightarrow> 'k kcp_pair \<Rightarrow> bool" for K where
  Left: "node_step K (n_off b) a a' \<Longrightarrow> kcp_step K (a, b) (a', b)"
| Right: "node_step K (n_off a) b b' \<Longrightarrow> kcp_step K (a, b) (a, b')"

definition node_init :: "'k kcp_lib \<Rightarrow> 'k kcp_node \<Rightarrow> bool" where
  "node_init K n \<longleftrightarrow> (\<exists>store mt h. length (mt_tunnels mt) \<le> 2 ^ 32 \<and> queued_in h = {} \<and>
     n = \<lparr>n_t = (NewMultiTrackKCPTunnel K store mt h)\<lparr>kt_onData := True\<rparr>, n_h = h, n_off = {}, n_sent = [], n_delivered = []\<rparr>)"

definition kcp_init :: "'k kcp_lib \<Rightarrow> 'k kcp_pair \<Rightarrow> bool" where
  "kcp_init K s \<longleftrightarrow> node_init K (fst s) \<and> node_init K (snd s)"

text \<open>The frames of a connection that take its session, in the order given.\<close>

definition reliable :: "bytes \<Rightarrow> bool" where
  "reliable f \<longleftrightarrow> 9 \<le> length f \<and> f ! 8 \<noteq> MsgUDP \<and> f ! 8 \<noteq> MsgUDPReply"

definition frames_of :: "u32 \<Rightarrow> bytes list \<Rightarrow> bytes list" where
  "frames_of c fs = filter (\<lambda>f. reliable f \<and> frame_conn f = c) fs"

section \<open>The invariant\<close>

definition convOf :: "nat \<Rightarrow> u32" where
  "convOf r = word_of_nat (kcpConvBase + r)"

definition wf_kcp :: "'k MultiTrackKCPTunnel \<Rightarrow> bool" where
  "wf_kcp t \<longleftrightarrow> kt_sessions t = [0..<kt_next t] \<and> kt_next t \<le> 2 ^ 32 \<and> (\<forall>r < kt_next t. ts_conv (kt_store t r) = convOf r) \<and>
     (\<forall>r < kt_next t. kt_convMap t (convOf r) = Some r) \<and> (\<forall>c r. kt_convMap t c = Some r \<longrightarrow> r < kt_next t \<and> c = convOf r) \<and>
     kcpWindowFloor \<le> kt_currentWindow t \<and> kt_currentWindow t \<le> kcpWindowCeiling"

definition carried :: "(nat \<Rightarrow> bytes set) \<Rightarrow> bytes \<Rightarrow> bool" where
  "carried segs d \<longleftrightarrow> (\<exists>r < 2 ^ 32. \<exists>seg \<in> segs r. d = kcpChannelReliable # seg) \<or> (\<exists>f. d = kcpChannelRaw # f \<and> \<not> reliable f)"

text \<open>Until a connection is closed its frames go to one session, which its pin names.\<close>

definition pins_ok :: "(nat \<times> bytes) list \<Rightarrow> 'k MultiTrackKCPTunnel \<Rightarrow> bool" where
  "pins_ok sent t \<longleftrightarrow> (\<forall>c. let fs = filter (\<lambda>p. frame_conn (snd p) = c) sent in
     (\<forall>p \<in> set (butlast fs). snd p ! 8 \<noteq> MsgClose) \<longrightarrow>
     (\<exists>i. (\<forall>p \<in> set fs. fst p = i) \<and> (fs \<noteq> [] \<and> snd (last fs) ! 8 \<noteq> MsgClose \<longrightarrow> kt_connPin t c = Some i)))"

definition on :: "nat \<Rightarrow> (nat \<times> bytes) list \<Rightarrow> bytes list" where
  "on r l = map snd (filter (\<lambda>p. fst p = r) l)"

definition endp :: "'k kcp_node \<Rightarrow> (nat \<Rightarrow> bytes set) \<Rightarrow> (nat \<times> bytes) list \<Rightarrow> nat \<Rightarrow> 'k kcp_end" where
  "endp n segs got r =
     \<lparr>e_kcp = (if r < kt_next (n_t n) then Some (ts_kcp (kt_store (n_t n) r)) else None),
      e_out = segs r, e_sent = on r (n_sent n), e_got = on r got\<rparr>"

definition node_ok :: "'k kcp_node \<Rightarrow> (nat \<Rightarrow> bytes set) \<Rightarrow> (nat \<times> bytes) list \<Rightarrow> bool" where
  "node_ok n segs got \<longleftrightarrow> wf_kcp (n_t n) \<and> kt_onData (n_t n) \<and> (\<forall>d \<in> n_off n \<union> queued_in (n_h n). carried segs d) \<and>
     filter reliable (n_delivered n) = map snd got \<and>
     (\<forall>p \<in> set (n_sent n). reliable (snd p) \<and> fst p < kt_next (n_t n)) \<and> pins_ok (n_sent n) (n_t n)"

definition linked :: "'k kcp_lib \<Rightarrow> 'k kcp_node \<Rightarrow> (nat \<Rightarrow> bytes set) \<Rightarrow> (nat \<times> bytes) list \<Rightarrow> (nat \<Rightarrow> 'k kcp_end) \<Rightarrow> bool" where
  "linked K n segs got peer \<longleftrightarrow> node_ok n segs got \<and> (\<forall>r. kcp_link K (convOf r) (endp n segs got r) (peer r))"

lemma on_append [simp]: "on r (xs @ ys) = on r xs @ on r ys" "on r [] = []"
  by (simp_all add: on_def)

lemma on_pairs [simp]: "on r (map (Pair r') ms) = (if r = r' then ms else [])"
  by (auto simp: on_def filter_map comp_def)

lemma convOf_inj: "r < 2 ^ 32 \<Longrightarrow> r' < 2 ^ 32 \<Longrightarrow> convOf r = convOf r' \<Longrightarrow> r = r'"
proof -
  assume *: "r < 2 ^ 32" "r' < 2 ^ 32" "convOf r = convOf r'"
  then have "(word_of_nat r :: u32) = word_of_nat r'" by (simp add: convOf_def)
  from arg_cong [OF this, of unat] show "r = r'" using *(1,2) by (simp add: unat_of_nat)
qed

lemma computeKCPWindow_bounds: "kcpWindowFloor \<le> computeKCPWindow fps batch \<and> computeKCPWindow fps batch \<le> kcpWindowCeiling"
  by (simp add: computeKCPWindow_def Let_def kcpWindowFloor_def kcpWindowCeiling_def)

section \<open>Steps keep the invariant\<close>

lemma TrySendData_queue: "TrySendData q d v = (ok, v') \<Longrightarrow> set (vt_sendQueue v') \<subseteq> insert d (set (vt_sendQueue v))"
  by (auto simp: TrySendData_def Let_def split: if_splits)

lemma queued_in_upd: "set (vt_sendQueue v) \<subseteq> insert d (set (vt_sendQueue (h r))) \<Longrightarrow> queued_in (h(r := v)) \<subseteq> insert d (queued_in h)"
  by (auto simp: queued_in_def split: if_splits)

lemma kcp_output_spec:
  "kcp_output q v segs (t, h) = (t', h') \<Longrightarrow> (\<exists>a b. t' = t\<lparr>kt_outputSegments := a, kt_droppedSegments := b\<rparr>) \<and>
     queued_in h' \<subseteq> queued_in h \<union> (#) kcpChannelReliable ` set segs"
proof (induction segs arbitrary: q t h)
  case Nil
  then have "t' = t\<lparr>kt_outputSegments := kt_outputSegments t, kt_droppedSegments := kt_droppedSegments t\<rparr>" "h' = h" by simp_all
  then show ?case by blast
next
  case (Cons seg segs)
  show ?case
  proof (cases "seg = []")
    case True
    then show ?thesis using Cons.IH [of "\<lambda>i. q (Suc i)" t h] Cons.prems by auto
  next
    case False
    obtain ok v' where v': "TrySendData (q 0) (kcpChannelReliable # seg) (h v) = (ok, v')" by fastforce
    then have "queued_in (h(v := v')) \<subseteq> insert (kcpChannelReliable # seg) (queued_in h)" by (intro queued_in_upd TrySendData_queue)
    moreover obtain a b where "t' = t\<lparr>kt_outputSegments := a, kt_droppedSegments := b\<rparr>"
      "queued_in h' \<subseteq> queued_in (h(v := v')) \<union> (#) kcpChannelReliable ` set segs"
      using Cons.IH Cons.prems v' False by fastforce
    ultimately show ?thesis by auto
  qed
qed

definition same_shape :: "'k MultiTrackKCPTunnel \<Rightarrow> 'k MultiTrackKCPTunnel \<Rightarrow> bool" where
  "same_shape t t' \<longleftrightarrow> kt_sessions t' = kt_sessions t \<and> kt_next t' = kt_next t \<and> kt_convMap t' = kt_convMap t \<and> kt_onData t' = kt_onData t \<and>
     (\<forall>r. ts_conv (kt_store t' r) = ts_conv (kt_store t r)) \<and>
     kcpWindowFloor \<le> kt_currentWindow t' \<and> kt_currentWindow t' \<le> kcpWindowCeiling"

lemma wf_kcp_shape: "wf_kcp t \<Longrightarrow> same_shape t t' \<Longrightarrow> wf_kcp t'"
  by (simp add: wf_kcp_def same_shape_def)

lemma carried_mono: "carried segs d \<Longrightarrow> (\<And>r. segs r \<subseteq> segs' r) \<Longrightarrow> carried segs' d"
  unfolding carried_def by blast

lemma carried_segments: "r < 2 ^ 32 \<Longrightarrow> (#) kcpChannelReliable ` set out \<subseteq> {d. carried (segs(r := segs r \<union> set out)) d}"
  unfolding carried_def by (auto intro!: exI [of _ r])

lemma node_ok_gen:
  assumes "node_ok n segs got" "same_shape (n_t n) t" "queued_in h \<subseteq> queued_in (n_h n) \<union> {d. carried segs' d}" "\<And>r. segs r \<subseteq> segs' r"
    and "pins_ok (n_sent n @ sent) t" "\<forall>p \<in> set sent. reliable (snd p) \<and> fst p < kt_next (n_t n)" "filter reliable ms = map snd gs"
  shows "node_ok ((node_upd n (t, h))\<lparr>n_sent := n_sent n @ sent, n_delivered := n_delivered n @ ms\<rparr>) segs' (got @ gs)"
proof -
  have "carried segs' d" if "d \<in> n_off n \<union> queued_in h" for d
    using that assms(1,3) carried_mono [OF _ assms(4)] by (auto simp: node_ok_def)
  moreover have "kt_next t = kt_next (n_t n)" "kt_onData t = kt_onData (n_t n)" using assms(2) by (simp_all add: same_shape_def)
  ultimately show ?thesis
    using assms(1,5-7) wf_kcp_shape [OF _ assms(2)] by (auto simp: node_ok_def node_upd_def)
qed

lemma node_upd_id [simp]: "(node_upd n th)\<lparr>n_sent := n_sent n, n_delivered := n_delivered n\<rparr> = node_upd n th"
  "(node_upd n th)\<lparr>n_sent := s, n_delivered := n_delivered n\<rparr> = (node_upd n th)\<lparr>n_sent := s\<rparr>"
  "(node_upd n th)\<lparr>n_sent := n_sent n, n_delivered := d\<rparr> = (node_upd n th)\<lparr>n_delivered := d\<rparr>"
  "n_t (node_upd n th) = fst th" "n_h (node_upd n th) = snd th" "n_sent (node_upd n th) = n_sent n"
  by (simp_all add: node_upd_def)

lemma node_ok_shape:
  assumes "node_ok n segs got" "same_shape (n_t n) t" "queued_in h \<subseteq> queued_in (n_h n) \<union> {d. carried segs' d}"
    and "\<And>r. segs r \<subseteq> segs' r" "pins_ok (n_sent n) t"
  shows "node_ok (node_upd n (t, h)) segs' got"
  using node_ok_gen [OF assms(1-4), of "[]" "[]" "[]"] assms(5) by simp

lemma pins_ok_cong: "kt_connPin t' = kt_connPin t \<Longrightarrow> pins_ok sent t' = pins_ok sent t"
  by (simp add: pins_ok_def)

lemma linked_session:
  assumes "linked K n segs got peer" "r < kt_next (n_t n)"
    and "(kcp_end_step K (convOf r) (e_out (peer r)))\<^sup>*\<^sup>* (endp n segs got r)
      \<lparr>e_kcp = Some (ts_kcp s'), e_out = outs, e_sent = on r (n_sent n) @ sent, e_got = on r got @ ms\<rparr>"
    and "kt_store (n_t n') = (kt_store (n_t n))(r := s')" "kt_next (n_t n') = kt_next (n_t n)" "n_sent n' = n_sent n @ map (Pair r) sent"
    and "node_ok n' (segs(r := outs)) (got @ map (Pair r) ms)"
  shows "linked K n' (segs(r := outs)) (got @ map (Pair r) ms) peer"
proof -
  let ?e = "endp n' (segs(r := outs)) (got @ map (Pair r) ms)"
  have "kcp_link K (convOf x) (?e x) (peer x)" for x
  proof (cases "x = r")
    case True
    have "?e r = \<lparr>e_kcp = Some (ts_kcp s'), e_out = outs, e_sent = on r (n_sent n) @ sent, e_got = on r got @ ms\<rparr>"
      using assms(2,4-6) by (simp add: endp_def)
    then show ?thesis using True kcp_link_here [OF assms(3)] assms(1) by (simp add: linked_def)
  next
    case False
    then have "?e x = endp n segs got x" using assms(4-6) by (simp add: endp_def)
    then show ?thesis using assms(1) by (simp add: linked_def)
  qed
  then show ?thesis using assms(7) by (simp add: linked_def)
qed

lemma linked_off: "linked K n segs got peer \<Longrightarrow> d \<subseteq> n_off n \<Longrightarrow> linked K (n\<lparr>n_off := d\<rparr>) segs got peer"
proof -
  assume *: "linked K n segs got peer" "d \<subseteq> n_off n"
  have "endp (n\<lparr>n_off := d\<rparr>) segs got = endp n segs got" by (simp add: endp_def fun_eq_iff)
  moreover have "node_ok (n\<lparr>n_off := d\<rparr>) segs got" using * by (auto simp: linked_def node_ok_def)
  ultimately show ?thesis using *(1) by (simp add: linked_def)
qed

lemma endp_born: "r < kt_next (n_t n) \<Longrightarrow> e_kcp (endp n segs got r) = Some (ts_kcp (kt_store (n_t n) r))"
  "e_out (endp n segs got r) = segs r" "e_sent (endp n segs got r) = on r (n_sent n)" "e_got (endp n segs got r) = on r got"
  by (simp_all add: endp_def)

lemma update_keeps:
  assumes "linked K n segs got peer" "r < kt_next (n_t n)"
  shows "\<exists>segs'. linked K (node_upd n (update_session K now q r (n_t n, n_h n))) segs' got peer"
    "kt_next (fst (update_session K now q r (n_t n, n_h n))) = kt_next (n_t n)"
proof -
  let ?s = "kt_store (n_t n) r"
  obtain k out where k: "kUpdate K now (ts_kcp ?s) = (k, out)" by fastforce
  let ?t = "(n_t n)\<lparr>kt_store := (kt_store (n_t n))(r := ?s\<lparr>ts_kcp := k\<rparr>)\<rparr>"
  obtain t h where th: "kcp_output q (ts_vp8 ?s) out (?t, n_h n) = (t, h)" by fastforce
  have u: "update_session K now q r (n_t n, n_h n) = (t, h)" using k th by (simp add: update_session_def ts_update_def)
  obtain a b where t: "t = ?t\<lparr>kt_outputSegments := a, kt_droppedSegments := b\<rparr>" "queued_in h \<subseteq> queued_in (n_h n) \<union> (#) kcpChannelReliable ` set out"
    using kcp_output_spec [OF th] by blast
  show "kt_next (fst (update_session K now q r (n_t n, n_h n))) = kt_next (n_t n)" using u t(1) by simp
  let ?segs = "segs(r := segs r \<union> set out)"
  have ok: "node_ok n segs got" using assms(1) by (simp add: linked_def)
  have "node_ok (node_upd n (t, h)) ?segs got"
  proof (rule node_ok_shape [OF ok])
    show "same_shape (n_t n) t" using ok t(1) by (simp add: same_shape_def node_ok_def wf_kcp_def)
    show "pins_ok (n_sent n) t" using ok t(1) by (simp add: node_ok_def pins_ok_def)
  qed (use t carried_segments [of r out segs] ok assms(2) in \<open>auto simp: node_ok_def wf_kcp_def\<close>)
  moreover have "kcp_end_step K (convOf r) (e_out (peer r)) (endp n segs got r)
      ((endp n segs got r)\<lparr>e_kcp := Some k, e_out := e_out (endp n segs got r) \<union> set out\<rparr>)"
    by (rule kcp_end_step.Updates [OF endp_born(1) [OF assms(2)] k])
  ultimately have "linked K (node_upd n (t, h)) ?segs (got @ map (Pair r) []) peer"
    using t(1) by (intro linked_session [OF assms, where s' = "?s\<lparr>ts_kcp := k\<rparr>" and sent = "[]"]) (auto simp: node_upd_def endp_def)
  then show "\<exists>segs'. linked K (node_upd n (update_session K now q r (n_t n, n_h n))) segs' got peer" using u by auto
qed

lemma linked_again:
  assumes "linked K (node_upd (node_upd n th) th') segs got peer"
  shows "linked K (node_upd n th') segs got peer"
proof -
  have "node_upd n th' = (node_upd (node_upd n th) th')\<lparr>n_off := n_off n \<union> queued_in (snd th')\<rparr>" by (simp add: node_upd_def)
  then show ?thesis using linked_off [OF assms, of "n_off n \<union> queued_in (snd th')"] by (auto simp: node_upd_def)
qed

lemma tick_keeps:
  "linked K n segs got peer \<Longrightarrow> \<forall>r \<in> set rs. r < kt_next (n_t n) \<Longrightarrow>
     \<exists>segs'. linked K (node_upd n (fold (\<lambda>r. update_session K now (q r) r) rs (n_t n, n_h n))) segs' got peer"
proof (induction rs arbitrary: n segs)
  case Nil
  have "node_ok (node_upd n (n_t n, n_h n)) segs got" using Nil(1) by (auto simp: linked_def node_ok_def node_upd_def)
  moreover have "endp (node_upd n (n_t n, n_h n)) segs got = endp n segs got" by (simp add: node_upd_def endp_def fun_eq_iff)
  ultimately show ?case using Nil(1) by (auto simp: linked_def)
next
  case (Cons r rs)
  let ?u = "update_session K now (q r) r (n_t n, n_h n)" let ?n = "node_upd n ?u"
  have r: "r < kt_next (n_t n)" using Cons.prems(2) by simp
  have n: "n_t ?n = fst ?u" "n_h ?n = snd ?u" by (simp_all add: node_upd_def)
  obtain segs1 where "linked K ?n segs1 got peer" using update_keeps(1) [OF Cons.prems(1) r] by blast
  moreover have "\<forall>x \<in> set rs. x < kt_next (n_t ?n)" using Cons.prems(2) update_keeps(2) [OF Cons.prems(1) r] n by simp
  ultimately obtain segs' where "linked K (node_upd ?n (fold (\<lambda>r. update_session K now (q r) r) rs (n_t ?n, n_h ?n))) segs' got peer"
    using Cons.IH by blast
  from linked_again [OF this] show ?case using n by auto
qed

lemma window_keeps:
  assumes "linked K n segs got peer" "r < kt_next (n_t n)"
  shows "linked K (node_upd n (window_session K w r (n_t n), n_h n)) segs got peer" (is "linked K ?n _ _ _")
proof -
  have ok: "node_ok n segs got" using assms(1) by (simp add: linked_def)
  have "node_ok ?n (segs(r := segs r)) got"
    using ok by (intro node_ok_shape [OF ok]) (auto simp: window_session_def same_shape_def node_ok_def wf_kcp_def setWindow_def pins_ok_def)
  moreover have "kcp_end_step K (convOf r) (e_out (peer r)) (endp n segs got r) ((endp n segs got r)\<lparr>e_kcp := Some (kWndSize K w w (ts_kcp (kt_store (n_t n) r)))\<rparr>)"
    by (rule kcp_end_step.Window [OF endp_born(1) [OF assms(2)]])
  ultimately have "linked K ?n (segs(r := segs r)) (got @ map (Pair r) []) peer"
    by (intro linked_session [OF assms, where s' = "setWindow K w (kt_store (n_t n) r)" and sent = "[]"]) (auto simp: window_session_def node_upd_def endp_def setWindow_def)
  then show ?thesis by simp
qed

lemma windows_keep:
  "linked K n segs got peer \<Longrightarrow> \<forall>r \<in> set rs. r < kt_next (n_t n) \<Longrightarrow>
     linked K (node_upd n (fold (window_session K w) rs (n_t n), n_h n)) segs got peer"
proof (induction rs arbitrary: n)
  case Nil
  have "node_ok (node_upd n (n_t n, n_h n)) segs got" using Nil(1) by (auto simp: linked_def node_ok_def node_upd_def)
  moreover have "endp (node_upd n (n_t n, n_h n)) segs got = endp n segs got" by (simp add: node_upd_def endp_def fun_eq_iff)
  ultimately show ?case using Nil(1) by (auto simp: linked_def)
next
  case (Cons r rs)
  let ?t = "window_session K w r (n_t n)" let ?n = "node_upd n (?t, n_h n)"
  have "linked K ?n segs got peer" using window_keeps [OF Cons.prems(1)] Cons.prems(2) by simp
  moreover have n: "n_t ?n = ?t" "n_h ?n = n_h n" by (simp_all add: node_upd_def)
  moreover have "\<forall>x \<in> set rs. x < kt_next (n_t ?n)" using Cons.prems(2) n by (simp add: window_session_def)
  ultimately have "linked K (node_upd ?n (fold (window_session K w) rs (n_t ?n), n_h ?n)) segs got peer" using Cons.IH by blast
  from linked_again [OF this] show ?case using n by simp
qed

lemma reliable_conn: "9 \<le> length frm \<Longrightarrow> Uint32 (slice 4 8 frm) = frame_conn frm"
  by (simp add: frame_conn_def)

lemma filter_bound: "filter P sent \<noteq> [] \<Longrightarrow> \<forall>p \<in> set (filter P sent). fst p = i \<Longrightarrow> \<forall>p \<in> set sent. fst p < n \<Longrightarrow> i < (n :: nat)"
  by (metis filter_is_subset last_in_set subsetD)

lemma pins_wait:
  assumes "pins_ok sent t" "\<forall>p \<in> set sent. fst p < length (kt_sessions t)" "kt_connPin t' = (kt_connPin t)(c \<mapsto> pinned c t)"
  shows "pins_ok sent t'"
proof -
  have "kt_connPin t' x = Some i" if "kt_connPin t x = Some i" "i < length (kt_sessions t)" for x i
    using that assms(3) by (auto simp: pinned_def Let_def)
  moreover have "i < length (kt_sessions t)" if "filter (\<lambda>p. frame_conn (snd p) = x) sent \<noteq> []" "\<forall>p \<in> set (filter (\<lambda>p. frame_conn (snd p) = x) sent). fst p = i" for x i
    by (rule filter_bound [OF that assms(2)])
  ultimately show ?thesis using assms(1) unfolding pins_ok_def Let_def by meson
qed

lemma pins_sent:
  assumes "pins_ok sent t" "\<forall>p \<in> set sent. fst p < length (kt_sessions t)" "frame_conn frm = c"
    and "kt_connPin t' = (kt_connPin t)(c := if frm ! 8 = MsgClose then None else Some (pinned c t))"
  shows "pins_ok (sent @ [(pinned c t, frm)]) t'"
proof -
  define fs where "fs x = filter (\<lambda>p. frame_conn (snd p) = x) sent" for x
  have here: "\<exists>i. (\<forall>p \<in> set (fs c @ [(pinned c t, frm)]). fst p = i) \<and> (frm ! 8 \<noteq> MsgClose \<longrightarrow> kt_connPin t' c = Some i)"
    if open_: "\<forall>p \<in> set (fs c). snd p ! 8 \<noteq> MsgClose"
  proof (cases "fs c = []")
    case False
    then obtain i where i: "\<forall>p \<in> set (fs c). fst p = i" "kt_connPin t c = Some i"
      using assms(1) open_ in_set_butlastD last_in_set [OF False] unfolding pins_ok_def Let_def fs_def [symmetric] by metis
    have "i < length (kt_sessions t)" by (rule filter_bound [OF False [unfolded fs_def] i(1) [unfolded fs_def] assms(2)])
    then show ?thesis using i assms(4) by (auto simp: pinned_def Let_def)
  qed (use assms(4) in simp)
  have "\<exists>i. (\<forall>p \<in> set (fs x). fst p = i) \<and> (fs x \<noteq> [] \<and> snd (last (fs x)) ! 8 \<noteq> MsgClose \<longrightarrow> kt_connPin t' x = Some i)"
    if "x \<noteq> c" "\<forall>p \<in> set (butlast (fs x)). snd p ! 8 \<noteq> MsgClose" for x
    using assms(1,4) that unfolding pins_ok_def Let_def fs_def [symmetric] by simp
  with here show ?thesis using assms(3) unfolding pins_ok_def Let_def
    by (auto simp: fs_def [symmetric])
qed

lemma linked_quiet:
  assumes "linked K n segs got peer" "same_shape (n_t n) t" "kt_store t = kt_store (n_t n)"
    and "queued_in h \<subseteq> queued_in (n_h n) \<union> {d. carried segs d}" "pins_ok (n_sent n) t"
  shows "linked K (node_upd n (t, h)) segs got peer"
proof -
  have "node_ok (node_upd n (t, h)) segs got" using assms by (intro node_ok_shape) (auto simp: linked_def)
  moreover have "endp (node_upd n (t, h)) segs got = endp n segs got" using assms(2,3) by (auto simp: endp_def same_shape_def fun_eq_iff)
  ultimately show ?thesis using assms(1) by (simp add: linked_def)
qed

lemma linked_wf:
  assumes "linked K n segs got peer"
  shows "wf_kcp (n_t n)" "same_shape (n_t n) (n_t n)" "pins_ok (n_sent n) (n_t n)" "kt_sessions (n_t n) = [0..<kt_next (n_t n)]"
    "\<forall>p \<in> set (n_sent n). fst p < length (kt_sessions (n_t n))" "kt_onData (n_t n)"
  using assms by (auto simp: linked_def node_ok_def wf_kcp_def same_shape_def)

lemma raw_keeps:
  assumes "linked K n segs got peer" "\<not> reliable frm" "sendRaw q c frm (n_t n) (n_h n) = (outcome, t, h)"
  shows "linked K (node_upd n (t, h)) segs got peer" "sent_frames outcome frm = []"
proof -
  have *: "same_shape (n_t n) t" "kt_store t = kt_store (n_t n)" "kt_connPin t = kt_connPin (n_t n)"
    using assms(3) linked_wf(2) [OF assms(1)] by (auto simp: sendRaw_def same_shape_def Let_def split: if_splits prod.splits)
  have "carried segs (kcpChannelRaw # frm)" using assms(2) by (auto simp: carried_def)
  moreover have "queued_in h \<subseteq> insert (kcpChannelRaw # frm) (queued_in (n_h n))"
  proof (cases "kt_sessions (n_t n) = []")
    case False
    let ?v = "ts_vp8 (kt_store (n_t n) (kt_sessions (n_t n) ! (unat c mod length (kt_sessions (n_t n)))))"
    obtain ok v' where "TrySendData q (kcpChannelRaw # frm) (n_h n ?v) = (ok, v')" by fastforce
    moreover from this have "h = (n_h n)(?v := v')" using assms(3) False by (simp add: sendRaw_def Let_def)
    ultimately show ?thesis using queued_in_upd [OF TrySendData_queue] by blast
  qed (use assms(3) in \<open>auto simp: sendRaw_def\<close>)
  ultimately have "queued_in h \<subseteq> queued_in (n_h n) \<union> {d. carried segs d}" by blast
  then show "linked K (node_upd n (t, h)) segs got peer"
    by (rule linked_quiet [OF assms(1) *(1,2)]) (simp add: pins_ok_cong [OF *(3)] linked_wf(3) [OF assms(1)])
  show "sent_frames outcome frm = []" using assms(3) by (auto simp: sendRaw_def sent_frames_def Let_def split: if_splits prod.splits)
qed

lemma pinned_less: "kt_sessions t \<noteq> [] \<Longrightarrow> pinned c t < length (kt_sessions t)"
  by (auto simp: pinned_def Let_def split: option.split)

lemma sent_keeps:
  assumes L: "linked K n segs got peer" and frm: "reliable frm" "length frm \<le> kcpMessageMax" "kt_sessions (n_t n) \<noteq> []"
    and r: "r = pinned (frame_conn frm) (n_t n)" and k: "kUpdate K now (kSend K frm (ts_kcp (kt_store (n_t n) r))) = (k, out)"
    and out: "kcp_output q v out ((n_t n)\<lparr>kt_connPin := p, kt_sentMessages := m, kt_store := (kt_store (n_t n))(r := (kt_store (n_t n) r)\<lparr>ts_kcp := k\<rparr>)\<rparr>, n_h n) = (t1, h)"
    and pin: "kt_connPin t = (kt_connPin (n_t n))(frame_conn frm := if frm ! 8 = MsgClose then None else Some r)" "t = t1\<lparr>kt_connPin := p'\<rparr>"
  shows "linked K ((node_upd n (t, h))\<lparr>n_sent := n_sent n @ [(r, frm)]\<rparr>) (segs(r := segs r \<union> set out)) got peer"
proof -
  note wf = linked_wf [OF L]
  let ?s = "(kt_store (n_t n) r)\<lparr>ts_kcp := k\<rparr>" let ?n = "(node_upd n (t, h))\<lparr>n_sent := n_sent n @ [(r, frm)]\<rparr>"
  obtain a b where t: "t = (n_t n)\<lparr>kt_sentMessages := m, kt_store := (kt_store (n_t n))(r := ?s),
      kt_outputSegments := a, kt_droppedSegments := b, kt_connPin := p'\<rparr>"
    and h: "queued_in h \<subseteq> queued_in (n_h n) \<union> (#) kcpChannelReliable ` set out"
    using kcp_output_spec [OF out] pin(2) by auto
  have less: "r < kt_next (n_t n)" using pinned_less [OF frm(3)] wf(4) r by simp
  have ok: "node_ok n segs got" using L by (simp add: linked_def)
  have "same_shape (n_t n) t" using t wf(2) by (simp add: same_shape_def)
  moreover have "pins_ok (n_sent n @ [(r, frm)]) t" unfolding r by (rule pins_sent [OF wf(3,5) refl]) (use pin(1) r in simp)
  moreover have "queued_in h \<subseteq> queued_in (n_h n) \<union> {d. carried (segs(r := segs r \<union> set out)) d}"
    using h carried_segments [of r out segs] less wf(1) by (auto simp: wf_kcp_def)
  ultimately have "node_ok ?n (segs(r := segs r \<union> set out)) (got @ [])"
    using node_ok_gen [OF ok _ _ _ _ _ , of t h "segs(r := segs r \<union> set out)" "[(r, frm)]" "[]" "[]"] frm(1) less by auto
  moreover have "kcp_end_step K (convOf r) (e_out (peer r)) (endp n segs got r)
      ((endp n segs got r)\<lparr>e_kcp := Some (kSend K frm (ts_kcp (kt_store (n_t n) r))), e_sent := e_sent (endp n segs got r) @ [frm]\<rparr>)" (is "kcp_end_step _ _ _ _ ?e1")
    by (rule kcp_end_step.Sends [OF endp_born(1) [OF less]]) (use frm in \<open>auto simp: reliable_def\<close>)
  moreover have "kcp_end_step K (convOf r) (e_out (peer r)) ?e1 (?e1\<lparr>e_kcp := Some k, e_out := e_out ?e1 \<union> set out\<rparr>)"
    by (rule kcp_end_step.Updates [OF _ k]) simp
  ultimately have "linked K ?n (segs(r := segs r \<union> set out)) (got @ map (Pair r) []) peer"
    using t by (intro linked_session [OF L less, where s' = ?s and sent = "[frm]"])
      (auto simp: endp_def intro: converse_rtranclp_into_rtranclp)
  then show ?thesis by simp
qed

lemma send_keeps:
  assumes L: "linked K n segs got peer" and send: "kt_SendData K q now frm (n_t n) (n_h n) = (outcome, t, h)" and len: "length frm \<le> kcpMessageMax"
  shows "\<exists>segs'. linked K ((node_upd n (t, h))\<lparr>n_sent := n_sent n @ sent_frames outcome frm\<rparr>) segs' got peer"
proof -
  note wf = linked_wf [OF L]
  let ?c = "frame_conn frm" let ?r = "pinned ?c (n_t n)" let ?t = "(n_t n)\<lparr>kt_connPin := (kt_connPin (n_t n))(?c \<mapsto> ?r)\<rparr>"
  have quiet: "linked K (node_upd n (n_t n, n_h n)) segs got peer" by (rule linked_quiet [OF L]) (simp_all add: wf)
  consider (ignored) "length frm < 9 \<or> reliable frm \<and> kt_sessions (n_t n) = []" | (raw) "9 \<le> length frm" "\<not> reliable frm"
    | (waits) "reliable frm" "kt_sessions (n_t n) \<noteq> []" "frm ! 8 = MsgData \<and> kt_currentWindow (n_t n) * kcpWaitSndFactor \<le> kWaitSnd K (ts_kcp (kt_store (n_t n) ?r))"
    | (sent) "reliable frm" "kt_sessions (n_t n) \<noteq> []" "\<not> (frm ! 8 = MsgData \<and> kt_currentWindow (n_t n) * kcpWaitSndFactor \<le> kWaitSnd K (ts_kcp (kt_store (n_t n) ?r)))"
    by (meson not_le)
  then show ?thesis
  proof cases
    case ignored
    then have "outcome = Ignored" "t = n_t n" "h = n_h n" using send by (auto simp: kt_SendData_def reliable_def Let_def)
    then show ?thesis using quiet by (auto simp: sent_frames_def node_upd_def)
  next
    case raw
    then have "sendRaw (q 0) ?c frm (n_t n) (n_h n) = (outcome, t, h)"
      using send by (auto simp: kt_SendData_def reliable_def reliable_conn Let_def split: if_splits)
    from raw_keeps [OF L raw(2) this] show ?thesis by (auto simp: node_upd_def)
  next
    case waits
    have r: "kt_sessions (n_t n) ! ?r = ?r" using pinned_less [OF waits(2)] wf(4) by simp
    have "t = ?t" "h = n_h n" "sent_frames outcome frm = []"
      using send waits r by (auto simp: kt_SendData_def reliable_def reliable_conn sent_frames_def Let_def split: if_splits)
    moreover have "linked K (node_upd n (?t, n_h n)) segs got peer"
      by (rule linked_quiet [OF L]) (use wf(2) in \<open>auto simp: same_shape_def intro: pins_wait [OF wf(3,5)]\<close>)
    ultimately show ?thesis by (auto simp: node_upd_def)
  next
    case sent
    have r: "kt_sessions (n_t n) ! ?r = ?r" using pinned_less [OF sent(2)] wf(4) by simp
    obtain k out where k: "kUpdate K now (kSend K frm (ts_kcp (kt_store (n_t n) ?r))) = (k, out)" by fastforce
    let ?s = "(kt_store (n_t n) ?r)\<lparr>ts_kcp := k\<rparr>"
    obtain t1 h1 where out: "kcp_output q (ts_vp8 (kt_store (n_t n) ?r)) out
      (?t\<lparr>kt_sentMessages := kt_sentMessages (n_t n) + 1, kt_store := (kt_store (n_t n))(?r := ?s)\<rparr>, n_h n) = (t1, h1)" by fastforce
    have o: "outcome = Sent ?r" "t = (if frm ! 8 = MsgClose then t1\<lparr>kt_connPin := (kt_connPin t1)(?c := None)\<rparr> else t1)" "h = h1"
      using send sent r k out by (auto simp: kt_SendData_def reliable_def reliable_conn ts_send_def ts_update_def Let_def split: if_splits)
    have "kt_connPin t1 = kt_connPin ?t" using kcp_output_spec [OF out] by auto
    then have "kt_connPin t = (kt_connPin (n_t n))(?c := if frm ! 8 = MsgClose then None else Some ?r)" "t = t1\<lparr>kt_connPin := kt_connPin t\<rparr>"
      using o(2) by auto
    from sent_keeps [OF L sent(1) len sent(2) refl k out this] show ?thesis using o by (auto simp: sent_frames_def)
  qed
qed

lemma raw_arrives:
  assumes "linked K n segs got peer" "\<not> reliable f"
  shows "linked K ((node_upd n ((n_t n)\<lparr>kt_rawReceived := x\<rparr>, n_h n))\<lparr>n_delivered := n_delivered n @ [f]\<rparr>) segs got peer" (is "linked K ?n _ _ _")
proof -
  have ok: "node_ok n segs got" using assms(1) by (simp add: linked_def)
  have "node_ok ?n segs got"
    using node_ok_gen [OF ok, of "(n_t n)\<lparr>kt_rawReceived := x\<rparr>" "n_h n" segs "[]" "[f]" "[]"] assms(2) linked_wf(2,3) [OF assms(1)]
    by (simp add: same_shape_def pins_ok_def)
  moreover have "endp ?n segs got = endp n segs got" by (simp add: endp_def fun_eq_iff)
  ultimately show ?thesis using assms(1) by (simp add: linked_def)
qed

text \<open>A segment of the other end of a session: it is taken in, and the messages that it completes are delivered.\<close>

lemma input_keeps:
  assumes K: "kcp_laws K" and L: "linked K n segs got peer" and r: "r < kt_next (n_t n)" "seg \<in> e_out (peer r)"
    and sent: "\<And>m. m \<in> set (e_sent (peer r)) \<Longrightarrow> reliable m"
    and inp: "ts_input K now seg (kt_store (n_t n) r) = Some (ms, s, out)"
    and outp: "kcp_output q (ts_vp8 s) out ((n_t n)\<lparr>kt_inputSegments := x, kt_store := (kt_store (n_t n))(r := s)\<rparr>, n_h n) = (t, h)"
  shows "linked K ((node_upd n (t\<lparr>kt_deliveredMessages := y\<rparr>, h))\<lparr>n_delivered := n_delivered n @ ms\<rparr>)
    (segs(r := segs r \<union> set out)) (got @ map (Pair r) ms) peer" (is "linked K ?n ?segs ?got _")
proof -
  note wf = linked_wf [OF L]
  let ?e = "endp n segs got r" let ?s = "kt_store (n_t n) r"
  obtain k where k: "kInput K now seg (ts_kcp ?s) = (k, out)" and d: "ts_drain K (?s\<lparr>ts_kcp := k\<rparr>) = Some (ms, s)"
    using inp by (auto simp: ts_input_def split: prod.splits)
  let ?e1 = "?e\<lparr>e_kcp := Some k, e_out := e_out ?e \<union> set out\<rparr>"
  have "kcp_end_step K (convOf r) (e_out (peer r)) ?e ?e1" by (rule kcp_end_step.Inputs [OF endp_born(1) [OF r(1)] r(2) k])
  moreover have e1: "e_kcp ?e1 = Some (ts_kcp (?s\<lparr>ts_kcp := k\<rparr>))" by simp
  moreover obtain ms' s' where d': "ts_drain K (?s\<lparr>ts_kcp := k\<rparr>) = Some (ms', s')"
    "ts_conv s' = ts_conv (?s\<lparr>ts_kcp := k\<rparr>)" "ts_vp8 s' = ts_vp8 (?s\<lparr>ts_kcp := k\<rparr>)"
    "(kcp_end_step K (convOf r) (e_out (peer r)))\<^sup>*\<^sup>* ?e1 (?e1\<lparr>e_kcp := Some (ts_kcp s'), e_got := e_got ?e1 @ ms'\<rparr>)"
    by (rule drain_ends [OF K e1])
  moreover have "ms' = ms" "s' = s" using d d'(1) by auto
  ultimately have star: "(kcp_end_step K (convOf r) (e_out (peer r)))\<^sup>*\<^sup>* ?e
    \<lparr>e_kcp = Some (ts_kcp s), e_out = segs r \<union> set out, e_sent = on r (n_sent n) @ [], e_got = on r got @ ms\<rparr>"
    by (auto simp: endp_def intro: converse_rtranclp_into_rtranclp)
  have "prefix (on r got @ ms) (e_sent (peer r))"
    using kcp_link_here [OF star] L K by (fastforce simp: linked_def kcp_laws_def)
  then have rel: "filter reliable ms = ms" using sent by (auto simp: filter_id_conv prefix_def)
  obtain a b where t: "t = (n_t n)\<lparr>kt_inputSegments := x, kt_store := (kt_store (n_t n))(r := s), kt_outputSegments := a, kt_droppedSegments := b\<rparr>"
    and h: "queued_in h \<subseteq> queued_in (n_h n) \<union> (#) kcpChannelReliable ` set out"
    using kcp_output_spec [OF outp] by auto
  have ok: "node_ok n segs got" using L by (simp add: linked_def)
  have shape: "same_shape (n_t n) (t\<lparr>kt_deliveredMessages := y\<rparr>)" using t wf(2) d'(2) \<open>s' = s\<close> by (simp add: same_shape_def)
  have "queued_in h \<subseteq> queued_in (n_h n) \<union> {d. carried ?segs d}"
    using h carried_segments [of r out segs] r(1) wf(1) by (auto simp: wf_kcp_def)
  moreover have "pins_ok (n_sent n) (t\<lparr>kt_deliveredMessages := y\<rparr>)" using t wf(3) by (simp add: pins_ok_def)
  ultimately have "node_ok ?n ?segs ?got"
    using node_ok_gen [OF ok shape, of h ?segs "[]" ms "map (Pair r) ms"] rel by (simp add: comp_def)
  then show ?thesis using t by (intro linked_session [OF L r(1) star]) (simp_all)
qed

lemma linked_segment:
  assumes "kcp_laws K" "linked K n segs got peer" "seg \<in> e_out (peer r)"
  shows "4 \<le> length seg" "Uint32 (rev (take 4 seg)) = convOf r"
proof -
  have "kcp_link K (convOf r) (peer r) (endp n segs got r)" using assms(2) by (simp add: linked_def kcp_link_sym)
  then have "4 \<le> length seg \<and> take 4 seg = rev (PutUint32 (convOf r))" using assms(1,3) unfolding kcp_laws_def by blast
  then show "4 \<le> length seg" "Uint32 (rev (take 4 seg)) = convOf r" by simp_all
qed

lemma handle_reliable:
  assumes "kt_onData t0" "\<not> length seg < 4" "kt_convMap t0 (Uint32 (rev (take 4 seg))) = Some r"
    and "handleDecodedSegment K q now (kcpChannelReliable # seg) t0 h0 = Some (ms, t, h)"
  obtains s out t1 where "ts_input K now seg (kt_store t0 r) = Some (ms, s, out)"
    "kcp_output q (ts_vp8 s) out (t0\<lparr>kt_inputSegments := kt_inputSegments t0 + 1, kt_store := (kt_store t0)(r := s)\<rparr>, h0) = (t1, h)"
    "t = t1\<lparr>kt_deliveredMessages := kt_deliveredMessages t1 + of_nat (length ms)\<rparr>"
proof -
  obtain ms' s out where i: "ts_input K now seg (kt_store t0 r) = Some (ms', s, out)"
    using assms by (cases "ts_input K now seg (kt_store t0 r)") (auto simp: handleDecodedSegment_def kcpChannelReliable_def kcpChannelRaw_def)
  obtain t1 h1 where o: "kcp_output q (ts_vp8 s) out (t0\<lparr>kt_inputSegments := kt_inputSegments t0 + 1, kt_store := (kt_store t0)(r := s)\<rparr>, h0) = (t1, h1)"
    by fastforce
  have "kt_onData t1" using kcp_output_spec [OF o] assms(1) by auto
  then have "ms' = ms" "h1 = h" "t = t1\<lparr>kt_deliveredMessages := kt_deliveredMessages t1 + of_nat (length ms)\<rparr>"
    using assms i o by (auto simp: handleDecodedSegment_def kcpChannelReliable_def kcpChannelRaw_def)
  then show ?thesis using that i o by blast
qed

lemma segment_keeps:
  assumes K: "kcp_laws K" and L: "linked K n segs got peer" and p: "carried (\<lambda>r. e_out (peer r)) payload"
    and sent: "\<And>r m. m \<in> set (e_sent (peer r)) \<Longrightarrow> reliable m"
    and handle: "handleDecodedSegment K q now payload (n_t n) (n_h n) = Some (ms, t, h)"
  shows "\<exists>segs' got'. linked K ((node_upd n (t, h))\<lparr>n_delivered := n_delivered n @ ms\<rparr>) segs' got' peer"
  using p unfolding carried_def
proof (elim disjE exE conjE bexE)
  fix f assume f: "payload = kcpChannelRaw # f" "\<not> reliable f"
  then have "ms = [f]" "t = (n_t n)\<lparr>kt_rawReceived := kt_rawReceived (n_t n) + 1\<rparr>" "h = n_h n"
    using handle linked_wf(6) [OF L] by (auto simp: handleDecodedSegment_def)
  then show ?thesis using raw_arrives [OF L f(2)] by blast
next
  fix r seg assume r: "r < 2 ^ 32" "seg \<in> e_out (peer r)" "payload = kcpChannelReliable # seg"
  note wf = linked_wf [OF L]
  have seg: "\<not> length seg < 4" "Uint32 (rev (take 4 seg)) = convOf r" using linked_segment [OF K L r(2)] by auto
  show ?thesis
  proof (cases "kt_convMap (n_t n) (convOf r)")
    case None
    then have "ms = []" "t = n_t n" "h = n_h n" using handle seg r(3) by (auto simp: handleDecodedSegment_def kcpChannelReliable_def kcpChannelRaw_def)
    moreover have "linked K (node_upd n (n_t n, n_h n)) segs got peer" by (rule linked_quiet [OF L]) (simp_all add: wf)
    ultimately show ?thesis by (auto simp: node_upd_def)
  next
    case (Some r')
    then have r': "r' < kt_next (n_t n)" "convOf r = convOf r'" "kt_next (n_t n) \<le> 2 ^ 32" using wf(1) by (auto simp: wf_kcp_def)
    then have "r' = r" using convOf_inj [of r r'] r(1) by simp
    then obtain s out t1 where *: "ts_input K now seg (kt_store (n_t n) r) = Some (ms, s, out)"
      "kcp_output q (ts_vp8 s) out ((n_t n)\<lparr>kt_inputSegments := kt_inputSegments (n_t n) + 1, kt_store := (kt_store (n_t n))(r := s)\<rparr>, n_h n) = (t1, h)"
      "t = t1\<lparr>kt_deliveredMessages := kt_deliveredMessages t1 + of_nat (length ms)\<rparr>"
      using handle_reliable [OF wf(6) seg(1) Some [folded seg(2)] handle [unfolded r(3)]] by auto
    from input_keeps [OF K L _ r(2) sent [where r = r] *(1,2)] show ?thesis using r'(1) \<open>r' = r\<close> *(3) by blast
  qed
qed

lemma add_keeps:
  assumes L: "linked K n segs got peer" and less: "kt_next (n_t n) < 2 ^ 32"
  shows "linked K (node_upd n (addSession K sub w (n_t n), n_h n)) segs got peer" (is "linked K ?n _ _ _")
proof -
  note wf = linked_wf [OF L]
  let ?t = "n_t n" let ?r = "kt_next ?t" let ?c = "convOf ?r"
  have t: "addSession K sub w ?t = ?t\<lparr>kt_store := (kt_store ?t)(?r := newTrackKCPSession K sub ?c w), kt_next := ?r + 1,
      kt_sessions := kt_sessions ?t @ [?r], kt_convMap := (kt_convMap ?t)(?c \<mapsto> ?r)\<rparr>"
    using wf(4) by (simp add: addSession_def convOf_def Let_def)
  have "convOf x \<noteq> ?c" if "x < ?r" for x using that less convOf_inj [of x ?r] by auto
  then have "wf_kcp (addSession K sub w ?t)"
    using wf(1) less unfolding t wf_kcp_def by (auto simp: less_Suc_eq newTrackKCPSession_def split: if_splits)
  then have "node_ok ?n segs got" using L unfolding linked_def node_ok_def by (auto simp: t node_upd_def pins_ok_def)
  moreover have "kcp_link K (convOf x) (endp ?n segs got x) (peer x)" for x
  proof (cases "x = ?r")
    case True
    have "kcp_end_step K ?c (e_out (peer ?r)) (endp n segs got ?r) ((endp n segs got ?r)\<lparr>e_kcp := Some (configured K ?c w)\<rparr>)"
      by (rule kcp_end_step.Born) (simp add: endp_def)
    moreover have "endp ?n segs got ?r = (endp n segs got ?r)\<lparr>e_kcp := Some (configured K ?c w)\<rparr>" by (simp add: endp_def t newTrackKCPSession_def)
    ultimately show ?thesis using L True kcp_link.Here unfolding linked_def by metis
  next
    case False
    then have "endp ?n segs got x = endp n segs got x" by (auto simp: endp_def t)
    then show ?thesis using L by (simp add: linked_def)
  qed
  ultimately show ?thesis by (simp add: linked_def)
qed

lemma each_tunnel_queue:
  "(\<And>v. vt_sendQueue (f v) = vt_sendQueue v) \<Longrightarrow> vt_sendQueue (each_tunnel f rs h r) = vt_sendQueue (h r)"
  by (induction rs arbitrary: h) (auto simp: each_tunnel_def)

lemma queued_in_same: "(\<And>r. vt_sendQueue (h' r) = vt_sendQueue (h r)) \<Longrightarrow> queued_in h' = queued_in h"
  by (simp add: queued_in_def)

lemma reconfigure_keeps:
  assumes L: "linked K n segs got peer"
  shows "linked K (node_upd n (kt_Reconfigure K fps batch (n_t n) (n_h n))) segs got peer"
proof -
  note wf = linked_wf [OF L]
  let ?w = "computeKCPWindow fps batch"
  obtain mt h where m: "mt_Reconfigure fps batch (kt_mt (n_t n)) (n_h n) = (mt, h)" by fastforce
  let ?t = "(n_t n)\<lparr>kt_mt := mt, kt_currentWindow := ?w\<rparr>" let ?n = "node_upd n (?t, h)"
  have "queued_in h = queued_in (n_h n)"
    using m by (auto simp: mt_Reconfigure_def vt_Reconfigure_def Let_def intro!: queued_in_same each_tunnel_queue)
  then have "linked K ?n segs got peer"
    using wf computeKCPWindow_bounds by (intro linked_quiet [OF L]) (auto simp: same_shape_def pins_ok_def)
  moreover have "\<forall>r \<in> set (kt_sessions (n_t n)). r < kt_next (n_t ?n)" by (simp add: wf(4))
  ultimately have "linked K (node_upd ?n (fold (window_session K ?w) (kt_sessions (n_t n)) (n_t ?n), n_h ?n)) segs got peer"
    by (rule windows_keep)
  from linked_again [OF this] show ?thesis using m by (simp add: kt_Reconfigure_def applyWindow_def)
qed

lemma node_step_keeps:
  assumes K: "kcp_laws K" and L: "linked K n segs got peer" and step: "node_step K arrivals n n'"
    and arr: "\<And>d. d \<in> arrivals \<Longrightarrow> carried (\<lambda>r. e_out (peer r)) d" and sent: "\<And>r m. m \<in> set (e_sent (peer r)) \<Longrightarrow> reliable m"
  shows "\<exists>segs' got'. linked K n' segs' got' peer"
  using step
proof cases
  case (SendData q now frm outcome t h)
  then show ?thesis using send_keeps [OF L] by blast
next
  case (Segment payload q now ms t h)
  from segment_keeps [OF K L arr [OF Segment(2)] sent Segment(3)] show ?thesis unfolding Segment(1) .
next
  case (Update now q)
  then show ?thesis using tick_keeps [OF L, of "kt_sessions (n_t n)" now q] linked_wf(4) [OF L] by (auto simp: update_tick_def)
next
  case (Reconfig fps batch)
  then show ?thesis using reconfigure_keeps [OF L] by blast
next
  case (Add sub)
  then show ?thesis using add_keeps [OF L, of sub] linked_wf(4) [OF L] by (auto simp: AddSession_def)
next
  case StopTunnel
  obtain mt h where m: "mt_Stop (kt_mt (n_t n)) (n_h n) = (mt, h)" by fastforce
  then have "queued_in h = queued_in (n_h n)"
    by (auto simp: mt_Stop_def vt_Stop_def split: if_splits intro!: queued_in_same each_tunnel_queue)
  then have "linked K (node_upd n ((n_t n)\<lparr>kt_stopped := True, kt_mt := mt\<rparr>, h)) segs got peer"
    using linked_wf [OF L] by (intro linked_quiet [OF L]) (auto simp: same_shape_def pins_ok_def)
  then show ?thesis using StopTunnel m by (auto simp: kt_Stop_def)
next
  case StopOnly
  have "linked K (node_upd n ((n_t n)\<lparr>kt_stopped := True\<rparr>, n_h n)) segs got peer"
    using linked_wf [OF L] by (intro linked_quiet [OF L]) (auto simp: same_shape_def pins_ok_def)
  then show ?thesis using StopOnly by (auto simp: StopLayer_def)
next
  case (Carrier h)
  then have "queued_in h \<subseteq> queued_in (n_h n)" by (auto simp: queued_in_def)
  then have "linked K (node_upd n (n_t n, h)) segs got peer" using linked_wf [OF L] by (intro linked_quiet [OF L]) auto
  then show ?thesis using Carrier by blast
qed

section \<open>The invariant of the pair\<close>

definition pair_inv :: "'k kcp_lib \<Rightarrow> 'k kcp_pair \<Rightarrow> bool" where
  "pair_inv K s \<longleftrightarrow> (\<exists>sa ga sb gb. linked K (fst s) sa ga (endp (snd s) sb gb) \<and> linked K (snd s) sb gb (endp (fst s) sa ga))"

lemma linked_peer:
  assumes "linked K a sa ga (endp b sb gb)"
  shows "linked K b sb gb (endp a sa ga) \<longleftrightarrow> node_ok b sb gb"
  using assms by (auto simp: linked_def intro: kcp_link_sym)

lemma node_ok_arrivals: "node_ok b sb gb \<Longrightarrow> d \<in> n_off b \<Longrightarrow> carried (\<lambda>r. e_out (endp b sb gb r)) d"
  "node_ok b sb gb \<Longrightarrow> m \<in> set (e_sent (endp b sb gb r)) \<Longrightarrow> reliable m"
  by (auto simp: node_ok_def endp_def on_def)

lemma one_side:
  assumes "kcp_laws K" "linked K a sa ga (endp b sb gb)" "node_ok b sb gb" "node_step K (n_off b) a a'"
  obtains sa' ga' where "linked K a' sa' ga' (endp b sb gb)"
proof -
  have "\<exists>segs' got'. linked K a' segs' got' (endp b sb gb)"
    by (rule node_step_keeps [OF assms(1,2,4)]) (erule node_ok_arrivals [OF assms(3)])+
  then show ?thesis using that by blast
qed

lemma pair_inv_step:
  assumes "kcp_laws K" "pair_inv K s" "kcp_step K s s'"
  shows "pair_inv K s'"
proof -
  obtain sa ga sb gb where L: "linked K (fst s) sa ga (endp (snd s) sb gb)" "linked K (snd s) sb gb (endp (fst s) sa ga)"
    using assms(2) by (auto simp: pair_inv_def)
  then have ok: "node_ok (fst s) sa ga" "node_ok (snd s) sb gb" by (simp_all add: linked_def)
  show ?thesis
    using assms(3)
  proof cases
    case (Left b a a')
    then obtain sa' ga' where *: "linked K a' sa' ga' (endp b sb gb)" using one_side [OF assms(1), of a sa ga b sb gb a'] L(1) ok(2) by auto
    then show ?thesis using linked_peer [OF *] ok(2) Left by (auto simp: pair_inv_def)
  next
    case (Right a b b')
    then obtain sb' gb' where *: "linked K b' sb' gb' (endp a sa ga)" using one_side [OF assms(1), of b sb gb a sa ga b'] L(2) ok(1) by auto
    then show ?thesis using linked_peer [OF *] ok(1) Right by (auto simp: pair_inv_def)
  qed
qed

lemma linked_empty:
  assumes "\<And>r. kcp_link K (convOf r) unborn (peer r)" "queued_in h = {}" "kcpWindowFloor \<le> w" "w \<le> kcpWindowCeiling"
    and "t = \<lparr>kt_mt = mt, kt_store = store, kt_next = 0, kt_sessions = [], kt_convMap = Map.empty, kt_connPin = Map.empty,
         kt_onData = True, kt_onClose = False, kt_stopped = False, kt_currentWindow = w,
         kt_sentMessages = 0, kt_deliveredMessages = 0, kt_outputSegments = 0, kt_inputSegments = 0,
         kt_rawSent = 0, kt_rawReceived = 0, kt_droppedSegments = 0\<rparr>"
  shows "linked K \<lparr>n_t = t, n_h = h, n_off = {}, n_sent = [], n_delivered = []\<rparr> (\<lambda>_. {}) [] peer"
  using assms by (auto simp: linked_def node_ok_def wf_kcp_def pins_ok_def endp_def unborn_def)

lemma adds_keep:
  "linked K n segs got peer \<Longrightarrow> n_off n = {} \<Longrightarrow> queued_in (n_h n) = {} \<Longrightarrow> kt_next (n_t n) + length subs \<le> 2 ^ 32 \<Longrightarrow>
     linked K (n\<lparr>n_t := fold (\<lambda>sub. addSession K sub w) subs (n_t n)\<rparr>) segs got peer"
proof (induction subs arbitrary: n)
  case (Cons sub subs)
  let ?n = "n\<lparr>n_t := addSession K sub w (n_t n)\<rparr>"
  have "?n = node_upd n (addSession K sub w (n_t n), n_h n)" using Cons.prems(2,3) by (simp add: node_upd_def)
  then have "linked K ?n segs got peer" using add_keeps [OF Cons.prems(1)] Cons.prems(4) by simp
  then show ?case using Cons.IH [of ?n] Cons.prems(2-4) by (simp add: addSession_def Let_def)
qed simp

lemma addSession_onData: "(addSession K sub w t)\<lparr>kt_onData := True\<rparr> = addSession K sub w (t\<lparr>kt_onData := True\<rparr>)"
  by (cases t) (simp add: addSession_def Let_def)

lemma fold_addSession_onData:
  "(fold (\<lambda>sub. addSession K sub w) subs t)\<lparr>kt_onData := True\<rparr> = fold (\<lambda>sub. addSession K sub w) subs (t\<lparr>kt_onData := True\<rparr>)"
  by (induction subs arbitrary: t) (simp_all add: addSession_onData)

lemma init_linked:
  assumes "node_init K n" "\<And>r. kcp_link K (convOf r) unborn (peer r)"
  shows "linked K n (\<lambda>_. {}) [] peer"
proof -
  obtain store mt h where n: "length (mt_tunnels mt) \<le> 2 ^ 32" "queued_in h = {}"
    "n = \<lparr>n_t = (NewMultiTrackKCPTunnel K store mt h)\<lparr>kt_onData := True\<rparr>, n_h = h, n_off = {}, n_sent = [], n_delivered = []\<rparr>"
    using assms(1) by (auto simp: node_init_def)
  define w where "w = (case mt_tunnels mt of [] \<Rightarrow> kcpWindowFloor | s # _ \<Rightarrow> computeKCPWindow (vt_fps (h s)) (vt_batch (h s)))"
  have w: "kcpWindowFloor \<le> w" "w \<le> kcpWindowCeiling"
    using computeKCPWindow_bounds by (auto simp: w_def kcpWindowFloor_def kcpWindowCeiling_def split: list.split)
  let ?t = "\<lparr>kt_mt = mt, kt_store = store, kt_next = 0, kt_sessions = [], kt_convMap = Map.empty, kt_connPin = Map.empty,
         kt_onData = True, kt_onClose = False, kt_stopped = False, kt_currentWindow = w,
         kt_sentMessages = 0, kt_deliveredMessages = 0, kt_outputSegments = 0, kt_inputSegments = 0,
         kt_rawSent = 0, kt_rawReceived = 0, kt_droppedSegments = 0\<rparr>"
  have "linked K \<lparr>n_t = ?t, n_h = h, n_off = {}, n_sent = [], n_delivered = []\<rparr> (\<lambda>_. {}) [] peer"
    by (rule linked_empty [OF assms(2) n(2) w refl])
  from adds_keep [OF this, of "mt_tunnels mt" w] show ?thesis
    using n by (simp add: NewMultiTrackKCPTunnel_def fold_addSession_onData w_def [symmetric])
qed

lemma pair_inv_init:
  assumes "kcp_init K s"
  shows "pair_inv K s"
proof -
  have a: "linked K (fst s) (\<lambda>_. {}) [] (\<lambda>_. unborn)" using assms by (intro init_linked) (auto simp: kcp_init_def intro: kcp_link.Fresh)
  have "kcp_link K (convOf r) unborn (endp (fst s) (\<lambda>_. {}) [] r)" for r using a by (auto simp: linked_def intro: kcp_link_sym)
  then have b: "linked K (snd s) (\<lambda>_. {}) [] (endp (fst s) (\<lambda>_. {}) [])" using assms by (intro init_linked) (auto simp: kcp_init_def)
  then have "linked K (fst s) (\<lambda>_. {}) [] (endp (snd s) (\<lambda>_. {}) [])" using linked_peer [OF b] a by (simp add: linked_def)
  then show ?thesis using b by (auto simp: pair_inv_def)
qed

lemma kcp_reach:
  assumes "kcp_laws K" "reach (kcp_init K) (kcp_step K) s"
  shows "pair_inv K s"
  using assms(2) by (induction rule: reach.induct) (auto intro: pair_inv_init pair_inv_step [OF assms(1)])

section \<open>The property\<close>

lemma filter_on: "(\<And>p. p \<in> set l \<Longrightarrow> P (snd p) \<Longrightarrow> fst p = i) \<Longrightarrow> filter P (map snd l) = filter P (on i l)"
  by (induction l) (auto simp: on_def)

lemma prefix_filter: "prefix xs ys \<Longrightarrow> prefix (filter P xs) (filter P ys)"
  by (auto simp: prefix_def)

text \<open>
  C29. The reliable layer keeps the order of every connection over any number of tracks: while one side sends, sessions are
  added, windows change and segments arrive late, twice, out of order or never, the reliable frames of a connection
  that reached the other side are the first ones sent, in order and without gaps. It holds for frames up to the close
  of the connection, because all of them go to one session; the KCP library is only assumed to keep
  the order within a session. The window stays between its floor and its ceiling.
\<close>
theorem kcp_connection_order:
  assumes "kcp_laws K" "reach (kcp_init K) (kcp_step K) (a, b)"
    and "\<forall>f \<in> set (butlast (frames_of c (map snd (n_sent a)))). f ! 8 \<noteq> MsgClose"
  shows "prefix (frames_of c (n_delivered b)) (frames_of c (map snd (n_sent a))) \<and>
    (\<exists>i. \<forall>p \<in> set (n_sent a). frame_conn (snd p) = c \<longrightarrow> fst p = i) \<and>
    kcpWindowFloor \<le> kt_currentWindow (n_t a) \<and> kt_currentWindow (n_t a) \<le> kcpWindowCeiling"
proof -
  obtain sa ga sb gb where L: "linked K a sa ga (endp b sb gb)" "node_ok b sb gb"
    using kcp_reach [OF assms(1,2)] by (auto simp: pair_inv_def linked_def)
  note wf = linked_wf [OF L(1)]
  let ?P = "\<lambda>f. frame_conn f = c"
  have rel: "\<forall>p \<in> set (n_sent a). reliable (snd p)" using L(1) by (simp add: linked_def node_ok_def)
  then have sent: "frames_of c (map snd (n_sent a)) = map snd (filter (\<lambda>p. ?P (snd p)) (n_sent a))"
    unfolding frames_of_def filter_map comp_def by (metis (mono_tags, lifting) filter_cong)
  have "\<forall>p \<in> set (butlast (filter (\<lambda>p. ?P (snd p)) (n_sent a))). snd p ! 8 \<noteq> MsgClose"
    using assms(3) unfolding sent map_butlast [symmetric] by simp
  then obtain i where "\<forall>p \<in> set (filter (\<lambda>p. ?P (snd p)) (n_sent a)). fst p = i" using wf(3) unfolding pins_ok_def Let_def by blast
  then have i: "fst p = i" if "p \<in> set (n_sent a)" "?P (snd p)" for p using that by (cases p) auto
  have pre: "prefix (on j gb) (on j (n_sent a))" for j
  proof -
    have "kcp_link K (convOf j) (endp b sb gb j) (endp a sa ga j)" using L(1) by (simp add: linked_def kcp_link_sym)
    then have "prefix (e_got (endp b sb gb j)) (e_sent (endp a sa ga j))" using assms(1) unfolding kcp_laws_def by blast
    then show ?thesis by (simp add: endp_def)
  qed
  have "fst p = i" if "p \<in> set gb" "?P (snd p)" for p
  proof -
    have "snd p \<in> set (on (fst p) gb)" using that(1) by (force simp: on_def)
    then have "snd p \<in> set (on (fst p) (n_sent a))" using pre set_mono_prefix by blast
    then show ?thesis using i that(2) by (force simp: on_def)
  qed
  then have "filter ?P (map snd gb) = filter ?P (on i gb)" by (rule filter_on)
  moreover have "filter ?P (map snd (n_sent a)) = filter ?P (on i (n_sent a))" using i by (rule filter_on)
  moreover have "frames_of c (n_delivered b) = filter ?P (map snd gb)"
    using L(2) unfolding node_ok_def frames_of_def by (metis (mono_tags, lifting) filter_cong filter_filter)
  moreover have "frames_of c (map snd (n_sent a)) = filter ?P (map snd (n_sent a))" unfolding sent by (simp add: filter_map comp_def)
  ultimately have "prefix (frames_of c (n_delivered b)) (frames_of c (map snd (n_sent a)))" using prefix_filter [OF pre] by simp
  then show ?thesis using i wf(1) by (auto simp: wf_kcp_def)
qed

text \<open>
  What the run leaves out. When the last session is removed, a connection pinned to it goes on over another session, while
  the messages the removed session still holds are neither sent again nor drained: the connection has a gap.
  And a segment that arrives before a handler is set is taken in and acknowledged, but its messages are dropped.
\<close>

lemma removed_session_moves:
  assumes "kt_connPin t c = Some i" "Suc i = length (kt_sessions t)" "0 < i" "distinct (kt_sessions t)"
  shows "pinned c (RemoveLastSession t) < i" "kt_sessions t ! i \<notin> set (kt_sessions (RemoveLastSession t))"
proof -
  have "length (kt_sessions (RemoveLastSession t)) = i" using assms(2,3) by (simp add: RemoveLastSession_def)
  then show "pinned c (RemoveLastSession t) < i" using assms(1,3) by (simp add: pinned_def RemoveLastSession_def Let_def)
  have "kt_sessions t = butlast (kt_sessions t) @ [kt_sessions t ! i]"
    using assms(2) by (metis append_butlast_last_id diff_Suc_1 last_conv_nth length_0_conv nat.distinct(1))
  then have "distinct (butlast (kt_sessions t) @ [kt_sessions t ! i])" using assms(4) by metis
  then have "kt_sessions t ! i \<notin> set (butlast (kt_sessions t))" by simp
  then show "kt_sessions t ! i \<notin> set (kt_sessions (RemoveLastSession t))" using assms(2,3) by (simp add: RemoveLastSession_def)
qed

lemma early_message_lost:
  assumes "\<not> kt_onData t" "kt_convMap t (Uint32 (rev (take 4 seg))) = Some r" "\<not> length seg < 4"
    and "ts_input K now seg (kt_store t r) = Some (ms, s, segs)"
  shows "\<exists>t' h'. handleDecodedSegment K q now (kcpChannelReliable # seg) t h = Some ([], t', h') \<and> kt_store t' r = s"
proof -
  obtain t1 h1 where o: "kcp_output q (ts_vp8 s) segs (t\<lparr>kt_inputSegments := kt_inputSegments t + 1, kt_store := (kt_store t)(r := s)\<rparr>, h) = (t1, h1)"
    by fastforce
  have "\<not> kt_onData t1" "kt_store t1 r = s" using kcp_output_spec [OF o] assms(1) by auto
  then show ?thesis using assms(2-4) o by (simp add: handleDecodedSegment_def kcpChannelReliable_def kcpChannelRaw_def)
qed

section \<open>A library that keeps the promises\<close>

text \<open>
  Every message is one segment, numbered in unary after the number of the conversation, and repeated at every update; the
  receiver takes the segment it waits for and ignores others.
\<close>

type_synonym plain_kcp = "u32 \<times> bytes list \<times> nat \<times> bytes list"

definition plain_header :: "u32 \<Rightarrow> nat \<Rightarrow> bytes" where
  "plain_header c i = rev (PutUint32 c) @ replicate i 1 @ [0]"

definition plain_segment :: "u32 \<Rightarrow> nat \<times> bytes \<Rightarrow> bytes" where
  "plain_segment c im = plain_header c (fst im) @ snd im"

definition plain_lib :: "plain_kcp kcp_lib" where
  "plain_lib =
     \<lparr>NewKCP = \<lambda>c. (c, [], 0, []), kNoDelay = \<lambda>_ _ _ _ k. k, kWndSize = \<lambda>_ _ k. k, kSetMtu = \<lambda>_ k. k,
      kSend = \<lambda>m (c, h, n, q). (c, h @ [m], n, q),
      kUpdate = \<lambda>_ (c, h, n, q). ((c, h, n, q), map (plain_segment c) (zip [0..<length h] h)),
      kInput = \<lambda>_ seg (c, h, n, q).
        (if take (5 + n) seg = plain_header c n then (c, h, n + 1, q @ [drop (5 + n) seg]) else (c, h, n, q), []),
      kPeekSize = \<lambda>(c, h, n, q). (case q of [] \<Rightarrow> -1 | m # _ \<Rightarrow> int (length m)),
      kRecv = \<lambda>_ (c, h, n, q). (case q of [] \<Rightarrow> ([], c, h, n, q) | m # q \<Rightarrow> (m, c, h, n, q)),
      kWaitSnd = \<lambda>_. 0\<rparr>"

lemma plain_header_length [simp]: "length (plain_header c i) = 5 + i"
  by (simp add: plain_header_def)

lemma unary_prefix: "take (Suc n) (replicate i 1 @ (0 :: byte) # m) = replicate n 1 @ [0] \<longleftrightarrow> i = n"
proof (induction n arbitrary: i)
  case 0
  then show ?case by (cases i) auto
next
  case (Suc n)
  then show ?case by (cases i) auto
qed

lemma plain_take: "take (5 + n) (plain_segment c (i, m)) = plain_header c n \<longleftrightarrow> i = n"
proof -
  have "take (5 + n) (plain_segment c (i, m)) = rev (PutUint32 c) @ take (Suc n) (replicate i 1 @ 0 # m)"
    by (simp add: plain_segment_def plain_header_def)
  then show ?thesis using unary_prefix [of n i m] by (simp add: plain_header_def)
qed

definition plain_half :: "u32 \<Rightarrow> plain_kcp kcp_end \<Rightarrow> bytes list \<Rightarrow> bool" where
  "plain_half conv e sent \<longleftrightarrow> e_out e \<subseteq> plain_segment conv ` set (zip [0..<length (e_sent e)] (e_sent e)) \<and>
     (case e_kcp e of
        None \<Rightarrow> e_sent e = [] \<and> e_got e = []
      | Some (c, h, n, q) \<Rightarrow> c = conv \<and> h = e_sent e \<and> n \<le> length sent \<and> e_got e @ q = take n sent)"

lemma kcp_end_step_mono: "kcp_end_step K conv arr e e' \<Longrightarrow> arr \<subseteq> arr' \<Longrightarrow> kcp_end_step K conv arr' e e'"
  by (induction rule: kcp_end_step.induct) (auto intro: kcp_end_step.intros)

lemma plain_half_sent: "plain_half conv e sent \<Longrightarrow> plain_half conv e (sent @ [m])"
  by (auto simp: plain_half_def split: option.splits)

lemma zip_upt_snoc: "zip [0..<length xs + 1] (xs @ [x]) = zip [0..<length xs] xs @ [(length xs, x)]"
  by simp

lemma plain_end_step:
  assumes "plain_half conv e sent" "kcp_end_step plain_lib conv (plain_segment conv ` set (zip [0..<length sent] sent)) e e'"
  shows "plain_half conv e' sent \<and> (e_sent e' = e_sent e \<or> (\<exists>m. e_sent e' = e_sent e @ [m]))"
  using assms(2)
proof cases
  case (Inputs k seg now k' segs)
  obtain i where i: "i < length sent" "seg = plain_segment conv (i, sent ! i)" using Inputs(3) by (auto simp: set_zip)
  obtain c h n q where k: "k = (c, h, n, q)" by (cases k)
  have "drop (5 + n) seg = sent ! i" if "i = n" using that i(2) by (simp add: plain_segment_def)
  then have "k' = (if i = n then (conv, h, n + 1, q @ [sent ! n]) else k)" "segs = []"
    using Inputs(2,4) assms(1) i(2) plain_take [of n conv i "sent ! i"] by (auto simp: plain_lib_def k plain_half_def split: if_splits)
  then show ?thesis using Inputs assms(1) i(1) by (auto simp: plain_half_def k take_Suc_conv_app_nth)
next
  case (Recvs k n m k')
  then show ?thesis using assms(1) by (auto simp: plain_half_def plain_lib_def split: list.splits)
qed (use assms(1) in \<open>auto simp: plain_half_def plain_lib_def configured_def\<close>)

lemma plain_link: "kcp_link plain_lib conv a b \<Longrightarrow> plain_half conv a (e_sent b) \<and> plain_half conv b (e_sent a)"
proof (induction rule: kcp_link.induct)
  case Fresh
  then show ?case by (simp add: plain_half_def unborn_def)
next
  case (Here a b a')
  have "kcp_end_step plain_lib conv (plain_segment conv ` set (zip [0..<length (e_sent b)] (e_sent b))) a a'"
    by (rule kcp_end_step_mono [OF Here(2)]) (use Here in \<open>simp add: plain_half_def\<close>)
  then show ?case using plain_end_step [of conv a "e_sent b" a'] Here plain_half_sent by auto
next
  case (There a b b')
  have "kcp_end_step plain_lib conv (plain_segment conv ` set (zip [0..<length (e_sent a)] (e_sent a))) b b'"
    by (rule kcp_end_step_mono [OF There(2)]) (use There in \<open>simp add: plain_half_def\<close>)
  then show ?case using plain_end_step [of conv b "e_sent a" b'] There plain_half_sent by auto
qed

lemma plain_lib_laws: "kcp_laws plain_lib"
proof -
  have "prefix (e_got a) (e_sent b) \<and> (\<forall>seg \<in> e_out a. 4 \<le> length seg \<and> take 4 seg = rev (PutUint32 conv))"
    if "kcp_link plain_lib conv a b" for conv a b
  proof -
    have half: "plain_half conv a (e_sent b)" using plain_link [OF that] by blast
    have "prefix (e_got a) (e_sent b)"
    proof (cases "e_kcp a")
      case (Some k)
      then obtain n q where "e_got a @ q = take n (e_sent b)" using half by (cases k) (auto simp: plain_half_def)
      then have "prefix (e_got a) (take n (e_sent b))" by (intro prefixI [of _ _ q]) simp
      then show ?thesis by (rule prefix_order.trans) (rule take_is_prefix)
    qed (use half in \<open>simp add: plain_half_def\<close>)
    moreover have "4 \<le> length seg \<and> take 4 seg = rev (PutUint32 conv)" if "seg \<in> e_out a" for seg
      using half that by (auto simp: plain_half_def plain_segment_def plain_header_def)
    ultimately show ?thesis by blast
  qed
  moreover have "\<exists>f. \<forall>k n. 0 < kPeekSize plain_lib k \<and> kPeekSize plain_lib k \<le> int n \<longrightarrow> f (snd (kRecv plain_lib n k)) < (f k :: nat)"
    by (rule exI [of _ "\<lambda>(c, h, n, q). length q"]) (auto simp: plain_lib_def split: list.splits)
  moreover have "int (length (fst (kRecv plain_lib n k))) = kPeekSize plain_lib k" if "0 < kPeekSize plain_lib k" for k n
    using that by (cases k) (auto simp: plain_lib_def split: list.splits)
  ultimately show ?thesis unfolding kcp_laws_def by blast
qed

definition demo_frame :: bytes where "demo_frame = EncodeFrame 3 MsgData [7]"

definition demo_carriers :: vheap where "demo_carriers = (\<lambda>_. NewVP8DataTunnelWithQueue (demo_obf 1) 0)"

definition demo_kcp :: "plain_kcp MultiTrackKCPTunnel" where
  "demo_kcp = (NewMultiTrackKCPTunnel plain_lib (\<lambda>r. newTrackKCPSession plain_lib r 0 64) (NewMultiTrackTunnel [0, 1]) demo_carriers)\<lparr>kt_onData := True\<rparr>"

definition demo_node :: "plain_kcp kcp_node" where
  "demo_node = \<lparr>n_t = demo_kcp, n_h = demo_carriers, n_off = {}, n_sent = [], n_delivered = []\<rparr>"

definition demo_sender :: "plain_kcp kcp_node" where
  "demo_sender = (case kt_SendData plain_lib (\<lambda>_. True) 0 demo_frame demo_kcp demo_carriers of
     (outcome, th) \<Rightarrow> (node_upd demo_node th)\<lparr>n_sent := sent_frames outcome demo_frame\<rparr>)"

definition demo_payload :: bytes where
  "demo_payload = kcpChannelReliable # plain_segment (convOf 1) (0, demo_frame)"

definition demo_receiver :: "plain_kcp kcp_node" where
  "demo_receiver = (case handleDecodedSegment plain_lib (\<lambda>_. True) 0 demo_payload demo_kcp demo_carriers of
     Some (ms, th) \<Rightarrow> (node_upd demo_node th)\<lparr>n_delivered := ms\<rparr> | None \<Rightarrow> demo_node)"

lemma demo_frame_facts [simp]: "length demo_frame = 10" "demo_frame ! 8 = MsgData" "frame_conn demo_frame = 3" "Uint32 (slice 4 8 demo_frame) = 3"
proof -
  show len: "length demo_frame = 10" by (simp add: demo_frame_def)
  show "demo_frame ! 8 = MsgData" unfolding demo_frame_def EncodeFrame_layout by (simp add: nth_append)
  show c: "frame_conn demo_frame = 3" by (simp add: demo_frame_def)
  then show "Uint32 (slice 4 8 demo_frame) = 3" using len by (simp add: frame_conn_def)
qed

lemma demo_frame_nonempty [simp]: "demo_frame \<noteq> []"
  using demo_frame_facts(1) by force

lemma demo_kcp_facts [simp]:
  "kt_sessions demo_kcp = [0, 1]" "kt_connPin demo_kcp = Map.empty" "kt_onData demo_kcp" "kt_stopped demo_kcp = False"
  "kt_convMap demo_kcp (convOf 1) = Some 1" "kt_currentWindow demo_kcp = 180"
  "kt_store demo_kcp 1 = newTrackKCPSession plain_lib 1 (convOf 1) 180"
  by (simp_all add: demo_kcp_def NewMultiTrackKCPTunnel_def NewMultiTrackTunnel_def addSession_def convOf_def Let_def computeKCPWindow_def
      demo_carriers_def NewVP8DataTunnelWithQueue_def defaultVP8FPS_def defaultVP8Batch_def kcpWindowFloor_def kcpWindowCeiling_def)

lemma demo_node_init: "node_init plain_lib demo_node"
  unfolding node_init_def demo_node_def demo_kcp_def
  by (intro exI conjI refl) (simp_all add: NewMultiTrackTunnel_def demo_carriers_def queued_in_def NewVP8DataTunnelWithQueue_def)

lemma demo_carriers_room: "vt_sendQueue (demo_carriers r) = []" "vt_queueDepth (demo_carriers r) = 128" "vt_stopped (demo_carriers r) = False"
  by (simp_all add: demo_carriers_def NewVP8DataTunnelWithQueue_def sendQueueDepth_def)

lemma demo_send:
  obtains t h where "kt_SendData plain_lib (\<lambda>_. True) 0 demo_frame demo_kcp demo_carriers = (Sent 1, t, h)" "demo_payload \<in> queued_in h"
proof -
  have "pinned 3 demo_kcp = 1" by (simp add: pinned_def flip: numeral_2_eq_2)
  then have "\<exists>t h. kt_SendData plain_lib (\<lambda>_. True) 0 demo_frame demo_kcp demo_carriers = (Sent 1, t, h) \<and> demo_payload \<in> set (vt_sendQueue (h 1))"
    by (simp add: demo_kcp_facts(7) [unfolded One_nat_def] kt_SendData_def Let_def kcpWaitSndFactor_def plain_lib_def newTrackKCPSession_def configured_def ts_send_def ts_update_def
        plain_segment_def plain_header_def TrySendData_def demo_carriers_room demo_payload_def MsgData_def MsgUDP_def MsgUDPReply_def MsgClose_def)
  then show ?thesis using that by (auto simp: queued_in_def)
qed

lemma plain_drain:
  assumes "ts_kcp s = (c, h, n, [m])" "m \<noteq> []" "length m \<le> ts_recvBuf s"
  shows "ts_drain plain_lib s = Some ([m], s\<lparr>ts_kcp := (c, h, n, [])\<rparr>)"
proof -
  have "ts_drain plain_lib (s\<lparr>ts_kcp := (c, h, n, [])\<rparr>) = Some ([], s\<lparr>ts_kcp := (c, h, n, [])\<rparr>)"
    by (subst ts_drain.simps) (simp add: plain_lib_def)
  then show ?thesis using assms by (subst ts_drain.simps) (simp add: plain_lib_def Let_def)
qed

lemma demo_receive:
  obtains t h where "handleDecodedSegment plain_lib (\<lambda>_. True) 0 demo_payload demo_kcp demo_carriers = Some ([demo_frame], t, h)"
proof -
  let ?s = "newTrackKCPSession plain_lib 1 (convOf 1) 180"
  let ?seg = "plain_segment (convOf 1) (0, demo_frame)"
  have conv: "Uint32 (rev (take 4 ?seg)) = convOf 1" "\<not> length ?seg < 4" by (simp_all add: plain_segment_def plain_header_def)
  have "drop 5 ?seg = demo_frame" by (simp add: plain_segment_def)
  then have "kInput plain_lib 0 ?seg (ts_kcp ?s) = ((convOf 1, [], 1, [demo_frame]), [])"
    using plain_take [of 0 "convOf 1" 0 demo_frame] by (simp add: plain_lib_def newTrackKCPSession_def configured_def)
  moreover have "ts_drain plain_lib (?s\<lparr>ts_kcp := (convOf 1, [], 1, [demo_frame])\<rparr>) = Some ([demo_frame], ?s\<lparr>ts_kcp := (convOf 1, [], 1, [])\<rparr>)"
    using plain_drain [of "?s\<lparr>ts_kcp := (convOf 1, [], 1, [demo_frame])\<rparr>" "convOf 1" "[]" 1 demo_frame] demo_frame_facts(1)
    by (auto simp: newTrackKCPSession_def kcpReceiveBufSize_def)
  ultimately have "ts_input plain_lib 0 ?seg (kt_store demo_kcp 1) = Some ([demo_frame], ?s\<lparr>ts_kcp := (convOf 1, [], 1, [])\<rparr>, [])"
    unfolding demo_kcp_facts(7) by (simp add: ts_input_def)
  then have "\<exists>t h. handleDecodedSegment plain_lib (\<lambda>_. True) 0 demo_payload demo_kcp demo_carriers = Some ([demo_frame], t, h)"
    using conv demo_kcp_facts(5) by (simp add: handleDecodedSegment_def demo_payload_def kcpChannelReliable_def kcpChannelRaw_def)
  then show ?thesis using that by blast
qed

lemma demo_kcp_reach: "reach (kcp_init plain_lib) (kcp_step plain_lib) (demo_sender, demo_receiver)"
  "n_sent demo_sender = [(1, demo_frame)]" "n_delivered demo_receiver = [demo_frame]"
proof -
  obtain t h where s: "kt_SendData plain_lib (\<lambda>_. True) 0 demo_frame demo_kcp demo_carriers = (Sent 1, t, h)" "demo_payload \<in> queued_in h"
    by (rule demo_send)
  obtain t' h' where r: "handleDecodedSegment plain_lib (\<lambda>_. True) 0 demo_payload demo_kcp demo_carriers = Some ([demo_frame], t', h')"
    by (rule demo_receive)
  have "length demo_frame \<le> kcpMessageMax" by (simp add: kcpMessageMax_def kcpSegmentMTU_def vp8_lens)
  then have "kcp_step plain_lib (demo_node, demo_node) (demo_sender, demo_node)"
    using node_step.SendData [of plain_lib "\<lambda>_. True" 0 demo_frame demo_node "Sent 1" t h] s(1)
    by (intro kcp_step.Left) (simp add: demo_sender_def demo_node_def sent_frames_def)
  moreover have "kcp_step plain_lib (demo_sender, demo_node) (demo_sender, demo_receiver)"
    using node_step.Segment [of demo_payload "n_off demo_sender" plain_lib "\<lambda>_. True" 0 demo_node "[demo_frame]" t' h'] s r
    by (intro kcp_step.Right) (simp add: demo_sender_def demo_receiver_def demo_node_def node_upd_def)
  moreover have "reach (kcp_init plain_lib) (kcp_step plain_lib) (demo_node, demo_node)"
    by (rule reach_init) (simp add: kcp_init_def demo_node_init)
  ultimately show "reach (kcp_init plain_lib) (kcp_step plain_lib) (demo_sender, demo_receiver)" by (blast intro: reach_step)
  show "n_sent demo_sender = [(1, demo_frame)]" using s(1) by (simp add: demo_sender_def sent_frames_def)
  show "n_delivered demo_receiver = [demo_frame]" using r by (simp add: demo_receiver_def)
qed

theorem kcp_connection_order_witness:
  "prefix (frames_of 3 (n_delivered demo_receiver)) (frames_of 3 (map snd (n_sent demo_sender))) \<and> n_delivered demo_receiver = [demo_frame]"
  using kcp_connection_order [OF plain_lib_laws demo_kcp_reach(1), of 3] demo_kcp_reach(2,3) by (simp add: frames_of_def)

end
