(* ===== verification/Spec2Isabelle.thy ===== *)
theory Spec2Isabelle
  imports Auth Obfs PacketConn Stream_Header Datagram_Router Relay_Connect Client Bond Failover Kmutex Tls_Fragment Dc_Tunnel Kcp_Tunnel
begin

text \<open>
  Verification of the \<open>vk_parasite\<close> transport of HydraCore: a client opens several QUIC connections
  (paths) to a server, each through a TURN relay of a VK call and disguised as an RTP flow, and
  carries TCP streams and UDP datagrams over them. Sources are under \<open>src/\<close>; \<open>V/\<close> stands for
  \<open>src/transport/call/vk-parasite/\<close>, \<open>H/\<close> for \<open>src/common/hydracore/\<close>, \<open>K/\<close> for
  \<open>src/transport/call/vk/\<close> and \<open>T/\<close> for \<open>src/transport/call/tunnel/\<close>.

  \<^bold>\<open>How the parts work together.\<close> A client (Client) fetches TURN credentials for a join link
  (Vk\_Credentials), waits for a permit (Supervisor), allocates on a TURN server (Turn), wraps its packets
  (Obfs, PacketConn), dials QUIC and logs in (Auth); the path then joins the pool (Quic\_Relay). The server
  (Server) admits the worker to a session and attaches the connection to the pool of that session.
  Streams open with a header (Stream\_Header), datagrams go through associations (Datagram,
  Datagram\_Reassembly, Datagram\_Router). What the client observes is published to the rest of
  the process (Runtime\_Transport). The relay bridge (Tunnel\_Protocol, Relay\_Bridge, Relay\_Flow,
  Relay\_Connect) multiplexes connections over one tunnel for the call transports. The tunnel is a data channel
  (Dc\_Tunnel) or frames of a video track (Vp8\_Tunnel), sealed by the obfuscator of the call (Tunnel\_Obfuscator); several tracks
  make one tunnel (Multi\_Track), with a reliable session per track on top where asked (Kcp\_Tunnel). Beside this transport, the
  library covers the protocols HydraCore adds to sing-box for lossy networks: bond (Bond) stripes a stream over
  several outbounds, failover (Failover) moves a stream to a new connection, both with a lock per session
  (Kmutex); and the fragmentation of TLS hellos (Tls\_Fragment).

  \<^bold>\<open>Theories, sources and what is shown.\<close>

  \<^item> Prelude: error values, slices, big-endian and varint codecs, \<open>io.ReadFull\<close>, UTF-8, reachability,
    and the locales for shared contracts: \<open>framed\<close> (self-delimiting frames), \<open>packet_codec\<close>,
    \<open>filtering_reader\<close> and \<open>invariant_system\<close> (a step relation with an invariant). Go\_Net models IP
    addresses of the standard library, Go\_Sha256 its SHA-256, with the constants computed from primes.
  \<^item> Auth (\<open>V/auth.go\<close>, \<open>V/auth_handshake.go\<close>): the frames of a log-in. The server's reader
    accepts exactly the encodings of the client; acknowledgements likewise.
  \<^item> Obfs (\<open>V/obfs.go\<close>, \<open>V/mtu.go\<close>) and PacketConn (\<open>V/packet_conn.go\<close>): wrapping round-trips, nonces are
    distinct, only sealed packets are accepted, packets fit the path; each remote sees one RTP
    flow without gaps, and readers return the genuine packets in order.
  \<^item> Stream\_Header (\<open>V/stream_header.go\<close>): round trip.
  \<^item> Datagram, Datagram\_Reassembly, Datagram\_Router (\<open>V/datagram.go\<close>): fragments fit the budget and a packet
    whose fragments arrive is delivered whole; whatever arrives, only packets that were sent are delivered
    and the tables keep their bounds; associations do not interfere (a refinement of the router to the
    single association).
  \<^item> Quic\_Relay (\<open>V/quic_relay.go\<close>): every worker as a small state machine, all interleavings of
    dialling, losing, rebinding and closing; the pool holds at most one live path per worker, of the
    current network, and \<open>pickPath\<close> serves all usable paths in turn.
  \<^item> Server (\<open>V/server.go\<close>): every accepted connection as a state machine; the session table, the counts
    per user and the limits agree in every reachable state, sessions are lost for stated reasons only,
    admission is exact, and a worker that waits for a set-up goes on when it ends.
  \<^item> Runtime\_Transport (\<open>H/runtime_transport.go\<close>, \<open>H/turn_edge.go\<close>, \<open>H/contract.go\<close>,
    \<open>H/legacy_capabilities.go\<close>, \<open>H/call_*.go\<close>): no wake-up is lost, health of an older runtime is ignored,
    the TURN edge record survives failing writes, the published capabilities match the build.
  \<^item> Vk\_Credentials (\<open>K/turn_credentials.go\<close>, \<open>K/control_plane_error.go\<close>): the flights of concurrent
    fetches; at most one asks VK, at the required spacing and never in a flood-control pause, and
    what is served was fetched for that link and is fresh.
  \<^item> Supervisor (\<open>V/supervisor.go\<close>): permits and spacing of TURN allocations, and the truth of every health
    report of every run.
  \<^item> Turn (\<open>V/turn.go\<close>): ranking and trying endpoints, no leaked sockets, and the split of the TLS ClientHello.
  \<^item> Client (\<open>V/client.go\<close>, \<open>dialQUIC\<close> of \<open>V/quic_conn.go\<close>): well-formedness through every step, one session
    generation for all paths, and the resources of a dial.
  \<^item> Tunnel\_Protocol (\<open>T/protocol.go\<close>, \<open>T/config_ack.go\<close>), Relay\_Bridge, Relay\_Flow, Relay\_Connect
    (\<open>T/relay_bridge.go\<close>): frames round-trip, the flow-control window holds and never blocks for good,
    connecting links both ends, and a replaced tunnel cannot touch the connections of the new one.
  \<^item> Tunnel\_Obfuscator (\<open>T/obfuscator.go\<close>): the other end reads every frame as what it is, notices a new epoch and
    accepts sealed payloads only. Forged epochs and links that lose their token are lemmas.
  \<^item> Dc\_Tunnel (\<open>T/dctunnel.go\<close>): chunked frames arrive whole and once for every order of the chunks; a stale buffer that
    spoils a later message is given.
  \<^item> Vp8\_Tunnel (\<open>T/vp8tunnel.go\<close>): queue and writer as a step relation; an ordered channel with counted losses and a valid pace.
  \<^item> Multi\_Track (\<open>T/multi_track_tunnel.go\<close>, \<open>T/screen_tunnel.go\<close>): closing stops every writer once, the screen channel is exact
    within its limit, and a track added under open connections reroutes them.
  \<^item> Kcp\_Tunnel (\<open>T/multi_track_kcp_tunnel.go\<close>): two tunnels over carriers that lose, repeat and reorder; the frames of a
    connection keep their order across sessions that are added. What removing a session does is a lemma.
  \<^item> Go\_Strings: trimming and splitting of byte strings as in the standard library.
  \<^item> Go\_Conn: connections and buffers of the standard library, for the stream protocols.
  \<^item> Bond (\<open>src/protocol/bond/\<close>): the stream a bundle carries is the stream written, and the inbound puts
    every bundle together in whatever order its connections arrive.
  \<^item> Failover (\<open>src/protocol/failover/\<close>): both ends of a session as a step relation; no reconnection after a
    connection lost between frames or inside a header loses or repeats a frame, a failing write resumes by itself, and \<open>RestoreConn\<close> sends exactly what is missing or reports the session broken. The
    limits of the code (frames torn inside, small read buffers, locks kept) are lemmas.
  \<^item> Kmutex (\<open>src/common/kmutex/\<close>): mutual exclusion by key without lost wake-ups.
  \<^item> Tls\_Fragment (\<open>src/common/tlsfragment/\<close>): the server name is found where it stands, the scan ends below
    64 KiB and a longer input on which it does not end is given; the fragments carry the same bytes.
  \<^item> This theory: the log-in of a client at a server, from end to end.

  \<^bold>\<open>Correspondence.\<close> A Go struct is a record with its fields (prefixed where a name is taken), a
  method a function from the old to the new state, an error an \<open>Inl\<close>. Objects that are shared by
  reference live in a heap, a list or a function indexed by number. Code under a mutex is one step; a call
  that blocks, or a goroutine with several critical sections, is a state machine with one step per
  section (\<open>relay_step\<close>, \<open>server_step\<close>, \<open>vk_step\<close>, \<open>turn_step\<close>, \<open>health_step\<close>, \<open>link_step\<close>, \<open>km_step\<close>, \<open>session_step\<close>,
  \<open>vp8_step\<close>), so that all interleavings of these sections are covered. Coarser are: \<open>kcp_step\<close>, where the sections of
  one \<open>SendData\<close> are one step and a segment is taken in together with the callbacks it leads to; closing an association or
  a relay, which is marked and shut in one step; and \<open>RebindNetwork\<close>, which closes the old paths in the step that
  changes the generation. Wake-up channels of the flow control are not modelled: a waiting call is tried again. In
  \<open>session_step\<close> connections are lost between frames or inside a header, and readers bring room for a frame; outside these
  conditions the code fails, which is shown. A Go panic is \<open>None\<close>. The order in which Go iterates over a map is an argument. Unsigned integers are words;
  \<open>int\<close> values that count are mathematical integers, because their checks keep them far below the
  width. Times are nanoseconds as integers.

  \<^bold>\<open>Parameters.\<close> Code outside the repository is an argument: ChaCha20-Poly1305 (with the laws
  \<open>aead_laws\<close>), HKDF, \<open>crypto/rand\<close>, the address serializer and address type of the sing library, the
  KCP library (with the laws \<open>kcp_laws\<close>: order within one conversation), the TURN client of pion, DNS, the HTTP exchange with VK, \<open>net/url\<close>, QUIC connections and sockets (numbers with
  outcomes). Each theorem that assumes a law of such code has a witness with a concrete instance.

  \<^bold>\<open>Termination and fuel.\<close> Loops over data are structural recursion or have a measure (the varint reader by its
  ten bytes, the TLS extension scan of Turn by the bytes left, trimming by length). Loops that may run for ever
  are step relations, or recursion over what each turn finds (the ticks of \<open>SendVP8ConfigUntilAcked\<close>, the
  rounds of \<open>redial\<close> and \<open>arrivals\<close>), or \<open>partial_function\<close> (the extension scan of Tls\_Fragment, shown to end below 64 KiB and
  not to end on a longer input; the loop of \<open>ts_drain\<close> over received messages, shown to end under \<open>kcp_laws\<close>). Fuel occurs in \<open>cycleStrategy\<close> only, which is shown to need more than any.

  \<^bold>\<open>Not modelled.\<close> Deadline setters, addresses of connections, logging and buffer pools, which change
  no state that the theorems speak of; sockets, certificates and the wiring of the transport into sing-box
  (\<open>V/bridge.go\<close>, \<open>V/server_socket*.go\<close>, \<open>V/server_cert.go\<close>), which only call the system or the modelled
  constructors; the sign-in at VK and its captcha proxy, and the WebRTC signalling of the call
  platforms, which are conversations with services and third-party libraries; the rest of the
  repository (routing, DNS, other proxy protocols, daemon, mobile library), the upstream sing-box program,
  which this transport does not depend on.
\<close>

section \<open>A client at a server\<close>

lemma pathGeneration_answer:
  assumes "encodeAuthRequest (workerRequest c w) = Inr f" "de_opened env = None" "de_deadline env = None" "de_written env = None"
    and "de_answer env f = encodeAuthAck yes g reason @ rest"
  shows "pathGeneration env w c = decodeAuthAck (encodeAuthAck yes g reason)"
  using assms by (simp add: pathGeneration_def exchangeAuth_def)

text \<open>
  C40. The log-in of any worker of a running client at any running server, end to end. The server
  refuses it for the worker count when the client runs more workers than the server allows, for the
  credentials when no user has this name and a password with this digest, and otherwise goes on with
  exactly this session, worker and user. Over a stream that works, the client takes an acceptance for
  the generation it carries and a refusal for its named reason.
\<close>

theorem client_login:
  assumes "reach client_init client_step cs" "int (unat w) < co_Workers (cl_options (cs_client cs))"
    and "reach server_init server_step s" "handler_at s i HAuth"
  shows "\<exists>f. encodeAuthRequest (workerRequest (cs_client cs) w) = Inr f \<and>
    handlers (authenticateConn i (f @ tail) s) ! i =
      (if MaxWorkersPerSession (options s) < co_Workers (cl_options (cs_client cs))
       then HLinger (encodeAuthAck False 0 AuthRejectWorkerCount)
       else if \<exists>x \<in> set (Users (options s)). su_Name x = co_User (cl_options (cs_client cs)) \<and>
            Sum256 (su_Password x) = Sum256 (co_Password (cl_options (cs_client cs)))
       then HFind ((workerRequest (cs_client cs) w)\<lparr>ProtocolVersion := authProtocolVersion\<rparr>)
       else HLinger (encodeAuthAck False 0 AuthRejectCredentials)) \<and>
    (\<forall>env :: ('d, nat) dial_env. de_opened env = None \<and> de_deadline env = None \<and> de_written env = None \<longrightarrow>
      (\<forall>g. g \<noteq> 0 \<and> de_answer env f = encodeAuthAck True g AuthRejectUnspecified @ rest \<longrightarrow>
         pathGeneration env w (cs_client cs) = Inr g) \<and>
      (\<forall>reason. de_answer env f = encodeAuthAck False 0 reason @ rest \<longrightarrow>
         pathGeneration env w (cs_client cs) = Inl (Errorf (authRejectReasonName reason) errAuthRejected)))"
proof -
  have wf: "wf_client (cs_client cs)" using clients.reach_inv [OF assms(1)] by (simp add: client_inv_def)
  note ok = workerRequest_ok [OF wf assms(2)]
  then obtain f where f: "encodeAuthRequest (workerRequest (cs_client cs) w) = Inr f" by (auto simp: encodeAuthRequest_layout)
  have u: "User (workerRequest (cs_client cs) w) = co_User (cl_options (cs_client cs))"
    "Password (workerRequest (cs_client cs) w) = co_Password (cl_options (cs_client cs))" by (simp_all add: workerRequest_def)
  note login = conjunct1 [OF worker_login_exact [OF assms(3,4) ok(1) f, of tail, unfolded ok(3) u]]
  have "pathGeneration env w (cs_client cs) = Inr g"
    if "de_opened env = None" "de_deadline env = None" "de_written env = None" "g \<noteq> 0"
      "de_answer env f = encodeAuthAck True g AuthRejectUnspecified @ rest" for g and env :: "('d, nat) dial_env"
    using pathGeneration_answer [OF f that(1-3,5)] that(4) by (simp add: decode_ack_accept)
  moreover have "pathGeneration env w (cs_client cs) = Inl (Errorf (authRejectReasonName reason) errAuthRejected)"
    if "de_opened env = None" "de_deadline env = None" "de_written env = None"
      "de_answer env f = encodeAuthAck False 0 reason @ rest" for reason and env :: "('d, nat) dial_env"
    using pathGeneration_answer [OF f that] by (simp add: decode_ack_reject)
  ultimately show ?thesis using f login by blast
qed

theorem client_login_witness:
  "\<exists>f. encodeAuthRequest (workerRequest demo_client 0) = Inr f \<and>
     handlers (authenticateConn 0 f (admitConn demo_server)) ! 0 = HFind ((workerRequest demo_client 0)\<lparr>ProtocolVersion := authProtocolVersion\<rparr>)"
proof -
  have "reach server_init server_step demo_server"
    using demo_server_new(1) by (intro reach_init) (auto simp: server_init_def)
  then have r: "reach server_init server_step (admitConn demo_server)" by (rule reach_step) (rule server_step.accept)
  have at: "handler_at (admitConn demo_server) 0 HAuth" by (simp add: admitConn_def demo_server_new)
  have u: "co_User (cl_options demo_client) = [97]" "co_Password (cl_options demo_client) = [98]" "co_Workers (cl_options demo_client) = 4"
    by (simp_all add: demo_client_new demo_client_options_def)
  have "authorize (admitConn demo_server) [97] [98]" by (simp add: authorize_def admitConn_def demo_server_new)
  then have "\<exists>x \<in> set (Users (options (admitConn demo_server))). su_Name x = [97] \<and> Sum256 (su_Password x) = Sum256 [98]"
    unfolding authorize_iff [OF served_invD(5) [OF r]] .
  moreover have "MaxWorkersPerSession (options (admitConn demo_server)) = 4" by (simp add: admitConn_def demo_server_new)
  ultimately show ?thesis
    using client_login [OF demo_client_reached _ r at, of 0 "[]" "[]"] by (simp only: client_system.simps u append_Nil2) (simp, blast)
qed

end
